(* ===== verification/Prelude.thy ===== *)
theory Prelude
  imports Main "HOL-Library.Word" "HOL-Library.Monad_Syntax"
begin

unbundle bit_operations_syntax

section \<open>Prelude: machine types, cell memories, index arithmetic\<close>

text \<open>
  What every component shares: names for the machine types of the C code, a small theory of
  memories as lists of cells (a read or a write outside the memory is \<open>None\<close>, the model of
  undefined behaviour), the frame predicate \<open>agree_off\<close>, and the arithmetic of butterfly
  indices (flipping, clearing and setting one bit of an index below a power of two).
\<close>

type_synonym byte = "8 word"
type_synonym u32 = "32 word"
type_synonym u64 = "64 word"
type_synonym bytes = "byte list"

text \<open>A label is 32 bytes (\<open>POSE_HASH_BYTES\<close>).\<close>

type_synonym label = "byte list"

subsection \<open>Memories\<close>

text \<open>
  \<open>rd m p n\<close> reads the \<open>n\<close> cells from address \<open>p\<close>, \<open>wr m p xs\<close> stores \<open>xs\<close> there, and
  \<open>ld\<close>, \<open>st\<close> access one cell. An access that leaves the memory is \<open>None\<close>.
\<close>

definition rd :: "'v list \<Rightarrow> nat \<Rightarrow> nat \<Rightarrow> 'v list option" where
  "rd m p n = (if p + n \<le> length m then Some (take n (drop p m)) else None)"

definition wr :: "'v list \<Rightarrow> nat \<Rightarrow> 'v list \<Rightarrow> 'v list option" where
  "wr m p xs = (if p + length xs \<le> length m
                then Some (take p m @ xs @ drop (p + length xs) m) else None)"

definition ld :: "'v list \<Rightarrow> nat \<Rightarrow> 'v option" where
  "ld m p = (if p < length m then Some (m ! p) else None)"

definition st :: "'v list \<Rightarrow> nat \<Rightarrow> 'v \<Rightarrow> 'v list option" where
  "st m p v = (if p < length m then Some (m[p := v]) else None)"

text \<open>Two memories of one size that agree outside a set of addresses.\<close>

definition agree_off :: "nat set \<Rightarrow> 'v list \<Rightarrow> 'v list \<Rightarrow> bool" where
  "agree_off A m m' \<longleftrightarrow> length m' = length m \<and> (\<forall>a<length m. a \<notin> A \<longrightarrow> m' ! a = m ! a)"

abbreviation cells_of :: "nat \<Rightarrow> nat \<Rightarrow> nat set" where
  "cells_of p n \<equiv> {p..<p + n}"

lemma upt_add_Suc: "[i..<i + Suc k] = i # [Suc i..<Suc i + k]"
  by (simp add: upt_conv_Cons del: upt_Suc)

lemma upt_zero_Suc: "[0..<Suc k] = 0 # map Suc [0..<k]"
  by (simp add: upt_conv_Cons map_Suc_upt del: upt_Suc)

lemma upt_join: "i \<le> j \<Longrightarrow> j \<le> k \<Longrightarrow> [i..<j] @ [j..<k] = [i..<k]"
  by (metis le_add_diff_inverse upt_add_eq_append)

lemma map_upt_join: "i \<le> j \<Longrightarrow> j \<le> k \<Longrightarrow> map f [i..<j] @ map f [j..<k] = map f [i..<k]"
  by (simp add: upt_join flip: map_append)

lemma those_map_Some: "(\<And>x. x \<in> set xs \<Longrightarrow> f x = Some (g x)) \<Longrightarrow> those (map f xs) = Some (map g xs)"
  by (induction xs) auto

lemma rd_Some_iff:
  "rd m p n = Some xs \<longleftrightarrow> p + n \<le> length m \<and> length xs = n \<and> (\<forall>i<n. m ! (p + i) = xs ! i)"
  by (auto simp: rd_def list_eq_iff_nth_eq)

lemma rd_SomeD:
  assumes "rd m p n = Some xs"
  shows rd_length: "length xs = n" and rd_bound: "p + n \<le> length m"
    and rd_nth: "i < n \<Longrightarrow> m ! (p + i) = xs ! i"
  using assms by (auto simp: rd_Some_iff)

lemma ld_of_rd: "rd m p n = Some xs \<Longrightarrow> i < n \<Longrightarrow> ld m (p + i) = Some (xs ! i)"
  by (auto simp: rd_Some_iff ld_def)

lemma rd_split:
  "rd m p (k + n) = Some xs \<Longrightarrow> rd m p k = Some (take k xs) \<and> rd m (p + k) n = Some (drop k xs)"
  by (auto simp: rd_Some_iff add.assoc)

lemma rd_join:
  "rd m p k = Some xs \<Longrightarrow> rd m (p + k) n = Some ys \<Longrightarrow> rd m p (k + n) = Some (xs @ ys)"
  by (auto simp: rd_Some_iff nth_append) (metis add.assoc add_less_cancel_left le_add_diff_inverse not_less)

lemma wr_ok: "p + length xs \<le> length m \<Longrightarrow> \<exists>m'. wr m p xs = Some m'"
  by (simp add: wr_def)

lemma wr_agree: "wr m p xs = Some m' \<Longrightarrow> agree_off (cells_of p (length xs)) m m'"
  by (auto simp: wr_def agree_off_def nth_append split: if_splits)

lemma rd_wr: "wr m p xs = Some m' \<Longrightarrow> rd m' p (length xs) = Some xs"
  by (auto simp: wr_def rd_def split: if_splits)

lemma st_ok: "p < length m \<Longrightarrow> \<exists>m'. st m p v = Some m'"
  by (simp add: st_def)

lemma st_agree: "st m p v = Some m' \<Longrightarrow> agree_off {p} m m'"
  by (auto simp: st_def agree_off_def split: if_splits)

lemma ld_st: "st m p v = Some m' \<Longrightarrow> m' ! p = v"
  by (auto simp: st_def split: if_splits)

lemma agree_off_length: "agree_off A m m' \<Longrightarrow> length m' = length m"
  by (simp add: agree_off_def)

lemma agree_off_refl [intro, simp]: "agree_off A m m"
  by (simp add: agree_off_def)

lemma agree_off_trans:
  "agree_off A m m' \<Longrightarrow> agree_off B m' m'' \<Longrightarrow> A \<subseteq> C \<Longrightarrow> B \<subseteq> C \<Longrightarrow> agree_off C m m''"
  by (simp add: agree_off_def) (metis subsetD)

lemma agree_off_mono: "agree_off A m m' \<Longrightarrow> A \<subseteq> B \<Longrightarrow> agree_off B m m'"
  by (auto simp: agree_off_def)

lemma rd_frame:
  "agree_off A m m' \<Longrightarrow> cells_of p n \<inter> A = {} \<Longrightarrow> rd m p n = Some xs \<Longrightarrow> rd m' p n = Some xs"
  by (auto simp: rd_Some_iff agree_off_def disjoint_iff)

lemma ld_frame: "agree_off A m m' \<Longrightarrow> p \<notin> A \<Longrightarrow> ld m' p = ld m p"
  by (auto simp: ld_def agree_off_def)

text \<open>A store into the first cell of a range.\<close>

lemma st_agree_in:
  assumes "st m p v = Some m'" "cells_of p (Suc k) \<subseteq> D"
  shows "agree_off D m m'"
proof (rule agree_off_mono [OF st_agree [OF assms(1)]])
  have "p \<in> cells_of p (Suc k)" by simp
  then show "{p} \<subseteq> D" using assms(2) by blast
qed

subsection \<open>Butterfly indices\<close>

text \<open>
  A layer of width \<open>2^d\<close> pairs index \<open>i\<close> with \<open>i XOR 2^k\<close> for some \<open>k < d\<close>. The partner
  stays below the width, and the pair in ascending order is the index with bit \<open>k\<close> cleared,
  then the index with bit \<open>k\<close> set.
\<close>

lemma flip_less: "k < d \<Longrightarrow> i < 2 ^ d \<Longrightarrow> (i :: nat) XOR 2 ^ k < 2 ^ d"
  by (metis take_bit_nat_eq_self_iff take_bit_xor power_strict_increasing
      one_less_numeral_iff semiring_norm(76))

text \<open>C's \<open>x & ~y\<close> on non-negative \<open>int\<close>s.\<close>

definition and_not :: "nat \<Rightarrow> nat \<Rightarrow> nat" where
  "and_not x y = nat (int x AND NOT (int y))"

lemma and_not_pow: "and_not i (2 ^ k) = unset_bit k i"
proof -
  have "int i AND NOT (2 ^ k) = unset_bit k (int i)"
    by (simp add: unset_bit_eq_and_not push_bit_eq_mult)
  also have "\<dots> = int (unset_bit k i)" by (simp add: of_nat_unset_bit_eq)
  finally show ?thesis by (simp add: and_not_def)
qed

lemma or_pow: "(i :: nat) OR 2 ^ k = set_bit k i"
  by (simp add: set_bit_eq_or push_bit_eq_mult)

lemma set_eq_unset_plus: "set_bit k (i :: nat) = unset_bit k i + 2 ^ k"
proof -
  have "set_bit k i = set_bit k (unset_bit k i)"
    by (rule bit_eqI) (auto simp: bit_simps)
  then show ?thesis by (simp add: set_bit_eq bit_unset_bit_iff)
qed

lemma unset_less_set: "unset_bit k (i :: nat) < set_bit k i"
  by (simp add: set_eq_unset_plus)

lemma set_less: "k < d \<Longrightarrow> i < 2 ^ d \<Longrightarrow> set_bit k (i :: nat) < 2 ^ d"
  by (metis linorder_not_le take_bit_nat_eq_self_iff take_bit_set_bit_eq)

lemma unset_less: "k < d \<Longrightarrow> i < 2 ^ d \<Longrightarrow> unset_bit k (i :: nat) < 2 ^ d"
  using set_less unset_less_set by (meson order.strict_trans)

lemma flip_pow: "(i :: nat) XOR 2 ^ k = (if bit i k then unset_bit k i else set_bit k i)"
  using flip_bit_eq_if [of k i] by (simp add: flip_bit_eq_xor push_bit_eq_mult split: if_splits)

lemma bit_set_same: "bit (i :: nat) k \<Longrightarrow> set_bit k i = i"
  by (simp add: set_bit_eq)

lemma not_bit_unset_same: "\<not> bit (i :: nat) k \<Longrightarrow> unset_bit k i = i"
  by (rule bit_eqI) (auto simp: bit_simps)

text \<open>The pair of an index and its partner, in ascending order.\<close>

lemma min_flip: "min (p + i) (p + (i XOR 2 ^ k)) = p + unset_bit k (i :: nat)"
  using unset_less_set [of k i]
  by (cases "bit i k") (simp_all add: flip_pow bit_set_same not_bit_unset_same)

lemma max_flip: "max (p + i) (p + (i XOR 2 ^ k)) = p + set_bit k (i :: nat)"
  using unset_less_set [of k i]
  by (cases "bit i k") (simp_all add: flip_pow bit_set_same not_bit_unset_same)

subsection \<open>Big-endian 64-bit integers\<close>

text \<open>The eight stores \<open>p[i] = (uint8_t)(w >> (56 - 8 i))\<close> that \<open>hash.c\<close> and \<open>aes_prf.c\<close> write out.\<close>

definition u64_be :: "u64 \<Rightarrow> bytes" where
  "u64_be w = [ucast (drop_bit 56 w), ucast (drop_bit 48 w), ucast (drop_bit 40 w), ucast (drop_bit 32 w),
     ucast (drop_bit 24 w), ucast (drop_bit 16 w), ucast (drop_bit 8 w), ucast w]"

lemma length_u64_be [simp]: "length (u64_be w) = 8"
  by (simp add: u64_be_def)

lemma byte_of_u64: "(ucast (drop_bit k w) :: byte) = ucast (drop_bit k v) \<Longrightarrow> k \<le> n \<Longrightarrow> n < k + 8
    \<Longrightarrow> bit (w :: u64) n = bit v n"
  by (drule arg_cong [where f = "\<lambda>x. bit x (n - k)"]) (auto simp: bit_simps)

lemma u64_be_inj: "u64_be w = u64_be v \<longleftrightarrow> w = v"
proof
  assume eq: "u64_be w = u64_be v"
  have "(ucast (drop_bit k w) :: byte) = ucast (drop_bit k v)" if "k \<in> {56, 48, 40, 32, 24, 16, 8, 0}" for k
    using eq that by (auto simp: u64_be_def)
  moreover have "8 * (n div 8) \<in> {56, 48, 40, 32, 24, 16, 8, 0}" if "n < 64" for n :: nat
  proof -
    have "n div 8 < 8" using that by simp
    then have "n div 8 \<in> {7, 6, 5, 4, 3, 2, 1, 0}" by auto
    then show ?thesis by auto
  qed
  ultimately have "bit w n = bit v n" if "n < 64" for n
    using that byte_of_u64 [of "8 * (n div 8)" w v n] by (simp add: mult_div_mod_eq [symmetric] del: mult_div_mod_eq)
  then show "w = v" by (intro bit_word_eqI) auto
qed simp

text \<open>The 32 bytes a \<open>memcpy\<close> of \<open>POSE_HASH_BYTES\<close> reads at a pointer.\<close>

definition mem32 :: "bytes \<Rightarrow> bytes" where "mem32 p = map (\<lambda>i. p ! i) [0..<32]"

lemma length_mem32 [simp]: "length (mem32 p) = 32"
  by (simp add: mem32_def)

lemma mem32_id: "length p = 32 \<Longrightarrow> mem32 p = p"
  using map_nth [of p] by (simp add: mem32_def)

end
