(* ===== verification/Node_Count.thy ===== *)
theory Node_Count
  imports Prelude
begin

section \<open>Node counts and the graph parameter\<close>

text \<open>
  The node-count formulae of \<open>graph.c\<close> (\<open>butterfly_node_count\<close>, \<open>connected_node_count\<close>,
  \<open>standalone_node_count\<close>, \<open>scratch_node_count\<close>), the graph parameter
  \<open>pose_graph_parameter_n\<close> and the buffer sizes computed from them, all on \<open>64 word\<close>
  (\<open>uint64_t\<close>), and the same counts on natural numbers with closed forms.
\<close>

subsection \<open>The code\<close>

definition POSE_HASH_BYTES :: nat where "POSE_HASH_BYTES = 32"

definition POSE_GRAPH_MAX_M :: u64 where "POSE_GRAPH_MAX_M = push_bit 20 1"

definition POSE_CHUNK_BLOCKS :: u32 where "POSE_CHUNK_BLOCKS = 4096"

definition POSE_ARENA_FACTOR :: nat where "POSE_ARENA_FACTOR = 16"

definition butterfly_node_count :: "nat \<Rightarrow> u64" where
  "butterfly_node_count dim = push_bit dim (of_nat (dim + 1))"

fun connected_node_count :: "nat \<Rightarrow> u64" where
  "connected_node_count 0 = 1"
| "connected_node_count (Suc l) = 2 * connected_node_count l + 2 * butterfly_node_count l"

fun standalone_node_count :: "nat \<Rightarrow> u64" where
  "standalone_node_count 0 = 1"
| "standalone_node_count (Suc l) =
     standalone_node_count l + butterfly_node_count l + connected_node_count l"

lemma unat_half: "unat (drop_bit 1 v :: u64) = unat v div 2"
  unfolding unat_drop_bit_eq by (simp add: drop_bit_eq_div)

text \<open>The loop \<open>while (v > 0) { bits++; v >>= 1; }\<close>.\<close>

function count_bits :: "u64 \<Rightarrow> nat \<Rightarrow> nat" where
  "count_bits v bits = (if v > 0 then count_bits (drop_bit 1 v) (bits + 1) else bits)"
  by pat_completeness auto
termination
proof (relation "measure (\<lambda>(v, bits). unat v)")
  show "((drop_bit 1 v, bits + 1), v, bits) \<in> measure (\<lambda>(v, bits). unat v)"
    if "v > 0" for v :: u64 and bits :: nat
  proof -
    have "unat v \<noteq> 0" using that by (simp add: unat_eq_0 word_greater_zero_iff)
    then have "unat (drop_bit 1 v) < unat v" unfolding unat_half by simp
    then show ?thesis by simp
  qed
qed simp

declare count_bits.simps [simp del]

definition pose_graph_parameter_n :: "u64 \<Rightarrow> nat" where
  "pose_graph_parameter_n m =
     (if m \<le> 1 then 0
      else (let bits = count_bits (m - 1) 0; n = int bits - 1 in if n < 0 then 0 else nat n))"

definition scratch_node_count :: "u64 \<Rightarrow> u64" where
  "scratch_node_count m =
     (let n = pose_graph_parameter_n m; level = n + 1 in 2 * standalone_node_count level)"

definition resolve_chunk_blocks :: "u32 \<Rightarrow> u32" where
  "resolve_chunk_blocks cb = (if cb \<noteq> 0 then cb else POSE_CHUNK_BLOCKS)"

definition pose_graph_scratch_bytes :: "u32 \<Rightarrow> u64" where
  "pose_graph_scratch_bytes cb0 =
     (let cb = ucast (resolve_chunk_blocks cb0) :: u64;
          n_max = pose_graph_parameter_n cb;
          half_w = push_bit n_max (1 :: u64);
          labels = scratch_node_count cb * of_nat POSE_HASH_BYTES;
          bases = 4 * half_w * 8;
          arenas = 2 * of_nat POSE_ARENA_FACTOR * half_w * 8
      in labels + bases + arenas)"

definition pose_graph_scratch_bytes_inplace :: "u32 \<Rightarrow> u64" where
  "pose_graph_scratch_bytes_inplace cb0 =
     (let cb = ucast (resolve_chunk_blocks cb0) :: u64;
          n = pose_graph_parameter_n cb;
          half_w = push_bit n (1 :: u64);
          bases = 4 * half_w * of_nat POSE_HASH_BYTES;
          arena = of_nat POSE_ARENA_FACTOR * half_w * of_nat POSE_HASH_BYTES
      in bases + arena)"

definition pose_graph_super_chunk_blocks :: "u32 \<Rightarrow> u64" where
  "pose_graph_super_chunk_blocks cb = ucast (resolve_chunk_blocks cb)"

definition pose_graph_scaffold_node_count :: "u32 \<Rightarrow> u64" where
  "pose_graph_scaffold_node_count cb = scratch_node_count (ucast (resolve_chunk_blocks cb))"

subsection \<open>The counts on natural numbers\<close>

definition bcount :: "nat \<Rightarrow> nat" where "bcount d = (d + 1) * 2 ^ d"

fun ccount :: "nat \<Rightarrow> nat" where
  "ccount 0 = 1"
| "ccount (Suc l) = 2 * ccount l + 2 * bcount l"

fun scount :: "nat \<Rightarrow> nat" where
  "scount 0 = 1"
| "scount (Suc l) = scount l + bcount l + ccount l"

text \<open>Closed forms: \<open>C(k) = 2^k (1 + k(k+1)/2)\<close> and \<open>S(k) + 1 = 2^k (2 + k(k-1)/2)\<close>.\<close>

lemma ccount_closed: "2 * ccount k = 2 ^ k * (2 + k * (k + 1))"
  by (induction k) (simp_all add: bcount_def algebra_simps)

lemma scount_closed: "2 * (scount k + 1) + 2 ^ k * k = 2 ^ k * (4 + k * k)"
  by (induction k) (use ccount_closed in \<open>auto simp: bcount_def algebra_simps\<close>)

lemma ccount_pos [simp]: "0 < ccount k"
  by (induction k) auto

lemma scount_pos [simp]: "0 < scount k"
  by (induction k) auto

lemma ccount_ge: "2 ^ k \<le> ccount k"
  by (induction k) auto

lemma scount_ge: "2 ^ k \<le> scount k"
proof (induction k)
  case (Suc k)
  then show ?case using ccount_ge [of k] by simp
qed simp

lemma scount_mono: "i \<le> j \<Longrightarrow> scount i \<le> scount j"
  by (rule lift_Suc_mono_le) auto

lemma bcount_Suc_le: "bcount d \<le> bcount (Suc d)"
  by (simp add: bcount_def)

lemma bcount_le: "d \<le> e \<Longrightarrow> bcount d \<le> bcount e"
  by (rule lift_Suc_mono_le [of bcount]) (auto intro: bcount_Suc_le)

lemma ccount_le: "d \<le> e \<Longrightarrow> ccount d \<le> ccount e"
  by (rule lift_Suc_mono_le [of ccount]) auto

subsection \<open>The word counts are exact\<close>

text \<open>
  \<open>2 (S(k) + 1) \<le> 2^k (4 + k\<^sup>2)\<close>, so up to level 52 the counts stay below \<open>2^64\<close> and no
  intermediate value wraps. The largest level the labelers build is 21.
\<close>

lemma scount_bound: "k \<le> 52 \<Longrightarrow> scount k < 2 ^ 63"
proof -
  assume "k \<le> 52"
  then have "scount k \<le> scount 52" by (rule scount_mono)
  also have "2 * (scount 52 + 1) + 2 ^ 52 * 52 = 2 ^ 52 * (4 + 52 * 52)"
    by (rule scount_closed)
  then have "scount 52 < 2 ^ 63" by simp
  finally show ?thesis .
qed

lemma bcount_ccount_bound:
  assumes "k \<le> 52" shows bcount_bound: "bcount k < 2 ^ 63" and ccount_bound: "ccount k < 2 ^ 63"
proof -
  have "bcount k \<le> bcount 52" using assms by (rule bcount_le)
  then show "bcount k < 2 ^ 63" by (simp add: bcount_def)
  have "ccount k \<le> ccount 52" using assms by (rule ccount_le)
  also have "2 * ccount 52 = 2 ^ 52 * (2 + 52 * (52 + 1))" by (rule ccount_closed)
  then have "ccount 52 < 2 ^ 63" by simp
  finally show "ccount k < 2 ^ 63" .
qed

text \<open>The word counts as images of the natural-number counts, at every level (modulo \<open>2^64\<close>).\<close>

lemma butterfly_node_count_of_nat: "butterfly_node_count d = of_nat (bcount d)"
  by (simp add: butterfly_node_count_def bcount_def push_bit_eq_mult algebra_simps)

lemma connected_node_count_of_nat: "connected_node_count k = of_nat (ccount k)"
  by (induction k) (simp_all add: butterfly_node_count_of_nat)

lemma standalone_node_count_of_nat: "standalone_node_count k = of_nat (scount k)"
  by (induction k) (simp_all add: butterfly_node_count_of_nat connected_node_count_of_nat)

lemma unat_of_nat_u64: "n < 2 ^ 64 \<Longrightarrow> unat (of_nat n :: u64) = n"
  by (simp add: unat_of_nat take_bit_nat_eq_self)

subsection \<open>The graph parameter\<close>

lemma count_bits_spec:
  "\<exists>b. count_bits v a = a + b \<and> unat v < 2 ^ b \<and> (if v = 0 then b = 0 else 0 < b \<and> 2 ^ (b - 1) \<le> unat v)"
proof (induction v a rule: count_bits.induct)
  case (1 v a)
  show ?case
  proof (cases "v = 0")
    case True
    then show ?thesis by (simp add: count_bits.simps [of 0])
  next
    case False
    then have pos: "v > 0" by (simp add: word_greater_zero_iff)
    then obtain b where b: "count_bits (drop_bit 1 v) (a + 1) = a + 1 + b"
        "unat (drop_bit 1 v) < 2 ^ b"
        "if drop_bit 1 v = 0 then b = 0 else 0 < b \<and> 2 ^ (b - 1) \<le> unat (drop_bit 1 v)"
      using 1 by blast
    have half: "unat (drop_bit 1 v) = unat v div 2"
      by (rule unat_half)
    have "count_bits v a = a + (1 + b)" using pos b(1) by (simp add: count_bits.simps [of v])
    moreover have "unat v < 2 ^ (1 + b)" using b(2) half by simp
    moreover have "2 ^ b \<le> unat v"
    proof (cases b)
      case 0
      then show ?thesis using False by (simp add: unat_gt_0 Suc_le_eq)
    next
      case (Suc c)
      then show ?thesis using b(3) half by (simp split: if_splits)
    qed
    ultimately show ?thesis using False by (intro exI [of _ "1 + b"]) simp
  qed
qed

lemma parameter_n_small: "m \<le> 1 \<Longrightarrow> pose_graph_parameter_n m = 0"
  by (simp add: pose_graph_parameter_n_def)

lemma parameter_n_bounds:
  assumes "2 \<le> unat m"
  shows "2 ^ pose_graph_parameter_n m < unat m" and "unat m \<le> 2 ^ (pose_graph_parameter_n m + 1)"
proof -
  have m1: "\<not> m \<le> 1" using assms by (simp add: word_le_nat_alt)
  have pred: "unat (m - 1) = unat m - 1" using assms by (subst unat_minus_one) auto
  then have "m - 1 \<noteq> 0" using assms by (metis One_nat_def Suc_1 diff_is_0_eq not_less_eq_eq unat_0 le_refl)
  then obtain b where b: "count_bits (m - 1) 0 = b" "unat m - 1 < 2 ^ b" "0 < b" "2 ^ (b - 1) \<le> unat m - 1"
    using count_bits_spec [of "m - 1" 0] by (auto simp: pred)
  have "pose_graph_parameter_n m = b - 1"
    using m1 b(1,3) by (simp add: pose_graph_parameter_n_def Let_def nat_diff_distrib)
  with b assms show "2 ^ pose_graph_parameter_n m < unat m" "unat m \<le> 2 ^ (pose_graph_parameter_n m + 1)"
    by auto
qed

text \<open>The half width \<open>2^n\<close> never exceeds \<open>m\<close>, so \<open>m - half_w\<close> does not wrap.\<close>

lemma parameter_n_le: "m \<noteq> 0 \<Longrightarrow> 2 ^ pose_graph_parameter_n m \<le> unat m"
  and parameter_n_ge: "unat m \<le> 2 ^ (pose_graph_parameter_n m + 1)"
proof -
  have "m = 0 \<or> m = 1 \<or> 2 \<le> unat m"
  proof (cases "2 \<le> unat m")
    case False
    then have "unat m = 0 \<or> unat m = unat (1 :: u64)" by auto
    then show ?thesis by (metis unat_eq_0 word_eq_iff_unsigned)
  qed simp
  then show "m \<noteq> 0 \<Longrightarrow> 2 ^ pose_graph_parameter_n m \<le> unat m"
    and "unat m \<le> 2 ^ (pose_graph_parameter_n m + 1)"
    using parameter_n_bounds [of m] by (auto simp: parameter_n_small)
qed

lemma parameter_n_max: "m \<le> POSE_GRAPH_MAX_M \<Longrightarrow> pose_graph_parameter_n m \<le> 19"
proof -
  assume "m \<le> POSE_GRAPH_MAX_M"
  then have m: "unat m \<le> 2 ^ 20" by (simp add: POSE_GRAPH_MAX_M_def word_le_nat_alt)
  show ?thesis
  proof (cases "2 \<le> unat m")
    case True
    then have "(2::nat) ^ pose_graph_parameter_n m < 2 ^ 20"
      using parameter_n_bounds(1) [of m] m by linarith
    then have "pose_graph_parameter_n m < 20" by (rule power_less_imp_less_exp [rotated]) simp
    then show ?thesis by simp
  next
    case False
    then have "m \<le> 1" by (simp add: word_le_nat_alt)
    then show ?thesis by (simp add: parameter_n_small)
  qed
qed

text \<open>\<open>m - half_w\<close> as the callers compute it.\<close>

lemma parameter_n_half:
  assumes "2 \<le> m"
  shows "2 ^ pose_graph_parameter_n m < unat m \<and> unat m \<le> 2 ^ (pose_graph_parameter_n m + 1)
    \<and> unat (m - push_bit (pose_graph_parameter_n m) 1) = unat m - 2 ^ pose_graph_parameter_n m"
proof -
  let ?n = "pose_graph_parameter_n m"
  have m: "2 \<le> unat m" using assms by (simp add: word_le_nat_alt)
  have b: "2 ^ ?n < unat m" "unat m \<le> 2 ^ (?n + 1)" using parameter_n_bounds [OF m] by auto
  have "unat m < 2 ^ 64" using unsigned_less [of m] by simp
  then have "unat (push_bit ?n (1 :: u64)) = 2 ^ ?n"
    using b(1) unat_of_nat_u64 [of "2 ^ ?n"] by (simp add: push_bit_eq_mult)
  then show ?thesis using b by (simp add: unat_sub word_le_nat_alt)
qed

end
