(* ===== verification/Graph_Spec.thy ===== *)
theory Graph_Spec
  imports Node_Count
begin

section \<open>The abstract graph and its labeling\<close>

text \<open>
  The specification the labelers of \<open>graph.c\<close> are measured against: the depth-robust DAG as a
  list of predecessor lists, one per node in order of node id, with the base nodes and output
  nodes of every component, and the labeling of such a list. It speaks of node ids only; it has
  no buffers, no arenas, no batches and no emission mode.
\<close>

subsection \<open>Components\<close>

text \<open>
  One butterfly layer over the layer whose ids start at \<open>p\<close>: node \<open>i\<close> has the predecessors
  \<open>p + i\<close> and \<open>p + (i XOR b)\<close>, the lower id first.
\<close>

definition xor_layer :: "nat \<Rightarrow> nat \<Rightarrow> nat \<Rightarrow> nat list list" where
  "xor_layer w p b = map (\<lambda>i. [min (p + i) (p + (i XOR b)), max (p + i) (p + (i XOR b))]) [0..<w]"

text \<open>The last \<open>k\<close> layers of a butterfly: the bit halves from layer to layer.\<close>

fun butterfly_layers :: "nat \<Rightarrow> nat \<Rightarrow> nat \<Rightarrow> nat list list" where
  "butterfly_layers w 0 p = []"
| "butterfly_layers w (Suc k) p = xor_layer w p (2 ^ k) @ butterfly_layers w k (p + w)"

definition connector_nodes :: "nat \<Rightarrow> nat \<Rightarrow> nat list \<Rightarrow> nat list list" where
  "connector_nodes d s ins = map (\<lambda>x. [x]) ins @ butterfly_layers (2 ^ d) d s"

definition connector_out :: "nat \<Rightarrow> nat \<Rightarrow> nat list" where
  "connector_out d s = [s + d * 2 ^ d ..< s + bcount d]"

text \<open>The merged connector: an ingress butterfly, then a center butterfly that merges its output
  with the primary inputs in layer 0.\<close>

definition mci_nodes :: "nat \<Rightarrow> nat \<Rightarrow> nat list \<Rightarrow> nat list \<Rightarrow> nat list list" where
  "mci_nodes d s prim ingr =
     connector_nodes d s ingr @ map2 (\<lambda>p q. [p, q]) prim (connector_out d s)
       @ butterfly_layers (2 ^ d) d (s + bcount d)"

definition mci_out :: "nat \<Rightarrow> nat \<Rightarrow> nat list" where
  "mci_out d s = connector_out d (s + bcount d)"

fun connected_base :: "nat \<Rightarrow> nat \<Rightarrow> nat list" where
  "connected_base 0 s = [s]"
| "connected_base (Suc l) s = connected_base l s @ connected_base l (s + ccount l + 2 * bcount l)"

fun connected_nodes :: "nat \<Rightarrow> nat \<Rightarrow> nat list \<Rightarrow> nat list list" where
  "connected_nodes 0 s ins = [[hd ins]]"
| "connected_nodes (Suc l) s ins =
     connected_nodes l s (take (2 ^ l) ins)
       @ mci_nodes l (s + ccount l) (connected_base l s) (drop (2 ^ l) ins)
       @ connected_nodes l (s + ccount l + 2 * bcount l) (mci_out l (s + ccount l))"

fun standalone_base :: "nat \<Rightarrow> nat \<Rightarrow> nat list" where
  "standalone_base 0 s = [s]"
| "standalone_base (Suc l) s = standalone_base l s @ connected_base l (s + scount l + bcount l)"

fun standalone_nodes :: "nat \<Rightarrow> nat \<Rightarrow> nat list list" where
  "standalone_nodes 0 s = [[]]"
| "standalone_nodes (Suc l) s =
     standalone_nodes l s
       @ connector_nodes l (s + scount l) (standalone_base l s)
       @ connected_nodes l (s + scount l + bcount l) (connector_out l (s + scount l))"

text \<open>The whole graph for parameter \<open>n\<close> (two standalone copies of level \<open>n + 1\<close>) and its
  output set \<open>O(G)\<close> of \<open>m\<close> nodes in challenge-rank order.\<close>

definition graph_nodes :: "nat \<Rightarrow> nat list list" where
  "graph_nodes n = standalone_nodes (n + 1) 0 @ standalone_nodes (n + 1) (scount (n + 1))"

definition challenge_nodes :: "nat \<Rightarrow> nat \<Rightarrow> nat list" where
  "challenge_nodes n m =
     drop (2 ^ n) (standalone_base (n + 1) 0)
       @ take (m - 2 ^ n) (drop (2 ^ n) (standalone_base (n + 1) (scount (n + 1))))"

subsection \<open>Labeling a graph\<close>

text \<open>
  \<open>labels_of h ns\<close> labels the nodes in id order: node \<open>i\<close> gets \<open>h i\<close> of its predecessors'
  labels.
\<close>

definition labels_of :: "(nat \<Rightarrow> 'l list \<Rightarrow> 'l) \<Rightarrow> nat list list \<Rightarrow> 'l list" where
  "labels_of h ns = foldl (\<lambda>ls p. ls @ [h (length ls) (map ((!) ls) p)]) [] ns"

text \<open>Topological order: every predecessor of the node at position \<open>i\<close> has an id below \<open>s + i\<close>.\<close>

definition topo :: "nat \<Rightarrow> nat list list \<Rightarrow> bool" where
  "topo s ns \<longleftrightarrow> (\<forall>i<length ns. \<forall>x\<in>set (ns ! i). x < s + i)"

subsection \<open>Sizes\<close>

lemma length_xor_layer [simp]: "length (xor_layer w p b) = w"
  by (simp add: xor_layer_def)

lemma length_butterfly_layers [simp]: "length (butterfly_layers w k p) = k * w"
  by (induction k arbitrary: p) auto

lemma length_connector_nodes [simp]:
  "length ins = 2 ^ d \<Longrightarrow> length (connector_nodes d s ins) = bcount d"
  by (simp add: connector_nodes_def bcount_def)

lemma length_connector_out [simp]: "length (connector_out d s) = 2 ^ d"
  by (simp add: connector_out_def bcount_def)

lemma length_mci_out [simp]: "length (mci_out d s) = 2 ^ d"
  by (simp add: mci_out_def)

lemma length_mci_nodes [simp]:
  "length prim = 2 ^ d \<Longrightarrow> length ingr = 2 ^ d \<Longrightarrow> length (mci_nodes d s prim ingr) = 2 * bcount d"
  by (simp add: mci_nodes_def) (simp add: bcount_def)

lemma length_connected_base [simp]: "length (connected_base l s) = 2 ^ l"
  by (induction l arbitrary: s) auto

lemma length_standalone_base [simp]: "length (standalone_base l s) = 2 ^ l"
  by (induction l arbitrary: s) auto

lemma length_connected_nodes [simp]:
  "length ins = 2 ^ l \<Longrightarrow> length (connected_nodes l s ins) = ccount l"
  by (induction l arbitrary: s ins) auto

lemma length_standalone_nodes [simp]: "length (standalone_nodes l s) = scount l"
  by (induction l arbitrary: s) auto

lemma length_graph_nodes [simp]: "length (graph_nodes n) = 2 * scount (n + 1)"
  by (simp add: graph_nodes_def)

lemma length_challenge_nodes:
  "2 ^ n \<le> m \<Longrightarrow> m \<le> 2 ^ (n + 1) \<Longrightarrow> length (challenge_nodes n m) = m"
  by (simp add: challenge_nodes_def)

subsection \<open>Base ids are ascending and in range\<close>

lemma set_connector_out: "set (connector_out d s) = {s + d * 2 ^ d ..< s + bcount d}"
  by (simp add: connector_out_def)

lemma connector_out_less: "x \<in> set (connector_out d s) \<Longrightarrow> x < s + bcount d"
  by (simp add: set_connector_out)

lemma mci_out_less: "x \<in> set (mci_out d s) \<Longrightarrow> x < s + 2 * bcount d"
  by (auto simp: mci_out_def dest: connector_out_less)

lemma connected_base_range: "x \<in> set (connected_base l s) \<Longrightarrow> s \<le> x \<and> x < s + ccount l"
  by (induction l arbitrary: s) fastforce+

lemma standalone_base_range: "x \<in> set (standalone_base l s) \<Longrightarrow> s \<le> x \<and> x < s + scount l"
proof (induction l arbitrary: s)
  case (Suc l)
  then show ?case
    using Suc.IH [of s] connected_base_range [of x l "s + scount l + bcount l"] by force
qed simp

lemma sorted_connected_base: "sorted_wrt (<) (connected_base l s)"
  by (induction l arbitrary: s) (fastforce simp: sorted_wrt_append dest: connected_base_range)+

lemma sorted_standalone_base: "sorted_wrt (<) (standalone_base l s)"
proof (induction l arbitrary: s)
  case (Suc l)
  then show ?case
    by (fastforce simp: sorted_wrt_append
        intro: sorted_connected_base dest: connected_base_range standalone_base_range)
qed simp

subsection \<open>Labels of an extended graph\<close>

lemma labels_of_Nil [simp]: "labels_of h [] = []"
  by (simp add: labels_of_def)

lemma length_labels_of [simp]: "length (labels_of h ns) = length ns"
  by (induction ns rule: rev_induct) (simp_all add: labels_of_def)

lemma labels_of_snoc:
  "labels_of h (ns @ [p]) = labels_of h ns @ [h (length ns) (map ((!) (labels_of h ns)) p)]"
  using length_labels_of [of h ns] by (simp add: labels_of_def)

text \<open>Emitting more nodes does not change the labels already computed.\<close>

lemma take_labels_of: "take (length ns) (labels_of h (ns @ ms)) = labels_of h ns"
proof (induction ms rule: rev_induct)
  case (snoc m ms)
  then show ?case using labels_of_snoc [of h "ns @ ms" m] by simp
qed simp

lemma labels_of_prefix: "i < length ns \<Longrightarrow> labels_of h (ns @ ms) ! i = labels_of h ns ! i"
  by (metis nth_take take_labels_of)

lemma map_labels_prefix:
  "\<forall>x\<in>set ids. x < length ns \<Longrightarrow> map ((!) (labels_of h (ns @ ms))) ids = map ((!) (labels_of h ns)) ids"
  by (simp add: labels_of_prefix)

text \<open>A whole layer, whose predecessors all lie in earlier layers, is labeled elementwise.\<close>

lemma labels_of_layer:
  assumes "\<forall>p\<in>set ms. \<forall>x\<in>set p. x < length ns"
  shows "labels_of h (ns @ ms) = labels_of h ns @
    map (\<lambda>k. h (length ns + k) (map ((!) (labels_of h ns)) (ms ! k))) [0..<length ms]"
  using assms
proof (induction ms rule: rev_induct)
  case (snoc m ms)
  have "labels_of h (ns @ ms @ [m]) = labels_of h (ns @ ms)
      @ [h (length ns + length ms) (map ((!) (labels_of h (ns @ ms))) m)]"
    using labels_of_snoc [of h "ns @ ms" m] by simp
  also have "map ((!) (labels_of h (ns @ ms))) m = map ((!) (labels_of h ns)) m"
    using snoc.prems by (intro map_labels_prefix) simp
  finally show ?case using snoc by (simp add: nth_append)
qed simp

text \<open>In a topologically ordered graph the labels solve the defining recurrence.\<close>

lemma topo_Nil [simp]: "topo s []"
  by (simp add: topo_def)

lemma topo_append: "topo s (xs @ ys) \<longleftrightarrow> topo s xs \<and> topo (s + length xs) ys"
proof
  assume t: "topo s (xs @ ys)"
  have "topo s xs" unfolding topo_def
  proof (intro allI impI)
    fix i assume "i < length xs"
    then show "\<forall>x\<in>set (xs ! i). x < s + i"
      using t [unfolded topo_def, rule_format, of i] by (simp add: nth_append)
  qed
  moreover have "topo (s + length xs) ys" unfolding topo_def
  proof (intro allI impI)
    fix i assume "i < length ys"
    then show "\<forall>x\<in>set (ys ! i). x < s + length xs + i"
      using t [unfolded topo_def, rule_format, of "length xs + i"] by (simp add: add.assoc)
  qed
  ultimately show "topo s xs \<and> topo (s + length xs) ys" ..
next
  assume t: "topo s xs \<and> topo (s + length xs) ys"
  show "topo s (xs @ ys)" unfolding topo_def
  proof (intro allI impI)
    fix i assume i: "i < length (xs @ ys)"
    show "\<forall>x\<in>set ((xs @ ys) ! i). x < s + i"
    proof (cases "i < length xs")
      case True
      then show ?thesis using t by (simp add: topo_def nth_append)
    next
      case False
      then have "i - length xs < length ys" using i by simp
      then have "\<forall>x\<in>set (ys ! (i - length xs)). x < s + length xs + (i - length xs)"
        using t unfolding topo_def by blast
      then show ?thesis using False by (simp add: nth_append)
    qed
  qed
qed

lemma topo_early: "\<forall>p\<in>set ns. \<forall>x\<in>set p. x < s \<Longrightarrow> topo s ns"
  by (fastforce simp: topo_def)

lemma topo_mono: "topo s ns \<Longrightarrow> s \<le> t \<Longrightarrow> topo t ns"
  by (fastforce simp: topo_def)

lemma labels_of_nth:
  assumes "topo 0 ns" "i < length ns"
  shows "labels_of h ns ! i = h i (map ((!) (labels_of h ns)) (ns ! i))"
  using assms
proof (induction ns rule: rev_induct)
  case (snoc p ns)
  have t: "topo 0 ns" "topo (length ns) [p]"
    using snoc.prems(1) by (simp_all add: topo_append)
  then have "\<forall>x\<in>set p. x < length ns" by (simp add: topo_def)
  moreover have "\<forall>x\<in>set (ns ! j). x < length ns" if "j < length ns" for j
    using that t(1) by (auto simp: topo_def intro: order.strict_trans)
  ultimately have pre: "map ((!) (labels_of h (ns @ [p]))) q = map ((!) (labels_of h ns)) q"
    if "q = p \<or> (\<exists>j<length ns. q = ns ! j)" for q
    using that by (intro map_labels_prefix) auto
  show ?case
  proof (cases "i < length ns")
    case True
    then have "map ((!) (labels_of h (ns @ [p]))) (ns ! i) = map ((!) (labels_of h ns)) (ns ! i)"
      by (intro pre) blast
    then show ?thesis using True snoc.IH t(1) by (simp add: labels_of_prefix nth_append del: map_eq_conv)
  next
    case False
    then have "i = length ns" using snoc.prems(2) by simp
    moreover have "labels_of h (ns @ [p]) ! length ns = h (length ns) (map ((!) (labels_of h ns)) p)"
      by (simp add: labels_of_snoc nth_append)
    moreover have "map ((!) (labels_of h (ns @ [p]))) p = map ((!) (labels_of h ns)) p"
      by (rule pre) simp
    ultimately show ?thesis by (simp del: map_eq_conv)
  qed
qed simp

subsection \<open>Every component is in topological order\<close>

lemma set_xor_layer:
  assumes "k < d" "p' \<in> set (xor_layer (2 ^ d) p (2 ^ k))" "x \<in> set p'"
  shows "p \<le> x \<and> x < p + 2 ^ d"
  using assms by (auto simp: xor_layer_def min_def max_def flip_less split: if_splits)

lemma topo_xor_layer: "k < d \<Longrightarrow> p + 2 ^ d \<le> s \<Longrightarrow> topo s (xor_layer (2 ^ d) p (2 ^ k))"
  by (rule topo_early) (fastforce dest: set_xor_layer)

lemma topo_butterfly_layers: "k \<le> d \<Longrightarrow> p + 2 ^ d \<le> s \<Longrightarrow> topo s (butterfly_layers (2 ^ d) k p)"
  by (induction k arbitrary: p s) (auto simp: topo_append intro: topo_xor_layer)

lemma topo_connector_nodes:
  "length ins = 2 ^ d \<Longrightarrow> \<forall>x\<in>set ins. x < s \<Longrightarrow> topo s (connector_nodes d s ins)"
  by (auto simp: connector_nodes_def topo_append intro!: topo_butterfly_layers) (simp add: topo_early)

lemma set_center_layer:
  "p' \<in> set (map2 (\<lambda>p q. [p, q]) prim qs) \<Longrightarrow> \<exists>a\<in>set prim. \<exists>b\<in>set qs. p' = [a, b]"
  by (auto dest: set_zip_leftD set_zip_rightD)

lemma topo_mci_nodes:
  assumes "length prim = 2 ^ d" "length ingr = 2 ^ d" "\<forall>x\<in>set prim. x < s" "\<forall>x\<in>set ingr. x < s"
  shows "topo s (mci_nodes d s prim ingr)"
proof -
  have "topo (s + bcount d) (map2 (\<lambda>p q. [p, q]) prim (connector_out d s))"
    using assms by (intro topo_early) (fastforce dest!: set_center_layer connector_out_less)
  then show ?thesis
    using assms by (simp add: mci_nodes_def topo_append topo_connector_nodes topo_butterfly_layers add.assoc)
qed

lemma topo_connected_nodes:
  "length ins = 2 ^ l \<Longrightarrow> \<forall>x\<in>set ins. x < s \<Longrightarrow> topo s (connected_nodes l s ins)"
proof (induction l arbitrary: s ins)
  case 0
  then show ?case by (cases ins) (auto simp: topo_def)
next
  case (Suc l)
  have "topo s (connected_nodes l s (take (2 ^ l) ins))"
    using Suc.prems by (intro Suc.IH) (auto dest: in_set_takeD)
  moreover have "topo (s + ccount l) (mci_nodes l (s + ccount l) (connected_base l s) (drop (2 ^ l) ins))"
    using Suc.prems by (intro topo_mci_nodes) (auto dest!: connected_base_range in_set_dropD)
  moreover have "topo (s + ccount l + 2 * bcount l)
      (connected_nodes l (s + ccount l + 2 * bcount l) (mci_out l (s + ccount l)))"
    by (intro Suc.IH) (auto dest: mci_out_less)
  ultimately show ?case using Suc.prems by (simp add: topo_append add.assoc)
qed

lemma topo_standalone_nodes: "topo s (standalone_nodes l s)"
proof (induction l arbitrary: s)
  case (Suc l)
  have "topo (s + scount l) (connector_nodes l (s + scount l) (standalone_base l s))"
    by (intro topo_connector_nodes) (auto dest: standalone_base_range)
  moreover have "topo (s + scount l + bcount l)
      (connected_nodes l (s + scount l + bcount l) (connector_out l (s + scount l)))"
    by (intro topo_connected_nodes) (auto dest: connector_out_less)
  ultimately show ?case using Suc by (simp add: topo_append add.assoc)
qed (simp add: topo_def)

lemma topo_graph_nodes: "topo 0 (graph_nodes n)"
  using topo_standalone_nodes [of 0 "n + 1"] topo_standalone_nodes [of "scount (n + 1)" "n + 1"]
  by (simp add: graph_nodes_def topo_append del: standalone_nodes.simps scount.simps)

subsection \<open>Predecessor lists are canonical\<close>

text \<open>At most two predecessors, the lower id first: the form the hash input is canonical in.\<close>

definition canonical :: "nat list \<Rightarrow> bool" where
  "canonical p \<longleftrightarrow> length p \<le> 2 \<and> sorted_wrt (<) p"

lemma canonical_xor_layer: "p' \<in> set (xor_layer w p (2 ^ k)) \<Longrightarrow> canonical p'"
  by (auto simp: xor_layer_def canonical_def min_flip max_flip unset_less_set)

lemma canonical_butterfly: "p' \<in> set (butterfly_layers w k p) \<Longrightarrow> canonical p'"
  by (induction k arbitrary: p) (auto dest: canonical_xor_layer)

lemma canonical_connector: "p' \<in> set (connector_nodes d s ins) \<Longrightarrow> canonical p'"
  by (auto simp: connector_nodes_def dest: canonical_butterfly) (simp add: canonical_def)

lemma canonical_mci:
  "\<forall>x\<in>set prim. x < s \<Longrightarrow> p' \<in> set (mci_nodes d s prim ingr) \<Longrightarrow> canonical p'"
proof -
  assume prim: "\<forall>x\<in>set prim. x < s" and p': "p' \<in> set (mci_nodes d s prim ingr)"
  consider "p' \<in> set (connector_nodes d s ingr)"
    | "p' \<in> set (map2 (\<lambda>p q. [p, q]) prim (connector_out d s))"
    | "p' \<in> set (butterfly_layers (2 ^ d) d (s + bcount d))"
    using p' unfolding mci_nodes_def set_append by blast
  then show "canonical p'"
  proof cases
    case 2
    then show ?thesis using prim
      by (fastforce dest!: set_center_layer simp: canonical_def set_connector_out)
  qed (auto dest: canonical_connector canonical_butterfly)
qed

lemma canonical_connected: "p' \<in> set (connected_nodes l s ins) \<Longrightarrow> canonical p'"
proof (induction l arbitrary: s ins)
  case (Suc l)
  then show ?case
    using canonical_mci [of "connected_base l s" "s + ccount l" p' l "drop (2 ^ l) ins"]
    by (auto dest: connected_base_range)
qed (simp add: canonical_def)

lemma canonical_standalone: "p' \<in> set (standalone_nodes l s) \<Longrightarrow> canonical p'"
  by (induction l arbitrary: s) (auto dest: canonical_connector canonical_connected simp: canonical_def)

end
