(* ===== verification/Labeler.thy ===== *)
theory Labeler
  imports Graph_Spec
begin

section \<open>The labeler interface of \<open>hash.h\<close>\<close>

text \<open>
  \<open>graph.c\<close> computes every label through two functions of \<open>hash.h\<close>: \<open>pose_label_node\<close> for
  one node and \<open>pose_label_node_many\<close> for a batch, and derives a graph's descriptor and a chunk's
  seed through \<open>pose_graph_descriptor\<close> and \<open>pose_chunk_seed\<close>. The graph's definitions take
  these as a record; the locale \<open>node_hash\<close> states the two promises of the header the graph relies on.
  Theory \<open>Hash\<close> models \<open>hash.c\<close> and interprets the locale on it.
\<close>

datatype hash_algo = POSE_HASH_BLAKE3 | POSE_HASH_SHA256 | POSE_HASH_AES_PRF

text \<open>\<open>POSE_LABEL_BATCH\<close>: the most nodes one \<open>pose_label_node_many\<close> call takes.\<close>

definition POSE_LABEL_BATCH :: nat where "POSE_LABEL_BATCH = 16"

text \<open>
  A predecessor argument is \<open>None\<close> for a null pointer. The batch call takes a null pointer or an
  array of such arguments for each of the two predecessor positions.
\<close>

record labeler =
  label_node :: "bool \<Rightarrow> u64 \<Rightarrow> label option \<Rightarrow> label option \<Rightarrow> bytes \<Rightarrow> bytes \<Rightarrow> hash_algo \<Rightarrow> label"
  label_node_many :: "bool \<Rightarrow> u64 list \<Rightarrow> label option list option \<Rightarrow> label option list option
    \<Rightarrow> bytes \<Rightarrow> bytes \<Rightarrow> hash_algo \<Rightarrow> label list"
  graph_descriptor :: "u64 \<Rightarrow> u64 \<Rightarrow> bytes"
  chunk_seed :: "bytes \<Rightarrow> u64 \<Rightarrow> bytes"

definition pred_at :: "'a option list option \<Rightarrow> nat \<Rightarrow> 'a option" where
  "pred_at ps i = (case ps of None \<Rightarrow> None | Some xs \<Rightarrow> xs ! i)"

definition preds_fit :: "nat \<Rightarrow> 'a option list option \<Rightarrow> bool" where
  "preds_fit n ps = (case ps of None \<Rightarrow> True | Some xs \<Rightarrow> length xs = n)"

text \<open>
  The hash of a node as a function of its id and its predecessors' labels: the form in which the
  abstract labeling \<open>labels_of\<close> uses a labeler.
\<close>

definition node_label :: "labeler \<Rightarrow> bytes \<Rightarrow> bytes \<Rightarrow> hash_algo \<Rightarrow> nat \<Rightarrow> label list \<Rightarrow> label" where
  "node_label H sd ds al i ps =
     (case ps of
        [] \<Rightarrow> label_node H True (of_nat i) None None sd ds al
      | [a] \<Rightarrow> label_node H False (of_nat i) (Some a) None sd ds al
      | a # b # _ \<Rightarrow> label_node H False (of_nat i) (Some a) (Some b) sd ds al)"

locale node_hash =
  fixes H :: labeler
  assumes many: "length ids \<le> POSE_LABEL_BATCH \<Longrightarrow> preds_fit (length ids) p0s \<Longrightarrow> preds_fit (length ids) p1s \<Longrightarrow>
      label_node_many H src ids p0s p1s sd ds al
        = map (\<lambda>i. label_node H src (ids ! i) (pred_at p0s i) (pred_at p1s i) sd ds al) [0..<length ids]"
    and length_label: "length (label_node H src i p0 p1 sd ds al) = POSE_HASH_BYTES"
begin

lemma length_many:
  "length ids \<le> POSE_LABEL_BATCH \<Longrightarrow> preds_fit (length ids) p0s \<Longrightarrow> preds_fit (length ids) p1s \<Longrightarrow>
    length (label_node_many H src ids p0s p1s sd ds al) = length ids"
  by (simp add: many)

lemma length_node_label: "length (node_label H sd ds al i ps) = POSE_HASH_BYTES"
  by (auto simp: node_label_def length_label split: list.splits)

text \<open>A batch of one-predecessor nodes and a batch of two-predecessor nodes, elementwise.\<close>

lemma many_one:
  assumes "n \<le> POSE_LABEL_BATCH"
  shows "label_node_many H False (map (\<lambda>k. of_nat (s + k)) [0..<n]) (Some (map (\<lambda>k. Some (f k)) [0..<n])) None sd ds al
    = map (\<lambda>k. node_label H sd ds al (s + k) [f k]) [0..<n]"
  using assms by (subst many) (auto simp: preds_fit_def pred_at_def node_label_def)

lemma many_two:
  assumes "n \<le> POSE_LABEL_BATCH"
  shows "label_node_many H False (map (\<lambda>k. of_nat (s + k)) [0..<n]) (Some (map (\<lambda>k. Some (f k)) [0..<n]))
      (Some (map (\<lambda>k. Some (g k)) [0..<n])) sd ds al
    = map (\<lambda>k. node_label H sd ds al (s + k) [f k, g k]) [0..<n]"
  using assms by (subst many) (auto simp: preds_fit_def pred_at_def node_label_def)

end

end
