(* ===== verification/Emitter.thy ===== *)
theory Emitter
  imports Labeler
begin

section \<open>The topological emitter (\<open>emitter_t\<close>)\<close>

text \<open>
  The emitter of \<open>graph.c\<close> in both its modes: with a label buffer it computes the label of every
  node it emits, with an edge recorder it writes down the node's predecessors. Node-id arrays
  live in one memory of \<open>uint64_t\<close> cells, addressed by offset: the base-output arrays the caller
  carves out, then the bump arena the recursion allocates from. Every array access of the code is
  a checked access here, so an operation that returns \<open>Some\<close> has stayed inside its buffers.
\<close>

subsection \<open>State\<close>

text \<open>\<open>pose_node_t\<close>: the array \<open>pred[2]\<close> as two fields.\<close>

record pose_node =
  num_preds :: nat
  pred0 :: u64
  pred1 :: u64
  challenge_rank :: int

text \<open>
  \<open>emitter_t\<close>, and with it the cells its node-id pointers point into. \<open>e_labels\<close> and
  \<open>e_nodes\<close> are \<open>None\<close> when the code's pointer is null; \<open>e_arena\<close> is the offset of the arena.
\<close>

record emitter =
  e_next_id :: u64
  e_labels :: "label list option"
  e_nodes :: "pose_node list option"
  e_seed :: bytes
  e_desc :: bytes
  e_arena :: nat
  e_arena_cap :: nat
  e_arena_off :: nat
  e_algo :: hash_algo
  e_cells :: "u64 list"

definition label_of :: "emitter \<Rightarrow> u64 \<Rightarrow> label option" where
  "label_of e nid = (case e_labels e of None \<Rightarrow> None | Some L \<Rightarrow> ld L (unat nid))"

definition store_labels :: "emitter \<Rightarrow> u64 \<Rightarrow> label list \<Rightarrow> emitter option" where
  "store_labels e nid ls =
     (case e_labels e of None \<Rightarrow> None
      | Some L \<Rightarrow> map_option (\<lambda>L'. e\<lparr>e_labels := Some L'\<rparr>) (wr L (unat nid) ls))"

definition arena_alloc :: "emitter \<Rightarrow> nat \<Rightarrow> nat \<times> emitter" where
  "arena_alloc e n = (e_arena e + e_arena_off e, e\<lparr>e_arena_off := e_arena_off e + n\<rparr>)"

subsection \<open>Emitting one node\<close>

text \<open>\<open>if (e->nodes) { nodes[id].num_preds = ...; ... }\<close>: the fields \<open>f\<close> sets, others kept.\<close>

definition record_node :: "emitter \<Rightarrow> u64 \<Rightarrow> (pose_node \<Rightarrow> pose_node) \<Rightarrow> emitter option" where
  "record_node e nid f =
     (case e_nodes e of None \<Rightarrow> Some e
      | Some N \<Rightarrow> do {
          nd \<leftarrow> ld N (unat nid);
          N' \<leftarrow> st N (unat nid) (f nd);
          Some (e\<lparr>e_nodes := Some N'\<rparr>) })"

definition emit_source :: "labeler \<Rightarrow> emitter \<Rightarrow> (u64 \<times> emitter) option" where
  "emit_source H e0 =
     (let nid = e_next_id e0; e1 = e0\<lparr>e_next_id := nid + 1\<rparr> in do {
        e2 \<leftarrow> (if e_labels e1 \<noteq> None
               then store_labels e1 nid [label_node H True nid None None (e_seed e1) (e_desc e1) (e_algo e1)]
               else Some e1);
        e3 \<leftarrow> record_node e2 nid (\<lambda>nd. nd\<lparr>num_preds := 0, challenge_rank := -1\<rparr>);
        Some (nid, e3) })"

definition emit1 :: "labeler \<Rightarrow> emitter \<Rightarrow> u64 \<Rightarrow> (u64 \<times> emitter) option" where
  "emit1 H e0 p0 =
     (let nid = e_next_id e0; e1 = e0\<lparr>e_next_id := nid + 1\<rparr> in do {
        e2 \<leftarrow> (if e_labels e1 \<noteq> None
               then do {
                 l0 \<leftarrow> label_of e1 p0;
                 store_labels e1 nid [label_node H False nid (Some l0) None (e_seed e1) (e_desc e1) (e_algo e1)] }
               else Some e1);
        e3 \<leftarrow> record_node e2 nid (\<lambda>nd. nd\<lparr>num_preds := 1, pred0 := p0, challenge_rank := -1\<rparr>);
        Some (nid, e3) })"

text \<open>\<open>if (pred0 > pred1) swap\<close>.\<close>

definition canon :: "u64 \<Rightarrow> u64 \<Rightarrow> u64 \<times> u64" where
  "canon p0 p1 = (if p0 > p1 then (p1, p0) else (p0, p1))"

definition emit2 :: "labeler \<Rightarrow> emitter \<Rightarrow> u64 \<Rightarrow> u64 \<Rightarrow> (u64 \<times> emitter) option" where
  "emit2 H e0 pa pb =
     (let nid = e_next_id e0; e1 = e0\<lparr>e_next_id := nid + 1\<rparr>; (p0, p1) = canon pa pb in do {
        e2 \<leftarrow> (if e_labels e1 \<noteq> None
               then do {
                 l0 \<leftarrow> label_of e1 p0;
                 l1 \<leftarrow> label_of e1 p1;
                 store_labels e1 nid
                   [label_node H False nid (Some l0) (Some l1) (e_seed e1) (e_desc e1) (e_algo e1)] }
               else Some e1);
        e3 \<leftarrow> record_node e2 nid
               (\<lambda>nd. nd\<lparr>num_preds := 2, pred0 := p0, pred1 := p1, challenge_rank := -1\<rparr>);
        Some (nid, e3) })"

subsection \<open>One layer\<close>

text \<open>
  The butterfly code repeats one loop with different predecessors: node \<open>i\<close> of the layer reads
  \<open>inputs[i]\<close> (\<open>src_one\<close>), \<open>prev[i]\<close> and \<open>prev[i ^ bit]\<close> (\<open>src_xor\<close>), or
  \<open>primary_inputs[i]\<close> and \<open>ing_prev[i]\<close> (\<open>src_two\<close>). A source is that read.
\<close>

type_synonym source = "u64 list \<Rightarrow> nat \<Rightarrow> (u64 \<times> u64 option) option"

definition src_one :: "nat \<Rightarrow> source" where
  "src_one inputs c i = do { p0 \<leftarrow> ld c (inputs + i); Some (p0, None) }"

definition src_xor :: "nat \<Rightarrow> nat \<Rightarrow> source" where
  "src_xor prev b c i = do { p0 \<leftarrow> ld c (prev + i); p1 \<leftarrow> ld c (prev + (i XOR b)); Some (p0, Some p1) }"

definition src_two :: "nat \<Rightarrow> nat \<Rightarrow> source" where
  "src_two prim ing c i = do { p0 \<leftarrow> ld c (prim + i); p1 \<leftarrow> ld c (ing + i); Some (p0, Some p1) }"

text \<open>Edge mode: \<open>for (i = 0; i < width; i++) dst[i] = emit1/emit2(...)\<close>.\<close>

fun edge_loop :: "labeler \<Rightarrow> source \<Rightarrow> nat \<Rightarrow> nat \<Rightarrow> nat \<Rightarrow> emitter \<Rightarrow> emitter option" where
  "edge_loop H src dst i 0 e = Some e"
| "edge_loop H src dst i (Suc n) e = do {
     (p0, p1) \<leftarrow> src (e_cells e) i;
     (nid, e') \<leftarrow> (case p1 of None \<Rightarrow> emit1 H e p0 | Some q \<Rightarrow> emit2 H e p0 q);
     c \<leftarrow> st (e_cells e') (dst + i) nid;
     edge_loop H src dst (i + 1) n (e'\<lparr>e_cells := c\<rparr>) }"

text \<open>
  Label mode, the inner loop over a batch: assign the id, store it in \<open>dst\<close>, read the two
  predecessor ids and put the lower one first.
\<close>

fun gather :: "source \<Rightarrow> nat \<Rightarrow> nat \<Rightarrow> nat \<Rightarrow> emitter \<Rightarrow> ((u64 \<times> u64 \<times> u64 option) list \<times> emitter) option" where
  "gather src dst i 0 e = Some ([], e)"
| "gather src dst i (Suc n) e =
     (let nid = e_next_id e in do {
        c \<leftarrow> st (e_cells e) (dst + i) nid;
        (p0, p1) \<leftarrow> src c i;
        (gs, e') \<leftarrow> gather src dst (i + 1) n (e\<lparr>e_next_id := nid + 1, e_cells := c\<rparr>);
        Some ((nid, (case p1 of None \<Rightarrow> (p0, None)
                    | Some q \<Rightarrow> (let (a, b) = canon p0 q in (a, Some b)))) # gs, e') })"

text \<open>Label mode, the loop over batches of at most \<open>POSE_LABEL_BATCH\<close> nodes.\<close>

function batch_loop :: "labeler \<Rightarrow> source \<Rightarrow> bool \<Rightarrow> nat \<Rightarrow> nat \<Rightarrow> nat \<Rightarrow> emitter \<Rightarrow> emitter option" where
  "batch_loop H src two dst width i e =
     (if i < width then
       (let batch = (if width - i < POSE_LABEL_BATCH then width - i else POSE_LABEL_BATCH);
            first_id = e_next_id e in do {
          (gs, e1) \<leftarrow> gather src dst i batch e;
          pred0s \<leftarrow> those (map (\<lambda>(nid, p0, p1). map_option Some (label_of e1 p0)) gs);
          pred1s \<leftarrow> (if two
             then map_option Some (those (map (\<lambda>(nid, p0, p1).
                    case p1 of None \<Rightarrow> Some None | Some q \<Rightarrow> map_option Some (label_of e1 q)) gs))
             else Some None);
          e2 \<leftarrow> store_labels e1 first_id
             (label_node_many H False (map fst gs) (Some pred0s) pred1s (e_seed e1) (e_desc e1) (e_algo e1));
          batch_loop H src two dst width (i + batch) e2 })
      else Some e)"
  by pat_completeness auto
termination
  by (relation "measure (\<lambda>(H, src, two, dst, width, i, e). width - i)") (auto simp: POSE_LABEL_BATCH_def)

declare batch_loop.simps [simp del]

definition emit_layer :: "labeler \<Rightarrow> source \<Rightarrow> bool \<Rightarrow> nat \<Rightarrow> nat \<Rightarrow> emitter \<Rightarrow> emitter option" where
  "emit_layer H src two dst width e =
     (if e_labels e \<noteq> None then batch_loop H src two dst width 0 e else edge_loop H src dst 0 width e)"

subsection \<open>Butterfly connector\<close>

text \<open>Layers \<open>1..dim\<close>: the arrays \<open>prev\<close> and \<open>curr\<close> swap after each.\<close>

function butterfly_loop :: "labeler \<Rightarrow> nat \<Rightarrow> nat \<Rightarrow> nat \<Rightarrow> nat \<Rightarrow> emitter \<Rightarrow> (nat \<times> emitter) option" where
  "butterfly_loop H dim layer prev cur e =
     (if layer < dim then do {
        e' \<leftarrow> emit_layer H (src_xor prev (2 ^ (dim - 1 - layer))) True cur (2 ^ dim) e;
        butterfly_loop H dim (layer + 1) cur prev e' }
      else Some (prev, e))"
  by pat_completeness auto
termination
  by (relation "measure (\<lambda>(H, dim, layer, prev, cur, e). dim - layer)") auto

declare butterfly_loop.simps [simp del]

text \<open>\<open>memcpy\<close> between two arrays of ids; overlapping arrays are undefined behaviour.\<close>

definition copy_cells :: "emitter \<Rightarrow> nat \<Rightarrow> nat \<Rightarrow> nat \<Rightarrow> emitter option" where
  "copy_cells e dst src n =
     (if dst + n \<le> src \<or> src + n \<le> dst then do {
        xs \<leftarrow> rd (e_cells e) src n;
        c \<leftarrow> wr (e_cells e) dst xs;
        Some (e\<lparr>e_cells := c\<rparr>) }
      else None)"

definition emit_connector :: "labeler \<Rightarrow> nat \<Rightarrow> nat \<Rightarrow> nat \<Rightarrow> emitter \<Rightarrow> emitter option" where
  "emit_connector H dim inputs outputs e0 =
     (let width = 2 ^ dim; saved = e_arena_off e0;
          (prev, e1) = arena_alloc e0 width;
          (cur, e2) = arena_alloc e1 width in do {
        e3 \<leftarrow> emit_layer H (src_one inputs) False prev width e2;
        (top, e4) \<leftarrow> butterfly_loop H dim 0 prev cur e3;
        e5 \<leftarrow> copy_cells e4 outputs top width;
        Some (e5\<lparr>e_arena_off := saved\<rparr>) })"

subsection \<open>Merged center ingress\<close>

text \<open>The center butterfly: its last layer goes straight to \<open>outputs\<close>.\<close>

function center_loop :: "labeler \<Rightarrow> nat \<Rightarrow> nat \<Rightarrow> nat \<Rightarrow> nat \<Rightarrow> nat \<Rightarrow> emitter \<Rightarrow> emitter option" where
  "center_loop H dim layer prev cur outputs e =
     (if layer < dim then do {
        e' \<leftarrow> emit_layer H (src_xor prev (2 ^ (dim - 1 - layer))) True
                (if layer + 1 = dim then outputs else cur) (2 ^ dim) e;
        center_loop H dim (layer + 1) cur prev outputs e' }
      else Some e)"
  by pat_completeness auto
termination
  by (relation "measure (\<lambda>(H, dim, layer, prev, cur, outputs, e). dim - layer)") auto

declare center_loop.simps [simp del]

definition emit_merged_center_ingress ::
  "labeler \<Rightarrow> nat \<Rightarrow> nat \<Rightarrow> nat \<Rightarrow> nat \<Rightarrow> emitter \<Rightarrow> emitter option" where
  "emit_merged_center_ingress H dim primary ingress outputs e0 =
     (if dim = 0 then do {
        i0 \<leftarrow> ld (e_cells e0) ingress;
        (ig, e1) \<leftarrow> emit1 H e0 i0;
        p0 \<leftarrow> ld (e_cells e1) primary;
        (out, e2) \<leftarrow> emit2 H e1 p0 ig;
        c \<leftarrow> st (e_cells e2) outputs out;
        Some (e2\<lparr>e_cells := c\<rparr>) }
      else
       (let width = 2 ^ dim; saved = e_arena_off e0;
            (ing_prev, e1) = arena_alloc e0 width;
            (ing_curr, e2) = arena_alloc e1 width;
            (ctr_prev, e3) = arena_alloc e2 width;
            (ctr_curr, e4) = arena_alloc e3 width in do {
          e5 \<leftarrow> emit_layer H (src_one ingress) False ing_prev width e4;
          (ing, e6) \<leftarrow> butterfly_loop H dim 0 ing_prev ing_curr e5;
          e7 \<leftarrow> emit_layer H (src_two primary ing) True ctr_prev width e6;
          e8 \<leftarrow> center_loop H dim 0 ctr_prev ctr_curr outputs e7;
          Some (e8\<lparr>e_arena_off := saved\<rparr>) }))"

subsection \<open>Connected and standalone graphs\<close>

fun emit_connected :: "labeler \<Rightarrow> nat \<Rightarrow> nat \<Rightarrow> nat \<Rightarrow> nat \<Rightarrow> emitter \<Rightarrow> emitter option" where
  "emit_connected H 0 width inputs base_out e0 = do {
     i0 \<leftarrow> ld (e_cells e0) inputs;
     (nid, e1) \<leftarrow> emit1 H e0 i0;
     c \<leftarrow> st (e_cells e1) base_out nid;
     Some (e1\<lparr>e_cells := c\<rparr>) }"
| "emit_connected H (Suc l) width inputs base_out e0 =
     (let half = width div 2; saved = e_arena_off e0;
          (left_base, e1) = arena_alloc e0 half;
          (center_out, e2) = arena_alloc e1 half;
          (right_base, e3) = arena_alloc e2 half in do {
        e4 \<leftarrow> emit_connected H l half inputs left_base e3;
        e5 \<leftarrow> emit_merged_center_ingress H l left_base (inputs + half) center_out e4;
        e6 \<leftarrow> emit_connected H l half center_out right_base e5;
        e7 \<leftarrow> copy_cells e6 base_out left_base half;
        e8 \<leftarrow> copy_cells e7 (base_out + half) right_base half;
        Some (e8\<lparr>e_arena_off := saved\<rparr>) })"

fun emit_standalone :: "labeler \<Rightarrow> nat \<Rightarrow> nat \<Rightarrow> emitter \<Rightarrow> emitter option" where
  "emit_standalone H 0 base_out e0 = do {
     (nid, e1) \<leftarrow> emit_source H e0;
     c \<leftarrow> st (e_cells e1) base_out nid;
     Some (e1\<lparr>e_cells := c\<rparr>) }"
| "emit_standalone H (Suc l) base_out e0 =
     (let half = 2 ^ l; saved = e_arena_off e0;
          (left_base, e1) = arena_alloc e0 half;
          (center_out, e2) = arena_alloc e1 half;
          (right_base, e3) = arena_alloc e2 half in do {
        e4 \<leftarrow> emit_standalone H l left_base e3;
        e5 \<leftarrow> emit_connector H l left_base center_out e4;
        e6 \<leftarrow> emit_connected H l half center_out right_base e5;
        e7 \<leftarrow> copy_cells e6 base_out left_base half;
        e8 \<leftarrow> copy_cells e7 (base_out + half) right_base half;
        Some (e8\<lparr>e_arena_off := saved\<rparr>) })"

end
