(* ===== verification/Emitter_Correct.thy ===== *)
theory Emitter_Correct
  imports Emitter
begin

section \<open>The emitter implements the abstract graph\<close>

text \<open>
  The relation \<open>emits\<close> says which abstract nodes an emitter state has emitted: ids are handed out
  in order, the label buffer holds their labels, the edge recorder their predecessors. Every
  operation of theory \<open>Emitter\<close> is shown to succeed inside its buffers, to extend the emitted nodes
  by exactly the nodes of the abstract component, to leave the ids of the component's outputs in
  the output array, and to change no other cell outside the arena above the bump pointer.
\<close>

subsection \<open>What an emitter state represents\<close>

definition blank_node :: pose_node where
  "blank_node = \<lparr>num_preds = 0, pred0 = 0, pred1 = 0, challenge_rank = -1\<rparr>"

definition node_of :: "nat list \<Rightarrow> pose_node" where
  "node_of p =
     (case p of [] \<Rightarrow> blank_node
      | [a] \<Rightarrow> blank_node\<lparr>num_preds := 1, pred0 := of_nat a\<rparr>
      | a # b # _ \<Rightarrow> blank_node\<lparr>num_preds := 2, pred0 := of_nat a, pred1 := of_nat b\<rparr>)"

definition e_hash :: "labeler \<Rightarrow> emitter \<Rightarrow> nat \<Rightarrow> label list \<Rightarrow> label" where
  "e_hash H e = node_label H (e_seed e) (e_desc e) (e_algo e)"

definition emits :: "labeler \<Rightarrow> emitter \<Rightarrow> nat list list \<Rightarrow> bool" where
  "emits H e ns \<longleftrightarrow>
     e_next_id e = of_nat (length ns)
     \<and> (\<forall>L. e_labels e = Some L \<longrightarrow> length ns \<le> length L \<and> take (length ns) L = labels_of (e_hash H e) ns)
     \<and> (\<forall>N. e_nodes e = Some N \<longrightarrow>
          length ns \<le> length N \<and> N = map node_of ns @ replicate (length N - length ns) blank_node)"

text \<open>
  Room for \<open>k\<close> nodes in the buffers, ids that do not wrap, and one of the two modes: the callers
  in \<open>graph.c\<close> set either the label buffer or the edge recorder.
\<close>

definition room :: "emitter \<Rightarrow> nat \<Rightarrow> bool" where
  "room e k \<longleftrightarrow> k < 2 ^ 64 \<and> (e_labels e = None \<or> e_nodes e = None)
     \<and> (\<forall>L. e_labels e = Some L \<longrightarrow> k \<le> length L) \<and> (\<forall>N. e_nodes e = Some N \<longrightarrow> k \<le> length N)"

text \<open>Everything but the id counter and the contents of the buffers is unchanged.\<close>

definition same_frame :: "emitter \<Rightarrow> emitter \<Rightarrow> bool" where
  "same_frame e e' \<longleftrightarrow>
     e_seed e' = e_seed e \<and> e_desc e' = e_desc e \<and> e_algo e' = e_algo e
     \<and> e_arena e' = e_arena e \<and> e_arena_cap e' = e_arena_cap e \<and> e_arena_off e' = e_arena_off e
     \<and> map_option length (e_labels e') = map_option length (e_labels e)
     \<and> map_option length (e_nodes e') = map_option length (e_nodes e)
     \<and> length (e_cells e') = length (e_cells e)"

lemma same_frame_refl [intro, simp]: "same_frame e e"
  by (simp add: same_frame_def)

lemma same_frame_trans: "same_frame e e' \<Longrightarrow> same_frame e' e'' \<Longrightarrow> same_frame e e''"
  by (simp add: same_frame_def)

lemma same_frame_hash: "same_frame e e' \<Longrightarrow> e_hash H e' = e_hash H e"
  by (simp add: same_frame_def e_hash_def)

lemma same_frame_room: "same_frame e e' \<Longrightarrow> room e' k = room e k"
  unfolding same_frame_def room_def by (cases "e_labels e"; cases "e_nodes e"; auto)

lemma same_frame_labels: "same_frame e e' \<Longrightarrow> (e_labels e' = None) = (e_labels e = None)"
  unfolding same_frame_def by (metis option.map_disc_iff)

lemma room_mono: "room e k \<Longrightarrow> j \<le> k \<Longrightarrow> room e j"
  by (fastforce simp: room_def)

lemma emits_cells [simp]: "emits H (e\<lparr>e_cells := c\<rparr>) ns = emits H e ns"
  and emits_off [simp]: "emits H (e\<lparr>e_arena_off := off\<rparr>) ns = emits H e ns"
  by (simp_all add: emits_def e_hash_def)

lemma room_cells [simp]: "room (e\<lparr>e_cells := c\<rparr>) k = room e k"
  and room_off [simp]: "room (e\<lparr>e_arena_off := off\<rparr>) k = room e k"
  by (simp_all add: room_def)

lemma label_of_emitted:
  assumes "emits H e ns" "x < length ns" "length ns < 2 ^ 64" "e_labels e \<noteq> None"
  shows "label_of e (of_nat x) = Some (labels_of (e_hash H e) ns ! x)"
proof -
  obtain L where L: "e_labels e = Some L" using assms(4) by blast
  then have "length ns \<le> length L" "take (length ns) L = labels_of (e_hash H e) ns"
    using assms(1) by (auto simp: emits_def)
  moreover from this have "L ! x = labels_of (e_hash H e) ns ! x"
    using assms(2) by (metis nth_take)
  ultimately show ?thesis
    using assms(2,3) L by (simp add: label_of_def ld_def unat_of_nat_u64)
qed

subsection \<open>One node\<close>

text \<open>Storing the label \<open>l\<close> and recording with \<open>f\<close>, for the node with predecessors \<open>p\<close>.\<close>

lemma emit_parts:
  assumes em: "emits H e ns" and rm: "room e (Suc (length ns))"
    and l: "e_labels e \<noteq> None \<Longrightarrow> l = e_hash H e (length ns) (map ((!) (labels_of (e_hash H e) ns)) p)"
    and f: "f blank_node = node_of p"
  shows "\<exists>e2 e3. (if e_labels e \<noteq> None
             then store_labels (e\<lparr>e_next_id := e_next_id e + 1\<rparr>) (e_next_id e) [l]
             else Some (e\<lparr>e_next_id := e_next_id e + 1\<rparr>)) = Some e2
     \<and> record_node e2 (e_next_id e) f = Some e3
     \<and> emits H e3 (ns @ [p]) \<and> same_frame e e3 \<and> e_cells e3 = e_cells e"
proof -
  let ?n = "length ns" and ?e1 = "e\<lparr>e_next_id := e_next_id e + 1\<rparr>"
  have nid: "e_next_id e = of_nat ?n" and un: "unat (of_nat ?n :: u64) = ?n"
    using em rm by (auto simp: emits_def room_def unat_of_nat_u64)
  obtain e2 where e2: "(if e_labels e \<noteq> None then store_labels ?e1 (e_next_id e) [l] else Some ?e1) = Some e2"
    and lab: "\<forall>L. e_labels e2 = Some L \<longrightarrow> Suc ?n \<le> length L \<and> take (Suc ?n) L = labels_of (e_hash H e) (ns @ [p])"
    and fr: "same_frame e e2" "e_cells e2 = e_cells e" "e_nodes e2 = e_nodes e" "e_next_id e2 = e_next_id e + 1"
  proof (cases "e_labels e")
    case None
    then show ?thesis by (intro that [of ?e1]) (auto simp: same_frame_def)
  next
    case (Some L)
    then have L: "Suc ?n \<le> length L" "take ?n L = labels_of (e_hash H e) ns"
      using em rm by (auto simp: emits_def room_def)
    let ?L = "take ?n L @ [l] @ drop (Suc ?n) L"
    have "take (Suc ?n) ?L = labels_of (e_hash H e) (ns @ [p])"
      using L Some l by (simp add: labels_of_snoc)
    then show ?thesis using Some L un nid
      by (intro that [of "?e1\<lparr>e_labels := Some ?L\<rparr>"]) (auto simp: store_labels_def wr_def same_frame_def)
  qed
  obtain e3 where e3: "record_node e2 (e_next_id e) f = Some e3"
    and nod: "\<forall>N. e_nodes e3 = Some N \<longrightarrow>
       Suc ?n \<le> length N \<and> N = map node_of (ns @ [p]) @ replicate (length N - Suc ?n) blank_node"
    and fr': "same_frame e2 e3" "e_cells e3 = e_cells e2" "e_labels e3 = e_labels e2" "e_next_id e3 = e_next_id e2"
  proof (cases "e_nodes e2")
    case None
    then show ?thesis by (intro that [of e2]) (auto simp: record_node_def)
  next
    case (Some N)
    then have "Suc ?n \<le> length N" and N: "N = map node_of ns @ replicate (length N - ?n) blank_node"
      using em rm fr(3) by (auto simp: emits_def room_def)
    then obtain k where k: "length N - ?n = Suc k" by (metis Suc_diff_le diff_Suc_Suc)
    with N have N': "N = map node_of ns @ blank_node # replicate k blank_node" by simp
    have "ld N ?n = Some blank_node" by (subst N') (simp add: ld_def nth_append)
    moreover have "st N ?n (f blank_node) = Some (map node_of (ns @ [p]) @ replicate k blank_node)"
      by (subst N', simp add: st_def f list_update_append)
    ultimately show ?thesis using Some un nid
      by (intro that [of "e2\<lparr>e_nodes := Some (map node_of (ns @ [p]) @ replicate k blank_node)\<rparr>"])
        (use N' in \<open>auto simp: record_node_def same_frame_def\<close>)
  qed
  have "same_frame e e3" using fr(1) fr'(1) by (rule same_frame_trans)
  moreover have "emits H e3 (ns @ [p])"
    using lab nod fr fr' nid same_frame_hash [OF \<open>same_frame e e3\<close>]
    by (simp add: emits_def)
  ultimately show ?thesis using e2 e3 fr fr' by fastforce
qed

lemma emit_source_ok:
  assumes "emits H e ns" "room e (Suc (length ns))"
  shows "\<exists>e'. emit_source H e = Some (of_nat (length ns), e') \<and> emits H e' (ns @ [[]])
    \<and> same_frame e e' \<and> e_cells e' = e_cells e"
proof -
  have nid: "e_next_id e = of_nat (length ns)" using assms by (simp add: emits_def)
  show ?thesis
    using emit_parts [OF assms, of "label_node H True (e_next_id e) None None (e_seed e) (e_desc e) (e_algo e)" "[]"
        "\<lambda>nd. nd\<lparr>num_preds := 0, challenge_rank := -1\<rparr>"]
    by (auto simp: emit_source_def Let_def e_hash_def node_label_def node_of_def blank_node_def nid)
qed

lemma emit1_ok:
  assumes em: "emits H e ns" and rm: "room e (Suc (length ns))" and x: "x < length ns"
  shows "\<exists>e'. emit1 H e (of_nat x) = Some (of_nat (length ns), e') \<and> emits H e' (ns @ [[x]])
    \<and> same_frame e e' \<and> e_cells e' = e_cells e"
proof -
  have nid: "e_next_id e = of_nat (length ns)" and n: "length ns < 2 ^ 64"
    using assms by (auto simp: emits_def room_def)
  let ?l = "labels_of (e_hash H e) ns ! x"
  have lo: "label_of (e\<lparr>e_next_id := i\<rparr>) (of_nat x) = Some ?l" if "e_labels e \<noteq> None" for i
    using label_of_emitted [OF em x n that] by (simp add: label_of_def)
  show ?thesis
    using emit_parts [OF em rm, of "label_node H False (e_next_id e) (Some ?l) None (e_seed e) (e_desc e) (e_algo e)" "[x]"
        "\<lambda>nd. nd\<lparr>num_preds := 1, pred0 := of_nat x, challenge_rank := -1\<rparr>"]
    by (auto simp: emit1_def Let_def e_hash_def node_label_def node_of_def blank_node_def nid lo)
qed

lemma canon_of_nat:
  assumes "x < 2 ^ 64" "y < 2 ^ 64"
  shows "canon (of_nat x) (of_nat y) = (of_nat (min x y), of_nat (max x y))"
  using assms by (auto simp: canon_def word_less_nat_alt unat_of_nat_u64 min_def max_def)

lemma emit2_ok:
  assumes em: "emits H e ns" and rm: "room e (Suc (length ns))" and x: "x < length ns" and y: "y < length ns"
  shows "\<exists>e'. emit2 H e (of_nat x) (of_nat y) = Some (of_nat (length ns), e')
    \<and> emits H e' (ns @ [[min x y, max x y]]) \<and> same_frame e e' \<and> e_cells e' = e_cells e"
proof -
  have nid: "e_next_id e = of_nat (length ns)" and n: "length ns < 2 ^ 64"
    using assms by (auto simp: emits_def room_def)
  let ?l = "\<lambda>x. labels_of (e_hash H e) ns ! x"
  have lo: "label_of (e\<lparr>e_next_id := i\<rparr>) (of_nat z) = Some (?l z)" if "e_labels e \<noteq> None" "z < length ns" for i z
    using label_of_emitted [OF em that(2) n that(1)] by (simp add: label_of_def)
  have mm: "min x y < length ns" "max x y < length ns" using x y by auto
  have cn: "canon (of_nat x) (of_nat y) = (of_nat (min x y), of_nat (max x y))"
    using x y n by (intro canon_of_nat) auto
  show ?thesis
    using emit_parts [OF em rm, of "label_node H False (e_next_id e) (Some (?l (min x y))) (Some (?l (max x y)))
          (e_seed e) (e_desc e) (e_algo e)" "[min x y, max x y]"
        "\<lambda>nd. nd\<lparr>num_preds := 2, pred0 := of_nat (min x y), pred1 := of_nat (max x y), challenge_rank := -1\<rparr>"] mm
    by (auto simp: emit2_def Let_def e_hash_def node_label_def node_of_def blank_node_def nid lo cn)
qed

subsection \<open>One layer\<close>

text \<open>
  What an operation does to the emitter: it extends the emitted nodes \<open>ns\<close> by \<open>new\<close> and changes
  no cell outside \<open>A\<close>.
\<close>

definition grows :: "labeler \<Rightarrow> emitter \<Rightarrow> nat list list \<Rightarrow> emitter \<Rightarrow> nat list list \<Rightarrow> nat set \<Rightarrow> bool" where
  "grows H e ns e' new A \<longleftrightarrow>
     emits H e' (ns @ new) \<and> same_frame e e' \<and> agree_off A (e_cells e) (e_cells e')"

lemma growsD:
  assumes "grows H e ns e' new A"
  shows grows_emits: "emits H e' (ns @ new)" and grows_frame: "same_frame e e'"
    and grows_cells: "agree_off A (e_cells e) (e_cells e')"
    and grows_length: "length (e_cells e') = length (e_cells e)"
  using assms by (auto simp: grows_def agree_off_def)

lemma grows_trans:
  assumes "grows H e ns e' new A" "grows H e' (ns @ new) e'' new' B" "A \<subseteq> C" "B \<subseteq> C"
  shows "grows H e ns e'' (new @ new') C"
  using assms unfolding grows_def by (auto intro: same_frame_trans agree_off_trans)

lemma grows_mono: "grows H e ns e' new A \<Longrightarrow> A \<subseteq> B \<Longrightarrow> grows H e ns e' new B"
  by (auto simp: grows_def intro: agree_off_mono)

lemma grows_room: "grows H e ns e' new A \<Longrightarrow> room e' k = room e k"
  by (simp add: grows_def same_frame_room)

text \<open>A store into the cells after an operation.\<close>

lemma grows_store:
  assumes "grows H e ns e' new A" "agree_off B (e_cells e') c" "A \<subseteq> C" "B \<subseteq> C"
  shows "grows H e ns (e'\<lparr>e_cells := c\<rparr>) new C"
  using assms unfolding grows_def same_frame_def
  by (auto intro: agree_off_trans dest: agree_off_length)

text \<open>The source delivers the predecessors \<open>p\<close> of node \<open>i\<close>, all of them ids below \<open>n\<close>.\<close>

definition delivers :: "source \<Rightarrow> u64 list \<Rightarrow> nat \<Rightarrow> nat list \<Rightarrow> nat \<Rightarrow> bool" where
  "delivers src c i p n \<longleftrightarrow>
     (\<exists>x. src c i = Some (of_nat x, None) \<and> p = [x] \<and> x < n)
     \<or> (\<exists>u v. src c i = Some (of_nat u, Some (of_nat v)) \<and> p = [min u v, max u v] \<and> u < n \<and> v < n)"

lemma delivers_less: "delivers src c i p n \<Longrightarrow> x \<in> set p \<Longrightarrow> x < n"
  by (auto simp: delivers_def)

lemma delivers_mono: "delivers src c i p n \<Longrightarrow> n \<le> n' \<Longrightarrow> delivers src c i p n'"
  unfolding delivers_def by (metis (no_types, lifting) less_le_trans)

text \<open>It does so whatever the layer has already written to the cells in \<open>D\<close>.\<close>

definition feeds :: "source \<Rightarrow> u64 list \<Rightarrow> nat set \<Rightarrow> nat set \<Rightarrow> (nat \<Rightarrow> nat list) \<Rightarrow> nat \<Rightarrow> bool" where
  "feeds src c D I P n \<longleftrightarrow> (\<forall>c' i. agree_off D c c' \<longrightarrow> i \<in> I \<longrightarrow> delivers src c' i (P i) n)"

lemma feeds_later:
  "feeds src c D I P n \<Longrightarrow> agree_off D c c' \<Longrightarrow> J \<subseteq> I \<Longrightarrow> n \<le> n' \<Longrightarrow> feeds src c' D J P n'"
  unfolding feeds_def by (blast intro: agree_off_trans [OF _ _ subset_refl subset_refl] delivers_mono)

lemma feedsD: "feeds src c D I P n \<Longrightarrow> agree_off D c c' \<Longrightarrow> i \<in> I \<Longrightarrow> delivers src c' i (P i) n"
  by (simp add: feeds_def)

lemma deliver_cases:
  assumes "emits H e ns" "room e (Suc (length ns))" "delivers src (e_cells e) i p (length ns)"
  obtains p0 p1 e1 where "src (e_cells e) i = Some (p0, p1)"
    and "(case p1 of None \<Rightarrow> emit1 H e p0 | Some q \<Rightarrow> emit2 H e p0 q) = Some (of_nat (length ns), e1)"
    and "emits H e1 (ns @ [p])" "same_frame e e1" "e_cells e1 = e_cells e"
  using assms(3) unfolding delivers_def
proof (elim disjE exE conjE)
  fix x assume x: "src (e_cells e) i = Some (of_nat x, None)" "p = [x]" "x < length ns"
  show thesis using emit1_ok [OF assms(1,2) x(3)] x(1,2) that [of "of_nat x" None] by auto
next
  fix u v assume u: "src (e_cells e) i = Some (of_nat u, Some (of_nat v))" "p = [min u v, max u v]"
    "u < length ns" "v < length ns"
  show thesis using emit2_ok [OF assms(1,2) u(3,4)] u(1,2) that [of "of_nat u" "Some (of_nat v)"] by auto
qed

lemma edge_loop_ok:
  assumes "emits H e ns" "room e (length ns + k)" "dst + i + k \<le> length (e_cells e)"
    and "feeds src (e_cells e) D {i..<i + k} P (length ns)" "cells_of (dst + i) k \<subseteq> D"
  shows "\<exists>e'. edge_loop H src dst i k e = Some e'
    \<and> grows H e ns e' (map P [i..<i + k]) (cells_of (dst + i) k)
    \<and> rd (e_cells e') (dst + i) k = Some (map of_nat [length ns..<length ns + k])"
  using assms
proof (induction k arbitrary: i e ns)
  case 0
  then show ?case by (simp add: grows_def rd_def)
next
  case (Suc k)
  have rm: "room e (Suc (length ns))" using Suc.prems(2) by (rule room_mono) simp
  have "delivers src (e_cells e) i (P i) (length ns)"
    using Suc.prems(4) by (rule feedsD) auto
  then obtain p0 p1 e1 where src: "src (e_cells e) i = Some (p0, p1)"
    and e1: "(case p1 of None \<Rightarrow> emit1 H e p0 | Some q \<Rightarrow> emit2 H e p0 q) = Some (of_nat (length ns), e1)"
      "emits H e1 (ns @ [P i])" "same_frame e e1" "e_cells e1 = e_cells e"
    by (rule deliver_cases [OF Suc.prems(1) rm])
  obtain c where c: "st (e_cells e1) (dst + i) (of_nat (length ns)) = Some c"
    using st_ok [of "dst + i" "e_cells e1"] Suc.prems(3) e1(4) by auto
  let ?e2 = "e1\<lparr>e_cells := c\<rparr>"
  have ag: "agree_off {dst + i} (e_cells e) c" using st_agree [OF c] e1(4) by simp
  have g1: "grows H e ns ?e2 [P i] {dst + i}"
    using e1 ag by (auto simp: grows_def same_frame_def agree_off_def)
  have "\<exists>e'. edge_loop H src dst (Suc i) k ?e2 = Some e'
    \<and> grows H ?e2 (ns @ [P i]) e' (map P [Suc i..<Suc i + k]) (cells_of (dst + Suc i) k)
    \<and> rd (e_cells e') (dst + Suc i) k = Some (map of_nat [length (ns @ [P i])..<length (ns @ [P i]) + k])"
  proof (rule Suc.IH)
    show "emits H ?e2 (ns @ [P i])" using e1 by simp
    show "room ?e2 (length (ns @ [P i]) + k)" using grows_room [OF g1] Suc.prems(2) by simp
    show "dst + Suc i + k \<le> length (e_cells ?e2)" using Suc.prems(3) agree_off_length [OF ag] by simp
    show "feeds src (e_cells ?e2) D {Suc i..<Suc i + k} P (length (ns @ [P i]))"
      using Suc.prems(4) by (rule feeds_later) (use st_agree_in [OF c Suc.prems(5)] e1(4) in auto)
    show "cells_of (dst + Suc i) k \<subseteq> D" using Suc.prems(5) by auto
  qed
  then obtain e' where e': "edge_loop H src dst (Suc i) k ?e2 = Some e'"
      "grows H ?e2 (ns @ [P i]) e' (map P [Suc i..<Suc i + k]) (cells_of (dst + Suc i) k)"
      "rd (e_cells e') (dst + Suc i) k = Some (map of_nat [Suc (length ns)..<Suc (length ns) + k])"
    by auto
  have g: "grows H e ns e' ([P i] @ map P [Suc i..<Suc i + k]) (cells_of (dst + i) (Suc k))"
    by (rule grows_trans [OF g1 e'(2)]) auto
  have "dst + i < length c" using Suc.prems(3) agree_off_length [OF ag] by simp
  then have "ld c (dst + i) = Some (of_nat (length ns))" using c by (simp add: ld_def ld_st)
  then have "ld (e_cells e') (dst + i) = Some (of_nat (length ns))"
    using ld_frame [OF grows_cells [OF e'(2)], of "dst + i"] by simp
  then have "rd (e_cells e') (dst + i) 1 = Some [of_nat (length ns)]"
    by (auto simp: ld_def rd_Some_iff split: if_splits)
  from rd_join [OF this] e'(3) have "rd (e_cells e') (dst + i) (Suc k)
      = Some (of_nat (length ns) # map of_nat [Suc (length ns)..<Suc (length ns) + k])" by simp
  moreover note upt_add_Suc [of i k] upt_add_Suc [of "length ns" k]
  ultimately show ?case using src e1(1) c e'(1) g by (auto split: option.splits)
qed

text \<open>The inner batch loop: the ids it assigns and the predecessor ids it collects.\<close>

definition pair_of :: "nat list \<Rightarrow> u64 \<times> u64 option" where
  "pair_of p = (of_nat (p ! 0), (if length p = 1 then None else Some (of_nat (p ! 1))))"

lemma gather_ok:
  assumes "e_next_id e = of_nat n" "n + k < 2 ^ 64" "dst + i + k \<le> length (e_cells e)"
    and "feeds src (e_cells e) D {i..<i + k} P n0" "cells_of (dst + i) k \<subseteq> D" "n0 \<le> n"
  shows "\<exists>c. gather src dst i k e
      = Some (map (\<lambda>j. (of_nat (n + j), pair_of (P (i + j)))) [0..<k],
              e\<lparr>e_next_id := of_nat (n + k), e_cells := c\<rparr>)
    \<and> agree_off (cells_of (dst + i) k) (e_cells e) c
    \<and> rd c (dst + i) k = Some (map of_nat [n..<n + k])"
  using assms
proof (induction k arbitrary: i e n)
  case 0
  then show ?case by (intro exI [of _ "e_cells e"]) (auto simp: rd_def)
next
  case (Suc k)
  obtain c where c: "st (e_cells e) (dst + i) (of_nat n) = Some c"
    using st_ok [of "dst + i" "e_cells e"] Suc.prems(3) by auto
  let ?e = "e\<lparr>e_next_id := of_nat (Suc n), e_cells := c\<rparr>"
  have ag: "agree_off {dst + i} (e_cells e) c" by (rule st_agree [OF c])
  have agD: "agree_off D (e_cells e) c" by (rule st_agree_in [OF c Suc.prems(5)])
  have dl: "delivers src c i (P i) n0"
    using Suc.prems(4) agD by (rule feedsD) simp
  have lt: "x < 2 ^ 64" if "x \<in> set (P i)" for x
    using delivers_less [OF dl that] Suc.prems(2,6) by linarith
  have "\<exists>c'. gather src dst (Suc i) k ?e
      = Some (map (\<lambda>j. (of_nat (Suc n + j), pair_of (P (Suc i + j)))) [0..<k],
              ?e\<lparr>e_next_id := of_nat (Suc n + k), e_cells := c'\<rparr>)
    \<and> agree_off (cells_of (dst + Suc i) k) (e_cells ?e) c'
    \<and> rd c' (dst + Suc i) k = Some (map of_nat [Suc n..<Suc n + k])"
  proof (rule Suc.IH)
    show "feeds src (e_cells ?e) D {Suc i..<Suc i + k} P n0"
      using Suc.prems(4) by (rule feeds_later) (use agD in auto)
  qed (use Suc.prems agree_off_length [OF ag] in auto)
  then obtain c' where c': "gather src dst (Suc i) k ?e
      = Some (map (\<lambda>j. (of_nat (Suc n + j), pair_of (P (Suc i + j)))) [0..<k],
              ?e\<lparr>e_next_id := of_nat (Suc n + k), e_cells := c'\<rparr>)"
    "agree_off (cells_of (dst + Suc i) k) c c'"
    "rd c' (dst + Suc i) k = Some (map of_nat [Suc n..<Suc n + k])" by auto
  have "\<exists>p0 p1. src c i = Some (p0, p1) \<and> (case p1 of None \<Rightarrow> (p0, None)
        | Some q \<Rightarrow> (let (a, b) = canon p0 q in (a, Some b))) = pair_of (P i)" (is "\<exists>p0 p1. ?Q p0 p1")
    using dl lt unfolding delivers_def
  proof (elim disjE exE conjE)
    fix u v assume u: "src c i = Some (of_nat u, Some (of_nat v))" "P i = [min u v, max u v]"
    then have "u < 2 ^ 64" "v < 2 ^ 64" using lt [of "min u v"] lt [of "max u v"] by auto
    then show ?thesis using u by (simp add: canon_of_nat pair_of_def)
  qed (simp add: pair_of_def)
  then obtain p0 p1 where src: "?Q p0 p1" by blast
  have nx: "(of_nat n :: u64) + 1 = of_nat (Suc n)" by simp
  have "gather src dst i (Suc k) e = Some ((of_nat n, pair_of (P i))
      # map (\<lambda>j. (of_nat (Suc n + j), pair_of (P (Suc i + j)))) [0..<k],
      e\<lparr>e_next_id := of_nat (Suc n + k), e_cells := c'\<rparr>)"
    using c c'(1) src Suc.prems(1) nx by (simp add: Let_def del: of_nat_Suc of_nat_add)
  moreover have "map (\<lambda>j. (of_nat (n + j) :: u64, pair_of (P (i + j)))) [0..<Suc k]
      = (of_nat n, pair_of (P i)) # map (\<lambda>j. (of_nat (Suc n + j), pair_of (P (Suc i + j)))) [0..<k]"
    by (simp only: upt_zero_Suc list.map map_map comp_def add_Suc add_Suc_right add_0_right)
  moreover have "agree_off (cells_of (dst + i) (Suc k)) (e_cells e) c'"
    using ag c'(2) by (rule agree_off_trans) auto
  moreover have "rd c' (dst + i) (Suc k) = Some (map of_nat [n..<n + Suc k])"
  proof -
    have "dst + i < length c" using Suc.prems(3) agree_off_length [OF ag] by simp
    then have "ld c' (dst + i) = Some (of_nat n)"
      using ld_frame [OF c'(2), of "dst + i"] c by (simp add: ld_def ld_st)
    then have "rd c' (dst + i) 1 = Some [of_nat n]"
      by (auto simp: ld_def rd_Some_iff split: if_splits)
    from rd_join [OF this] c'(3) show ?thesis unfolding upt_add_Suc by simp
  qed
  ultimately show ?case by (intro exI [of _ c']) (simp only: add_Suc_right add_Suc simp_thms)
qed

text \<open>The cells at \<open>p\<close> hold the ids \<open>xs\<close>.\<close>

definition ids_at :: "u64 list \<Rightarrow> nat \<Rightarrow> nat list \<Rightarrow> bool" where
  "ids_at c p xs \<longleftrightarrow> rd c p (length xs) = Some (map of_nat xs)"

lemma ids_at_ld: "ids_at c p xs \<Longrightarrow> i < length xs \<Longrightarrow> ld c (p + i) = Some (of_nat (xs ! i))"
  by (simp add: ids_at_def ld_of_rd)

lemma ids_at_frame:
  "agree_off D c c' \<Longrightarrow> ids_at c p xs \<Longrightarrow> cells_of p (length xs) \<inter> D = {} \<Longrightarrow> ids_at c' p xs"
  by (simp add: ids_at_def rd_frame)

lemma ids_at_ld_frame:
  "ids_at c p xs \<Longrightarrow> agree_off D c c' \<Longrightarrow> cells_of p (length xs) \<inter> D = {} \<Longrightarrow> i < length xs
    \<Longrightarrow> ld c' (p + i) = Some (of_nat (xs ! i))"
  by (rule ids_at_ld [OF ids_at_frame])

lemma ids_at_split: "ids_at c p (xs @ ys) \<Longrightarrow> ids_at c p xs \<and> ids_at c (p + length xs) ys"
  unfolding ids_at_def length_append by (drule rd_split) simp

lemma ids_at_append: "ids_at c p xs \<Longrightarrow> ids_at c (p + length xs) ys \<Longrightarrow> ids_at c p (xs @ ys)"
  by (simp add: ids_at_def rd_join)

lemma ids_at_bound: "ids_at c p xs \<Longrightarrow> p + length xs \<le> length c"
  by (auto simp: ids_at_def dest: rd_bound)

context node_hash begin

lemma batch_ok:
  assumes em: "emits H e ns" and lab: "e_labels e \<noteq> None" and rm: "room e (length ns + k)"
    and k: "k \<le> POSE_LABEL_BATCH" and dst: "dst + i + k \<le> length (e_cells e)"
    and fd: "feeds src (e_cells e) D {i..<i + k} P (length ns)" and D: "cells_of (dst + i) k \<subseteq> D"
    and two: "\<forall>j\<in>{i..<i + k}. length (P j) = (if two then 2 else 1)"
  shows "\<exists>gs e1 pred0s pred1s e2. gather src dst i k e = Some (gs, e1)
    \<and> those (map (\<lambda>(nid, p0, p1). map_option Some (label_of e1 p0)) gs) = Some pred0s
    \<and> (if two then map_option Some (those (map (\<lambda>(nid, p0, p1).
              case p1 of None \<Rightarrow> Some None | Some q \<Rightarrow> map_option Some (label_of e1 q)) gs))
       else Some None) = Some pred1s
    \<and> store_labels e1 (e_next_id e)
         (label_node_many H False (map fst gs) (Some pred0s) pred1s (e_seed e1) (e_desc e1) (e_algo e1)) = Some e2
    \<and> grows H e ns e2 (map P [i..<i + k]) (cells_of (dst + i) k)
    \<and> rd (e_cells e2) (dst + i) k = Some (map of_nat [length ns..<length ns + k])"
proof -
  let ?n = "length ns" and ?h = "e_hash H e"
  let ?l = "\<lambda>x. labels_of ?h ns ! x"
  obtain L where L: "e_labels e = Some L" using lab by blast
  have nid: "e_next_id e = of_nat ?n" and n64: "?n + k < 2 ^ 64" and N: "e_nodes e = None"
    and len: "?n + k \<le> length L" and tk: "take ?n L = labels_of ?h ns"
    using em rm L by (auto simp: emits_def room_def)
  obtain c where g: "gather src dst i k e
      = Some (map (\<lambda>j. (of_nat (?n + j), pair_of (P (i + j)))) [0..<k],
              e\<lparr>e_next_id := of_nat (?n + k), e_cells := c\<rparr>)"
    and c: "agree_off (cells_of (dst + i) k) (e_cells e) c" "rd c (dst + i) k = Some (map of_nat [?n..<?n + k])"
    using gather_ok [OF nid n64 dst fd D] by auto
  let ?e1 = "e\<lparr>e_next_id := of_nat (?n + k), e_cells := c\<rparr>"
  have less: "\<forall>x\<in>set (P (i + j)). x < ?n" if "j < k" for j
    using feedsD [OF fd agree_off_refl, of "i + j"] that by (auto dest: delivers_less)
  have lo: "label_of ?e1 (of_nat x) = Some (?l x)" if "x < ?n" for x
    using label_of_emitted [OF em that _ lab] n64 by (simp add: label_of_def)
  have at: "P (i + j) ! 0 < ?n \<and> (two \<longrightarrow> P (i + j) ! 1 < ?n) \<and> length (P (i + j)) = (if two then 2 else 1)"
    if "j < k" for j
    using less [OF that] two [rule_format, of "i + j"] that by (auto split: if_splits)
  let ?p0 = "map (\<lambda>j. Some (?l (P (i + j) ! 0))) [0..<k]" and ?p1 = "map (\<lambda>j. Some (?l (P (i + j) ! 1))) [0..<k]"
  have p0: "those (map (\<lambda>(nid, p0, p1). map_option Some (label_of ?e1 p0))
      (map (\<lambda>j. (of_nat (?n + j), pair_of (P (i + j)))) [0..<k])) = Some ?p0"
    unfolding map_map by (rule those_map_Some) (use at lo in \<open>auto simp: pair_of_def\<close>)
  have p1: "those (map (\<lambda>(nid, p0, p1). case p1 of None \<Rightarrow> Some None | Some q \<Rightarrow> map_option Some (label_of ?e1 q))
      (map (\<lambda>j. (of_nat (?n + j), pair_of (P (i + j)))) [0..<k])) = Some ?p1" if two
    unfolding map_map by (rule those_map_Some) (use at lo that in \<open>auto simp: pair_of_def\<close>)
  let ?new = "map (\<lambda>j. ?h (?n + j) (map ?l (P (i + j)))) [0..<k]"
  have fst: "map fst (map (\<lambda>j. (of_nat (?n + j), pair_of (P (i + j)))) [0..<k]) = map (\<lambda>j. of_nat (?n + j)) [0..<k]"
    by simp
  have many: "label_node_many H False (map (\<lambda>j. of_nat (?n + j)) [0..<k]) (Some ?p0)
      (if two then Some ?p1 else None) (e_seed e) (e_desc e) (e_algo e) = ?new"
  proof (cases two)
    case True
    have "map ?l (P (i + j)) = [?l (P (i + j) ! 0), ?l (P (i + j) ! 1)]" if "j < k" for j
      using at [OF that] True by (cases "P (i + j)" rule: list.exhaust) (auto simp: length_Suc_conv)
    then show ?thesis using True many_two [OF k] by (simp add: e_hash_def)
  next
    case False
    have "map ?l (P (i + j)) = [?l (P (i + j) ! 0)]" if "j < k" for j
      using at [OF that] False by (auto simp: length_Suc_conv)
    then show ?thesis using False many_one [OF k] by (simp add: e_hash_def)
  qed
  let ?L = "take ?n L @ ?new @ drop (?n + k) L"
  let ?e2 = "?e1\<lparr>e_labels := Some ?L\<rparr>"
  have st: "store_labels ?e1 (e_next_id e) ?new = Some ?e2"
    using L len n64 nid by (simp add: store_labels_def wr_def unat_of_nat_u64)
  have "labels_of ?h (ns @ map P [i..<i + k]) = labels_of ?h ns
      @ map (\<lambda>j. ?h (?n + j) (map ?l (map P [i..<i + k] ! j))) [0..<length (map P [i..<i + k])]"
    by (rule labels_of_layer) (use less in \<open>auto simp: le_iff_add\<close>)
  also have "\<dots> = take ?n L @ ?new" using tk by (auto intro!: map_cong)
  finally have ls: "labels_of ?h (ns @ map P [i..<i + k]) = take ?n L @ ?new" .
  have "e_hash H ?e2 = ?h" by (simp add: e_hash_def)
  then have "emits H ?e2 (ns @ map P [i..<i + k])"
    using ls len N by (simp add: emits_def)
  moreover have "same_frame e ?e2"
    using L len agree_off_length [OF c(1)] by (simp add: same_frame_def)
  ultimately have "grows H e ns ?e2 (map P [i..<i + k]) (cells_of (dst + i) k)"
    using c(1) by (simp add: grows_def)
  moreover have "store_labels ?e1 (e_next_id e) (label_node_many H False
      (map fst (map (\<lambda>j. (of_nat (?n + j), pair_of (P (i + j)))) [0..<k])) (Some ?p0)
      (if two then Some ?p1 else None) (e_seed ?e1) (e_desc ?e1) (e_algo ?e1)) = Some ?e2"
    unfolding fst using st many by simp
  moreover have "(if two then map_option Some (those (map (\<lambda>(nid, p0, p1).
        case p1 of None \<Rightarrow> Some None | Some q \<Rightarrow> map_option Some (label_of ?e1 q))
        (map (\<lambda>j. (of_nat (?n + j), pair_of (P (i + j)))) [0..<k])))
      else Some None) = Some (if two then Some ?p1 else None)"
    by (cases two) (simp_all only: p1 if_True if_False option.map)
  moreover have "rd (e_cells ?e2) (dst + i) k = Some (map of_nat [?n..<?n + k])" using c(2) by simp
  ultimately show ?thesis using g p0 by blast
qed

lemma batch_loop_ok:
  assumes "emits H e ns" "e_labels e \<noteq> None" "room e (length ns + (w - i))" "i \<le> w" "dst + w \<le> length (e_cells e)"
    and "feeds src (e_cells e) D {i..<w} P (length ns)" "cells_of (dst + i) (w - i) \<subseteq> D"
    and "\<forall>j\<in>{i..<w}. length (P j) = (if two then 2 else 1)"
  shows "\<exists>e'. batch_loop H src two dst w i e = Some e'
    \<and> grows H e ns e' (map P [i..<w]) (cells_of (dst + i) (w - i))
    \<and> rd (e_cells e') (dst + i) (w - i) = Some (map of_nat [length ns..<length ns + (w - i)])"
  using assms
proof (induction "w - i" arbitrary: i e ns rule: less_induct)
  case less
  show ?case
  proof (cases "i < w")
    case False
    then show ?thesis using less.prems(1,4,5)
      by (subst batch_loop.simps) (simp add: grows_def rd_def)
  next
    case True
    define k where "k = (if w - i < POSE_LABEL_BATCH then w - i else POSE_LABEL_BATCH)"
    have k: "0 < k" "k \<le> POSE_LABEL_BATCH" "i + k \<le> w"
      using True by (auto simp: k_def POSE_LABEL_BATCH_def)
    have fd: "feeds src (e_cells e) D {i..<i + k} P (length ns)"
      using less.prems(6) by (rule feeds_later) (use k(3) in auto)
    have rm: "room e (length ns + k)" using less.prems(3) by (rule room_mono) (use k in simp)
    have sub: "cells_of (dst + i) k \<subseteq> cells_of (dst + i) (w - i)"
      "cells_of (dst + (i + k)) (w - (i + k)) \<subseteq> cells_of (dst + i) (w - i)"
      using k by auto
    obtain gs e1 pred0s pred1s e2 where b: "gather src dst i k e = Some (gs, e1)"
      "those (map (\<lambda>(nid, p0, p1). map_option Some (label_of e1 p0)) gs) = Some pred0s"
      "(if two then map_option Some (those (map (\<lambda>(nid, p0, p1).
              case p1 of None \<Rightarrow> Some None | Some q \<Rightarrow> map_option Some (label_of e1 q)) gs))
       else Some None) = Some pred1s"
      "store_labels e1 (e_next_id e)
         (label_node_many H False (map fst gs) (Some pred0s) pred1s (e_seed e1) (e_desc e1) (e_algo e1)) = Some e2"
      and g: "grows H e ns e2 (map P [i..<i + k]) (cells_of (dst + i) k)"
      and r: "rd (e_cells e2) (dst + i) k = Some (map of_nat [length ns..<length ns + k])"
      using batch_ok [OF less.prems(1,2) rm k(2) _ fd, of dst two] less.prems(5,7,8) k(3) sub(1) by fastforce
    have ag: "agree_off D (e_cells e) (e_cells e2)"
      using grows_cells [OF g] by (rule agree_off_mono) (use sub(1) less.prems(7) in blast)
    have "\<exists>e'. batch_loop H src two dst w (i + k) e2 = Some e'
      \<and> grows H e2 (ns @ map P [i..<i + k]) e' (map P [i + k..<w]) (cells_of (dst + (i + k)) (w - (i + k)))
      \<and> rd (e_cells e') (dst + (i + k)) (w - (i + k))
          = Some (map of_nat [length (ns @ map P [i..<i + k])..<length (ns @ map P [i..<i + k]) + (w - (i + k))])"
    proof (rule less.hyps)
      show "w - (i + k) < w - i" using True k(1) by simp
      show "emits H e2 (ns @ map P [i..<i + k])" by (rule grows_emits [OF g])
      show "e_labels e2 \<noteq> None" using same_frame_labels [OF grows_frame [OF g]] less.prems(2) by simp
      show "room e2 (length (ns @ map P [i..<i + k]) + (w - (i + k)))"
        using grows_room [OF g] less.prems(3) k(3) by simp
      show "dst + w \<le> length (e_cells e2)" using less.prems(5) grows_length [OF g] by simp
      show "feeds src (e_cells e2) D {i + k..<w} P (length (ns @ map P [i..<i + k]))"
        using less.prems(6) ag by (rule feeds_later) auto
    qed (use k(3) sub(2) less.prems(7,8) in auto)
    then obtain e' where e': "batch_loop H src two dst w (i + k) e2 = Some e'"
      and g': "grows H e2 (ns @ map P [i..<i + k]) e' (map P [i + k..<w]) (cells_of (dst + (i + k)) (w - (i + k)))"
      and r': "rd (e_cells e') (dst + i + k) (w - (i + k)) = Some (map of_nat [length ns + k..<length ns + (w - i)])"
      using k(3) by (auto simp: add.assoc)
    have gg: "grows H e ns e' (map P [i..<i + k] @ map P [i + k..<w]) (cells_of (dst + i) (w - i))"
      using g g' sub by (rule grows_trans)
    have "cells_of (dst + i) k \<inter> cells_of (dst + (i + k)) (w - (i + k)) = {}" by auto
    from rd_join [OF rd_frame [OF grows_cells [OF g'] this r] r']
    have "rd (e_cells e') (dst + i) (w - i) = Some (map of_nat [length ns..<length ns + (w - i)])"
      using k(3) by (simp add: map_upt_join)
    moreover have "batch_loop H src two dst w i e = Some e'"
      using True b e' by (subst batch_loop.simps) (simp add: Let_def flip: k_def)
    ultimately show ?thesis using gg k(3) by (simp add: map_upt_join)
  qed
qed

lemma emit_layer_ok:
  assumes "emits H e ns" "room e (length ns + w)" "dst + w \<le> length (e_cells e)"
    and "feeds src (e_cells e) (cells_of dst w) {0..<w} P (length ns)"
    and "\<forall>j<w. length (P j) = (if two then 2 else 1)"
  shows "\<exists>e'. emit_layer H src two dst w e = Some e'
    \<and> grows H e ns e' (map P [0..<w]) (cells_of dst w)
    \<and> ids_at (e_cells e') dst [length ns..<length ns + w]"
  using batch_loop_ok [of e ns w 0 dst src "cells_of dst w" P two]
    edge_loop_ok [of H e ns w dst 0 src "cells_of dst w" P] assms
  by (cases "e_labels e = None") (auto simp: emit_layer_def ids_at_def)

end

subsection \<open>Layer sources\<close>

lemma feeds_one:
  assumes "ids_at c p ins" "length ins = w" "cells_of p w \<inter> D = {}" "\<forall>x\<in>set ins. x < n"
  shows "feeds (src_one p) c D {0..<w} (\<lambda>i. [ins ! i]) n"
  using assms by (auto simp: feeds_def delivers_def src_one_def ids_at_ld_frame [OF assms(1)])

lemma feeds_two:
  assumes "ids_at c p ins" "length ins = w" "cells_of p w \<inter> D = {}" "\<forall>x\<in>set ins. x < n"
    and "ids_at c q jns" "length jns = w" "cells_of q w \<inter> D = {}" "\<forall>x\<in>set jns. x < n"
  shows "feeds (src_two p q) c D {0..<w} (\<lambda>i. [min (ins ! i) (jns ! i), max (ins ! i) (jns ! i)]) n"
  using assms
  by (fastforce simp: feeds_def delivers_def src_two_def ids_at_ld_frame [OF assms(1)] ids_at_ld_frame [OF assms(5)])

lemma feeds_xor:
  assumes "ids_at c p [s..<s + 2 ^ d]" "cells_of p (2 ^ d) \<inter> D = {}" "k < d" "s + 2 ^ d \<le> n"
  shows "feeds (src_xor p (2 ^ k)) c D {0..<2 ^ d}
    (\<lambda>i. [min (s + i) (s + (i XOR 2 ^ k)), max (s + i) (s + (i XOR 2 ^ k))]) n"
  unfolding feeds_def
proof (intro allI impI)
  fix c' i assume ag: "agree_off D c c'" and i: "i \<in> {0..<(2::nat) ^ d}"
  have fl: "i XOR 2 ^ k < 2 ^ d" using i assms(3) by (simp add: flip_less)
  have "ld c' (p + i) = Some (of_nat (s + i))" "ld c' (p + (i XOR 2 ^ k)) = Some (of_nat (s + (i XOR 2 ^ k)))"
    using i fl ids_at_ld_frame [OF assms(1) ag, of i] ids_at_ld_frame [OF assms(1) ag, of "i XOR 2 ^ k"] assms(2)
    by simp_all
  then show "delivers (src_xor p (2 ^ k)) c' i [min (s + i) (s + (i XOR 2 ^ k)), max (s + i) (s + (i XOR 2 ^ k))] n"
    unfolding delivers_def src_xor_def using i fl assms(4)
    by (intro disjI2 exI [of _ "s + i"] exI [of _ "s + (i XOR 2 ^ k)"]) auto
qed

end
