(* ===== verification/Emitter_Graph.thy ===== *)
theory Emitter_Graph
  imports Emitter_Correct
begin

section \<open>The emitted components are the abstract components\<close>

text \<open>
  From one layer to the whole standalone graph: each recursive operation of theory \<open>Emitter\<close>
  succeeds with an arena of the stated size, emits the nodes of the component of the same name
  in theory \<open>Graph_Spec\<close>, and leaves the ids of its outputs in the output array.
\<close>

subsection \<open>Arena\<close>

text \<open>The cells an operation may take from the arena: \<open>k\<close> of them above the bump offset.\<close>

abbreviation above :: "emitter \<Rightarrow> nat \<Rightarrow> nat set" where
  "above e k \<equiv> cells_of (e_arena e + e_arena_off e) k"

abbreviation fits :: "emitter \<Rightarrow> nat \<Rightarrow> bool" where
  "fits e k \<equiv> e_arena e + e_arena_off e + k \<le> length (e_cells e)"

lemma grows_off:
  "grows H (e\<lparr>e_arena_off := x\<rparr>) ns e' new A \<Longrightarrow> grows H e ns (e'\<lparr>e_arena_off := e_arena_off e\<rparr>) new A"
  by (simp add: grows_def same_frame_def)

lemma grows_arena:
  assumes "grows H e ns e' new A"
  shows "e_arena e' = e_arena e" "e_arena_off e' = e_arena_off e" "length (e_cells e') = length (e_cells e)"
  using assms by (auto simp: grows_def same_frame_def)

lemma copy_cells_ok:
  assumes "ids_at (e_cells e) src xs" "emits H e ns" "dst + length xs \<le> length (e_cells e)"
    and "dst + length xs \<le> src \<or> src + length xs \<le> dst"
  shows "\<exists>e'. copy_cells e dst src (length xs) = Some e' \<and> grows H e ns e' [] (cells_of dst (length xs))
    \<and> ids_at (e_cells e') dst xs"
proof -
  obtain c where c: "wr (e_cells e) dst (map of_nat xs) = Some c"
    using wr_ok [of dst "map of_nat xs" "e_cells e"] assms(3) by auto
  then have "agree_off (cells_of dst (length xs)) (e_cells e) c" "ids_at c dst xs"
    using wr_agree [OF c] rd_wr [OF c] by (simp_all add: ids_at_def)
  then show ?thesis using assms c
    by (intro exI [of _ "e\<lparr>e_cells := c\<rparr>"])
      (auto simp: copy_cells_def ids_at_def grows_def same_frame_def dest: agree_off_length)
qed

text \<open>How many cells each operation takes from the arena at its peak.\<close>

definition need_connector :: "nat \<Rightarrow> nat" where "need_connector d = 2 * 2 ^ d"

definition need_mci :: "nat \<Rightarrow> nat" where "need_mci d = (if d = 0 then 0 else 4 * 2 ^ d)"

fun need_connected :: "nat \<Rightarrow> nat" where
  "need_connected 0 = 0"
| "need_connected (Suc l) = 3 * 2 ^ l + max (need_connected l) (need_mci l)"

fun need_standalone :: "nat \<Rightarrow> nat" where
  "need_standalone 0 = 0"
| "need_standalone (Suc l) =
     3 * 2 ^ l + max (need_standalone l) (max (need_connector l) (need_connected l))"

lemma apart: "0 < n \<Longrightarrow> cells_of a n \<inter> cells_of b n = {} \<Longrightarrow> a + n \<le> b \<or> b + n \<le> (a :: nat)"
  by auto

text \<open>The two copies that end both recursive operations.\<close>

lemma base_copies_ok:
  assumes "emits H e ns" "ids_at (e_cells e) a xs" "ids_at (e_cells e) b ys" "length xs = h" "length ys = h" "0 < h"
    and "base_out + 2 * h \<le> length (e_cells e)"
    and "cells_of base_out (2 * h) \<inter> cells_of a h = {}" "cells_of base_out (2 * h) \<inter> cells_of b h = {}"
  shows "\<exists>e1 e2. copy_cells e base_out a h = Some e1 \<and> copy_cells e1 (base_out + h) b h = Some e2
    \<and> grows H e ns e2 [] (cells_of base_out (2 * h)) \<and> ids_at (e_cells e2) base_out (xs @ ys)"
proof -
  have "base_out + h \<le> a \<or> a + h \<le> base_out" using assms(6,8) by auto
  then obtain e1 where e1: "copy_cells e base_out a h = Some e1" "grows H e ns e1 [] (cells_of base_out h)"
    "ids_at (e_cells e1) base_out xs"
    using copy_cells_ok [OF assms(2,1), of base_out] assms(4,7) by auto
  have "cells_of b (length ys) \<inter> cells_of base_out h = {}" using assms(5,9) by auto
  then have b1: "ids_at (e_cells e1) b ys" by (rule ids_at_frame [OF grows_cells [OF e1(2)] assms(3)])
  have "base_out + h + h \<le> b \<or> b + h \<le> base_out + h" using assms(6,9) by auto
  then obtain e2 where e2: "copy_cells e1 (base_out + h) b h = Some e2"
    "grows H e1 ns e2 [] (cells_of (base_out + h) h)" "ids_at (e_cells e2) (base_out + h) ys"
    using copy_cells_ok [OF b1, of H ns "base_out + h"] e1(2) grows_emits [OF e1(2)] grows_length [OF e1(2)] assms(5,7)
    by auto
  have g: "grows H e ns e2 ([] @ []) (cells_of base_out (2 * h))"
    by (rule grows_trans [OF e1(2)]) (use e2(2) in auto)
  have "ids_at (e_cells e2) base_out xs"
    by (rule ids_at_frame [OF grows_cells [OF e2(2)] e1(3)]) (use assms(4) in auto)
  then show ?thesis using e1(1) e2(1,3) g ids_at_append assms(4) by auto
qed

lemma apart_sub: "A \<inter> B = {} \<Longrightarrow> C \<subseteq> B \<Longrightarrow> A \<inter> C = {}"
  by blast

subsection \<open>Butterflies\<close>

lemma xor_layer_length: "\<forall>j<w. length [min (p + j) (p + (j XOR b)), max (p + j) (p + (j XOR b))] = (if True then 2 else 1)"
  by simp

context node_hash begin

lemma xor_layer_ok:
  assumes "emits H e ns" "room e (length ns + 2 ^ d)" "k < d"
    and "ids_at (e_cells e) prev [p..<p + 2 ^ d]" "p + 2 ^ d \<le> length ns"
    and "dst + 2 ^ d \<le> length (e_cells e)" "cells_of prev (2 ^ d) \<inter> cells_of dst (2 ^ d) = {}"
  shows "\<exists>e'. emit_layer H (src_xor prev (2 ^ k)) True dst (2 ^ d) e = Some e'
    \<and> grows H e ns e' (xor_layer (2 ^ d) p (2 ^ k)) (cells_of dst (2 ^ d))
    \<and> ids_at (e_cells e') dst [length ns..<length ns + 2 ^ d]"
  unfolding xor_layer_def
  by (rule emit_layer_ok [OF assms(1,2,6) feeds_xor [OF assms(4,7,3,5)] xor_layer_length])

lemma butterfly_loop_ok:
  assumes "emits H e ns" "room e (length ns + k * 2 ^ d)" "layer + k = d"
    and "ids_at (e_cells e) prev [p..<p + 2 ^ d]" "p + 2 ^ d = length ns"
    and "cur + 2 ^ d \<le> length (e_cells e)" "cells_of prev (2 ^ d) \<inter> cells_of cur (2 ^ d) = {}"
  shows "\<exists>top e'. butterfly_loop H d layer prev cur e = Some (top, e') \<and> top \<in> {prev, cur}
    \<and> grows H e ns e' (butterfly_layers (2 ^ d) k p) (cells_of prev (2 ^ d) \<union> cells_of cur (2 ^ d))
    \<and> ids_at (e_cells e') top [p + k * 2 ^ d..<p + k * 2 ^ d + 2 ^ d]"
  using assms
proof (induction k arbitrary: layer prev cur p ns e)
  case 0
  then show ?case by (subst butterfly_loop.simps) (simp add: grows_def)
next
  case (Suc k)
  have rm: "room e (length ns + 2 ^ d)" using Suc.prems(2) by (rule room_mono) simp
  obtain e1 where e1: "emit_layer H (src_xor prev (2 ^ k)) True cur (2 ^ d) e = Some e1"
    and g1: "grows H e ns e1 (xor_layer (2 ^ d) p (2 ^ k)) (cells_of cur (2 ^ d))"
    and i1: "ids_at (e_cells e1) cur [length ns..<length ns + 2 ^ d]"
    using xor_layer_ok [OF Suc.prems(1) rm _ Suc.prems(4) _ Suc.prems(6,7), of k] Suc.prems(3,5) by auto
  let ?ns = "ns @ xor_layer (2 ^ d) p (2 ^ k)"
  have "prev + 2 ^ d \<le> length (e_cells e1)"
    using ids_at_bound [OF Suc.prems(4)] grows_length [OF g1] by simp
  moreover have "room e1 (length ?ns + k * 2 ^ d)" using grows_room [OF g1] Suc.prems(2) by (simp add: algebra_simps)
  ultimately have "\<exists>top e'. butterfly_loop H d (Suc layer) cur prev e1 = Some (top, e') \<and> top \<in> {cur, prev}
    \<and> grows H e1 ?ns e' (butterfly_layers (2 ^ d) k (p + 2 ^ d)) (cells_of cur (2 ^ d) \<union> cells_of prev (2 ^ d))
    \<and> ids_at (e_cells e') top [p + 2 ^ d + k * 2 ^ d..<p + 2 ^ d + k * 2 ^ d + 2 ^ d]"
    using Suc.prems i1 grows_emits [OF g1] by (intro Suc.IH) (auto simp: Int_commute)
  then obtain top e' where e': "butterfly_loop H d (Suc layer) cur prev e1 = Some (top, e')" "top \<in> {cur, prev}"
    "grows H e1 ?ns e' (butterfly_layers (2 ^ d) k (p + 2 ^ d)) (cells_of cur (2 ^ d) \<union> cells_of prev (2 ^ d))"
    "ids_at (e_cells e') top [p + 2 ^ d + k * 2 ^ d..<p + 2 ^ d + k * 2 ^ d + 2 ^ d]" by blast
  have "grows H e ns e' (xor_layer (2 ^ d) p (2 ^ k) @ butterfly_layers (2 ^ d) k (p + 2 ^ d))
      (cells_of prev (2 ^ d) \<union> cells_of cur (2 ^ d))"
    using g1 e'(3) by (rule grows_trans) auto
  moreover have "d - 1 - layer = k" "layer < d" using Suc.prems(3) by auto
  then have "butterfly_loop H d layer prev cur e = Some (top, e')"
    using e1 e'(1) by (subst butterfly_loop.simps) simp
  ultimately show ?case using e'(2,4) by (auto simp: algebra_simps)
qed

text \<open>Layer 0 of a butterfly over the ids \<open>ins\<close>, then its \<open>d\<close> layers.\<close>

lemma butterfly_ok:
  assumes "emits H e ns" "room e (length ns + bcount d)"
    and "ids_at (e_cells e) inputs ins" "length ins = 2 ^ d" "\<forall>x\<in>set ins. x < length ns"
    and "prev + 2 ^ d \<le> length (e_cells e)" "cur + 2 ^ d \<le> length (e_cells e)"
    and "cells_of prev (2 ^ d) \<inter> cells_of cur (2 ^ d) = {}" "cells_of inputs (2 ^ d) \<inter> cells_of prev (2 ^ d) = {}"
  shows "\<exists>e1 top e'. emit_layer H (src_one inputs) False prev (2 ^ d) e = Some e1
    \<and> butterfly_loop H d 0 prev cur e1 = Some (top, e') \<and> top \<in> {prev, cur}
    \<and> grows H e ns e' (connector_nodes d (length ns) ins) (cells_of prev (2 ^ d) \<union> cells_of cur (2 ^ d))
    \<and> ids_at (e_cells e') top (connector_out d (length ns))"
proof -
  have rm: "room e (length ns + 2 ^ d)" using assms(2) by (rule room_mono) (simp add: bcount_def)
  have "map (\<lambda>i. [ins ! i]) [0..<2 ^ d] = map (\<lambda>x. [x]) ins"
    using assms(4) by (simp add: list_eq_iff_nth_eq)
  then obtain e1 where e1: "emit_layer H (src_one inputs) False prev (2 ^ d) e = Some e1"
    and g1: "grows H e ns e1 (map (\<lambda>x. [x]) ins) (cells_of prev (2 ^ d))"
    and i1: "ids_at (e_cells e1) prev [length ns..<length ns + 2 ^ d]"
    using emit_layer_ok [OF assms(1) rm assms(6) feeds_one [OF assms(3,4) assms(9) assms(5)], of False] by auto
  let ?ns = "ns @ map (\<lambda>x. [x]) ins"
  have "\<exists>top e'. butterfly_loop H d 0 prev cur e1 = Some (top, e') \<and> top \<in> {prev, cur}
    \<and> grows H e1 ?ns e' (butterfly_layers (2 ^ d) d (length ns)) (cells_of prev (2 ^ d) \<union> cells_of cur (2 ^ d))
    \<and> ids_at (e_cells e') top [length ns + d * 2 ^ d..<length ns + d * 2 ^ d + 2 ^ d]"
  proof (rule butterfly_loop_ok)
    show "room e1 (length ?ns + d * 2 ^ d)"
      using grows_room [OF g1] assms(2,4) by (simp add: bcount_def algebra_simps)
  qed (use assms i1 grows_emits [OF g1] grows_length [OF g1] in auto)
  then obtain top e' where e': "butterfly_loop H d 0 prev cur e1 = Some (top, e')" "top \<in> {prev, cur}"
    "grows H e1 ?ns e' (butterfly_layers (2 ^ d) d (length ns)) (cells_of prev (2 ^ d) \<union> cells_of cur (2 ^ d))"
    "ids_at (e_cells e') top [length ns + d * 2 ^ d..<length ns + d * 2 ^ d + 2 ^ d]" by blast
  have "grows H e ns e' (connector_nodes d (length ns) ins) (cells_of prev (2 ^ d) \<union> cells_of cur (2 ^ d))"
    unfolding connector_nodes_def using g1 e'(3) by (rule grows_trans) auto
  moreover have "connector_out d (length ns) = [length ns + d * 2 ^ d..<length ns + d * 2 ^ d + 2 ^ d]"
    by (simp add: connector_out_def bcount_def algebra_simps)
  ultimately show ?thesis using e1 e' by auto
qed


lemma emit_connector_ok:
  assumes "emits H e ns" "room e (length ns + bcount d)"
    and "ids_at (e_cells e) inputs ins" "length ins = 2 ^ d" "\<forall>x\<in>set ins. x < length ns"
    and "fits e (need_connector d)" "cells_of inputs (2 ^ d) \<inter> above e (need_connector d) = {}"
    and "outputs + 2 ^ d \<le> length (e_cells e)" "cells_of outputs (2 ^ d) \<inter> above e (need_connector d) = {}"
  shows "\<exists>e'. emit_connector H d inputs outputs e = Some e'
    \<and> grows H e ns e' (connector_nodes d (length ns) ins) (cells_of outputs (2 ^ d) \<union> above e (need_connector d))
    \<and> ids_at (e_cells e') outputs (connector_out d (length ns))"
proof -
  let ?w = "2 ^ d :: nat" and ?p = "e_arena e + e_arena_off e"
  let ?e2 = "e\<lparr>e_arena_off := e_arena_off e + ?w + ?w\<rparr>"
  have ab: "cells_of ?p ?w \<union> cells_of (?p + ?w) ?w = above e (need_connector d)"
    by (auto simp: need_connector_def)
  have "cells_of inputs ?w \<inter> cells_of ?p ?w = {}" using assms(7) ab by blast
  then have "\<exists>e1 top e'. emit_layer H (src_one inputs) False ?p ?w ?e2 = Some e1
    \<and> butterfly_loop H d 0 ?p (?p + ?w) e1 = Some (top, e') \<and> top \<in> {?p, ?p + ?w}
    \<and> grows H ?e2 ns e' (connector_nodes d (length ns) ins) (cells_of ?p ?w \<union> cells_of (?p + ?w) ?w)
    \<and> ids_at (e_cells e') top (connector_out d (length ns))"
    using assms by (intro butterfly_ok) (auto simp: need_connector_def)
  then obtain e1 top e' where e1: "emit_layer H (src_one inputs) False ?p ?w ?e2 = Some e1"
    "butterfly_loop H d 0 ?p (?p + ?w) e1 = Some (top, e')" "top \<in> {?p, ?p + ?w}"
    and g: "grows H ?e2 ns e' (connector_nodes d (length ns) ins) (above e (need_connector d))"
    and i: "ids_at (e_cells e') top (connector_out d (length ns))"
    unfolding ab by blast
  have "cells_of top ?w \<subseteq> above e (need_connector d)" using e1(3) ab by blast
  then have "cells_of outputs ?w \<inter> cells_of top ?w = {}" using assms(9) by blast
  then have "outputs + ?w \<le> top \<or> top + ?w \<le> outputs" by (rule apart [rotated]) simp
  then obtain e'' where e'': "copy_cells e' outputs top ?w = Some e''"
    "grows H e' (ns @ connector_nodes d (length ns) ins) e'' [] (cells_of outputs ?w)"
    "ids_at (e_cells e'') outputs (connector_out d (length ns))"
    using copy_cells_ok [OF i grows_emits [OF g], of outputs] assms(8) grows_length [OF g] by auto
  have "grows H ?e2 ns e'' (connector_nodes d (length ns) ins @ []) (cells_of outputs ?w \<union> above e (need_connector d))"
    using g e''(2) by (rule grows_trans) auto
  from grows_off [OF this]
  have "grows H e ns (e''\<lparr>e_arena_off := e_arena_off e\<rparr>) (connector_nodes d (length ns) ins)
      (cells_of outputs ?w \<union> above e (need_connector d))" by simp
  moreover have "emit_connector H d inputs outputs e = Some (e''\<lparr>e_arena_off := e_arena_off e\<rparr>)"
    using e1(1,2) e''(1) by (simp add: emit_connector_def arena_alloc_def Let_def add.assoc)
  ultimately show ?thesis using e''(3) by auto
qed

subsection \<open>Merged center ingress\<close>

lemma center_loop_ok:
  assumes "emits H e ns" "room e (length ns + Suc k * 2 ^ d)" "layer + Suc k = d"
    and "ids_at (e_cells e) prev [p..<p + 2 ^ d]" "p + 2 ^ d = length ns"
    and "cur + 2 ^ d \<le> length (e_cells e)" "outputs + 2 ^ d \<le> length (e_cells e)"
    and "cells_of prev (2 ^ d) \<inter> cells_of cur (2 ^ d) = {}"
    and "cells_of prev (2 ^ d) \<inter> cells_of outputs (2 ^ d) = {}"
    and "cells_of cur (2 ^ d) \<inter> cells_of outputs (2 ^ d) = {}"
  shows "\<exists>e'. center_loop H d layer prev cur outputs e = Some e'
    \<and> grows H e ns e' (butterfly_layers (2 ^ d) (Suc k) p)
        (cells_of prev (2 ^ d) \<union> cells_of cur (2 ^ d) \<union> cells_of outputs (2 ^ d))
    \<and> ids_at (e_cells e') outputs [p + Suc k * 2 ^ d..<p + Suc k * 2 ^ d + 2 ^ d]"
  using assms
proof (induction k arbitrary: layer prev cur p ns e)
  case 0
  have "\<exists>e'. emit_layer H (src_xor prev (2 ^ 0)) True outputs (2 ^ d) e = Some e'
    \<and> grows H e ns e' (xor_layer (2 ^ d) p (2 ^ 0)) (cells_of outputs (2 ^ d))
    \<and> ids_at (e_cells e') outputs [length ns..<length ns + 2 ^ d]"
    using 0 by (intro xor_layer_ok) auto
  then obtain e' where e': "emit_layer H (src_xor prev 1) True outputs (2 ^ d) e = Some e'"
    "grows H e ns e' (xor_layer (2 ^ d) p 1) (cells_of outputs (2 ^ d))"
    "ids_at (e_cells e') outputs [length ns..<length ns + 2 ^ d]" by auto
  have "center_loop H d layer prev cur outputs e = Some e'"
    using 0(3) e'(1) by (subst center_loop.simps) (auto simp: center_loop.simps [of H d d])
  moreover have "grows H e ns e' (xor_layer (2 ^ d) p 1)
        (cells_of prev (2 ^ d) \<union> cells_of cur (2 ^ d) \<union> cells_of outputs (2 ^ d))"
    using e'(2) by (rule grows_mono) auto
  ultimately show ?case using e'(3) 0(5) by simp
next
  case (Suc k)
  have rm: "room e (length ns + 2 ^ d)" using Suc.prems(2) by (rule room_mono) simp
  obtain e1 where e1: "emit_layer H (src_xor prev (2 ^ Suc k)) True cur (2 ^ d) e = Some e1"
    and g1: "grows H e ns e1 (xor_layer (2 ^ d) p (2 ^ Suc k)) (cells_of cur (2 ^ d))"
    and i1: "ids_at (e_cells e1) cur [length ns..<length ns + 2 ^ d]"
    using xor_layer_ok [OF Suc.prems(1) rm _ Suc.prems(4) _ Suc.prems(6,8), of "Suc k"] Suc.prems(3,5) by auto
  let ?ns = "ns @ xor_layer (2 ^ d) p (2 ^ Suc k)"
  let ?A = "cells_of prev (2 ^ d) \<union> cells_of cur (2 ^ d) \<union> cells_of outputs (2 ^ d)"
  have "prev + 2 ^ d \<le> length (e_cells e1)" "outputs + 2 ^ d \<le> length (e_cells e1)"
    using ids_at_bound [OF Suc.prems(4)] grows_length [OF g1] Suc.prems(7) by simp_all
  moreover have "room e1 (length ?ns + Suc k * 2 ^ d)"
    using grows_room [OF g1] Suc.prems(2) by (simp add: algebra_simps)
  ultimately have "\<exists>e'. center_loop H d (Suc layer) cur prev outputs e1 = Some e'
    \<and> grows H e1 ?ns e' (butterfly_layers (2 ^ d) (Suc k) (p + 2 ^ d))
        (cells_of cur (2 ^ d) \<union> cells_of prev (2 ^ d) \<union> cells_of outputs (2 ^ d))
    \<and> ids_at (e_cells e') outputs [p + 2 ^ d + Suc k * 2 ^ d..<p + 2 ^ d + Suc k * 2 ^ d + 2 ^ d]"
    using Suc.prems i1 grows_emits [OF g1] by (intro Suc.IH) (auto simp: Int_commute)
  then obtain e' where e': "center_loop H d (Suc layer) cur prev outputs e1 = Some e'"
    "grows H e1 ?ns e' (butterfly_layers (2 ^ d) (Suc k) (p + 2 ^ d))
        (cells_of cur (2 ^ d) \<union> cells_of prev (2 ^ d) \<union> cells_of outputs (2 ^ d))"
    "ids_at (e_cells e') outputs [p + 2 ^ d + Suc k * 2 ^ d..<p + 2 ^ d + Suc k * 2 ^ d + 2 ^ d]" by blast
  have "grows H e ns e' (xor_layer (2 ^ d) p (2 ^ Suc k) @ butterfly_layers (2 ^ d) (Suc k) (p + 2 ^ d)) ?A"
    using g1 e'(2) by (rule grows_trans) auto
  moreover have "d - 1 - layer = Suc k" "layer < d" "layer + 1 \<noteq> d" using Suc.prems(3) by auto
  then have "center_loop H d layer prev cur outputs e = Some e'"
    using e1 e'(1) by (subst center_loop.simps) simp
  ultimately show ?case using e'(3) by (auto simp: algebra_simps)
qed

lemma merged_zero_ok:
  assumes "emits H e ns" "room e (length ns + 2)"
    and "ids_at (e_cells e) primary [a]" "a < length ns" "ids_at (e_cells e) ingress [b]" "b < length ns"
    and "outputs < length (e_cells e)"
  shows "\<exists>e'. emit_merged_center_ingress H 0 primary ingress outputs e = Some e'
    \<and> grows H e ns e' (mci_nodes 0 (length ns) [a] [b]) (cells_of outputs 1)
    \<and> ids_at (e_cells e') outputs (mci_out 0 (length ns))"
proof -
  let ?n = "length ns"
  have rm: "room e (Suc ?n)" using assms(2) by (rule room_mono) simp
  obtain e1 where e1: "emit1 H e (of_nat b) = Some (of_nat ?n, e1)" "emits H e1 (ns @ [[b]])"
    "same_frame e e1" "e_cells e1 = e_cells e"
    using emit1_ok [OF assms(1) rm assms(6)] by blast
  have rm1: "room e1 (Suc (length (ns @ [[b]])))" using assms(2) same_frame_room [OF e1(3)] by simp
  obtain e2 where e2: "emit2 H e1 (of_nat a) (of_nat ?n) = Some (of_nat (Suc ?n), e2)"
    "emits H e2 (ns @ [[b], [a, ?n]])" "same_frame e1 e2" "e_cells e2 = e_cells e1"
    using emit2_ok [OF e1(2) rm1, of a ?n] assms(4) by auto
  obtain c where c: "st (e_cells e2) outputs (of_nat (Suc ?n)) = Some c"
    using st_ok [of outputs "e_cells e2"] assms(7) e1(4) e2(4) by auto
  have nodes: "mci_nodes 0 ?n [a] [b] = [[b], [a, ?n]]" and out: "mci_out 0 ?n = [Suc ?n]"
    by (simp_all add: mci_nodes_def connector_nodes_def connector_out_def mci_out_def bcount_def)
  have "grows H e ns e2 [[b], [a, ?n]] {}"
    using e1(3,4) e2(2,3,4) same_frame_trans by (auto simp: grows_def)
  then have "grows H e ns (e2\<lparr>e_cells := c\<rparr>) [[b], [a, ?n]] (cells_of outputs 1)"
    by (rule grows_store [OF _ st_agree [OF c]]) auto
  moreover have "ids_at c outputs [Suc ?n]"
    using c ld_st [OF c] by (auto simp: ids_at_def rd_Some_iff st_def split: if_splits)
  moreover have "ld (e_cells e) ingress = Some (of_nat b)" "ld (e_cells e) primary = Some (of_nat a)"
    using ids_at_ld [OF assms(3), of 0] ids_at_ld [OF assms(5), of 0] by simp_all
  then have "emit_merged_center_ingress H 0 primary ingress outputs e = Some (e2\<lparr>e_cells := c\<rparr>)"
    using e1(1,4) e2(1) c by (simp add: emit_merged_center_ingress_def)
  ultimately show ?thesis unfolding nodes out by auto
qed

lemma merged_Suc_ok:
  assumes "emits H e ns" "room e (length ns + 2 * bcount d)" "d = Suc k"
    and prim: "ids_at (e_cells e) primary prim" "length prim = 2 ^ d" "\<forall>x\<in>set prim. x < length ns"
    and ingr: "ids_at (e_cells e) ingress ingr" "length ingr = 2 ^ d" "\<forall>x\<in>set ingr. x < length ns"
    and "fits e (need_mci d)" "cells_of primary (2 ^ d) \<inter> above e (need_mci d) = {}"
    and "cells_of ingress (2 ^ d) \<inter> above e (need_mci d) = {}"
    and "outputs + 2 ^ d \<le> length (e_cells e)" "cells_of outputs (2 ^ d) \<inter> above e (need_mci d) = {}"
    and "cells_of primary (2 ^ d) \<inter> cells_of outputs (2 ^ d) = {}"
  shows "\<exists>e'. emit_merged_center_ingress H d primary ingress outputs e = Some e'
    \<and> grows H e ns e' (mci_nodes d (length ns) prim ingr) (cells_of outputs (2 ^ d) \<union> above e (need_mci d))
    \<and> ids_at (e_cells e') outputs (mci_out d (length ns))"
proof -
  define w n where "w = (2 ^ d :: nat)" and "n = length ns"
  define p where "p = e_arena e + e_arena_off e"
  define off where "off = e_arena_off e + w + w + w + w"
  let ?e4 = "e\<lparr>e_arena_off := off\<rparr>" and ?ab = "above e (need_mci d)"
  have nw: "need_mci d = 4 * w" using assms(3) by (simp add: need_mci_def w_def)
  have ab: "cells_of (p + a * w) w \<subseteq> ?ab" if "a < 4" for a
  proof -
    have "a * w + w \<le> 4 * w" using that mult_le_mono1 [of "Suc a" 4 w] by simp
    then show ?thesis by (auto simp: nw p_def)
  qed
  have dj: "cells_of (p + a * w) w \<inter> cells_of (p + b * w) w = {}" if "a < b" for a b
    using that mult_le_mono1 [of "Suc a" b w] by auto
  have fit: "p + a * w + w \<le> length (e_cells e)" if "a < 4" for a
  proof -
    have "a * w + w \<le> 4 * w" using that mult_le_mono1 [of "Suc a" 4 w] by simp
    then show ?thesis using assms(10) unfolding nw p_def by linarith
  qed
  have bc: "bcount d = w + d * w" by (simp add: bcount_def w_def)
  have "\<exists>e5 ing e6. emit_layer H (src_one ingress) False (p + 0 * w) (2 ^ d) ?e4 = Some e5
    \<and> butterfly_loop H d 0 (p + 0 * w) (p + 1 * w) e5 = Some (ing, e6) \<and> ing \<in> {p + 0 * w, p + 1 * w}
    \<and> grows H ?e4 ns e6 (connector_nodes d (length ns) ingr) (cells_of (p + 0 * w) (2 ^ d) \<union> cells_of (p + 1 * w) (2 ^ d))
    \<and> ids_at (e_cells e6) ing (connector_out d (length ns))"
  proof (rule butterfly_ok)
    show "room ?e4 (length ns + bcount d)" using assms(2) by (auto intro: room_mono)
    show "cells_of ingress (2 ^ d) \<inter> cells_of (p + 0 * w) (2 ^ d) = {}"
      using apart_sub [OF assms(12) ab [of 0]] by (simp add: w_def)
  qed (use assms(1) ingr fit [of 0] fit [of 1] dj [of 0 1] in \<open>simp_all add: w_def\<close>)
  then obtain e5 ing e6 where e5: "emit_layer H (src_one ingress) False p w ?e4 = Some e5"
    and e6: "butterfly_loop H d 0 p (p + w) e5 = Some (ing, e6)" "ing \<in> {p + 0 * w, p + 1 * w}"
    and g6: "grows H ?e4 ns e6 (connector_nodes d n ingr) (cells_of (p + 0 * w) w \<union> cells_of (p + 1 * w) w)"
    and i6: "ids_at (e_cells e6) ing (connector_out d n)"
    by (auto simp: w_def n_def)
  let ?ns6 = "ns @ connector_nodes d n ingr"
  have l6: "length ?ns6 = n + bcount d" using ingr(2) by (simp add: n_def)
  have sub6: "cells_of (p + 0 * w) w \<union> cells_of (p + 1 * w) w \<subseteq> ?ab" using ab [of 0] ab [of 1] by simp
  have prim6: "ids_at (e_cells e6) primary prim"
  proof (rule ids_at_frame [OF grows_cells [OF g6]])
    show "cells_of primary (length prim) \<inter> (cells_of (p + 0 * w) w \<union> cells_of (p + 1 * w) w) = {}"
      using apart_sub [OF assms(11) sub6] prim(2) by simp
  qed (use prim(1) in simp)
  let ?P = "\<lambda>i. [min (prim ! i) (connector_out d n ! i), max (prim ! i) (connector_out d n ! i)]"
  have "\<exists>e7. emit_layer H (src_two primary ing) True (p + 2 * w) w e6 = Some e7
    \<and> grows H e6 ?ns6 e7 (map ?P [0..<w]) (cells_of (p + 2 * w) w)
    \<and> ids_at (e_cells e7) (p + 2 * w) [length ?ns6..<length ?ns6 + w]"
  proof (rule emit_layer_ok [OF _ _ _ feeds_two])
    show "emits H e6 ?ns6" by (rule grows_emits [OF g6])
    show "room e6 (length ?ns6 + w)"
      using room_mono [OF assms(2), of "n + bcount d + w"] grows_room [OF g6] unfolding l6
      by (simp add: bc n_def)
    show "p + 2 * w + w \<le> length (e_cells e6)" using fit [of 2] grows_length [OF g6] by simp
    show "cells_of primary w \<inter> cells_of (p + 2 * w) w = {}"
      using apart_sub [OF assms(11) ab [of 2]] by (simp add: w_def)
    show "cells_of ing w \<inter> cells_of (p + 2 * w) w = {}" using e6(2) dj [of 0 2] dj [of 1 2] by auto
    show "\<forall>x\<in>set prim. x < length ?ns6" using prim(3) unfolding l6 by (auto simp: n_def)
    show "\<forall>x\<in>set (connector_out d n). x < length ?ns6"
      unfolding l6 by (blast dest: connector_out_less)
  qed (use prim6 i6 prim(2) in \<open>auto simp: w_def\<close>)
  moreover have "map ?P [0..<w] = map2 (\<lambda>p q. [p, q]) prim (connector_out d n)"
  proof (rule nth_equalityI)
    fix i assume "i < length (map ?P [0..<w])"
    then have i: "i < length prim" "i < w" using prim(2) by (simp_all add: w_def)
    then have "prim ! i < n" using prim(3) by (simp add: n_def)
    moreover have "n \<le> connector_out d n ! i" 
      using nth_mem [of i "connector_out d n"] i(2) by (simp add: set_connector_out w_def)
    ultimately show "map ?P [0..<w] ! i = map2 (\<lambda>p q. [p, q]) prim (connector_out d n) ! i"
      using i by (simp add: w_def)
  qed (use prim(2) in \<open>simp add: w_def\<close>)
  ultimately obtain e7 where e7: "emit_layer H (src_two primary ing) True (p + 2 * w) w e6 = Some e7"
    and g7: "grows H e6 ?ns6 e7 (map2 (\<lambda>p q. [p, q]) prim (connector_out d n)) (cells_of (p + 2 * w) w)"
    and i7: "ids_at (e_cells e7) (p + 2 * w) [n + bcount d..<n + bcount d + w]"
    unfolding l6 by auto
  let ?ns7 = "?ns6 @ map2 (\<lambda>p q. [p, q]) prim (connector_out d n)"
  have l7: "length ?ns7 = n + bcount d + w" using prim(2) ingr(2) by (simp add: n_def w_def)
  have len7: "length (e_cells e7) = length (e_cells e)" using grows_length [OF g6] grows_length [OF g7] by simp
  have "\<exists>e8. center_loop H d 0 (p + 2 * w) (p + 3 * w) outputs e7 = Some e8
    \<and> grows H e7 ?ns7 e8 (butterfly_layers (2 ^ d) (Suc k) (n + bcount d))
        (cells_of (p + 2 * w) (2 ^ d) \<union> cells_of (p + 3 * w) (2 ^ d) \<union> cells_of outputs (2 ^ d))
    \<and> ids_at (e_cells e8) outputs [n + bcount d + Suc k * 2 ^ d..<n + bcount d + Suc k * 2 ^ d + 2 ^ d]"
  proof (rule center_loop_ok)
    show "emits H e7 ?ns7" by (rule grows_emits [OF g7])
    show "room e7 (length ?ns7 + Suc k * 2 ^ d)"
    proof -
      have "n + bcount d + w + Suc k * 2 ^ d = n + 2 * bcount d" using assms(3) by (simp add: bcount_def w_def)
      then show ?thesis using grows_room [OF g7] grows_room [OF g6] assms(2) unfolding l7
        by (simp only: n_def room_off)
    qed
    show "cells_of (p + 2 * w) (2 ^ d) \<inter> cells_of outputs (2 ^ d) = {}"
      "cells_of (p + 3 * w) (2 ^ d) \<inter> cells_of outputs (2 ^ d) = {}"
      using apart_sub [OF assms(14) ab [of 2]] apart_sub [OF assms(14) ab [of 3]]
      by (simp_all add: w_def Int_commute)
  qed (use l7 i7 len7 fit [of 3] dj [of 2 3] assms(3,13) in \<open>auto simp: w_def\<close>)
  then obtain e8 where e8: "center_loop H d 0 (p + 2 * w) (p + 3 * w) outputs e7 = Some e8"
    and g8: "grows H e7 ?ns7 e8 (butterfly_layers (2 ^ d) d (n + bcount d))
        (cells_of (p + 2 * w) w \<union> cells_of (p + 3 * w) w \<union> cells_of outputs w)"
    and i8: "ids_at (e_cells e8) outputs [n + bcount d + d * w..<n + bcount d + d * w + w]"
    using assms(3) by (auto simp: w_def)
  have out: "mci_out d n = [n + bcount d + d * w..<n + bcount d + d * w + w]"
    by (simp add: mci_out_def connector_out_def bc w_def algebra_simps)
  let ?A = "cells_of outputs (2 ^ d) \<union> ?ab"
  have "grows H ?e4 ns e7 (connector_nodes d n ingr @ map2 (\<lambda>p q. [p, q]) prim (connector_out d n)) ?A"
    using g6 g7 by (rule grows_trans) (use sub6 ab [of 2] in auto)
  then have "grows H ?e4 ns e8 ((connector_nodes d n ingr @ map2 (\<lambda>p q. [p, q]) prim (connector_out d n))
      @ butterfly_layers (2 ^ d) d (n + bcount d)) ?A"
    by (rule grows_trans) (use g8 ab [of 2] ab [of 3] in \<open>auto simp: w_def\<close>)
  then have "grows H ?e4 ns e8 (mci_nodes d n prim ingr) ?A" by (simp add: mci_nodes_def)
  from grows_off [OF this]
  have "grows H e ns (e8\<lparr>e_arena_off := e_arena_off e\<rparr>) (mci_nodes d n prim ingr) ?A" .
  moreover have "emit_merged_center_ingress H d primary ingress outputs e = Some (e8\<lparr>e_arena_off := e_arena_off e\<rparr>)"
    using e5 e6(1) e7 e8 assms(3)
    by (simp add: emit_merged_center_ingress_def arena_alloc_def Let_def add.assoc off_def p_def w_def)
  ultimately show ?thesis using i8 unfolding n_def [symmetric] out by auto
qed

lemma merged_ok:
  assumes "emits H e ns" "room e (length ns + 2 * bcount d)"
    and "ids_at (e_cells e) primary prim" "length prim = 2 ^ d" "\<forall>x\<in>set prim. x < length ns"
    and "ids_at (e_cells e) ingress ingr" "length ingr = 2 ^ d" "\<forall>x\<in>set ingr. x < length ns"
    and "fits e (need_mci d)" "cells_of primary (2 ^ d) \<inter> above e (need_mci d) = {}"
    and "cells_of ingress (2 ^ d) \<inter> above e (need_mci d) = {}"
    and "outputs + 2 ^ d \<le> length (e_cells e)" "cells_of outputs (2 ^ d) \<inter> above e (need_mci d) = {}"
    and "cells_of primary (2 ^ d) \<inter> cells_of outputs (2 ^ d) = {}"
  shows "\<exists>e'. emit_merged_center_ingress H d primary ingress outputs e = Some e'
    \<and> grows H e ns e' (mci_nodes d (length ns) prim ingr) (cells_of outputs (2 ^ d) \<union> above e (need_mci d))
    \<and> ids_at (e_cells e') outputs (mci_out d (length ns))"
proof (cases d)
  case 0
  then obtain a b where ab: "prim = [a]" "ingr = [b]" using assms(4,7) by (auto simp: length_Suc_conv)
  obtain e' where e': "emit_merged_center_ingress H 0 primary ingress outputs e = Some e'"
    "grows H e ns e' (mci_nodes 0 (length ns) [a] [b]) (cells_of outputs 1)"
    "ids_at (e_cells e') outputs (mci_out 0 (length ns))"
    using merged_zero_ok [OF assms(1), of primary a ingress b outputs] assms 0 ab by (auto simp: bcount_def)
  moreover have "grows H e ns e' (mci_nodes 0 (length ns) [a] [b]) (cells_of outputs 1 \<union> above e (need_mci 0))"
    using e'(2) by (rule grows_mono) simp
  ultimately show ?thesis using 0 ab by auto
next
  case (Suc k)
  show ?thesis by (rule merged_Suc_ok [OF assms(1,2) Suc assms(3-14)])
qed

subsection \<open>Connected graphs\<close>

lemma emit_connected_ok:
  assumes "emits H e ns" "room e (length ns + ccount l)"
    and "ids_at (e_cells e) inputs ins" "length ins = 2 ^ l" "\<forall>x\<in>set ins. x < length ns"
    and "fits e (need_connected l)" "cells_of inputs (2 ^ l) \<inter> above e (need_connected l) = {}"
    and "base_out + 2 ^ l \<le> length (e_cells e)" "cells_of base_out (2 ^ l) \<inter> above e (need_connected l) = {}"
  shows "\<exists>e'. emit_connected H l (2 ^ l) inputs base_out e = Some e'
    \<and> grows H e ns e' (connected_nodes l (length ns) ins) (cells_of base_out (2 ^ l) \<union> above e (need_connected l))
    \<and> ids_at (e_cells e') base_out (connected_base l (length ns))"
  using assms
proof (induction l arbitrary: e ns inputs ins base_out)
  case 0
  then obtain x where x: "ins = [x]" by (auto simp: length_Suc_conv)
  obtain e1 where e1: "emit1 H e (of_nat x) = Some (of_nat (length ns), e1)" "emits H e1 (ns @ [[x]])"
    "same_frame e e1" "e_cells e1 = e_cells e"
    using emit1_ok [OF 0(1), of x] 0(2,5) x by auto
  obtain c where c: "st (e_cells e1) base_out (of_nat (length ns)) = Some c"
    using st_ok [of base_out "e_cells e1"] 0(8) e1(4) by auto
  have "grows H e ns e1 [[x]] {}" using e1 by (simp add: grows_def)
  then have "grows H e ns (e1\<lparr>e_cells := c\<rparr>) [[x]] (cells_of base_out (2 ^ 0) \<union> above e (need_connected 0))"
    by (rule grows_store [OF _ st_agree [OF c]]) auto
  moreover have "ids_at c base_out [length ns]"
    using c ld_st [OF c] by (auto simp: ids_at_def rd_Some_iff st_def split: if_splits)
  moreover have "ld (e_cells e) inputs = Some (of_nat x)" using ids_at_ld [OF 0(3), of 0] x by simp
  then have "emit_connected H 0 (2 ^ 0) inputs base_out e = Some (e1\<lparr>e_cells := c\<rparr>)"
    using e1(1) c by simp
  ultimately show ?case using x by auto
next
  case (Suc l)
  define h n p where "h = (2 ^ l :: nat)" and "n = length ns" and "p = e_arena e + e_arena_off e"
  define nd where "nd = max (need_connected l) (need_mci l)"
  let ?e3 = "e\<lparr>e_arena_off := e_arena_off e + h + h + h\<rparr>" and ?ab = "above e (need_connected (Suc l))"
  have need: "need_connected (Suc l) = 3 * h + nd" by (simp add: h_def nd_def)
  have h0: "0 < h" by (simp add: h_def)
  have sub: "cells_of p h \<subseteq> ?ab" "cells_of (p + h) h \<subseteq> ?ab" "cells_of (p + 2 * h) h \<subseteq> ?ab" "cells_of (p + 3 * h) nd \<subseteq> ?ab"
    by (auto simp: need p_def simp del: need_connected.simps)
  have len: "p + 3 * h + nd \<le> length (e_cells e)" using Suc.prems(6) need by (simp add: p_def del: need_connected.simps)
  have in0: "ids_at (e_cells e) inputs (take h ins)" and in1: "ids_at (e_cells e) (inputs + h) (drop h ins)"
    using ids_at_split [of "e_cells e" inputs "take h ins" "drop h ins"] Suc.prems(3,4) by (simp_all add: h_def)
  have li: "length (take h ins) = 2 ^ l" "length (drop h ins) = 2 ^ l" using Suc.prems(4) by (simp_all add: h_def)
  have ind: "cells_of inputs h \<inter> ?ab = {}" "cells_of (inputs + h) h \<inter> ?ab = {}"
    using Suc.prems(7) by (auto simp: h_def disjoint_iff simp del: need_connected.simps)
  have ab3: "above ?e3 (need_connected l) \<subseteq> cells_of (p + 3 * h) nd" "above ?e3 (need_mci l) \<subseteq> cells_of (p + 3 * h) nd"
    by (auto simp: p_def nd_def)
  have "\<exists>e4. emit_connected H l (2 ^ l) inputs p ?e3 = Some e4
    \<and> grows H ?e3 ns e4 (connected_nodes l (length ns) (take h ins)) (cells_of p (2 ^ l) \<union> above ?e3 (need_connected l))
    \<and> ids_at (e_cells e4) p (connected_base l (length ns))"
  proof (rule Suc.IH)
    show "room ?e3 (length ns + ccount l)" using Suc.prems(2) by (auto intro: room_mono)
    show "cells_of inputs (2 ^ l) \<inter> above ?e3 (need_connected l) = {}"
      using apart_sub [OF ind(1) subset_trans [OF ab3(1) sub(4)]] by (simp add: h_def)
    show "cells_of p (2 ^ l) \<inter> above ?e3 (need_connected l) = {}" by (auto simp: p_def h_def)
  qed (use Suc.prems(1,5) in0 li len in \<open>auto simp: h_def p_def nd_def dest: in_set_takeD\<close>)
  then obtain e4 where e4: "emit_connected H l h inputs p ?e3 = Some e4"
    and g4: "grows H ?e3 ns e4 (connected_nodes l n (take h ins)) (cells_of p h \<union> above ?e3 (need_connected l))"
    and i4: "ids_at (e_cells e4) p (connected_base l n)" by (auto simp: h_def n_def)
  let ?ns4 = "ns @ connected_nodes l n (take h ins)" and ?X = "cells_of (p + 3 * h) nd"
  have l4: "length ?ns4 = n + ccount l" using li by (simp add: n_def)
  have ar4: "e_arena e4 + e_arena_off e4 = p + 3 * h" "length (e_cells e4) = length (e_cells e)"
    using grows_arena [OF g4] by (simp_all add: p_def)
  have sub4: "cells_of p h \<union> above ?e3 (need_connected l) \<subseteq> ?ab" using sub(1,4) ab3(1) by blast
  have in4: "ids_at (e_cells e4) (inputs + h) (drop h ins)"
    by (rule ids_at_frame [OF grows_cells [OF g4]])
      (use in1 li apart_sub [OF ind(2) sub4] in \<open>simp_all add: h_def\<close>)
  have "\<exists>e5. emit_merged_center_ingress H l p (inputs + h) (p + h) e4 = Some e5
    \<and> grows H e4 ?ns4 e5 (mci_nodes l (length ?ns4) (connected_base l n) (drop h ins))
        (cells_of (p + h) (2 ^ l) \<union> above e4 (need_mci l))
    \<and> ids_at (e_cells e5) (p + h) (mci_out l (length ?ns4))"
  proof (rule merged_ok)
    show "emits H e4 ?ns4" by (rule grows_emits [OF g4])
    show "room e4 (length ?ns4 + 2 * bcount l)"
      using room_mono [OF Suc.prems(2), of "n + ccount l + 2 * bcount l"] grows_room [OF g4] unfolding l4
      by (simp add: n_def)
    show "\<forall>x\<in>set (connected_base l n). x < length ?ns4" unfolding l4 by (auto dest: connected_base_range)
    show "\<forall>x\<in>set (drop h ins). x < length ?ns4"
      unfolding l4 using Suc.prems(5) by (auto simp: n_def dest!: in_set_dropD)
    show "cells_of (inputs + h) (2 ^ l) \<inter> above e4 (need_mci l) = {}"
      using apart_sub [OF ind(2) subset_trans [OF ab3(2) sub(4)]] by (simp add: h_def ar4 p_def)
  qed (use i4 in4 li ar4 len in \<open>auto simp: h_def nd_def\<close>)
  then obtain e5 where e5: "emit_merged_center_ingress H l p (inputs + h) (p + h) e4 = Some e5"
    and g5: "grows H e4 ?ns4 e5 (mci_nodes l (n + ccount l) (connected_base l n) (drop h ins))
        (cells_of (p + h) h \<union> above e4 (need_mci l))"
    and i5: "ids_at (e_cells e5) (p + h) (mci_out l (n + ccount l))"
    unfolding l4 by (auto simp: h_def)
  let ?ns5 = "?ns4 @ mci_nodes l (n + ccount l) (connected_base l n) (drop h ins)"
  have l5: "length ?ns5 = n + ccount l + 2 * bcount l" using li by (simp add: n_def)
  have ar5: "e_arena e5 + e_arena_off e5 = p + 3 * h" "length (e_cells e5) = length (e_cells e)"
    using grows_arena [OF g5] ar4 by simp_all
  have X4: "above e4 (need_mci l) \<subseteq> ?X" unfolding ar4 by (auto simp: nd_def)
  have X5: "above e5 (need_connected l) \<subseteq> ?X" unfolding ar5 by (auto simp: nd_def)
  have "\<exists>e6. emit_connected H l (2 ^ l) (p + h) (p + 2 * h) e5 = Some e6
    \<and> grows H e5 ?ns5 e6 (connected_nodes l (length ?ns5) (mci_out l (n + ccount l)))
        (cells_of (p + 2 * h) (2 ^ l) \<union> above e5 (need_connected l))
    \<and> ids_at (e_cells e6) (p + 2 * h) (connected_base l (length ?ns5))"
  proof (rule Suc.IH)
    show "emits H e5 ?ns5" by (rule grows_emits [OF g5])
    show "room e5 (length ?ns5 + ccount l)"
      using Suc.prems(2) grows_room [OF g4] grows_room [OF g5] unfolding l5
      by (simp add: n_def mult_2 add.assoc add.commute add.left_commute)
    show "\<forall>x\<in>set (mci_out l (n + ccount l)). x < length ?ns5" unfolding l5 by (auto dest: mci_out_less)
  qed (use i5 ar5 len in \<open>auto simp: h_def nd_def\<close>)
  then obtain e6 where e6: "emit_connected H l h (p + h) (p + 2 * h) e5 = Some e6"
    and g6: "grows H e5 ?ns5 e6 (connected_nodes l (n + ccount l + 2 * bcount l) (mci_out l (n + ccount l)))
        (cells_of (p + 2 * h) h \<union> above e5 (need_connected l))"
    and i6: "ids_at (e_cells e6) (p + 2 * h) (connected_base l (n + ccount l + 2 * bcount l))"
    unfolding l5 by (auto simp: h_def)
  have l6: "length (e_cells e6) = length (e_cells e)" using grows_length [OF g6] ar5 by simp
  have "cells_of p h \<inter> (cells_of (p + h) h \<union> ?X) = {}" "cells_of p h \<inter> (cells_of (p + 2 * h) h \<union> ?X) = {}"
    by auto
  then have "cells_of p h \<inter> (cells_of (p + h) h \<union> above e4 (need_mci l)) = {}"
    "cells_of p h \<inter> (cells_of (p + 2 * h) h \<union> above e5 (need_connected l)) = {}"
    using X4 X5 by blast+
  then have i4': "ids_at (e_cells e6) p (connected_base l n)"
    by (intro ids_at_frame [OF grows_cells [OF g6]] ids_at_frame [OF grows_cells [OF g5]] i4) (simp_all add: h_def)
  have out: "cells_of base_out (2 * h) \<inter> ?ab = {}" using Suc.prems(9) by (simp add: h_def)
  obtain e7 e8 where e7: "copy_cells e6 base_out p h = Some e7"
    and e8: "copy_cells e7 (base_out + h) (p + 2 * h) h = Some e8"
    and g8: "grows H e6 (?ns5 @ connected_nodes l (n + ccount l + 2 * bcount l) (mci_out l (n + ccount l))) e8 []
      (cells_of base_out (2 * h))"
    and i8: "ids_at (e_cells e8) base_out (connected_base (Suc l) n)"
    using base_copies_ok [OF grows_emits [OF g6] i4' i6 _ _ h0 _ apart_sub [OF out sub(1)] apart_sub [OF out sub(3)]]
      Suc.prems(8) by (auto simp: l6 h_def)
  let ?A = "cells_of base_out (2 ^ Suc l) \<union> ?ab"
  note [simp del] = need_connected.simps
  have "grows H ?e3 ns e5 (connected_nodes l n (take h ins)
      @ mci_nodes l (n + ccount l) (connected_base l n) (drop h ins)) ?ab"
    using g4 g5 sub4 by (rule grows_trans) (use sub(2,4) X4 in blast)
  then have "grows H ?e3 ns e6 ((connected_nodes l n (take h ins)
      @ mci_nodes l (n + ccount l) (connected_base l n) (drop h ins))
      @ connected_nodes l (n + ccount l + 2 * bcount l) (mci_out l (n + ccount l))) ?ab"
    by (rule grows_trans [OF _ _ order_refl]) (use g6 sub(3,4) X5 in auto)
  then have "grows H ?e3 ns e8 (((connected_nodes l n (take h ins)
      @ mci_nodes l (n + ccount l) (connected_base l n) (drop h ins))
      @ connected_nodes l (n + ccount l + 2 * bcount l) (mci_out l (n + ccount l))) @ []) ?A"
    by (rule grows_trans) (use g8 in \<open>auto simp: h_def\<close>)
  then have "grows H ?e3 ns e8 (connected_nodes (Suc l) n ins) ?A" by (simp add: h_def)
  from grows_off [OF this]
  have "grows H e ns (e8\<lparr>e_arena_off := e_arena_off e\<rparr>) (connected_nodes (Suc l) n ins) ?A" .
  moreover have "emit_connected H (Suc l) (2 ^ Suc l) inputs base_out e = Some (e8\<lparr>e_arena_off := e_arena_off e\<rparr>)"
    using e4 e5 e6 e7 e8 by (simp add: arena_alloc_def Let_def h_def p_def add.assoc mult_2)
  ultimately show ?case using i8 by (auto simp: n_def)
qed

subsection \<open>Standalone graphs\<close>

lemma emit_standalone_ok:
  assumes "emits H e ns" "room e (length ns + scount l)"
    and "fits e (need_standalone l)"
    and "base_out + 2 ^ l \<le> length (e_cells e)" "cells_of base_out (2 ^ l) \<inter> above e (need_standalone l) = {}"
  shows "\<exists>e'. emit_standalone H l base_out e = Some e'
    \<and> grows H e ns e' (standalone_nodes l (length ns)) (cells_of base_out (2 ^ l) \<union> above e (need_standalone l))
    \<and> ids_at (e_cells e') base_out (standalone_base l (length ns))"
  using assms
proof (induction l arbitrary: e ns base_out)
  case 0
  obtain e1 where e1: "emit_source H e = Some (of_nat (length ns), e1)" "emits H e1 (ns @ [[]])"
    "same_frame e e1" "e_cells e1 = e_cells e"
    using emit_source_ok [OF 0(1)] 0(2) by auto
  obtain c where c: "st (e_cells e1) base_out (of_nat (length ns)) = Some c"
    using st_ok [of base_out "e_cells e1"] 0(4) e1(4) by auto
  have "grows H e ns e1 [[]] {}" using e1 by (simp add: grows_def)
  then have "grows H e ns (e1\<lparr>e_cells := c\<rparr>) [[]] (cells_of base_out (2 ^ 0) \<union> above e (need_standalone 0))"
    by (rule grows_store [OF _ st_agree [OF c]]) auto
  moreover have "ids_at c base_out [length ns]"
    using c ld_st [OF c] by (auto simp: ids_at_def rd_Some_iff st_def split: if_splits)
  moreover have "emit_standalone H 0 base_out e = Some (e1\<lparr>e_cells := c\<rparr>)"
    using e1(1) c by simp
  ultimately show ?case by auto
next
  case (Suc l)
  define h n p where "h = (2 ^ l :: nat)" and "n = length ns" and "p = e_arena e + e_arena_off e"
  define nd where "nd = max (need_standalone l) (max (need_connector l) (need_connected l))"
  let ?e3 = "e\<lparr>e_arena_off := e_arena_off e + h + h + h\<rparr>" and ?ab = "above e (need_standalone (Suc l))"
  have need: "need_standalone (Suc l) = 3 * h + nd" by (simp add: h_def nd_def)
  have h0: "0 < h" by (simp add: h_def)
  let ?X = "cells_of (p + 3 * h) nd"
  have sub: "cells_of p h \<subseteq> ?ab" "cells_of (p + h) h \<subseteq> ?ab" "cells_of (p + 2 * h) h \<subseteq> ?ab" "?X \<subseteq> ?ab"
    by (auto simp: need p_def simp del: need_standalone.simps)
  have len: "p + 3 * h + nd \<le> length (e_cells e)" using Suc.prems(3) need by (simp add: p_def del: need_standalone.simps)
  have "\<exists>e4. emit_standalone H l p ?e3 = Some e4
    \<and> grows H ?e3 ns e4 (standalone_nodes l (length ns)) (cells_of p (2 ^ l) \<union> above ?e3 (need_standalone l))
    \<and> ids_at (e_cells e4) p (standalone_base l (length ns))"
  proof (rule Suc.IH)
    show "room ?e3 (length ns + scount l)" using Suc.prems(2) by (auto intro: room_mono)
    show "cells_of p (2 ^ l) \<inter> above ?e3 (need_standalone l) = {}" by (auto simp: p_def h_def)
  qed (use Suc.prems(1) len in \<open>auto simp: h_def p_def nd_def\<close>)
  then obtain e4 where e4: "emit_standalone H l p ?e3 = Some e4"
    and g4: "grows H ?e3 ns e4 (standalone_nodes l n) (cells_of p h \<union> above ?e3 (need_standalone l))"
    and i4: "ids_at (e_cells e4) p (standalone_base l n)" by (auto simp: h_def n_def)
  let ?ns4 = "ns @ standalone_nodes l n"
  have l4: "length ?ns4 = n + scount l" by (simp add: n_def)
  have ar4: "e_arena e4 + e_arena_off e4 = p + 3 * h" "length (e_cells e4) = length (e_cells e)"
    using grows_arena [OF g4] by (simp_all add: p_def)
  have X3: "above ?e3 (need_standalone l) \<subseteq> ?X" by (auto simp: p_def nd_def)
  have X4: "above e4 (need_connector l) \<subseteq> ?X" unfolding ar4 by (auto simp: nd_def)
  have "\<exists>e5. emit_connector H l p (p + h) e4 = Some e5
    \<and> grows H e4 ?ns4 e5 (connector_nodes l (length ?ns4) (standalone_base l n))
        (cells_of (p + h) (2 ^ l) \<union> above e4 (need_connector l))
    \<and> ids_at (e_cells e5) (p + h) (connector_out l (length ?ns4))"
  proof (rule emit_connector_ok)
    show "emits H e4 ?ns4" by (rule grows_emits [OF g4])
    show "room e4 (length ?ns4 + bcount l)"
      using room_mono [OF Suc.prems(2), of "n + scount l + bcount l"] grows_room [OF g4] unfolding l4
      by (simp add: n_def)
    show "\<forall>x\<in>set (standalone_base l n). x < length ?ns4" unfolding l4 by (auto dest: standalone_base_range)
  qed (use i4 ar4 len in \<open>auto simp: h_def nd_def\<close>)
  then obtain e5 where e5: "emit_connector H l p (p + h) e4 = Some e5"
    and g5: "grows H e4 ?ns4 e5 (connector_nodes l (n + scount l) (standalone_base l n))
        (cells_of (p + h) h \<union> above e4 (need_connector l))"
    and i5: "ids_at (e_cells e5) (p + h) (connector_out l (n + scount l))"
    unfolding l4 by (auto simp: h_def)
  let ?ns5 = "?ns4 @ connector_nodes l (n + scount l) (standalone_base l n)"
  have l5: "length ?ns5 = n + scount l + bcount l" by (simp add: n_def)
  have ar5: "e_arena e5 + e_arena_off e5 = p + 3 * h" "length (e_cells e5) = length (e_cells e)"
    using grows_arena [OF g5] ar4 by simp_all
  have X5: "above e5 (need_connected l) \<subseteq> ?X" unfolding ar5 by (auto simp: nd_def)
  have "\<exists>e6. emit_connected H l (2 ^ l) (p + h) (p + 2 * h) e5 = Some e6
    \<and> grows H e5 ?ns5 e6 (connected_nodes l (length ?ns5) (connector_out l (n + scount l)))
        (cells_of (p + 2 * h) (2 ^ l) \<union> above e5 (need_connected l))
    \<and> ids_at (e_cells e6) (p + 2 * h) (connected_base l (length ?ns5))"
  proof (rule emit_connected_ok)
    show "emits H e5 ?ns5" by (rule grows_emits [OF g5])
    show "room e5 (length ?ns5 + ccount l)"
      using Suc.prems(2) grows_room [OF g4] grows_room [OF g5] unfolding l5 by (simp add: n_def add.assoc)
    show "\<forall>x\<in>set (connector_out l (n + scount l)). x < length ?ns5"
      unfolding l5 by (auto dest: connector_out_less)
  qed (use i5 ar5 len in \<open>auto simp: h_def nd_def\<close>)
  then obtain e6 where e6: "emit_connected H l h (p + h) (p + 2 * h) e5 = Some e6"
    and g6: "grows H e5 ?ns5 e6 (connected_nodes l (n + scount l + bcount l) (connector_out l (n + scount l)))
        (cells_of (p + 2 * h) h \<union> above e5 (need_connected l))"
    and i6: "ids_at (e_cells e6) (p + 2 * h) (connected_base l (n + scount l + bcount l))"
    unfolding l5 by (auto simp: h_def)
  have l6: "length (e_cells e6) = length (e_cells e)" using grows_length [OF g6] ar5 by simp
  have "cells_of p h \<inter> (cells_of (p + h) h \<union> ?X) = {}" "cells_of p h \<inter> (cells_of (p + 2 * h) h \<union> ?X) = {}"
    by auto
  then have "cells_of p h \<inter> (cells_of (p + h) h \<union> above e4 (need_connector l)) = {}"
    "cells_of p h \<inter> (cells_of (p + 2 * h) h \<union> above e5 (need_connected l)) = {}"
    using X4 X5 by blast+
  then have i4': "ids_at (e_cells e6) p (standalone_base l n)"
    by (intro ids_at_frame [OF grows_cells [OF g6]] ids_at_frame [OF grows_cells [OF g5]] i4) (simp_all add: h_def)
  have out: "cells_of base_out (2 * h) \<inter> ?ab = {}" using Suc.prems(5) by (simp add: h_def)
  let ?ns6 = "?ns5 @ connected_nodes l (n + scount l + bcount l) (connector_out l (n + scount l))"
  obtain e7 e8 where e7: "copy_cells e6 base_out p h = Some e7"
    and e8: "copy_cells e7 (base_out + h) (p + 2 * h) h = Some e8"
    and g8: "grows H e6 ?ns6 e8 [] (cells_of base_out (2 * h))"
    and i8: "ids_at (e_cells e8) base_out (standalone_base (Suc l) n)"
    using base_copies_ok [OF grows_emits [OF g6] i4' i6 _ _ h0 _ apart_sub [OF out sub(1)] apart_sub [OF out sub(3)]]
      Suc.prems(4) by (auto simp: l6 h_def)
  let ?A = "cells_of base_out (2 ^ Suc l) \<union> ?ab"
  note [simp del] = need_standalone.simps
  have "grows H ?e3 ns e5 (standalone_nodes l n @ connector_nodes l (n + scount l) (standalone_base l n)) ?ab"
    using g4 g5 by (rule grows_trans) (use sub X3 X4 in blast)+
  then have "grows H ?e3 ns e6 ((standalone_nodes l n @ connector_nodes l (n + scount l) (standalone_base l n))
      @ connected_nodes l (n + scount l + bcount l) (connector_out l (n + scount l))) ?ab"
    by (rule grows_trans [OF _ _ order_refl]) (use g6 sub(3,4) X5 in auto)
  then have "grows H ?e3 ns e8 (((standalone_nodes l n @ connector_nodes l (n + scount l) (standalone_base l n))
      @ connected_nodes l (n + scount l + bcount l) (connector_out l (n + scount l))) @ []) ?A"
    by (rule grows_trans) (use g8 in \<open>auto simp: h_def\<close>)
  then have "grows H ?e3 ns e8 (standalone_nodes (Suc l) n) ?A" by simp
  from grows_off [OF this]
  have "grows H e ns (e8\<lparr>e_arena_off := e_arena_off e\<rparr>) (standalone_nodes (Suc l) n) ?A" .
  moreover have "emit_standalone H (Suc l) base_out e = Some (e8\<lparr>e_arena_off := e_arena_off e\<rparr>)"
    using e4 e5 e6 e7 e8 by (simp add: arena_alloc_def Let_def h_def p_def add.assoc mult_2)
  ultimately show ?case using i8 by (auto simp: n_def)
qed

end

subsection \<open>The peak of the arena\<close>

lemma need_connected_bound: "need_connected l \<le> 7 * 2 ^ (l - 1)"
proof (induction l)
  case (Suc l)
  then show ?case by (cases l) (auto simp: need_mci_def)
qed simp

lemma need_standalone_bound: "2 * need_standalone l \<le> 13 * 2 ^ (l - 1)"
proof (induction l)
  case (Suc l)
  then show ?case using need_connected_bound [of l] by (cases l) (auto simp: need_connector_def)
qed simp

text \<open>The figure of the code's comment, \<open>6.5 * half_w\<close>, is exact from level 3 on.\<close>

lemma need_connected_exact: "need_connected (Suc (Suc l)) = 7 * 2 ^ Suc l"
proof (induction l)
  case (Suc l)
  have "need_connected (Suc (Suc (Suc l))) = 3 * 2 ^ Suc (Suc l) + max (7 * 2 ^ Suc l) (4 * 2 ^ Suc (Suc l))"
    by (subst need_connected.simps, subst Suc) (simp add: need_mci_def)
  then show ?case by simp
qed (simp add: need_mci_def)

lemma need_standalone_exact: "need_standalone (Suc (Suc (Suc l))) = 13 * 2 ^ Suc l"
proof (induction l)
  case (Suc l)
  have "need_standalone (Suc (Suc (Suc (Suc l))))
      = 3 * 2 ^ Suc (Suc (Suc l)) + max (13 * 2 ^ Suc l) (max (need_connector (Suc (Suc (Suc l)))) (7 * 2 ^ Suc (Suc l)))"
    by (subst need_standalone.simps, subst Suc, subst need_connected_exact) (rule refl)
  then show ?case unfolding need_connector_def by (simp del: need_standalone.simps)
next
  case 0
  have "need_standalone (Suc (Suc 0)) = 11" by (simp add: need_connector_def need_mci_def)
  then show ?case
    by (subst need_standalone.simps, simp only: need_connected_exact) (simp add: need_connector_def)
qed

end
