(* ===== verification/Labeling.thy ===== *)
theory Labeling
  imports Emitter_Graph
begin

section \<open>Labeling a chunk (\<open>do_label\<close>)\<close>

text \<open>
  \<open>do_label\<close> carves one scratch buffer into the label buffer, two base-output arrays and two
  arenas, emits the two standalone copies and copies the labels of the output set to \<open>out\<close>.
  \<open>pose_graph_label\<close> and \<open>pose_graph_challenge\<close> allocate that scratch and call it.
\<close>

subsection \<open>The code\<close>

text \<open>The scratch buffer as the code sees it: \<open>k\<close> label slots, then \<open>uint64_t\<close> cells to its end.\<close>

definition le_u64 :: "bytes \<Rightarrow> u64" where
  "le_u64 bs = foldr (\<lambda>b acc. push_bit 8 acc OR ucast b) bs 0"

definition bytes_of_u64 :: "u64 \<Rightarrow> bytes" where
  "bytes_of_u64 w = map (\<lambda>i. ucast (drop_bit (8 * i) w)) [0..<8]"

definition view_labels :: "bytes \<Rightarrow> nat \<Rightarrow> label list" where
  "view_labels b k = map (\<lambda>i. take POSE_HASH_BYTES (drop (i * POSE_HASH_BYTES) b)) [0..<k]"

definition view_cells :: "bytes \<Rightarrow> nat \<Rightarrow> u64 list" where
  "view_cells b p = map (\<lambda>i. le_u64 (take 8 (drop (p + i * 8) b))) [0..<(length b - p) div 8]"

definition unview :: "bytes \<Rightarrow> label list \<Rightarrow> u64 list \<Rightarrow> bytes" where
  "unview b L c = (let xs = concat L @ concat (map bytes_of_u64 c) in xs @ drop (length xs) b)"

text \<open>\<open>for (i = 0; i < n; i++) memcpy(out + ..., labels_buf + challenge[i] * 32, 32)\<close>.\<close>

fun copy_out :: "emitter \<Rightarrow> nat \<Rightarrow> nat \<Rightarrow> nat \<Rightarrow> nat \<Rightarrow> bytes \<Rightarrow> bytes option" where
  "copy_out e challenge rank i 0 out = Some out"
| "copy_out e challenge rank i (Suc n) out = do {
     nid \<leftarrow> ld (e_cells e) (challenge + i);
     l \<leftarrow> label_of e nid;
     out' \<leftarrow> wr out ((rank + i) * POSE_HASH_BYTES) l;
     copy_out e challenge rank (i + 1) n out' }"

definition do_label :: "labeler \<Rightarrow> bytes \<Rightarrow> u64 \<Rightarrow> bytes \<Rightarrow> bytes \<Rightarrow> hash_algo \<Rightarrow> (int \<times> bytes \<times> bytes) option" where
  "do_label H seed m out labels_buf algo =
     (if m = 0 \<or> m > POSE_GRAPH_MAX_M then Some (-1, out, labels_buf)
      else
       (let n = pose_graph_parameter_n m;
            level = n + 1;
            half_w = push_bit n (1 :: u64);
            retained = m - half_w;
            left_total = standalone_node_count level;
            arena_elems = POSE_ARENA_FACTOR * unat half_w;
            label_slots = unat (scratch_node_count m);
            left_base = 0;
            right_base = left_base + 2 * unat half_w;
            arena_left = right_base + 2 * unat half_w;
            arena_right = arena_left + arena_elems;
            e = \<lparr>e_next_id = 0, e_labels = Some (view_labels labels_buf label_slots), e_nodes = None,
                 e_seed = seed, e_desc = graph_descriptor H m (of_nat n), e_arena = arena_left,
                 e_arena_cap = arena_elems, e_arena_off = 0, e_algo = algo,
                 e_cells = view_cells labels_buf (label_slots * POSE_HASH_BYTES)\<rparr>
        in do {
          e1 \<leftarrow> emit_standalone H level left_base e;
          e2 \<leftarrow> emit_standalone H level right_base
                 (e1\<lparr>e_next_id := left_total, e_arena := arena_right, e_arena_cap := arena_elems, e_arena_off := 0\<rparr>);
          out1 \<leftarrow> copy_out e2 (left_base + unat half_w) 0 0 (unat half_w) out;
          out2 \<leftarrow> copy_out e2 (right_base + unat half_w) (unat half_w) 0 (unat retained) out1;
          L \<leftarrow> e_labels e2;
          Some (0, out2, unview labels_buf L (e_cells e2)) }))"

text \<open>
  The scratch size \<open>pose_graph_label\<close> and \<open>pose_graph_challenge\<close> request from \<open>malloc\<close>. The
  argument \<open>malloc i s\<close> is the result of the \<open>i\<close>-th call: \<open>None\<close> is a null pointer.
\<close>

definition label_scratch_bytes :: "u64 \<Rightarrow> u64" where
  "label_scratch_bytes m =
     (let n_m = pose_graph_parameter_n m; half_w_m = push_bit n_m (1 :: u64)
      in scratch_node_count m * of_nat POSE_HASH_BYTES + 4 * half_w_m * 8
           + 2 * of_nat POSE_ARENA_FACTOR * half_w_m * 8)"

definition pose_graph_label ::
  "labeler \<Rightarrow> (nat \<Rightarrow> u64 \<Rightarrow> bytes option) \<Rightarrow> bytes \<Rightarrow> u64 \<Rightarrow> bytes \<Rightarrow> hash_algo \<Rightarrow> (int \<times> bytes) option" where
  "pose_graph_label H malloc seed m out algo =
     (case malloc 0 (label_scratch_bytes m) of None \<Rightarrow> Some (-1, out)
      | Some buf \<Rightarrow> map_option (\<lambda>(rc, out', buf'). (rc, out')) (do_label H seed m out buf algo))"

definition pose_graph_challenge ::
  "labeler \<Rightarrow> (nat \<Rightarrow> u64 \<Rightarrow> bytes option) \<Rightarrow> bytes \<Rightarrow> u64 \<Rightarrow> u64 \<Rightarrow> bytes \<Rightarrow> hash_algo \<Rightarrow> (int \<times> bytes) option" where
  "pose_graph_challenge H malloc seed m challenge_idx out algo =
     (if challenge_idx \<ge> m then Some (-1, out)
      else
       (case (malloc 0 (m * of_nat POSE_HASH_BYTES), malloc 1 (label_scratch_bytes m)) of
          (Some all0, Some buf) \<Rightarrow> do {
            (rc, all', buf') \<leftarrow> do_label H seed m all0 buf algo;
            if rc = 0 then do {
              l \<leftarrow> rd all' (unat challenge_idx * POSE_HASH_BYTES) POSE_HASH_BYTES;
              out' \<leftarrow> wr out 0 l;
              Some (rc, out') }
            else Some (rc, out) }
        | _ \<Rightarrow> Some (-1, out)))"

subsection \<open>The specification of the output\<close>

text \<open>The labels of the output set \<open>O(G)\<close> of the graph for \<open>m\<close>, in challenge-rank order.\<close>

definition output_labels :: "labeler \<Rightarrow> bytes \<Rightarrow> u64 \<Rightarrow> hash_algo \<Rightarrow> label list" where
  "output_labels H seed m algo =
     (let n = pose_graph_parameter_n m
      in map ((!) (labels_of (node_label H seed (graph_descriptor H m (of_nat n)) algo) (graph_nodes n)))
           (challenge_nodes n (unat m)))"

lemma length_output_labels: "m \<noteq> 0 \<Longrightarrow> length (output_labels H seed m algo) = unat m"
  using length_challenge_nodes [OF parameter_n_le parameter_n_ge] by (simp add: output_labels_def Let_def)

subsection \<open>Views and copies\<close>

lemma length_view_labels [simp]: "length (view_labels b k) = k"
  by (simp add: view_labels_def)

lemma length_view_cells [simp]: "length (view_cells b p) = (length b - p) div 8"
  by (simp add: view_cells_def)

lemma length_concat_const: "\<forall>x\<in>set xs. length x = k \<Longrightarrow> length (concat xs) = length xs * k"
  by (induction xs) auto

lemma length_bytes_of_u64 [simp]: "length (bytes_of_u64 w) = 8"
  by (simp add: bytes_of_u64_def)

lemma length_unview:
  assumes "\<forall>l\<in>set L. length l = POSE_HASH_BYTES" "length L * POSE_HASH_BYTES + length c * 8 \<le> length b"
  shows "length (unview b L c) = length b"
  using assms length_concat_const [OF assms(1)] length_concat_const [of "map bytes_of_u64 c" 8]
  by (simp add: unview_def Let_def)

lemma copy_out_ok:
  assumes "\<And>j. i \<le> j \<Longrightarrow> j < i + n \<Longrightarrow>
      \<exists>nid. ld (e_cells e) (challenge + j) = Some nid \<and> label_of e nid = Some (f j) \<and> length (f j) = POSE_HASH_BYTES"
    and "(rank + i + n) * POSE_HASH_BYTES \<le> length out"
  shows "\<exists>out'. copy_out e challenge rank i n out = Some out'
    \<and> agree_off (cells_of ((rank + i) * POSE_HASH_BYTES) (n * POSE_HASH_BYTES)) out out'
    \<and> rd out' ((rank + i) * POSE_HASH_BYTES) (n * POSE_HASH_BYTES) = Some (concat (map f [i..<i + n]))"
  using assms
proof (induction n arbitrary: i out)
  case 0
  then show ?case by (simp add: rd_def)
next
  case (Suc n)
  obtain nid where nid: "ld (e_cells e) (challenge + i) = Some nid" "label_of e nid = Some (f i)"
    and l: "length (f i) = POSE_HASH_BYTES"
    using Suc.prems(1) [of i] by auto
  let ?p = "(rank + i) * POSE_HASH_BYTES"
  have q: "(rank + Suc i) * POSE_HASH_BYTES = ?p + POSE_HASH_BYTES" by simp
  have b: "?p + POSE_HASH_BYTES + n * POSE_HASH_BYTES \<le> length out"
    using Suc.prems(2) by (simp add: algebra_simps)
  obtain out1 where o1: "wr out ?p (f i) = Some out1"
    using wr_ok [of ?p "f i" out] b l by auto
  have a1: "agree_off (cells_of ?p POSE_HASH_BYTES) out out1" using wr_agree [OF o1] l by simp
  have "\<exists>out'. copy_out e challenge rank (Suc i) n out1 = Some out'
    \<and> agree_off (cells_of ((rank + Suc i) * POSE_HASH_BYTES) (n * POSE_HASH_BYTES)) out1 out'
    \<and> rd out' ((rank + Suc i) * POSE_HASH_BYTES) (n * POSE_HASH_BYTES) = Some (concat (map f [Suc i..<Suc i + n]))"
    by (rule Suc.IH) (use Suc.prems b agree_off_length [OF a1] in \<open>auto simp: algebra_simps\<close>)
  then obtain out' where o': "copy_out e challenge rank (Suc i) n out1 = Some out'"
    "agree_off (cells_of (?p + POSE_HASH_BYTES) (n * POSE_HASH_BYTES)) out1 out'"
    "rd out' (?p + POSE_HASH_BYTES) (n * POSE_HASH_BYTES) = Some (concat (map f [Suc i..<Suc i + n]))"
    unfolding q by blast
  have "agree_off (cells_of ?p (Suc n * POSE_HASH_BYTES)) out out'"
    using a1 o'(2) by (rule agree_off_trans) auto
  moreover have "rd out1 ?p POSE_HASH_BYTES = Some (f i)" using rd_wr [OF o1] l by simp
  then have "rd out' ?p POSE_HASH_BYTES = Some (f i)" by (rule rd_frame [OF o'(2), rotated]) auto
  from rd_join [OF this o'(3)]
  have "rd out' ?p (Suc n * POSE_HASH_BYTES) = Some (concat (map f [i..<i + Suc n]))"
    unfolding upt_add_Suc by simp
  moreover have "copy_out e challenge rank i (Suc n) out = Some out'" using nid o1 o'(1) by simp
  ultimately show ?case by blast
qed

lemma rd_concat_nth:
  assumes "rd b 0 (length xs * k) = Some (concat xs)" "\<forall>x\<in>set xs. length x = k" "i < length xs"
  shows "rd b (i * k) k = Some (xs ! i)"
proof -
  have l: "length (concat (take i xs)) = i * k"
    using assms(2,3) by (subst length_concat_const [of _ k]) (auto dest: in_set_takeD)
  have xs: "concat xs = concat (take i xs) @ xs ! i @ concat (drop (Suc i) xs)"
    using assms(3) by (metis append_take_drop_id concat.simps(2) concat_append Cons_nth_drop_Suc)
  have "length xs = i + Suc (length xs - Suc i)" using assms(3) by simp
  then have "length xs * k = i * k + (k + (length xs - Suc i) * k)" by (metis add_mult_distrib mult_Suc)
  then have "rd b (i * k) (k + (length xs - Suc i) * k) = Some (xs ! i @ concat (drop (Suc i) xs))"
    using assms(1) rd_split [of b 0 "i * k"] l xs by fastforce
  from rd_split [OF this] show ?thesis using assms(2,3) by simp
qed

lemma challenge_nodes_less: "x \<in> set (challenge_nodes n m) \<Longrightarrow> x < 2 * scount (n + 1)"
  using standalone_base_range [of x "n + 1" 0] standalone_base_range [of x "n + 1" "scount (n + 1)"]
  by (auto simp: challenge_nodes_def dest!: in_set_takeD in_set_dropD
      simp del: standalone_base.simps scount.simps)

subsection \<open>\<open>do_label\<close> computes the output set\<close>

lemma unat_half_w: "n < 64 \<Longrightarrow> unat (push_bit n (1 :: u64)) = 2 ^ n"
  using unat_of_nat_u64 [of "2 ^ n"] power_strict_increasing [of n 64 "2 :: nat"] by (simp add: push_bit_eq_mult)

lemma parameter_word_facts:
  assumes "m \<noteq> 0" "m \<le> POSE_GRAPH_MAX_M"
  defines "n \<equiv> pose_graph_parameter_n m"
  shows "unat (push_bit n (1 :: u64)) = 2 ^ n"
    and "unat (m - push_bit n 1) = unat m - 2 ^ n"
    and "unat (scratch_node_count m) = 2 * scount (n + 1)"
    and "2 * scount (n + 1) < 2 ^ 64"
proof -
  have n: "n \<le> 19" using parameter_n_max [OF assms(2)] by (simp add: n_def)
  then show hw: "unat (push_bit n (1 :: u64)) = 2 ^ n" by (intro unat_half_w) simp
  have "push_bit n (1 :: u64) \<le> m"
    using parameter_n_le [OF assms(1)] hw by (simp add: word_le_nat_alt n_def)
  then show "unat (m - push_bit n 1) = unat m - 2 ^ n" using hw by (simp add: unat_sub)
  show lt: "2 * scount (n + 1) < 2 ^ 64" using scount_bound [of "n + 1"] n by simp
  have "scratch_node_count m = of_nat (2 * scount (n + 1))"
    by (simp add: scratch_node_count_def Let_def n_def standalone_node_count_of_nat del: standalone_node_count.simps scount.simps)
  then show "unat (scratch_node_count m) = 2 * scount (n + 1)" using lt unat_of_nat_u64 by metis
qed

text \<open>The buffers a caller of \<open>do_label\<close> provides.\<close>

definition label_buffers_fit :: "u64 \<Rightarrow> bytes \<Rightarrow> bytes \<Rightarrow> bool" where
  "label_buffers_fit m out buf \<longleftrightarrow>
     (let n = pose_graph_parameter_n m in
        unat m * POSE_HASH_BYTES \<le> length out
        \<and> 2 * scount (n + 1) * POSE_HASH_BYTES + (4 + 2 * POSE_ARENA_FACTOR) * 2 ^ n * 8 \<le> length buf)"

lemma need_standalone_fits: "need_standalone (n + 1) \<le> POSE_ARENA_FACTOR * 2 ^ n"
  using need_standalone_bound [of "n + 1"] by (simp add: POSE_ARENA_FACTOR_def del: need_standalone.simps)

context node_hash begin

lemma length_labels:
  "l \<in> set (labels_of (node_label H sd ds al) ns) \<Longrightarrow> length l = POSE_HASH_BYTES"
  by (induction ns rule: rev_induct) (auto simp: labels_of_snoc length_node_label)

lemma length_output_label: "l \<in> set (output_labels H seed m al) \<Longrightarrow> length l = POSE_HASH_BYTES"
  by (auto simp: output_labels_def Let_def intro!: length_labels [OF nth_mem] dest!: challenge_nodes_less
      simp del: scount.simps)

text \<open>The two standalone copies, emitted one after the other over one memory of cells.\<close>

lemma two_copies_ok:
  assumes "emits H e []" "room e (2 * scount (n + 1))"
    and "e_arena e = 4 * 2 ^ n" "e_arena_off e = 0" "20 * 2 ^ n \<le> length (e_cells e)"
    and "4 * 2 ^ n \<le> a2" "a2 + 16 * 2 ^ n \<le> length (e_cells e)"
  shows "\<exists>e1 e2. emit_standalone H (n + 1) 0 e = Some e1
    \<and> grows H e [] e1 (standalone_nodes (n + 1) 0) UNIV
    \<and> emit_standalone H (n + 1) (2 * 2 ^ n) (e1\<lparr>e_next_id := of_nat (scount (n + 1)), e_arena := a2,
        e_arena_cap := c, e_arena_off := 0\<rparr>) = Some e2
    \<and> emits H e2 (graph_nodes n) \<and> e_hash H e2 = e_hash H e
    \<and> ids_at (e_cells e2) 0 (standalone_base (n + 1) 0)
    \<and> ids_at (e_cells e2) (2 * 2 ^ n) (standalone_base (n + 1) (scount (n + 1)))
    \<and> map_option length (e_labels e2) = map_option length (e_labels e)
    \<and> map_option length (e_nodes e2) = map_option length (e_nodes e)
    \<and> length (e_cells e2) = length (e_cells e)"
proof -
  define hw L where "hw = (2 ^ n :: nat)" and "L = n + 1"
  have L: "2 ^ L = 2 * hw" by (simp add: L_def hw_def)
  have need: "need_standalone L \<le> 16 * hw"
    using need_standalone_fits [of n] by (simp add: L_def hw_def POSE_ARENA_FACTOR_def del: need_standalone.simps)
  have "\<exists>e1. emit_standalone H L 0 e = Some e1
    \<and> grows H e [] e1 (standalone_nodes L (length ([] :: nat list list))) (cells_of 0 (2 ^ L) \<union> above e (need_standalone L))
    \<and> ids_at (e_cells e1) 0 (standalone_base L (length ([] :: nat list list)))"
  proof (rule emit_standalone_ok)
    show "room e (length ([] :: nat list list) + scount L)" using assms(2) by (rule room_mono) (simp add: L_def)
    show "cells_of 0 (2 ^ L) \<inter> above e (need_standalone L) = {}" unfolding L using assms(3) by (simp add: hw_def)
  qed (use assms need L in \<open>auto simp: hw_def\<close>)
  then obtain e1 where e1: "emit_standalone H L 0 e = Some e1"
    and g1: "grows H e [] e1 (standalone_nodes L 0) (cells_of 0 (2 ^ L) \<union> above e (need_standalone L))"
    and i1: "ids_at (e_cells e1) 0 (standalone_base L 0)" by auto
  let ?e = "e1\<lparr>e_next_id := of_nat (scount L), e_arena := a2, e_arena_cap := c, e_arena_off := 0\<rparr>"
  let ?ns = "standalone_nodes L 0"
  have em: "emits H ?e ?ns" using grows_emits [OF g1] by (simp add: emits_def e_hash_def)
  have "\<exists>e2. emit_standalone H L (2 * hw) ?e = Some e2
    \<and> grows H ?e ?ns e2 (standalone_nodes L (length ?ns)) (cells_of (2 * hw) (2 ^ L) \<union> above ?e (need_standalone L))
    \<and> ids_at (e_cells e2) (2 * hw) (standalone_base L (length ?ns))"
  proof (rule emit_standalone_ok [OF em])
    have "room e1 (2 * scount L)" using assms(2) grows_room [OF g1] by (simp add: L_def del: scount.simps)
    then show "room ?e (length ?ns + scount L)" by (simp add: room_def mult_2 del: scount.simps)
    show "cells_of (2 * hw) (2 ^ L) \<inter> above ?e (need_standalone L) = {}"
      unfolding L using assms(6) by (auto simp: hw_def)
  qed (use assms(5-7) need L grows_length [OF g1] in \<open>auto simp: hw_def\<close>)
  then obtain e2 where e2: "emit_standalone H L (2 * hw) ?e = Some e2"
    and g2: "grows H ?e ?ns e2 (standalone_nodes L (scount L)) (cells_of (2 * hw) (2 ^ L) \<union> above ?e (need_standalone L))"
    and i2: "ids_at (e_cells e2) (2 * hw) (standalone_base L (scount L))" by auto
  have "cells_of 0 (length (standalone_base L 0)) \<inter> (cells_of (2 * hw) (2 ^ L) \<union> above ?e (need_standalone L)) = {}"
    unfolding length_standalone_base L using assms(6) by (auto simp: hw_def)
  then have i1': "ids_at (e_cells e2) 0 (standalone_base L 0)"
    using ids_at_frame [OF grows_cells [OF g2], of 0 "standalone_base L 0"] i1 by simp
  have "e_hash H e2 = e_hash H e"
    using same_frame_hash [OF grows_frame [OF g2]] same_frame_hash [OF grows_frame [OF g1]] by (simp add: e_hash_def)
  moreover have "map_option length (e_labels e2) = map_option length (e_labels e)"
      "map_option length (e_nodes e2) = map_option length (e_nodes e)" "length (e_cells e2) = length (e_cells e)"
    using grows_frame [OF g1] grows_frame [OF g2] by (simp_all add: same_frame_def)
  ultimately show ?thesis
    using e1 e2 i1' i2 grows_emits [OF g2] grows_mono [OF g1 subset_UNIV]
    unfolding graph_nodes_def L_def hw_def by blast
qed

text \<open>
  One call of \<open>copy_out\<close> over the second half of a base array, when every node has been emitted
  and labeled.
\<close>

lemma copy_out_base_ok:
  assumes em: "emits H e ns" "e_labels e \<noteq> None" "length ns < 2 ^ 64"
    and ids: "ids_at (e_cells e) p base" "\<forall>x\<in>set base. x < length ns" "k + n \<le> length base"
    and out: "(rank + n) * POSE_HASH_BYTES \<le> length out"
  shows "\<exists>out'. copy_out e (p + k) rank 0 n out = Some out'
    \<and> agree_off (cells_of (rank * POSE_HASH_BYTES) (n * POSE_HASH_BYTES)) out out'
    \<and> rd out' (rank * POSE_HASH_BYTES) (n * POSE_HASH_BYTES)
        = Some (concat (map ((!) (labels_of (e_hash H e) ns)) (take n (drop k base))))"
proof -
  let ?l = "\<lambda>x. labels_of (e_hash H e) ns ! x"
  have "\<exists>nid. ld (e_cells e) (p + k + j) = Some nid \<and> label_of e nid = Some (?l (base ! (k + j)))
      \<and> length (?l (base ! (k + j))) = POSE_HASH_BYTES" if "j < n" for j
  proof -
    have b: "base ! (k + j) < length ns" using that ids(2,3) by simp
    have "ld (e_cells e) (p + k + j) = Some (of_nat (base ! (k + j)))"
      using ids_at_ld [OF ids(1), of "k + j"] that ids(3) by (simp add: add.assoc)
    moreover have "label_of e (of_nat (base ! (k + j))) = Some (?l (base ! (k + j)))"
      by (rule label_of_emitted [OF em(1) b em(3,2)])
    moreover have "length (?l (base ! (k + j))) = POSE_HASH_BYTES"
      using b length_labels [of _ "e_seed e" "e_desc e" "e_algo e" ns] by (simp add: e_hash_def)
    ultimately show ?thesis by blast
  qed
  then obtain out' where o: "copy_out e (p + k) rank 0 n out = Some out'"
    "agree_off (cells_of ((rank + 0) * POSE_HASH_BYTES) (n * POSE_HASH_BYTES)) out out'"
    "rd out' ((rank + 0) * POSE_HASH_BYTES) (n * POSE_HASH_BYTES)
      = Some (concat (map (\<lambda>j. ?l (base ! (k + j))) [0..<0 + n]))"
    using copy_out_ok [of 0 n e "p + k" "\<lambda>j. ?l (base ! (k + j))" rank out] out by auto
  have "map (\<lambda>j. ?l (base ! (k + j))) [0..<0 + n] = map ?l (take n (drop k base))"
    using ids(3) by (intro nth_equalityI) auto
  then show ?thesis using o by auto
qed

lemma do_label_ok:
  assumes m: "m \<noteq> 0" "m \<le> POSE_GRAPH_MAX_M" and fit: "label_buffers_fit m out buf"
  shows "\<exists>out' buf'. do_label H seed m out buf al = Some (0, out', buf')
    \<and> rd out' 0 (unat m * POSE_HASH_BYTES) = Some (concat (output_labels H seed m al))
    \<and> agree_off (cells_of 0 (unat m * POSE_HASH_BYTES)) out out' \<and> length buf' = length buf"
proof -
  define n hw S B where "n = pose_graph_parameter_n m" and "hw = (2 ^ n :: nat)" and "S = scount (n + 1)"
    and "B = POSE_HASH_BYTES"
  note [simp del] = standalone_base.simps scount.simps standalone_node_count.simps emit_standalone.simps
  note w = parameter_word_facts [OF m, folded n_def, folded hw_def S_def]
  have hwm: "hw \<le> unat m" "unat m \<le> 2 * hw"
    using parameter_n_le [OF m(1)] parameter_n_ge [of m] by (simp_all add: n_def hw_def)
  have f: "unat m * B \<le> length out" "2 * S * B + 36 * hw * 8 \<le> length buf"
    using fit by (simp_all add: label_buffers_fit_def Let_def n_def hw_def S_def B_def POSE_ARENA_FACTOR_def)
  define e where "e = \<lparr>e_next_id = 0, e_labels = Some (view_labels buf (2 * S)), e_nodes = None,
    e_seed = seed, e_desc = graph_descriptor H m (of_nat n), e_arena = 4 * hw,
    e_arena_cap = 16 * hw, e_arena_off = 0, e_algo = al, e_cells = view_cells buf (2 * S * B)\<rparr>"
  have cells: "36 * hw \<le> length (e_cells e)" using f(2) by (simp add: e_def)
  obtain e1 e2 where e1: "emit_standalone H (n + 1) 0 e = Some e1"
    and e2: "emit_standalone H (n + 1) (2 * hw) (e1\<lparr>e_next_id := of_nat S, e_arena := 20 * hw,
        e_arena_cap := 16 * hw, e_arena_off := 0\<rparr>) = Some e2"
    and em: "emits H e2 (graph_nodes n)" and hash: "e_hash H e2 = e_hash H e"
    and i0: "ids_at (e_cells e2) 0 (standalone_base (n + 1) 0)"
    and i1: "ids_at (e_cells e2) (2 * hw) (standalone_base (n + 1) S)"
    and fr: "map_option length (e_labels e2) = map_option length (e_labels e)"
      "length (e_cells e2) = length (e_cells e)"
    using two_copies_ok [of e n "20 * hw" "16 * hw", folded hw_def S_def] w(4) cells
    by (auto simp: e_def emits_def room_def)
  obtain Lb where Lb: "e_labels e2 = Some Lb" "length Lb = 2 * S" using fr(1) by (auto simp: e_def)
  have lg: "length (graph_nodes n) = 2 * S" by (simp add: S_def)
  have LbL: "Lb = labels_of (e_hash H e2) (graph_nodes n)" using em Lb lg by (simp add: emits_def)
  have lb: "e_labels e2 \<noteq> None" and l64: "length (graph_nodes n) < 2 ^ 64" using Lb w(4) lg by simp_all
  have b0: "\<forall>x\<in>set (standalone_base (n + 1) 0). x < length (graph_nodes n)"
    and b1: "\<forall>x\<in>set (standalone_base (n + 1) S). x < length (graph_nodes n)"
    using standalone_base_range [of _ "n + 1"] unfolding lg S_def by fastforce+
  have k0: "hw + hw \<le> length (standalone_base (n + 1) 0)"
    and k1: "hw + (unat m - hw) \<le> length (standalone_base (n + 1) S)" using hwm by (simp_all add: hw_def)
  have r0: "(0 + hw) * POSE_HASH_BYTES \<le> length out"
    using order_trans [OF mult_le_mono1 [OF hwm(1)] f(1)] by (simp add: B_def)
  obtain out1 where o1: "copy_out e2 (0 + hw) 0 0 hw out = Some out1"
    "agree_off (cells_of (0 * B) (hw * B)) out out1"
    "rd out1 (0 * B) (hw * B) = Some (concat (map ((!) Lb) (take hw (drop hw (standalone_base (n + 1) 0)))))"
    using copy_out_base_ok [OF em lb l64 i0 b0 k0 r0, folded LbL B_def] by blast
  have r1: "(hw + (unat m - hw)) * POSE_HASH_BYTES \<le> length out1"
    using f(1) hwm(1) agree_off_length [OF o1(2)] by (simp add: B_def)
  obtain out2 where o2: "copy_out e2 (2 * hw + hw) hw 0 (unat m - hw) out1 = Some out2"
    "agree_off (cells_of (hw * B) ((unat m - hw) * B)) out1 out2"
    "rd out2 (hw * B) ((unat m - hw) * B)
      = Some (concat (map ((!) Lb) (take (unat m - hw) (drop hw (standalone_base (n + 1) S)))))"
    using copy_out_base_ok [OF em lb l64 i1 b1 k1 r1, folded LbL B_def] by blast
  have spl: "unat m * B = hw * B + (unat m - hw) * B" using hwm(1) by (simp flip: add_mult_distrib)
  have "rd out2 0 (hw * B) = Some (concat (map ((!) Lb) (take hw (drop hw (standalone_base (n + 1) 0)))))"
    by (rule rd_frame [OF o2(2)]) (use o1(3) in auto)
  from rd_join [OF this, of "(unat m - hw) * B"] o2(3)
  have "rd out2 0 (unat m * B) = Some (concat (map ((!) Lb) (challenge_nodes n (unat m))))"
    unfolding spl by (simp add: challenge_nodes_def hw_def S_def)
  then have "rd out2 0 (unat m * B) = Some (concat (output_labels H seed m al))"
    unfolding LbL hash by (simp add: output_labels_def Let_def e_hash_def e_def n_def)
  moreover have "agree_off (cells_of 0 (unat m * B)) out out2"
    unfolding spl using o1(2) o2(2) by (rule agree_off_trans) auto
  moreover have "length (unview buf Lb (e_cells e2)) = length buf"
  proof (rule length_unview)
    show "\<forall>l\<in>set Lb. length l = POSE_HASH_BYTES" unfolding LbL e_hash_def using length_labels by blast
    show "length Lb * POSE_HASH_BYTES + length (e_cells e2) * 8 \<le> length buf"
      using f(2) fr(2) Lb(2) by (simp add: e_def B_def)
  qed
  moreover have "do_label H seed m out buf al = Some (0, out2, unview buf Lb (e_cells e2))"
    using m e1 e2 o1(1) o2(1) Lb(1) w
    by (simp add: do_label_def Let_def e_def n_def hw_def S_def B_def POSE_ARENA_FACTOR_def
        standalone_node_count_of_nat)
  ultimately show ?thesis unfolding B_def by blast
qed

end

subsection \<open>The scratch size is exact\<close>

text \<open>The \<open>uint64_t\<close> sums do not wrap, so the requested size is the sum of the parts.\<close>

lemma scratch_size_exact:
  assumes "m \<noteq> 0" "m \<le> POSE_GRAPH_MAX_M"
  defines "n \<equiv> pose_graph_parameter_n m"
  shows "unat (label_scratch_bytes m)
    = 2 * scount (n + 1) * POSE_HASH_BYTES + (4 + 2 * POSE_ARENA_FACTOR) * 2 ^ n * 8"
proof -
  note w = parameter_word_facts [OF assms(1,2), folded n_def]
  have n: "n \<le> 19" using parameter_n_max [OF assms(2)] by (simp add: n_def)
  have s: "scount (n + 1) \<le> scount 20" using n by (intro scount_mono) simp
  have "2 * (scount 20 + 1) + 2 ^ 20 * 20 = 2 ^ 20 * (4 + 20 * 20)" by (rule scount_closed)
  then have s20: "scount 20 < 2 ^ 28" by simp
  have p: "(2 :: nat) ^ n \<le> 2 ^ 19" using n by (rule power_increasing) simp
  let ?N = "2 * scount (n + 1) * 32 + 36 * 2 ^ n * 8"
  have N: "?N < 2 ^ 64" using s s20 p by simp
  have "scratch_node_count m = of_nat (2 * scount (n + 1))"
    by (simp add: scratch_node_count_def Let_def n_def standalone_node_count_of_nat
        del: standalone_node_count.simps scount.simps)
  then have "label_scratch_bytes m = of_nat ?N"
    by (simp add: label_scratch_bytes_def Let_def POSE_HASH_BYTES_def POSE_ARENA_FACTOR_def push_bit_eq_mult
        flip: n_def del: scount.simps)
  then show ?thesis using unat_of_nat_u64 [OF N]
    by (simp add: POSE_HASH_BYTES_def POSE_ARENA_FACTOR_def del: scount.simps)
qed

lemma pose_graph_scratch_bytes_eq:
  "pose_graph_scratch_bytes cb = label_scratch_bytes (ucast (resolve_chunk_blocks cb))"
  by (simp add: pose_graph_scratch_bytes_def label_scratch_bytes_def Let_def)

subsection \<open>\<open>pose_graph_label\<close> and \<open>pose_graph_challenge\<close>\<close>

text \<open>\<open>malloc\<close> returns a null pointer or a block of the requested size, with any contents.\<close>

definition malloc_ok :: "(nat \<Rightarrow> u64 \<Rightarrow> bytes option) \<Rightarrow> bool" where
  "malloc_ok malloc \<longleftrightarrow> (\<forall>i s b. malloc i s = Some b \<longrightarrow> length b = unat s)"

lemma malloc_fits:
  assumes "malloc_ok malloc" "malloc i (label_scratch_bytes m) = Some buf" "m \<noteq> 0" "m \<le> POSE_GRAPH_MAX_M"
    and "unat m * POSE_HASH_BYTES \<le> length out"
  shows "label_buffers_fit m out buf"
  using assms scratch_size_exact [OF assms(3,4)]
  by (simp add: malloc_ok_def label_buffers_fit_def Let_def del: scount.simps)

context node_hash begin

lemma pose_graph_label_ok:
  assumes "malloc_ok malloc" "malloc 0 (label_scratch_bytes m) \<noteq> None"
    and "m \<noteq> 0" "m \<le> POSE_GRAPH_MAX_M" "unat m * POSE_HASH_BYTES \<le> length out"
  shows "\<exists>out'. pose_graph_label H malloc seed m out al = Some (0, out')
    \<and> rd out' 0 (unat m * POSE_HASH_BYTES) = Some (concat (output_labels H seed m al))
    \<and> agree_off (cells_of 0 (unat m * POSE_HASH_BYTES)) out out'"
proof -
  obtain buf where buf: "malloc 0 (label_scratch_bytes m) = Some buf" using assms(2) by blast
  show ?thesis
    using do_label_ok [OF assms(3,4) malloc_fits [OF assms(1) buf assms(3-5)], of seed al] buf
    by (auto simp: pose_graph_label_def)
qed

lemma pose_graph_challenge_ok:
  assumes "malloc_ok malloc" "malloc 0 (m * of_nat POSE_HASH_BYTES) \<noteq> None" "malloc 1 (label_scratch_bytes m) \<noteq> None"
    and "m \<le> POSE_GRAPH_MAX_M" "idx < m" "POSE_HASH_BYTES \<le> length out"
  shows "\<exists>out'. pose_graph_challenge H malloc seed m idx out al = Some (0, out')
    \<and> take POSE_HASH_BYTES out' = output_labels H seed m al ! unat idx
    \<and> agree_off (cells_of 0 POSE_HASH_BYTES) out out'"
proof -
  have m: "m \<noteq> 0" using assms(5) by auto
  obtain all0 where all0: "malloc 0 (m * of_nat POSE_HASH_BYTES) = Some all0" using assms(2) by blast
  obtain buf where buf: "malloc 1 (label_scratch_bytes m) = Some buf" using assms(3) by blast
  have "unat m \<le> 2 ^ 20" using assms(4) by (simp add: POSE_GRAPH_MAX_M_def word_le_nat_alt)
  then have "m * of_nat POSE_HASH_BYTES = of_nat (unat m * 32)" "unat m * 32 < 2 ^ 64"
    by (simp_all add: POSE_HASH_BYTES_def)
  then have "unat (m * of_nat POSE_HASH_BYTES) = unat m * POSE_HASH_BYTES"
    by (simp only: unat_of_nat_u64 POSE_HASH_BYTES_def)
  then have "unat m * POSE_HASH_BYTES \<le> length all0" using all0 assms(1) by (simp add: malloc_ok_def)
  from do_label_ok [OF m assms(4) malloc_fits [OF assms(1) buf m assms(4) this], of seed al]
  obtain all' buf' where d: "do_label H seed m all0 buf al = Some (0, all', buf')"
    and r: "rd all' 0 (unat m * POSE_HASH_BYTES) = Some (concat (output_labels H seed m al))" by blast
  let ?L = "output_labels H seed m al"
  have l32: "\<forall>l\<in>set ?L. length l = POSE_HASH_BYTES"
    using length_output_label [of _ seed m al] by blast
  have i: "unat idx < length ?L" using assms(5) by (simp add: length_output_labels [OF m] word_less_nat_alt)
  have g: "rd all' (unat idx * POSE_HASH_BYTES) POSE_HASH_BYTES = Some (?L ! unat idx)"
    using rd_concat_nth [of all' ?L, OF _ l32 i] r by (simp add: length_output_labels [OF m])
  have li: "length (?L ! unat idx) = POSE_HASH_BYTES" using l32 i by simp
  obtain out' where o: "wr out 0 (?L ! unat idx) = Some out'"
    using wr_ok [of 0 "?L ! unat idx" out] li assms(6) by auto
  have "take POSE_HASH_BYTES out' = ?L ! unat idx"
    using rd_wr [OF o] li by (simp add: rd_def split: if_splits)
  then show ?thesis using all0 buf d g o wr_agree [OF o] li assms(5)
    by (auto simp: pose_graph_challenge_def)
qed

end

end
