(* ===== verification/Inplace.thy ===== *)
theory Inplace
  imports Labeling
begin

section \<open>The label-carrying emitter (\<open>lemitter_t\<close>, \<open>do_label_inplace\<close>)\<close>

text \<open>
  The in-place labeler keeps labels, not node ids, in its arena: an array of 32-byte label blocks
  addressed by position. It orders the predecessors of a butterfly node structurally
  (\<open>idx & ~bit\<close> before \<open>idx | bit\<close>) where the other emitter compares ids. The assertion of
  \<open>lc_arena_alloc\<close> is part of the model: an allocation beyond the capacity is \<open>None\<close>.
\<close>

subsection \<open>State\<close>

record lemitter =
  l_next_id :: u64
  l_seed :: bytes
  l_desc :: bytes
  l_arena :: nat
  l_arena_cap :: nat
  l_arena_off :: nat
  l_arena_hi :: nat
  l_algo :: hash_algo
  l_cells :: "label list"

definition lc_arena_alloc :: "lemitter \<Rightarrow> nat \<Rightarrow> (nat \<times> lemitter) option" where
  "lc_arena_alloc e n =
     (let p = l_arena e + l_arena_off e; off = l_arena_off e + n;
          e1 = e\<lparr>l_arena_off := off\<rparr>;
          e2 = (if off > l_arena_hi e then e1\<lparr>l_arena_hi := off\<rparr> else e1)
      in if off \<le> l_arena_cap e then Some (p, e2) else None)"

text \<open>One node: the label the code writes to \<open>dst\<close>, and the advanced id counter.\<close>

definition lc_source :: "labeler \<Rightarrow> lemitter \<Rightarrow> label \<times> lemitter" where
  "lc_source H e = (label_node H True (l_next_id e) None None (l_seed e) (l_desc e) (l_algo e),
     e\<lparr>l_next_id := l_next_id e + 1\<rparr>)"

definition lc1 :: "labeler \<Rightarrow> lemitter \<Rightarrow> label \<Rightarrow> label \<times> lemitter" where
  "lc1 H e p0 = (label_node H False (l_next_id e) (Some p0) None (l_seed e) (l_desc e) (l_algo e),
     e\<lparr>l_next_id := l_next_id e + 1\<rparr>)"

definition lc2 :: "labeler \<Rightarrow> lemitter \<Rightarrow> label \<Rightarrow> label \<Rightarrow> label \<times> lemitter" where
  "lc2 H e p0 p1 = (label_node H False (l_next_id e) (Some p0) (Some p1) (l_seed e) (l_desc e) (l_algo e),
     e\<lparr>l_next_id := l_next_id e + 1\<rparr>)"

definition store_block :: "nat \<Rightarrow> label \<times> lemitter \<Rightarrow> lemitter option" where
  "store_block dst r = (case r of (l, e) \<Rightarrow> do { c \<leftarrow> st (l_cells e) dst l; Some (e\<lparr>l_cells := c\<rparr>) })"

subsection \<open>One layer\<close>

text \<open>Where the code's batch loops point their predecessor pointers.\<close>

type_synonym lsource = "label list \<Rightarrow> nat \<Rightarrow> (label \<times> label option) option"

definition lsrc_one :: "nat \<Rightarrow> lsource" where
  "lsrc_one inputs c i = do { p0 \<leftarrow> ld c (inputs + i); Some (p0, None) }"

definition lsrc_pair :: "nat \<Rightarrow> nat \<Rightarrow> lsource" where
  "lsrc_pair prev b c i = do {
     p0 \<leftarrow> ld c (prev + and_not i b);
     p1 \<leftarrow> ld c (prev + (i OR b));
     Some (p0, Some p1) }"

definition lsrc_two :: "nat \<Rightarrow> nat \<Rightarrow> lsource" where
  "lsrc_two prim ing c i = do { p0 \<leftarrow> ld c (prim + i); p1 \<leftarrow> ld c (ing + i); Some (p0, Some p1) }"

function lc_layer :: "labeler \<Rightarrow> lsource \<Rightarrow> bool \<Rightarrow> nat \<Rightarrow> nat \<Rightarrow> nat \<Rightarrow> lemitter \<Rightarrow> lemitter option" where
  "lc_layer H src two dst width i e =
     (if i < width then
       (let batch = (if width - i < POSE_LABEL_BATCH then width - i else POSE_LABEL_BATCH);
            ids = map (\<lambda>j. l_next_id e + of_nat j) [0..<batch] in do {
          preds \<leftarrow> those (map (\<lambda>j. src (l_cells e) (i + j)) [0..<batch]);
          c \<leftarrow> wr (l_cells e) (dst + i)
                 (label_node_many H False ids (Some (map (\<lambda>p. Some (fst p)) preds))
                    (if two then Some (map snd preds) else None) (l_seed e) (l_desc e) (l_algo e));
          lc_layer H src two dst width (i + batch)
            (e\<lparr>l_next_id := l_next_id e + of_nat batch, l_cells := c\<rparr>) })
      else Some e)"
  by pat_completeness auto
termination
  by (relation "measure (\<lambda>(H, src, two, dst, width, i, e). width - i)") (auto simp: POSE_LABEL_BATCH_def)

declare lc_layer.simps [simp del]

subsection \<open>Connector and merged center ingress\<close>

function lc_butterfly :: "labeler \<Rightarrow> nat \<Rightarrow> nat \<Rightarrow> nat \<Rightarrow> nat \<Rightarrow> lemitter \<Rightarrow> (nat \<times> lemitter) option" where
  "lc_butterfly H dim layer prev cur e =
     (if layer < dim then do {
        e' \<leftarrow> lc_layer H (lsrc_pair prev (2 ^ (dim - 1 - layer))) True cur (2 ^ dim) 0 e;
        lc_butterfly H dim (layer + 1) cur prev e' }
      else Some (prev, e))"
  by pat_completeness auto
termination
  by (relation "measure (\<lambda>(H, dim, layer, prev, cur, e). dim - layer)") auto

declare lc_butterfly.simps [simp del]

definition copy_blocks :: "lemitter \<Rightarrow> nat \<Rightarrow> nat \<Rightarrow> nat \<Rightarrow> lemitter option" where
  "copy_blocks e dst src n =
     (if dst + n \<le> src \<or> src + n \<le> dst then do {
        xs \<leftarrow> rd (l_cells e) src n;
        c \<leftarrow> wr (l_cells e) dst xs;
        Some (e\<lparr>l_cells := c\<rparr>) }
      else None)"

definition lc_connector :: "labeler \<Rightarrow> nat \<Rightarrow> nat \<Rightarrow> nat \<Rightarrow> lemitter \<Rightarrow> lemitter option" where
  "lc_connector H dim inputs outputs e0 =
     (let width = 2 ^ dim; saved = l_arena_off e0 in do {
        (prev, e1) \<leftarrow> lc_arena_alloc e0 width;
        (cur, e2) \<leftarrow> lc_arena_alloc e1 width;
        e3 \<leftarrow> lc_layer H (lsrc_one inputs) False prev width 0 e2;
        (top, e4) \<leftarrow> lc_butterfly H dim 0 prev cur e3;
        e5 \<leftarrow> copy_blocks e4 outputs top width;
        Some (e5\<lparr>l_arena_off := saved\<rparr>) })"

function lc_center :: "labeler \<Rightarrow> nat \<Rightarrow> nat \<Rightarrow> nat \<Rightarrow> nat \<Rightarrow> nat \<Rightarrow> lemitter \<Rightarrow> lemitter option" where
  "lc_center H dim layer prev cur outputs e =
     (if layer < dim then do {
        e' \<leftarrow> lc_layer H (lsrc_pair prev (2 ^ (dim - 1 - layer))) True
                (if layer + 1 = dim then outputs else cur) (2 ^ dim) 0 e;
        lc_center H dim (layer + 1) cur prev outputs e' }
      else Some e)"
  by pat_completeness auto
termination
  by (relation "measure (\<lambda>(H, dim, layer, prev, cur, outputs, e). dim - layer)") auto

declare lc_center.simps [simp del]

definition lc_merged_center_ingress ::
  "labeler \<Rightarrow> nat \<Rightarrow> nat \<Rightarrow> nat \<Rightarrow> nat \<Rightarrow> lemitter \<Rightarrow> lemitter option" where
  "lc_merged_center_ingress H dim primary ingress outputs e0 =
     (if dim = 0 then do {
        i0 \<leftarrow> ld (l_cells e0) ingress;
        let (ig, e1) = lc1 H e0 i0;
        p0 \<leftarrow> ld (l_cells e1) primary;
        store_block outputs (lc2 H e1 p0 ig) }
      else
       (let width = 2 ^ dim; saved = l_arena_off e0 in do {
          (ing_prev, e1) \<leftarrow> lc_arena_alloc e0 width;
          (ing_curr, e2) \<leftarrow> lc_arena_alloc e1 width;
          (ctr_prev, e3) \<leftarrow> lc_arena_alloc e2 width;
          (ctr_curr, e4) \<leftarrow> lc_arena_alloc e3 width;
          e5 \<leftarrow> lc_layer H (lsrc_one ingress) False ing_prev width 0 e4;
          (ing, e6) \<leftarrow> lc_butterfly H dim 0 ing_prev ing_curr e5;
          e7 \<leftarrow> lc_layer H (lsrc_two primary ing) True ctr_prev width 0 e6;
          e8 \<leftarrow> lc_center H dim 0 ctr_prev ctr_curr outputs e7;
          Some (e8\<lparr>l_arena_off := saved\<rparr>) }))"

subsection \<open>Connected and standalone graphs\<close>

fun lc_connected :: "labeler \<Rightarrow> nat \<Rightarrow> nat \<Rightarrow> nat \<Rightarrow> nat \<Rightarrow> lemitter \<Rightarrow> lemitter option" where
  "lc_connected H 0 width inputs base_out e0 = do {
     i0 \<leftarrow> ld (l_cells e0) inputs;
     store_block base_out (lc1 H e0 i0) }"
| "lc_connected H (Suc l) width inputs base_out e0 =
     (let half = width div 2; saved = l_arena_off e0 in do {
        (left_base, e1) \<leftarrow> lc_arena_alloc e0 half;
        (center_out, e2) \<leftarrow> lc_arena_alloc e1 half;
        (right_base, e3) \<leftarrow> lc_arena_alloc e2 half;
        e4 \<leftarrow> lc_connected H l half inputs left_base e3;
        e5 \<leftarrow> lc_merged_center_ingress H l left_base (inputs + half) center_out e4;
        e6 \<leftarrow> lc_connected H l half center_out right_base e5;
        e7 \<leftarrow> copy_blocks e6 base_out left_base half;
        e8 \<leftarrow> copy_blocks e7 (base_out + half) right_base half;
        Some (e8\<lparr>l_arena_off := saved\<rparr>) })"

fun lc_standalone :: "labeler \<Rightarrow> nat \<Rightarrow> nat \<Rightarrow> lemitter \<Rightarrow> lemitter option" where
  "lc_standalone H 0 base_out e0 = store_block base_out (lc_source H e0)"
| "lc_standalone H (Suc l) base_out e0 =
     (let half = 2 ^ l; saved = l_arena_off e0 in do {
        (left_base, e1) \<leftarrow> lc_arena_alloc e0 half;
        (center_out, e2) \<leftarrow> lc_arena_alloc e1 half;
        (right_base, e3) \<leftarrow> lc_arena_alloc e2 half;
        e4 \<leftarrow> lc_standalone H l left_base e3;
        e5 \<leftarrow> lc_connector H l left_base center_out e4;
        e6 \<leftarrow> lc_connected H l half center_out right_base e5;
        e7 \<leftarrow> copy_blocks e6 base_out left_base half;
        e8 \<leftarrow> copy_blocks e7 (base_out + half) right_base half;
        Some (e8\<lparr>l_arena_off := saved\<rparr>) })"

subsection \<open>The chunk labeler\<close>

text \<open>\<open>for (i = 0; i < n; i++) memcpy(LBLK(buf, rank + i), LBLK(base, i), 32)\<close>.\<close>

fun copy_rank :: "lemitter \<Rightarrow> nat \<Rightarrow> nat \<Rightarrow> nat \<Rightarrow> nat \<Rightarrow> bytes \<Rightarrow> bytes option" where
  "copy_rank e base rank i 0 buf = Some buf"
| "copy_rank e base rank i (Suc n) buf = do {
     l \<leftarrow> ld (l_cells e) (base + i);
     buf' \<leftarrow> wr buf ((rank + i) * POSE_HASH_BYTES) l;
     copy_rank e base rank (i + 1) n buf' }"

definition do_label_inplace ::
  "labeler \<Rightarrow> bytes \<Rightarrow> u64 \<Rightarrow> bytes \<Rightarrow> bytes \<Rightarrow> hash_algo \<Rightarrow> (int \<times> bytes \<times> bytes) option" where
  "do_label_inplace H seed m buf scratch algo =
     (if m = 0 \<or> m > POSE_GRAPH_MAX_M then Some (-1, buf, scratch)
      else
       (let n = pose_graph_parameter_n m;
            level = n + 1;
            half_w = push_bit n (1 :: u64);
            retained = m - half_w;
            left_total = standalone_node_count level;
            arena_slots = POSE_ARENA_FACTOR * unat half_w;
            left_base = 0;
            right_base = left_base + 2 * unat half_w;
            arena = right_base + 2 * unat half_w;
            e = \<lparr>l_next_id = 0, l_seed = seed, l_desc = graph_descriptor H m (of_nat n), l_arena = arena,
                 l_arena_cap = arena_slots, l_arena_off = 0, l_arena_hi = 0, l_algo = algo,
                 l_cells = view_labels scratch (length scratch div POSE_HASH_BYTES)\<rparr>
        in do {
          e1 \<leftarrow> lc_standalone H level left_base e;
          e2 \<leftarrow> lc_standalone H level right_base (e1\<lparr>l_next_id := left_total, l_arena_off := 0\<rparr>);
          buf1 \<leftarrow> copy_rank e2 (left_base + unat half_w) 0 0 (unat half_w) buf;
          buf2 \<leftarrow> copy_rank e2 (right_base + unat half_w) (unat half_w) 0 (unat retained) buf1;
          Some (0, buf2, unview scratch (l_cells e2) []) }))"

end
