(* ===== verification/Inplace_Correct.thy ===== *)
theory Inplace_Correct
  imports Inplace
begin

section \<open>The in-place emitter computes the same labels\<close>

text \<open>
  The cells of the arena hold labels of the same abstract graph: \<open>lat H e ns p xs\<close> says that the
  blocks at \<open>p\<close> are the labels of the nodes \<open>xs\<close> of \<open>ns\<close>. Every operation of theory \<open>Inplace\<close>
  succeeds (so the assertion of \<open>lc_arena_alloc\<close> holds), advances the id counter by the size of the
  component, leaves the labels of its outputs in the output blocks, and raises the high-water mark
  to exactly the peak its component needs.
\<close>

subsection \<open>What an emitter state represents\<close>

definition l_hash :: "labeler \<Rightarrow> lemitter \<Rightarrow> nat \<Rightarrow> label list \<Rightarrow> label" where
  "l_hash H e = node_label H (l_seed e) (l_desc e) (l_algo e)"

abbreviation label_in :: "labeler \<Rightarrow> lemitter \<Rightarrow> nat list list \<Rightarrow> nat \<Rightarrow> label" where
  "label_in H e ns x \<equiv> labels_of (l_hash H e) ns ! x"

definition lat :: "labeler \<Rightarrow> lemitter \<Rightarrow> nat list list \<Rightarrow> nat \<Rightarrow> nat list \<Rightarrow> bool" where
  "lat H e ns p xs \<longleftrightarrow>
     rd (l_cells e) p (length xs) = Some (map (label_in H e ns) xs) \<and> (\<forall>x\<in>set xs. x < length ns)"

text \<open>
  The nodes \<open>new\<close> are emitted, only blocks in \<open>A\<close> change, the high-water mark reaches \<open>hi\<close>, and
  blocks stay 32 bytes long.
\<close>

definition blocks32 :: "label list \<Rightarrow> bool" where
  "blocks32 c \<longleftrightarrow> (\<forall>l\<in>set c. length l = POSE_HASH_BYTES)"

definition lgrows :: "labeler \<Rightarrow> lemitter \<Rightarrow> nat list list \<Rightarrow> lemitter \<Rightarrow> nat list list \<Rightarrow> nat set \<Rightarrow> nat \<Rightarrow> bool" where
  "lgrows H e ns e' new A hi \<longleftrightarrow>
     l_next_id e' = of_nat (length (ns @ new)) \<and> l_seed e' = l_seed e \<and> l_desc e' = l_desc e
     \<and> l_algo e' = l_algo e \<and> l_arena e' = l_arena e \<and> l_arena_cap e' = l_arena_cap e
     \<and> l_arena_off e' = l_arena_off e \<and> l_arena_hi e' = max (l_arena_hi e) hi
     \<and> agree_off A (l_cells e) (l_cells e') \<and> (blocks32 (l_cells e) \<longrightarrow> blocks32 (l_cells e'))"

text \<open>Where the next node id is that of the next node of \<open>ns\<close>, with room for \<open>k\<close> more.\<close>

definition lready :: "lemitter \<Rightarrow> nat list list \<Rightarrow> nat \<Rightarrow> bool" where
  "lready e ns k \<longleftrightarrow> l_next_id e = of_nat (length ns) \<and> length ns + k < 2 ^ 64"

lemma lgrowsD:
  assumes "lgrows H e ns e' new A hi"
  shows lgrows_cells: "agree_off A (l_cells e) (l_cells e')"
    and lgrows_length: "length (l_cells e') = length (l_cells e)"
    and lgrows_hash: "l_hash H e' = l_hash H e"
    and lgrows_arena: "l_arena e' = l_arena e" "l_arena_off e' = l_arena_off e" "l_arena_cap e' = l_arena_cap e"
  using assms by (auto simp: lgrows_def l_hash_def agree_off_def)

lemma lgrows_ready: "lgrows H e ns e' new A hi \<Longrightarrow> lready e ns (length new + k) \<Longrightarrow> lready e' (ns @ new) k"
  by (simp add: lgrows_def lready_def)

lemma lready_mono: "lready e ns k \<Longrightarrow> j \<le> k \<Longrightarrow> lready e ns j"
  by (simp add: lready_def)

lemma lgrows_trans:
  assumes "lgrows H e ns e' new A h" "lgrows H e' (ns @ new) e'' new' B h'" "A \<subseteq> C" "B \<subseteq> C" "max h h' = hi"
  shows "lgrows H e ns e'' (new @ new') C hi"
  using assms unfolding lgrows_def by (auto intro: agree_off_trans)

lemma lgrows_mono: "lgrows H e ns e' new A hi \<Longrightarrow> A \<subseteq> B \<Longrightarrow> lgrows H e ns e' new B hi"
  by (auto simp: lgrows_def intro: agree_off_mono)

lemma lat_frame:
  assumes "lat H e ns p xs" "lgrows H e ns e' new A hi" "cells_of p (length xs) \<inter> A = {}"
  shows "lat H e' (ns @ new) p xs"
proof -
  have "map (label_in H e' (ns @ new)) xs = map (label_in H e ns) xs"
    using assms(1) map_labels_prefix [of xs ns "l_hash H e" new] lgrows_hash [OF assms(2)] by (simp add: lat_def)
  then show ?thesis
    using assms(1) rd_frame [OF lgrows_cells [OF assms(2)] assms(3)]
    unfolding lat_def by auto
qed

lemma blocks32_store:
  assumes "blocks32 c" "agree_off (cells_of p n) c c'" "rd c' p n = Some xs" "blocks32 xs"
  shows "blocks32 c'"
  unfolding blocks32_def
proof
  fix l assume "l \<in> set c'"
  then obtain a where a: "a < length c'" "l = c' ! a" by (metis in_set_conv_nth)
  show "length l = POSE_HASH_BYTES"
  proof (cases "a \<in> cells_of p n")
    case True
    then have "l = xs ! (a - p)" using a rd_nth [OF assms(3), of "a - p"] by auto
    then show ?thesis using True assms(4) rd_length [OF assms(3)] by (auto simp: blocks32_def)
  next
    case False
    then show ?thesis using a assms(1,2) by (auto simp: agree_off_def blocks32_def)
  qed
qed

lemma lat_less: "lat H e ns p xs \<Longrightarrow> \<forall>x\<in>set xs. x < length ns"
  and lat_bound: "lat H e ns p xs \<Longrightarrow> p + length xs \<le> length (l_cells e)"
  by (auto simp: lat_def dest: rd_bound)

lemma lat_off [simp]:
  "lat H (e\<lparr>l_arena_off := x\<rparr>) ns p xs = lat H e ns p xs"
  "lat H (e\<lparr>l_arena_off := x, l_arena_hi := y\<rparr>) ns p xs = lat H e ns p xs"
  by (simp_all add: lat_def l_hash_def)

lemma lat_split: "lat H e ns p (xs @ ys) \<Longrightarrow> lat H e ns p xs \<and> lat H e ns (p + length xs) ys"
  unfolding lat_def length_append using rd_split [of "l_cells e" p "length xs" "length ys"] by fastforce

lemma lat_append: "lat H e ns p xs \<Longrightarrow> lat H e ns (p + length xs) ys \<Longrightarrow> lat H e ns p (xs @ ys)"
  unfolding lat_def using rd_join by fastforce

subsection \<open>Layers\<close>

definition ldelivers :: "(nat \<Rightarrow> label) \<Rightarrow> lsource \<Rightarrow> label list \<Rightarrow> nat \<Rightarrow> nat list \<Rightarrow> nat \<Rightarrow> bool" where
  "ldelivers L src c i p n \<longleftrightarrow>
     (\<exists>x. src c i = Some (L x, None) \<and> p = [x] \<and> x < n)
     \<or> (\<exists>u v. src c i = Some (L u, Some (L v)) \<and> p = [u, v] \<and> u < n \<and> v < n)"

definition lfeeds :: "(nat \<Rightarrow> label) \<Rightarrow> lsource \<Rightarrow> label list \<Rightarrow> nat set \<Rightarrow> nat \<Rightarrow> (nat \<Rightarrow> nat list) \<Rightarrow> nat \<Rightarrow> bool" where
  "lfeeds L src c D w P n \<longleftrightarrow> (\<forall>c' i. agree_off D c c' \<longrightarrow> i < w \<longrightarrow> ldelivers L src c' i (P i) n)"

lemma lfeedsD: "lfeeds L src c D w P n \<Longrightarrow> agree_off D c c' \<Longrightarrow> i < w \<Longrightarrow> ldelivers L src c' i (P i) n"
  by (simp add: lfeeds_def)

lemma lat_ld:
  "lat H e ns p xs \<Longrightarrow> agree_off D (l_cells e) c' \<Longrightarrow> cells_of p (length xs) \<inter> D = {} \<Longrightarrow> i < length xs
    \<Longrightarrow> ld c' (p + i) = Some (label_in H e ns (xs ! i))"
  unfolding lat_def by (drule conjunct1) (simp add: ld_of_rd [OF rd_frame])

lemma lfeeds_one:
  assumes "lat H e ns p ins" "length ins = w" "cells_of p w \<inter> D = {}"
  shows "lfeeds (label_in H e ns) (lsrc_one p) (l_cells e) D w (\<lambda>i. [ins ! i]) (length ns)"
  using assms lat_less [OF assms(1)]
  by (auto simp: lfeeds_def ldelivers_def lsrc_one_def lat_ld [OF assms(1)])

lemma lfeeds_two:
  assumes "lat H e ns p ins" "length ins = w" "cells_of p w \<inter> D = {}"
    and "lat H e ns q jns" "length jns = w" "cells_of q w \<inter> D = {}"
  shows "lfeeds (label_in H e ns) (lsrc_two p q) (l_cells e) D w (\<lambda>i. [ins ! i, jns ! i]) (length ns)"
  using assms lat_less [OF assms(1)] lat_less [OF assms(4)]
  by (fastforce simp: lfeeds_def ldelivers_def lsrc_two_def lat_ld [OF assms(1)] lat_ld [OF assms(4)])

lemma lfeeds_pair:
  assumes "lat H e ns p [s..<s + 2 ^ d]" "cells_of p (2 ^ d) \<inter> D = {}" "k < d"
  shows "lfeeds (label_in H e ns) (lsrc_pair p (2 ^ k)) (l_cells e) D (2 ^ d)
    (\<lambda>i. [min (s + i) (s + (i XOR 2 ^ k)), max (s + i) (s + (i XOR 2 ^ k))]) (length ns)"
  unfolding lfeeds_def
proof (intro allI impI)
  fix c' i assume ag: "agree_off D (l_cells e) c'" and i: "i < (2::nat) ^ d"
  have b: "unset_bit k i < 2 ^ d" "set_bit k i < 2 ^ d" using i assms(3) by (simp_all add: set_less unset_less)
  have "ld c' (p + unset_bit k i) = Some (label_in H e ns (s + unset_bit k i))"
    "ld c' (p + set_bit k i) = Some (label_in H e ns (s + set_bit k i))"
    using b lat_ld [OF assms(1) ag, of "unset_bit k i"] lat_ld [OF assms(1) ag, of "set_bit k i"] assms(2) by simp_all
  moreover have "s + unset_bit k i < length ns" "s + set_bit k i < length ns"
    using lat_less [OF assms(1)] b by auto
  ultimately show "ldelivers (label_in H e ns) (lsrc_pair p (2 ^ k)) c' i
      [min (s + i) (s + (i XOR 2 ^ k)), max (s + i) (s + (i XOR 2 ^ k))] (length ns)"
    unfolding min_flip max_flip ldelivers_def lsrc_pair_def and_not_pow or_pow by auto
qed

context node_hash begin

text \<open>The batches of a layer whose first node has id \<open>n\<close> and whose predecessors have labels \<open>L\<close>.\<close>

lemma lc_layer_loop:
  assumes "l_next_id e = of_nat (n + i)" "i \<le> w" "dst + w \<le> length (l_cells e)"
    and "lfeeds L src c0 (cells_of dst w) w P n0" "agree_off (cells_of dst w) c0 (l_cells e)"
    and "\<forall>j<w. length (P j) = (if two then 2 else 1)"
  shows "\<exists>c. lc_layer H src two dst w i e = Some (e\<lparr>l_next_id := of_nat (n + w), l_cells := c\<rparr>)
    \<and> agree_off (cells_of (dst + i) (w - i)) (l_cells e) c
    \<and> rd c (dst + i) (w - i) = Some (map (\<lambda>j. l_hash H e (n + j) (map L (P j))) [i..<w])"
  using assms
proof (induction "w - i" arbitrary: i e rule: less_induct)
  case less
  show ?case
  proof (cases "i < w")
    case False
    then show ?thesis using less.prems(1,2,3)
      by (subst lc_layer.simps) (auto simp: rd_def intro!: exI [of _ "l_cells e"])
  next
    case True
    define k where "k = (if w - i < POSE_LABEL_BATCH then w - i else POSE_LABEL_BATCH)"
    have k: "0 < k" "k \<le> POSE_LABEL_BATCH" "i + k \<le> w"
      using True by (auto simp: k_def POSE_LABEL_BATCH_def)
    let ?f = "\<lambda>j. (L (P (i + j) ! 0), if two then Some (L (P (i + j) ! 1)) else None)"
    let ?h = "\<lambda>j. l_hash H e (n + j) (map L (P j))"
    have at: "src (l_cells e) (i + j) = Some (?f j)
        \<and> map L (P (i + j)) = L (P (i + j) ! 0) # (if two then [L (P (i + j) ! 1)] else [])" if "j < k" for j
      using lfeedsD [OF less.prems(4,5), of "i + j"] less.prems(6) [rule_format, of "i + j"] that k(3)
      by (auto simp: ldelivers_def split: if_splits)
    have ps: "those (map (\<lambda>j. src (l_cells e) (i + j)) [0..<k]) = Some (map ?f [0..<k])"
      by (rule those_map_Some) (use at in simp)
    have ids: "map (\<lambda>j. l_next_id e + of_nat j) [0..<k] = map (\<lambda>j. of_nat (n + i + j)) [0..<k]"
      using less.prems(1) by simp
    have many: "label_node_many H False (map (\<lambda>j. of_nat (n + i + j)) [0..<k])
        (Some (map (\<lambda>p. Some (fst p)) (map ?f [0..<k])))
        (if two then Some (map snd (map ?f [0..<k])) else None) (l_seed e) (l_desc e) (l_algo e)
      = map ?h [i..<i + k]"
    proof (cases two)
      case True
      have "map (\<lambda>p. Some (fst p)) (map ?f [0..<k]) = map (\<lambda>j. Some (L (P (i + j) ! 0))) [0..<k]"
        "map snd (map ?f [0..<k]) = map (\<lambda>j. Some (L (P (i + j) ! 1))) [0..<k]"
        using True by simp_all
      moreover have "map ?h [i..<i + k] = map (\<lambda>j. node_label H (l_seed e) (l_desc e) (l_algo e) (n + i + j)
          [L (P (i + j) ! 0), L (P (i + j) ! 1)]) [0..<k]"
        using at True by (intro nth_equalityI) (auto simp: l_hash_def add.assoc)
      ultimately show ?thesis using True many_two [OF k(2), of "n + i"] by (simp add: comp_def)
    next
      case False
      have "map (\<lambda>p. Some (fst p)) (map ?f [0..<k]) = map (\<lambda>j. Some (L (P (i + j) ! 0))) [0..<k]"
        by simp
      moreover have "map ?h [i..<i + k] = map (\<lambda>j. node_label H (l_seed e) (l_desc e) (l_algo e) (n + i + j)
          [L (P (i + j) ! 0)]) [0..<k]"
        using at False by (intro nth_equalityI) (auto simp: l_hash_def add.assoc)
      ultimately show ?thesis using False many_one [OF k(2), of "n + i"] by (simp add: comp_def)
    qed
    obtain c where c: "wr (l_cells e) (dst + i) (map ?h [i..<i + k]) = Some c"
      using wr_ok [of "dst + i" "map ?h [i..<i + k]" "l_cells e"] less.prems(3) k(3) by auto
    have ag: "agree_off (cells_of (dst + i) k) (l_cells e) c" using wr_agree [OF c] by simp
    let ?e = "e\<lparr>l_next_id := of_nat (n + (i + k)), l_cells := c\<rparr>"
    have "\<exists>c'. lc_layer H src two dst w (i + k) ?e = Some (?e\<lparr>l_next_id := of_nat (n + w), l_cells := c'\<rparr>)
      \<and> agree_off (cells_of (dst + (i + k)) (w - (i + k))) (l_cells ?e) c'
      \<and> rd c' (dst + (i + k)) (w - (i + k)) = Some (map (\<lambda>j. l_hash H ?e (n + j) (map L (P j))) [i + k..<w])"
    proof (rule less.hyps)
      show "w - (i + k) < w - i" using True k(1) by simp
      show "agree_off (cells_of dst w) c0 (l_cells ?e)"
        using less.prems(5) ag by (simp, elim agree_off_trans) (use k(3) in auto)
    qed (use less.prems k(3) agree_off_length [OF ag] in auto)
    then obtain c' where c': "lc_layer H src two dst w (i + k) ?e = Some (e\<lparr>l_next_id := of_nat (n + w), l_cells := c'\<rparr>)"
      "agree_off (cells_of (dst + i + k) (w - (i + k))) c c'"
      "rd c' (dst + i + k) (w - (i + k)) = Some (map ?h [i + k..<w])"
      by (auto simp: l_hash_def add.assoc)
    have "rd c (dst + i) k = Some (map ?h [i..<i + k])" using rd_wr [OF c] by simp
    then have "rd c' (dst + i) k = Some (map ?h [i..<i + k])" by (rule rd_frame [OF c'(2), rotated]) auto
    from rd_join [OF this c'(3)] have "rd c' (dst + i) (w - i) = Some (map ?h [i..<w])"
      using k(3) by (simp add: map_upt_join)
    moreover have "agree_off (cells_of (dst + i) (w - i)) (l_cells e) c'"
      using ag c'(2) by (rule agree_off_trans) (use k(3) in auto)
    moreover have "lc_layer H src two dst w i e = Some (e\<lparr>l_next_id := of_nat (n + w), l_cells := c'\<rparr>)"
    proof -
      have "l_next_id e + of_nat k = of_nat (n + (i + k))" using less.prems(1) by simp
      then show ?thesis using True ps many c c'(1) ids
        by (subst lc_layer.simps) (simp add: Let_def ids del: of_nat_add flip: k_def)
    qed
    ultimately show ?thesis by blast
  qed
qed

lemma lc_layer_ok:
  assumes "lready e ns w" "dst + w \<le> length (l_cells e)"
    and "lfeeds (label_in H e ns) src (l_cells e) (cells_of dst w) w P (length ns)"
    and "\<forall>j<w. length (P j) = (if two then 2 else 1)"
  shows "\<exists>e'. lc_layer H src two dst w 0 e = Some e'
    \<and> lgrows H e ns e' (map P [0..<w]) (cells_of dst w) 0
    \<and> lat H e' (ns @ map P [0..<w]) dst [length ns..<length ns + w]"
proof -
  let ?n = "length ns" and ?L = "label_in H e ns"
  obtain c where c: "lc_layer H src two dst w 0 e = Some (e\<lparr>l_next_id := of_nat (?n + w), l_cells := c\<rparr>)"
    "agree_off (cells_of dst w) (l_cells e) c"
    "rd c dst w = Some (map (\<lambda>j. l_hash H e (?n + j) (map ?L (P j))) [0..<w])"
    using lc_layer_loop [OF _ _ assms(2,3) agree_off_refl assms(4), of ?n 0] assms(1)
    by (auto simp: lready_def)
  let ?e = "e\<lparr>l_next_id := of_nat (?n + w), l_cells := c\<rparr>"
  have less: "\<forall>p\<in>set (map P [0..<w]). \<forall>x\<in>set p. x < ?n"
    using lfeedsD [OF assms(3) agree_off_refl] by (fastforce simp: ldelivers_def)
  have "map ((!) (labels_of (l_hash H e) (ns @ map P [0..<w]))) [?n..<?n + w]
      = map (\<lambda>j. l_hash H e (?n + j) (map ?L (P j))) [0..<w]"
    using labels_of_layer [OF less, of "l_hash H e"] by (intro nth_equalityI) (auto simp: nth_append)
  then have "lat H ?e (ns @ map P [0..<w]) dst [?n..<?n + w]"
    using c(3) by (simp add: lat_def l_hash_def)
  moreover have "blocks32 c" if "blocks32 (l_cells e)"
    using blocks32_store [OF that c(2,3)] by (auto simp: blocks32_def l_hash_def length_node_label)
  then have "lgrows H e ns ?e (map P [0..<w]) (cells_of dst w) 0"
    using c(2) by (simp add: lgrows_def)
  ultimately show ?thesis using c(1) by blast
qed

end

end
