(* ===== verification/Inplace_Graph.thy ===== *)
theory Inplace_Graph
  imports Inplace_Correct
begin

section \<open>The in-place components\<close>

text \<open>
  The components of theory \<open>Inplace\<close>, from one butterfly to the standalone graph: each produces the
  labels of the component of the same name in theory \<open>Graph_Spec\<close> within the arena it needs.
\<close>

subsection \<open>Arena\<close>

abbreviation labove :: "lemitter \<Rightarrow> nat \<Rightarrow> nat set" where
  "labove e k \<equiv> cells_of (l_arena e + l_arena_off e) k"

text \<open>\<open>k\<close> more slots fit the arena, and the arena lies inside the scratch.\<close>

abbreviation lfits :: "lemitter \<Rightarrow> nat \<Rightarrow> bool" where
  "lfits e k \<equiv> l_arena_off e + k \<le> l_arena_cap e \<and> l_arena e + l_arena_cap e \<le> length (l_cells e)"

lemma times3: "3 * (h :: nat) = h + (h + h)"
  by simp

text \<open>The state after allocating \<open>n\<close> slots in all.\<close>

definition lalloc :: "lemitter \<Rightarrow> nat \<Rightarrow> lemitter" where
  "lalloc e n = e\<lparr>l_arena_off := l_arena_off e + n, l_arena_hi := max (l_arena_hi e) (l_arena_off e + n)\<rparr>"

lemma lc_arena_alloc_ok:
  "l_arena_off e + n \<le> l_arena_cap e \<Longrightarrow> lc_arena_alloc e n = Some (l_arena e + l_arena_off e, lalloc e n)"
  by (cases e) (simp add: lc_arena_alloc_def lalloc_def Let_def)

lemma lalloc_simps [simp]:
  "l_arena (lalloc e n) = l_arena e" "l_arena_off (lalloc e n) = l_arena_off e + n"
  "l_arena_cap (lalloc e n) = l_arena_cap e" "l_next_id (lalloc e n) = l_next_id e" "l_cells (lalloc e n) = l_cells e"
  "lat H (lalloc e n) ns p xs = lat H e ns p xs" "lready (lalloc e n) ns k = lready e ns k"
  "lalloc (lalloc e n) m = lalloc e (n + m)" "l_hash H (lalloc e n) = l_hash H e"
  by (simp_all add: lalloc_def lat_def lready_def l_hash_def add.assoc)

lemma lgrows_alloc:
  "lgrows H (lalloc e k) ns e' new A hi
    \<Longrightarrow> lgrows H e ns (e'\<lparr>l_arena_off := l_arena_off e\<rparr>) new A (max (l_arena_off e + k) hi)"
  by (simp add: lgrows_def lalloc_def max.assoc)

text \<open>The high-water mark is never below the bump offset.\<close>

definition lwater :: "lemitter \<Rightarrow> bool" where
  "lwater e \<longleftrightarrow> l_arena_off e \<le> l_arena_hi e"

lemma lwater_alloc [simp]: "lwater (lalloc e n)"
  by (simp add: lwater_def lalloc_def)

lemma lwater_grows: "lgrows H e ns e' new A hi \<Longrightarrow> lwater e \<Longrightarrow> lwater e'"
  by (auto simp: lgrows_def lwater_def)

lemma lgrows_none: "lgrows H e ns e' new A 0 \<Longrightarrow> lwater e \<Longrightarrow> lgrows H e ns e' new A (l_arena_off e)"
  by (simp add: lgrows_def lwater_def)

lemma lcopy_ok:
  assumes "lat H e ns src xs" "dst + length xs \<le> length (l_cells e)"
    and "dst + length xs \<le> src \<or> src + length xs \<le> dst" "l_next_id e = of_nat (length ns)"
  shows "\<exists>e'. copy_blocks e dst src (length xs) = Some e' \<and> lgrows H e ns e' [] (cells_of dst (length xs)) 0
    \<and> lat H e' ns dst xs"
proof -
  obtain c where c: "wr (l_cells e) dst (map (label_in H e ns) xs) = Some c"
    using wr_ok [of dst "map (label_in H e ns) xs" "l_cells e"] assms(2) by auto
  then have "agree_off (cells_of dst (length xs)) (l_cells e) c" "rd c dst (length xs) = Some (map (label_in H e ns) xs)"
    using wr_agree [OF c] rd_wr [OF c] by simp_all
  moreover have "blocks32 c" if "blocks32 (l_cells e)"
  proof (rule blocks32_store [OF that])
    show "blocks32 (map (label_in H e ns) xs)"
      using that assms(1) by (auto simp: lat_def rd_def blocks32_def split: if_splits
          dest!: arg_cong [of _ _ set] in_set_takeD in_set_dropD)
  qed (use calculation in auto)
  ultimately show ?thesis using assms c
    by (intro exI [of _ "e\<lparr>l_cells := c\<rparr>"]) (auto simp: copy_blocks_def lat_def l_hash_def lgrows_def)
qed

lemma lgrows_next: "lgrows H e ns e' new A hi \<Longrightarrow> l_next_id e' = of_nat (length (ns @ new))"
  by (simp add: lgrows_def)

lemma lbase_copies_ok:
  assumes "l_next_id e = of_nat (length ns)" "lat H e ns a xs" "lat H e ns b ys" "length xs = h" "length ys = h" "0 < h"
    and "base_out + 2 * h \<le> length (l_cells e)"
    and "cells_of base_out (2 * h) \<inter> cells_of a h = {}" "cells_of base_out (2 * h) \<inter> cells_of b h = {}"
  shows "\<exists>e1 e2. copy_blocks e base_out a h = Some e1 \<and> copy_blocks e1 (base_out + h) b h = Some e2
    \<and> lgrows H e ns e2 [] (cells_of base_out (2 * h)) 0 \<and> lat H e2 ns base_out (xs @ ys)"
proof -
  have "base_out + h \<le> a \<or> a + h \<le> base_out" using assms(6,8) by auto
  then obtain e1 where e1: "copy_blocks e base_out a h = Some e1" "lgrows H e ns e1 [] (cells_of base_out h) 0"
    "lat H e1 ns base_out xs"
    using lcopy_ok [OF assms(2), of base_out] assms(1,4,7) by auto
  have "cells_of b (length ys) \<inter> cells_of base_out h = {}" using assms(5,9) by auto
  then have b1: "lat H e1 ns b ys" using lat_frame [OF assms(3) e1(2)] by simp
  have "base_out + h + h \<le> b \<or> b + h \<le> base_out + h" using assms(6,9) by auto
  then obtain e2 where e2: "copy_blocks e1 (base_out + h) b h = Some e2"
    "lgrows H e1 ns e2 [] (cells_of (base_out + h) h) 0" "lat H e2 ns (base_out + h) ys"
    using lcopy_ok [OF b1, of "base_out + h"] lgrows_next [OF e1(2)] lgrows_length [OF e1(2)] assms(5,7)
    by auto
  have g: "lgrows H e ns e2 ([] @ []) (cells_of base_out (2 * h)) 0"
    by (rule lgrows_trans [OF e1(2)]) (use e2(2) in auto)
  have "lat H e2 (ns @ []) base_out xs"
    by (rule lat_frame [OF _ e2(2)]) (use e1(3) assms(4) in auto)
  then show ?thesis using e1(1) e2(1,3) g lat_append assms(4) by auto
qed

subsection \<open>Butterflies\<close>

context node_hash begin

lemma lxor_layer_ok:
  assumes "lready e ns (2 ^ d)" "k < d"
    and "lat H e ns prev [p..<p + 2 ^ d]"
    and "dst + 2 ^ d \<le> length (l_cells e)" "cells_of prev (2 ^ d) \<inter> cells_of dst (2 ^ d) = {}"
  shows "\<exists>e'. lc_layer H (lsrc_pair prev (2 ^ k)) True dst (2 ^ d) 0 e = Some e'
    \<and> lgrows H e ns e' (xor_layer (2 ^ d) p (2 ^ k)) (cells_of dst (2 ^ d)) 0
    \<and> lat H e' (ns @ xor_layer (2 ^ d) p (2 ^ k)) dst [length ns..<length ns + 2 ^ d]"
  unfolding xor_layer_def
  by (rule lc_layer_ok [OF assms(1,4) lfeeds_pair [OF assms(3,5,2)] xor_layer_length])

lemma lc_butterfly_ok:
  assumes "lready e ns (k * 2 ^ d)" "layer + k = d"
    and "lat H e ns prev [p..<p + 2 ^ d]" "p + 2 ^ d = length ns"
    and "cur + 2 ^ d \<le> length (l_cells e)" "cells_of prev (2 ^ d) \<inter> cells_of cur (2 ^ d) = {}"
  shows "\<exists>top e'. lc_butterfly H d layer prev cur e = Some (top, e') \<and> top \<in> {prev, cur}
    \<and> lgrows H e ns e' (butterfly_layers (2 ^ d) k p) (cells_of prev (2 ^ d) \<union> cells_of cur (2 ^ d)) 0
    \<and> lat H e' (ns @ butterfly_layers (2 ^ d) k p) top [p + k * 2 ^ d..<p + k * 2 ^ d + 2 ^ d]"
  using assms
proof (induction k arbitrary: layer prev cur p ns e)
  case 0
  then show ?case by (subst lc_butterfly.simps) (simp add: lgrows_def lready_def)
next
  case (Suc k)
  let ?X = "xor_layer (2 ^ d) p (2 ^ k)"
  have rm: "lready e ns (2 ^ d)" using Suc.prems(1) by (rule lready_mono) simp
  obtain e1 where e1: "lc_layer H (lsrc_pair prev (2 ^ k)) True cur (2 ^ d) 0 e = Some e1"
    and g1: "lgrows H e ns e1 ?X (cells_of cur (2 ^ d)) 0"
    and i1: "lat H e1 (ns @ ?X) cur [length ns..<length ns + 2 ^ d]"
    using lxor_layer_ok [OF rm _ Suc.prems(3) Suc.prems(5,6), of k] Suc.prems(2) by auto
  have "prev + 2 ^ d \<le> length (l_cells e1)"
    using lat_bound [OF Suc.prems(3)] lgrows_length [OF g1] by simp
  moreover have "lready e1 (ns @ ?X) (k * 2 ^ d)" by (rule lgrows_ready [OF g1]) (use Suc.prems(1) in simp)
  ultimately have "\<exists>top e'. lc_butterfly H d (Suc layer) cur prev e1 = Some (top, e') \<and> top \<in> {cur, prev}
    \<and> lgrows H e1 (ns @ ?X) e' (butterfly_layers (2 ^ d) k (p + 2 ^ d)) (cells_of cur (2 ^ d) \<union> cells_of prev (2 ^ d)) 0
    \<and> lat H e' ((ns @ ?X) @ butterfly_layers (2 ^ d) k (p + 2 ^ d)) top
        [p + 2 ^ d + k * 2 ^ d..<p + 2 ^ d + k * 2 ^ d + 2 ^ d]"
    using Suc.prems i1 by (intro Suc.IH) (auto simp: Int_commute)
  then obtain top e' where e': "lc_butterfly H d (Suc layer) cur prev e1 = Some (top, e')" "top \<in> {cur, prev}"
    "lgrows H e1 (ns @ ?X) e' (butterfly_layers (2 ^ d) k (p + 2 ^ d)) (cells_of cur (2 ^ d) \<union> cells_of prev (2 ^ d)) 0"
    "lat H e' ((ns @ ?X) @ butterfly_layers (2 ^ d) k (p + 2 ^ d)) top
        [p + 2 ^ d + k * 2 ^ d..<p + 2 ^ d + k * 2 ^ d + 2 ^ d]" by blast
  have "lgrows H e ns e' (?X @ butterfly_layers (2 ^ d) k (p + 2 ^ d))
      (cells_of prev (2 ^ d) \<union> cells_of cur (2 ^ d)) 0"
    using g1 e'(3) by (rule lgrows_trans) auto
  moreover have "d - 1 - layer = k" "layer < d" using Suc.prems(2) by auto
  then have "lc_butterfly H d layer prev cur e = Some (top, e')"
    using e1 e'(1) by (subst lc_butterfly.simps) simp
  ultimately show ?case using e'(2,4) by (auto simp: algebra_simps)
qed

lemma lbutterfly_ok:
  assumes "lready e ns (bcount d)" "lat H e ns inputs ins" "length ins = 2 ^ d"
    and "prev + 2 ^ d \<le> length (l_cells e)" "cur + 2 ^ d \<le> length (l_cells e)"
    and "cells_of prev (2 ^ d) \<inter> cells_of cur (2 ^ d) = {}" "cells_of inputs (2 ^ d) \<inter> cells_of prev (2 ^ d) = {}"
  shows "\<exists>e1 top e'. lc_layer H (lsrc_one inputs) False prev (2 ^ d) 0 e = Some e1
    \<and> lc_butterfly H d 0 prev cur e1 = Some (top, e') \<and> top \<in> {prev, cur}
    \<and> lgrows H e ns e' (connector_nodes d (length ns) ins) (cells_of prev (2 ^ d) \<union> cells_of cur (2 ^ d)) 0
    \<and> lat H e' (ns @ connector_nodes d (length ns) ins) top (connector_out d (length ns))"
proof -
  let ?I = "map (\<lambda>x. [x]) ins" and ?B = "butterfly_layers (2 ^ d) d (length ns)"
  have rm: "lready e ns (2 ^ d)" using assms(1) by (rule lready_mono) (simp add: bcount_def)
  have "map (\<lambda>i. [ins ! i]) [0..<2 ^ d] = ?I"
    using assms(3) by (simp add: list_eq_iff_nth_eq)
  then obtain e1 where e1: "lc_layer H (lsrc_one inputs) False prev (2 ^ d) 0 e = Some e1"
    and g1: "lgrows H e ns e1 ?I (cells_of prev (2 ^ d)) 0"
    and i1: "lat H e1 (ns @ ?I) prev [length ns..<length ns + 2 ^ d]"
    using lc_layer_ok [OF rm assms(4) lfeeds_one [OF assms(2,3,7)], of False] by auto
  have "\<exists>top e'. lc_butterfly H d 0 prev cur e1 = Some (top, e') \<and> top \<in> {prev, cur}
    \<and> lgrows H e1 (ns @ ?I) e' ?B (cells_of prev (2 ^ d) \<union> cells_of cur (2 ^ d)) 0
    \<and> lat H e' ((ns @ ?I) @ ?B) top [length ns + d * 2 ^ d..<length ns + d * 2 ^ d + 2 ^ d]"
  proof (rule lc_butterfly_ok)
    show "lready e1 (ns @ ?I) (d * 2 ^ d)"
      by (rule lgrows_ready [OF g1]) (use assms(1,3) in \<open>simp add: bcount_def\<close>)
  qed (use assms i1 lgrows_length [OF g1] in auto)
  then obtain top e' where e': "lc_butterfly H d 0 prev cur e1 = Some (top, e')" "top \<in> {prev, cur}"
    "lgrows H e1 (ns @ ?I) e' ?B (cells_of prev (2 ^ d) \<union> cells_of cur (2 ^ d)) 0"
    "lat H e' ((ns @ ?I) @ ?B) top [length ns + d * 2 ^ d..<length ns + d * 2 ^ d + 2 ^ d]" by blast
  have "lgrows H e ns e' (connector_nodes d (length ns) ins) (cells_of prev (2 ^ d) \<union> cells_of cur (2 ^ d)) 0"
    unfolding connector_nodes_def using g1 e'(3) by (rule lgrows_trans) auto
  moreover have "connector_out d (length ns) = [length ns + d * 2 ^ d..<length ns + d * 2 ^ d + 2 ^ d]"
    by (simp add: connector_out_def bcount_def algebra_simps)
  ultimately show ?thesis using e1 e' by (auto simp: connector_nodes_def)
qed

lemma lc_connector_ok:
  assumes "lready e ns (bcount d)" "lat H e ns inputs ins" "length ins = 2 ^ d"
    and "lfits e (need_connector d)" "cells_of inputs (2 ^ d) \<inter> labove e (need_connector d) = {}"
    and "outputs + 2 ^ d \<le> length (l_cells e)" "cells_of outputs (2 ^ d) \<inter> labove e (need_connector d) = {}"
  shows "\<exists>e'. lc_connector H d inputs outputs e = Some e'
    \<and> lgrows H e ns e' (connector_nodes d (length ns) ins) (cells_of outputs (2 ^ d) \<union> labove e (need_connector d))
        (l_arena_off e + need_connector d)
    \<and> lat H e' (ns @ connector_nodes d (length ns) ins) outputs (connector_out d (length ns))"
proof -
  let ?w = "2 ^ d :: nat" and ?p = "l_arena e + l_arena_off e"
  let ?e2 = "lalloc e (?w + ?w)" and ?C = "connector_nodes d (length ns) ins"
  have ab: "cells_of ?p ?w \<union> cells_of (?p + ?w) ?w = labove e (need_connector d)"
    by (auto simp: need_connector_def)
  have al: "l_arena_off e + ?w \<le> l_arena_cap e" "l_arena_off (lalloc e ?w) + ?w \<le> l_arena_cap (lalloc e ?w)"
    using assms(4) by (simp_all add: need_connector_def)
  have "cells_of inputs ?w \<inter> cells_of ?p ?w = {}" using assms(5) ab by blast
  then have "\<exists>e1 top e'. lc_layer H (lsrc_one inputs) False ?p ?w 0 ?e2 = Some e1
    \<and> lc_butterfly H d 0 ?p (?p + ?w) e1 = Some (top, e') \<and> top \<in> {?p, ?p + ?w}
    \<and> lgrows H ?e2 ns e' ?C (cells_of ?p ?w \<union> cells_of (?p + ?w) ?w) 0
    \<and> lat H e' (ns @ ?C) top (connector_out d (length ns))"
    using assms by (intro lbutterfly_ok) (auto simp: need_connector_def)
  then obtain e1 top e' where e1: "lc_layer H (lsrc_one inputs) False ?p ?w 0 ?e2 = Some e1"
    "lc_butterfly H d 0 ?p (?p + ?w) e1 = Some (top, e')" "top \<in> {?p, ?p + ?w}"
    and g: "lgrows H ?e2 ns e' ?C (labove e (need_connector d)) 0"
    and i: "lat H e' (ns @ ?C) top (connector_out d (length ns))"
    unfolding ab by blast
  have "cells_of top ?w \<subseteq> labove e (need_connector d)" using e1(3) ab by blast
  then have "cells_of outputs ?w \<inter> cells_of top ?w = {}" using assms(7) by blast
  then have "outputs + ?w \<le> top \<or> top + ?w \<le> outputs" by (rule apart [rotated]) simp
  then obtain e'' where e'': "copy_blocks e' outputs top ?w = Some e''"
    "lgrows H e' (ns @ ?C) e'' [] (cells_of outputs ?w) 0"
    "lat H e'' (ns @ ?C) outputs (connector_out d (length ns))"
    using lcopy_ok [OF i, of outputs] lgrows_next [OF g] assms(6) lgrows_length [OF g] by auto
  have "lgrows H ?e2 ns e'' (?C @ []) (cells_of outputs ?w \<union> labove e (need_connector d)) 0"
    using g e''(2) by (rule lgrows_trans) auto
  from lgrows_alloc [OF this]
  have "lgrows H e ns (e''\<lparr>l_arena_off := l_arena_off e\<rparr>) ?C
      (cells_of outputs ?w \<union> labove e (need_connector d)) (l_arena_off e + need_connector d)"
    by (simp add: need_connector_def mult_2)
  moreover have "lc_connector H d inputs outputs e = Some (e''\<lparr>l_arena_off := l_arena_off e\<rparr>)"
    using e1(1,2) e''(1) lc_arena_alloc_ok [OF al(1)] lc_arena_alloc_ok [OF al(2)]
    by (simp add: lc_connector_def Let_def add.assoc)
  ultimately show ?thesis using e''(3) by auto
qed

subsection \<open>Merged center ingress\<close>

lemma lc_center_ok:
  assumes "lready e ns (Suc k * 2 ^ d)" "layer + Suc k = d"
    and "lat H e ns prev [p..<p + 2 ^ d]" "p + 2 ^ d = length ns"
    and "cur + 2 ^ d \<le> length (l_cells e)" "outputs + 2 ^ d \<le> length (l_cells e)"
    and "cells_of prev (2 ^ d) \<inter> cells_of cur (2 ^ d) = {}"
    and "cells_of prev (2 ^ d) \<inter> cells_of outputs (2 ^ d) = {}"
    and "cells_of cur (2 ^ d) \<inter> cells_of outputs (2 ^ d) = {}"
  shows "\<exists>e'. lc_center H d layer prev cur outputs e = Some e'
    \<and> lgrows H e ns e' (butterfly_layers (2 ^ d) (Suc k) p)
        (cells_of prev (2 ^ d) \<union> cells_of cur (2 ^ d) \<union> cells_of outputs (2 ^ d)) 0
    \<and> lat H e' (ns @ butterfly_layers (2 ^ d) (Suc k) p) outputs
        [p + Suc k * 2 ^ d..<p + Suc k * 2 ^ d + 2 ^ d]"
  using assms
proof (induction k arbitrary: layer prev cur p ns e)
  case 0
  have "\<exists>e'. lc_layer H (lsrc_pair prev (2 ^ 0)) True outputs (2 ^ d) 0 e = Some e'
    \<and> lgrows H e ns e' (xor_layer (2 ^ d) p (2 ^ 0)) (cells_of outputs (2 ^ d)) 0
    \<and> lat H e' (ns @ xor_layer (2 ^ d) p (2 ^ 0)) outputs [length ns..<length ns + 2 ^ d]"
    using 0 by (intro lxor_layer_ok) auto
  then obtain e' where e': "lc_layer H (lsrc_pair prev 1) True outputs (2 ^ d) 0 e = Some e'"
    "lgrows H e ns e' (xor_layer (2 ^ d) p 1) (cells_of outputs (2 ^ d)) 0"
    "lat H e' (ns @ xor_layer (2 ^ d) p 1) outputs [length ns..<length ns + 2 ^ d]" by auto
  have "lc_center H d layer prev cur outputs e = Some e'"
    using 0(2) e'(1) by (subst lc_center.simps) (auto simp: lc_center.simps [of H d d])
  moreover have "lgrows H e ns e' (xor_layer (2 ^ d) p 1)
        (cells_of prev (2 ^ d) \<union> cells_of cur (2 ^ d) \<union> cells_of outputs (2 ^ d)) 0"
    using e'(2) by (rule lgrows_mono) auto
  ultimately show ?case using e'(3) 0(4) by simp
next
  case (Suc k)
  let ?X = "xor_layer (2 ^ d) p (2 ^ Suc k)" and ?B = "butterfly_layers (2 ^ d) (Suc k) (p + 2 ^ d)"
  have rm: "lready e ns (2 ^ d)" using Suc.prems(1) by (rule lready_mono) simp
  obtain e1 where e1: "lc_layer H (lsrc_pair prev (2 ^ Suc k)) True cur (2 ^ d) 0 e = Some e1"
    and g1: "lgrows H e ns e1 ?X (cells_of cur (2 ^ d)) 0"
    and i1: "lat H e1 (ns @ ?X) cur [length ns..<length ns + 2 ^ d]"
    using lxor_layer_ok [OF rm _ Suc.prems(3) Suc.prems(5,7), of "Suc k"] Suc.prems(2) by auto
  let ?A = "cells_of prev (2 ^ d) \<union> cells_of cur (2 ^ d) \<union> cells_of outputs (2 ^ d)"
  have "prev + 2 ^ d \<le> length (l_cells e1)" "outputs + 2 ^ d \<le> length (l_cells e1)"
    using lat_bound [OF Suc.prems(3)] lgrows_length [OF g1] Suc.prems(6) by simp_all
  moreover have "lready e1 (ns @ ?X) (Suc k * 2 ^ d)"
    by (rule lgrows_ready [OF g1]) (use Suc.prems(1) in simp)
  ultimately have "\<exists>e'. lc_center H d (Suc layer) cur prev outputs e1 = Some e'
    \<and> lgrows H e1 (ns @ ?X) e' ?B (cells_of cur (2 ^ d) \<union> cells_of prev (2 ^ d) \<union> cells_of outputs (2 ^ d)) 0
    \<and> lat H e' ((ns @ ?X) @ ?B) outputs [p + 2 ^ d + Suc k * 2 ^ d..<p + 2 ^ d + Suc k * 2 ^ d + 2 ^ d]"
    using Suc.prems i1 by (intro Suc.IH) (auto simp: Int_commute)
  then obtain e' where e': "lc_center H d (Suc layer) cur prev outputs e1 = Some e'"
    "lgrows H e1 (ns @ ?X) e' ?B (cells_of cur (2 ^ d) \<union> cells_of prev (2 ^ d) \<union> cells_of outputs (2 ^ d)) 0"
    "lat H e' ((ns @ ?X) @ ?B) outputs [p + 2 ^ d + Suc k * 2 ^ d..<p + 2 ^ d + Suc k * 2 ^ d + 2 ^ d]" by blast
  have "lgrows H e ns e' (?X @ ?B) ?A 0"
    using g1 e'(2) by (rule lgrows_trans) auto
  moreover have "d - 1 - layer = Suc k" "layer < d" "layer + 1 \<noteq> d" using Suc.prems(2) by auto
  then have "lc_center H d layer prev cur outputs e = Some e'"
    using e1 e'(1) by (subst lc_center.simps) simp
  ultimately show ?case using e'(3) by (auto simp: algebra_simps)
qed

lemma lat_single: "lat H e ns p [x] \<Longrightarrow> ld (l_cells e) p = Some (label_in H e ns x) \<and> x < length ns"
  using lat_ld [of H e ns p "[x]" "{}" "l_cells e" 0] by (auto simp: lat_def)

text \<open>A node computed and stored in one block.\<close>

lemma lnode_ok:
  assumes "l_next_id e = of_nat (length ns)" "\<forall>x\<in>set q. x < length ns" "dst < length (l_cells e)"
    and "l = l_hash H e (length ns) (map (label_in H e ns) q)"
  shows "\<exists>e'. store_block dst (l, e\<lparr>l_next_id := l_next_id e + 1\<rparr>) = Some e'
    \<and> lgrows H e ns e' [q] (cells_of dst 1) 0 \<and> lat H e' (ns @ [q]) dst [length ns]"
proof -
  obtain c where c: "st (l_cells e) dst l = Some c" using st_ok [OF assms(3)] by blast
  have "rd c dst 1 = Some [l]"
    using c ld_st [OF c] agree_off_length [OF st_agree [OF c]] assms(3) by (auto simp: rd_Some_iff)
  moreover have "labels_of (l_hash H e) (ns @ [q]) ! length ns = l"
    using assms(4) by (simp add: labels_of_snoc nth_append)
  moreover have "blocks32 c" if "blocks32 (l_cells e)"
    using blocks32_store [OF that, of dst 1 c "[l]"] agree_off_mono [OF st_agree [OF c], of "cells_of dst 1"]
      calculation(1) assms(4) by (simp add: blocks32_def l_hash_def length_node_label)
  ultimately show ?thesis using c assms(1) agree_off_mono [OF st_agree [OF c], of "cells_of dst 1"]
    by (auto simp: store_block_def lgrows_def lat_def l_hash_def)
qed

lemma lmerged_zero_ok:
  assumes "lready e ns 2" "lat H e ns primary [a]" "lat H e ns ingress [b]" "outputs < length (l_cells e)"
  shows "\<exists>e'. lc_merged_center_ingress H 0 primary ingress outputs e = Some e'
    \<and> lgrows H e ns e' (mci_nodes 0 (length ns) [a] [b]) (cells_of outputs 1) 0
    \<and> lat H e' (ns @ mci_nodes 0 (length ns) [a] [b]) outputs (mci_out 0 (length ns))"
proof -
  let ?n = "length ns" and ?e1 = "e\<lparr>l_next_id := l_next_id e + 1\<rparr>"
  let ?ig = "l_hash H e (length ns) [label_in H e ns b]"
  have a: "ld (l_cells e) primary = Some (label_in H e ns a)" "a < ?n"
    and b: "ld (l_cells e) ingress = Some (label_in H e ns b)" "b < ?n"
    using lat_single [OF assms(2)] lat_single [OF assms(3)] by simp_all
  have n: "l_next_id e = of_nat ?n" "l_next_id ?e1 = of_nat (length (ns @ [[b]]))"
    using assms(1) by (simp_all add: lready_def)
  have ls: "labels_of (l_hash H e) (ns @ [[b]]) = labels_of (l_hash H e) ns @ [?ig]"
    by (simp add: labels_of_snoc)
  have la: "labels_of (l_hash H e) (ns @ [[b]]) ! a = label_in H e ns a"
    using a(2) by (simp add: labels_of_prefix)
  let ?out = "l_hash H ?e1 (length (ns @ [[b]])) (map (label_in H ?e1 (ns @ [[b]])) [a, ?n])"
  have out: "?out = l_hash H e (Suc ?n) [label_in H e ns a, ?ig]"
    using la by (simp add: l_hash_def [of H ?e1] flip: l_hash_def) (simp add: ls nth_append)
  obtain e' where e': "store_block outputs (?out, ?e1\<lparr>l_next_id := l_next_id ?e1 + 1\<rparr>) = Some e'"
    "lgrows H ?e1 (ns @ [[b]]) e' [[a, ?n]] (cells_of outputs 1) 0"
    "lat H e' ((ns @ [[b]]) @ [[a, ?n]]) outputs [Suc ?n]"
    using lnode_ok [OF n(2), of "[a, ?n]" outputs] a(2) assms(4) by auto
  have nodes: "mci_nodes 0 ?n [a] [b] = [[b], [a, ?n]]" and mo: "mci_out 0 ?n = [Suc ?n]"
    by (simp_all add: mci_nodes_def connector_nodes_def connector_out_def mci_out_def bcount_def)
  have "lgrows H e ns e' [[b], [a, ?n]] (cells_of outputs 1) 0" using e'(2) by (simp add: lgrows_def)
  moreover have "lc_merged_center_ingress H 0 primary ingress outputs e = Some e'"
    using e'(1) a(1) b(1) n out unfolding lc_merged_center_ingress_def lc1_def lc2_def
    by (simp add: l_hash_def node_label_def ac_simps)
  ultimately show ?thesis using e'(3) unfolding nodes mo by simp
qed

lemma lmerged_Suc_ok:
  assumes "lready e ns (2 * bcount d)" "d = Suc k"
    and prim: "lat H e ns primary prim" "length prim = 2 ^ d"
    and ingr: "lat H e ns ingress ingr" "length ingr = 2 ^ d"
    and "lfits e (need_mci d)" "cells_of primary (2 ^ d) \<inter> labove e (need_mci d) = {}"
    and "cells_of ingress (2 ^ d) \<inter> labove e (need_mci d) = {}"
    and "outputs + 2 ^ d \<le> length (l_cells e)" "cells_of outputs (2 ^ d) \<inter> labove e (need_mci d) = {}"
    and "cells_of primary (2 ^ d) \<inter> cells_of outputs (2 ^ d) = {}"
  shows "\<exists>e'. lc_merged_center_ingress H d primary ingress outputs e = Some e'
    \<and> lgrows H e ns e' (mci_nodes d (length ns) prim ingr) (cells_of outputs (2 ^ d) \<union> labove e (need_mci d))
        (l_arena_off e + need_mci d)
    \<and> lat H e' (ns @ mci_nodes d (length ns) prim ingr) outputs (mci_out d (length ns))"
proof -
  define w n where "w = (2 ^ d :: nat)" and "n = length ns"
  define p where "p = l_arena e + l_arena_off e"
  let ?e4 = "lalloc e (4 * w)" and ?ab = "labove e (need_mci d)"
  have nw: "need_mci d = 4 * w" using assms(2) by (simp add: need_mci_def w_def)
  have le: "a * w + w \<le> 4 * w" if "a < 4" for a using that mult_le_mono1 [of "Suc a" 4 w] by simp
  have ab: "cells_of (p + a * w) w \<subseteq> ?ab" if "a < 4" for a
    using le [OF that] by (auto simp: nw p_def)
  have dj: "cells_of (p + a * w) w \<inter> cells_of (p + b * w) w = {}" if "a < b" for a b
    using that mult_le_mono1 [of "Suc a" b w] by auto
  have fit: "p + a * w + w \<le> length (l_cells e)" if "a < 4" for a
    using assms(7) le [OF that] unfolding nw p_def by linarith
  have bc: "bcount d = w + d * w" by (simp add: bcount_def w_def)
  let ?C = "connector_nodes d n ingr" and ?M = "map2 (\<lambda>p q. [p, q]) prim (connector_out d n)"
    and ?B = "butterfly_layers (2 ^ d) d (n + bcount d)"
  have "\<exists>e5 ing e6. lc_layer H (lsrc_one ingress) False (p + 0 * w) (2 ^ d) 0 ?e4 = Some e5
    \<and> lc_butterfly H d 0 (p + 0 * w) (p + 1 * w) e5 = Some (ing, e6) \<and> ing \<in> {p + 0 * w, p + 1 * w}
    \<and> lgrows H ?e4 ns e6 (connector_nodes d (length ns) ingr) (cells_of (p + 0 * w) (2 ^ d) \<union> cells_of (p + 1 * w) (2 ^ d)) 0
    \<and> lat H e6 (ns @ connector_nodes d (length ns) ingr) ing (connector_out d (length ns))"
  proof (rule lbutterfly_ok)
    show "lready ?e4 ns (bcount d)" using assms(1) by (simp add: lready_def)
    show "cells_of ingress (2 ^ d) \<inter> cells_of (p + 0 * w) (2 ^ d) = {}"
      using apart_sub [OF assms(9) ab [of 0]] by (simp add: w_def)
  qed (use ingr fit [of 0] fit [of 1] dj [of 0 1] in \<open>simp_all add: w_def\<close>)
  then obtain e5 ing e6 where e5: "lc_layer H (lsrc_one ingress) False p w 0 ?e4 = Some e5"
    and e6: "lc_butterfly H d 0 p (p + w) e5 = Some (ing, e6)" "ing \<in> {p + 0 * w, p + 1 * w}"
    and g6: "lgrows H ?e4 ns e6 ?C (cells_of (p + 0 * w) w \<union> cells_of (p + 1 * w) w) 0"
    and i6: "lat H e6 (ns @ ?C) ing (connector_out d n)"
    by (auto simp: w_def n_def)
  have l6: "length (ns @ ?C) = n + bcount d" using ingr(2) by (simp add: n_def)
  have sub6: "cells_of (p + 0 * w) w \<union> cells_of (p + 1 * w) w \<subseteq> ?ab" using ab [of 0] ab [of 1] by simp
  have prim6: "lat H e6 (ns @ ?C) primary prim"
  proof (rule lat_frame [OF _ g6])
    show "cells_of primary (length prim) \<inter> (cells_of (p + 0 * w) w \<union> cells_of (p + 1 * w) w) = {}"
      using apart_sub [OF assms(8) sub6] prim(2) by simp
  qed (use prim(1) in simp)
  let ?P = "\<lambda>i. [prim ! i, connector_out d n ! i]"
  have "\<exists>e7. lc_layer H (lsrc_two primary ing) True (p + 2 * w) w 0 e6 = Some e7
    \<and> lgrows H e6 (ns @ ?C) e7 (map ?P [0..<w]) (cells_of (p + 2 * w) w) 0
    \<and> lat H e7 ((ns @ ?C) @ map ?P [0..<w]) (p + 2 * w) [length (ns @ ?C)..<length (ns @ ?C) + w]"
  proof (rule lc_layer_ok [OF _ _ lfeeds_two])
    show "lready e6 (ns @ ?C) w"
      by (rule lgrows_ready [OF g6]) (use assms(1) ingr(2) in \<open>simp add: bc lready_def\<close>)
    show "p + 2 * w + w \<le> length (l_cells e6)" using fit [of 2] lgrows_length [OF g6] by simp
    show "cells_of primary w \<inter> cells_of (p + 2 * w) w = {}"
      using apart_sub [OF assms(8) ab [of 2]] by (simp add: w_def)
    show "cells_of ing w \<inter> cells_of (p + 2 * w) w = {}" using e6(2) dj [of 0 2] dj [of 1 2] by auto
  qed (use prim6 i6 prim(2) in \<open>auto simp: w_def\<close>)
  moreover have "map ?P [0..<w] = ?M"
    using prim(2) by (intro nth_equalityI) (simp_all add: w_def)
  ultimately obtain e7 where e7: "lc_layer H (lsrc_two primary ing) True (p + 2 * w) w 0 e6 = Some e7"
    and g7: "lgrows H e6 (ns @ ?C) e7 ?M (cells_of (p + 2 * w) w) 0"
    and i7: "lat H e7 ((ns @ ?C) @ ?M) (p + 2 * w) [n + bcount d..<n + bcount d + w]"
    unfolding l6 by auto
  have l7: "length ((ns @ ?C) @ ?M) = n + bcount d + w" using prim(2) ingr(2) by (simp add: n_def w_def)
  have len7: "length (l_cells e7) = length (l_cells e)" using lgrows_length [OF g6] lgrows_length [OF g7] by simp
  have "\<exists>e8. lc_center H d 0 (p + 2 * w) (p + 3 * w) outputs e7 = Some e8
    \<and> lgrows H e7 ((ns @ ?C) @ ?M) e8 (butterfly_layers (2 ^ d) (Suc k) (n + bcount d))
        (cells_of (p + 2 * w) (2 ^ d) \<union> cells_of (p + 3 * w) (2 ^ d) \<union> cells_of outputs (2 ^ d)) 0
    \<and> lat H e8 (((ns @ ?C) @ ?M) @ butterfly_layers (2 ^ d) (Suc k) (n + bcount d)) outputs
        [n + bcount d + Suc k * 2 ^ d..<n + bcount d + Suc k * 2 ^ d + 2 ^ d]"
  proof (rule lc_center_ok)
    have "lready e6 (ns @ ?C) (length ?M + Suc k * 2 ^ d)"
      by (rule lgrows_ready [OF g6]) (use assms(1,2) prim(2) ingr(2) in \<open>simp add: bcount_def lready_def\<close>)
    then show "lready e7 ((ns @ ?C) @ ?M) (Suc k * 2 ^ d)" by (rule lgrows_ready [OF g7])
    show "cells_of (p + 2 * w) (2 ^ d) \<inter> cells_of outputs (2 ^ d) = {}"
      "cells_of (p + 3 * w) (2 ^ d) \<inter> cells_of outputs (2 ^ d) = {}"
      using apart_sub [OF assms(11) ab [of 2]] apart_sub [OF assms(11) ab [of 3]]
      by (simp_all add: w_def Int_commute)
  qed (use l7 i7 len7 fit [of 3] dj [of 2 3] assms(2,10) in \<open>auto simp: w_def\<close>)
  then obtain e8 where e8: "lc_center H d 0 (p + 2 * w) (p + 3 * w) outputs e7 = Some e8"
    and g8: "lgrows H e7 ((ns @ ?C) @ ?M) e8 ?B (cells_of (p + 2 * w) w \<union> cells_of (p + 3 * w) w \<union> cells_of outputs w) 0"
    and i8: "lat H e8 (((ns @ ?C) @ ?M) @ ?B) outputs [n + bcount d + d * w..<n + bcount d + d * w + w]"
    using assms(2) by (auto simp: w_def)
  have out: "mci_out d n = [n + bcount d + d * w..<n + bcount d + d * w + w]"
    by (simp add: mci_out_def connector_out_def bc w_def algebra_simps)
  let ?A = "cells_of outputs (2 ^ d) \<union> ?ab"
  have "lgrows H ?e4 ns e7 (?C @ ?M) ?A 0"
    using g6 g7 by (rule lgrows_trans) (use sub6 ab [of 2] in auto)
  then have "lgrows H ?e4 ns e8 ((?C @ ?M) @ ?B) ?A 0"
    by (rule lgrows_trans) (use g8 ab [of 2] ab [of 3] in \<open>auto simp: w_def\<close>)
  then have "lgrows H ?e4 ns e8 (mci_nodes d n prim ingr) ?A 0" by (simp add: mci_nodes_def)
  from lgrows_alloc [OF this]
  have g: "lgrows H e ns (e8\<lparr>l_arena_off := l_arena_off e\<rparr>) (mci_nodes d n prim ingr) ?A (l_arena_off e + need_mci d)"
    by (simp add: nw)
  have cap: "l_arena_off e + 4 * w \<le> l_arena_cap e" using assms(7) by (simp add: nw)
  have "lc_merged_center_ingress H d primary ingress outputs e = Some (e8\<lparr>l_arena_off := l_arena_off e\<rparr>)"
    using e5 e6(1) e7 e8 assms(2) cap
    by (simp add: lc_merged_center_ingress_def lc_arena_alloc_ok Let_def add.assoc p_def w_def)
  then show ?thesis using g i8 unfolding n_def [symmetric] out by (auto simp: mci_nodes_def)
qed

lemma lmerged_ok:
  assumes "lready e ns (2 * bcount d)" "lwater e"
    and "lat H e ns primary prim" "length prim = 2 ^ d" "lat H e ns ingress ingr" "length ingr = 2 ^ d"
    and "lfits e (need_mci d)" "cells_of primary (2 ^ d) \<inter> labove e (need_mci d) = {}"
    and "cells_of ingress (2 ^ d) \<inter> labove e (need_mci d) = {}"
    and "outputs + 2 ^ d \<le> length (l_cells e)" "cells_of outputs (2 ^ d) \<inter> labove e (need_mci d) = {}"
    and "cells_of primary (2 ^ d) \<inter> cells_of outputs (2 ^ d) = {}"
  shows "\<exists>e'. lc_merged_center_ingress H d primary ingress outputs e = Some e'
    \<and> lgrows H e ns e' (mci_nodes d (length ns) prim ingr) (cells_of outputs (2 ^ d) \<union> labove e (need_mci d))
        (l_arena_off e + need_mci d)
    \<and> lat H e' (ns @ mci_nodes d (length ns) prim ingr) outputs (mci_out d (length ns))"
proof (cases d)
  case 0
  then obtain a b where ab: "prim = [a]" "ingr = [b]" using assms(4,6) by (auto simp: length_Suc_conv)
  obtain e' where e': "lc_merged_center_ingress H 0 primary ingress outputs e = Some e'"
    "lgrows H e ns e' (mci_nodes 0 (length ns) [a] [b]) (cells_of outputs 1) 0"
    "lat H e' (ns @ mci_nodes 0 (length ns) [a] [b]) outputs (mci_out 0 (length ns))"
    using lmerged_zero_ok [of e ns primary a ingress b outputs] assms 0 ab by (auto simp: bcount_def)
  moreover have "lgrows H e ns e' (mci_nodes 0 (length ns) [a] [b]) (cells_of outputs 1 \<union> labove e (need_mci 0))
      (l_arena_off e)"
    using lgrows_none [OF e'(2) assms(2)] by (rule lgrows_mono) simp
  ultimately show ?thesis using 0 ab by (auto simp: need_mci_def)
next
  case (Suc k)
  then show ?thesis using lmerged_Suc_ok [OF assms(1) Suc assms(3-12)] by simp
qed

subsection \<open>Connected graphs\<close>

lemma lc_connected_ok:
  assumes "lready e ns (ccount l)" "lwater e" "lat H e ns inputs ins" "length ins = 2 ^ l"
    and "lfits e (need_connected l)" "cells_of inputs (2 ^ l) \<inter> labove e (need_connected l) = {}"
    and "base_out + 2 ^ l \<le> length (l_cells e)" "cells_of base_out (2 ^ l) \<inter> labove e (need_connected l) = {}"
  shows "\<exists>e'. lc_connected H l (2 ^ l) inputs base_out e = Some e'
    \<and> lgrows H e ns e' (connected_nodes l (length ns) ins) (cells_of base_out (2 ^ l) \<union> labove e (need_connected l))
        (l_arena_off e + need_connected l)
    \<and> lat H e' (ns @ connected_nodes l (length ns) ins) base_out (connected_base l (length ns))"
  using assms
proof (induction l arbitrary: e ns inputs ins base_out)
  case 0
  then obtain x where x: "ins = [x]" by (auto simp: length_Suc_conv)
  have i: "ld (l_cells e) inputs = Some (label_in H e ns x)" "x < length ns"
    using lat_single [of e ns inputs x] 0(3) x by simp_all
  obtain e' where e': "store_block base_out (l_hash H e (length ns) [label_in H e ns x], e\<lparr>l_next_id := l_next_id e + 1\<rparr>) = Some e'"
    "lgrows H e ns e' [[x]] (cells_of base_out 1) 0" "lat H e' (ns @ [[x]]) base_out [length ns]"
    using lnode_ok [of e ns "[x]" base_out] 0(1,7) i(2) by (auto simp: lready_def)
  have "lgrows H e ns e' [[x]] (cells_of base_out (2 ^ 0) \<union> labove e (need_connected 0)) (l_arena_off e)"
    using lgrows_none [OF e'(2) 0(2)] by (rule lgrows_mono) simp
  moreover have "lc_connected H 0 (2 ^ 0) inputs base_out e = Some e'"
    using e'(1) i 0(1) by (simp add: lc1_def l_hash_def node_label_def lready_def)
  ultimately show ?case using x e'(3) by simp
next
  case (Suc l)
  define h n p where "h = (2 ^ l :: nat)" and "n = length ns" and "p = l_arena e + l_arena_off e"
  define nd where "nd = max (need_connected l) (need_mci l)"
  let ?e3 = "lalloc e (3 * h)" and ?ab = "labove e (need_connected (Suc l))" and ?X = "cells_of (p + 3 * h) nd"
  let ?N1 = "connected_nodes l n (take h ins)"
    and ?N2 = "mci_nodes l (n + ccount l) (connected_base l n) (drop h ins)"
    and ?N3 = "connected_nodes l (n + ccount l + 2 * bcount l) (mci_out l (n + ccount l))"
  note [simp del] = need_connected.simps
  have need: "need_connected (Suc l) = 3 * h + nd" by (simp add: need_connected.simps h_def nd_def)
  have h0: "0 < h" by (simp add: h_def)
  have sub: "cells_of p h \<subseteq> ?ab" "cells_of (p + h) h \<subseteq> ?ab" "cells_of (p + 2 * h) h \<subseteq> ?ab" "?X \<subseteq> ?ab"
    by (auto simp: need p_def)
  have cap: "l_arena_off e + 3 * h + nd \<le> l_arena_cap e" "l_arena e + l_arena_cap e \<le> length (l_cells e)"
    using Suc.prems(5) need by simp_all
  then have len: "p + 3 * h + nd \<le> length (l_cells e)" by (simp add: p_def)
  have rdy: "lready e ns (ccount l + 2 * bcount l + ccount l)" using Suc.prems(1) by (rule lready_mono) simp
  have in0: "lat H e ns inputs (take h ins)" and in1: "lat H e ns (inputs + h) (drop h ins)"
    using lat_split [of H e ns inputs "take h ins" "drop h ins"] Suc.prems(3,4) by (simp_all add: h_def)
  have li: "length (take h ins) = 2 ^ l" "length (drop h ins) = 2 ^ l" using Suc.prems(4) by (simp_all add: h_def)
  have ind: "cells_of inputs h \<inter> ?ab = {}" "cells_of (inputs + h) h \<inter> ?ab = {}"
    using Suc.prems(6) by (auto simp: h_def disjoint_iff)
  have X3: "labove ?e3 (need_connected l) \<subseteq> ?X" by (auto simp: p_def nd_def)
  have "\<exists>e4. lc_connected H l (2 ^ l) inputs p ?e3 = Some e4
    \<and> lgrows H ?e3 ns e4 (connected_nodes l (length ns) (take h ins)) (cells_of p (2 ^ l) \<union> labove ?e3 (need_connected l))
        (l_arena_off ?e3 + need_connected l)
    \<and> lat H e4 (ns @ connected_nodes l (length ns) (take h ins)) p (connected_base l (length ns))"
  proof (rule Suc.IH)
    show "lready ?e3 ns (ccount l)" using lready_mono [OF rdy, of "ccount l"] by simp
    show "cells_of inputs (2 ^ l) \<inter> labove ?e3 (need_connected l) = {}"
      using apart_sub [OF ind(1) subset_trans [OF X3 sub(4)]] by (simp add: h_def)
    show "cells_of p (2 ^ l) \<inter> labove ?e3 (need_connected l) = {}" by (auto simp: p_def h_def)
  qed (use in0 li len cap in \<open>auto simp: h_def p_def nd_def\<close>)
  then obtain e4 where e4: "lc_connected H l h inputs p ?e3 = Some e4"
    and g4: "lgrows H ?e3 ns e4 ?N1 (cells_of p h \<union> labove ?e3 (need_connected l)) (l_arena_off ?e3 + need_connected l)"
    and i4: "lat H e4 (ns @ ?N1) p (connected_base l n)" by (auto simp: h_def n_def)
  have l4: "length (ns @ ?N1) = n + ccount l" using li by (simp add: n_def)
  have ar4: "l_arena e4 + l_arena_off e4 = p + 3 * h" "length (l_cells e4) = length (l_cells e)"
    "l_arena_off e4 = l_arena_off e + 3 * h" "l_arena_cap e4 = l_arena_cap e" "l_arena e4 = l_arena e"
    using lgrows_arena [OF g4] lgrows_length [OF g4] by (simp_all add: p_def)
  have w4: "lwater e4" using lwater_grows [OF g4] by simp
  have rdy4: "lready e4 (ns @ ?N1) (2 * bcount l + ccount l)"
    by (rule lgrows_ready [OF g4]) (use rdy li in \<open>simp add: add.assoc\<close>)
  have sub4: "cells_of p h \<union> labove ?e3 (need_connected l) \<subseteq> ?ab" using sub(1,4) X3 by blast
  have X4: "labove e4 (need_mci l) \<subseteq> ?X" unfolding ar4(1) by (auto simp: nd_def)
  have in4: "lat H e4 (ns @ ?N1) (inputs + h) (drop h ins)"
    by (rule lat_frame [OF _ g4]) (use in1 li apart_sub [OF ind(2) sub4] in \<open>simp_all add: h_def\<close>)
  have "\<exists>e5. lc_merged_center_ingress H l p (inputs + h) (p + h) e4 = Some e5
    \<and> lgrows H e4 (ns @ ?N1) e5 (mci_nodes l (length (ns @ ?N1)) (connected_base l n) (drop h ins))
        (cells_of (p + h) (2 ^ l) \<union> labove e4 (need_mci l)) (l_arena_off e4 + need_mci l)
    \<and> lat H e5 ((ns @ ?N1) @ mci_nodes l (length (ns @ ?N1)) (connected_base l n) (drop h ins)) (p + h)
        (mci_out l (length (ns @ ?N1)))"
  proof (rule lmerged_ok [OF _ w4 i4 _ in4 li(2)])
    show "lready e4 (ns @ ?N1) (2 * bcount l)" using rdy4 by (rule lready_mono) simp
    show "cells_of (inputs + h) (2 ^ l) \<inter> labove e4 (need_mci l) = {}"
      using apart_sub [OF ind(2) subset_trans [OF X4 sub(4)]] by (simp add: h_def)
  qed (use ar4 len cap in \<open>auto simp: h_def nd_def\<close>)
  then obtain e5 where e5: "lc_merged_center_ingress H l p (inputs + h) (p + h) e4 = Some e5"
    and g5: "lgrows H e4 (ns @ ?N1) e5 ?N2 (cells_of (p + h) h \<union> labove e4 (need_mci l)) (l_arena_off e4 + need_mci l)"
    and i5: "lat H e5 ((ns @ ?N1) @ ?N2) (p + h) (mci_out l (n + ccount l))"
    unfolding l4 by (auto simp: h_def)
  have l5: "length ((ns @ ?N1) @ ?N2) = n + ccount l + 2 * bcount l" using li by (simp add: n_def)
  have ar5: "l_arena e5 + l_arena_off e5 = p + 3 * h" "length (l_cells e5) = length (l_cells e)"
    "l_arena_off e5 = l_arena_off e + 3 * h" "l_arena_cap e5 = l_arena_cap e" "l_arena e5 = l_arena e"
    using lgrows_arena [OF g5] lgrows_length [OF g5] ar4 by simp_all
  have w5: "lwater e5" using lwater_grows [OF g5 w4] .
  have X5: "labove e5 (need_connected l) \<subseteq> ?X" unfolding ar5(1) by (auto simp: nd_def)
  have "\<exists>e6. lc_connected H l (2 ^ l) (p + h) (p + 2 * h) e5 = Some e6
    \<and> lgrows H e5 ((ns @ ?N1) @ ?N2) e6 (connected_nodes l (length ((ns @ ?N1) @ ?N2)) (mci_out l (n + ccount l)))
        (cells_of (p + 2 * h) (2 ^ l) \<union> labove e5 (need_connected l)) (l_arena_off e5 + need_connected l)
    \<and> lat H e6 (((ns @ ?N1) @ ?N2) @ connected_nodes l (length ((ns @ ?N1) @ ?N2)) (mci_out l (n + ccount l)))
        (p + 2 * h) (connected_base l (length ((ns @ ?N1) @ ?N2)))"
  proof (rule Suc.IH [OF _ w5 i5])
    show "lready e5 ((ns @ ?N1) @ ?N2) (ccount l)"
      by (rule lgrows_ready [OF g5]) (use rdy4 li in simp)
  qed (use ar5 len cap in \<open>auto simp: h_def nd_def\<close>)
  then obtain e6 where e6: "lc_connected H l h (p + h) (p + 2 * h) e5 = Some e6"
    and g6: "lgrows H e5 ((ns @ ?N1) @ ?N2) e6 ?N3 (cells_of (p + 2 * h) h \<union> labove e5 (need_connected l))
        (l_arena_off e5 + need_connected l)"
    and i6: "lat H e6 (((ns @ ?N1) @ ?N2) @ ?N3) (p + 2 * h) (connected_base l (n + ccount l + 2 * bcount l))"
    unfolding l5 by (auto simp: h_def)
  have l6: "length (l_cells e6) = length (l_cells e)" using lgrows_length [OF g6] ar5 by simp
  have "cells_of p h \<inter> (cells_of (p + h) h \<union> ?X) = {}" "cells_of p h \<inter> (cells_of (p + 2 * h) h \<union> ?X) = {}"
    by auto
  then have "cells_of p h \<inter> (cells_of (p + h) h \<union> labove e4 (need_mci l)) = {}"
    "cells_of p h \<inter> (cells_of (p + 2 * h) h \<union> labove e5 (need_connected l)) = {}"
    using X4 X5 by blast+
  then have i4': "lat H e6 (((ns @ ?N1) @ ?N2) @ ?N3) p (connected_base l n)"
    by (intro lat_frame [OF _ g6] lat_frame [OF _ g5] i4) (simp_all add: h_def)
  have out: "cells_of base_out (2 * h) \<inter> ?ab = {}" using Suc.prems(8) by (simp add: h_def)
  obtain e7 e8 where e7: "copy_blocks e6 base_out p h = Some e7"
    and e8: "copy_blocks e7 (base_out + h) (p + 2 * h) h = Some e8"
    and g8: "lgrows H e6 (((ns @ ?N1) @ ?N2) @ ?N3) e8 [] (cells_of base_out (2 * h)) 0"
    and i8: "lat H e8 (((ns @ ?N1) @ ?N2) @ ?N3) base_out (connected_base (Suc l) n)"
    using lbase_copies_ok [OF lgrows_next [OF g6] i4' i6 _ _ h0 _ apart_sub [OF out sub(1)] apart_sub [OF out sub(3)]]
      Suc.prems(7) by (auto simp: l6 h_def)
  let ?A = "cells_of base_out (2 ^ Suc l) \<union> ?ab"
  have "lgrows H ?e3 ns e5 (?N1 @ ?N2) ?ab (l_arena_off e + 3 * h + nd)"
    using g4 g5 sub4 by (rule lgrows_trans) (use sub(2,4) X4 ar4(3) in \<open>auto simp: nd_def\<close>)
  then have "lgrows H ?e3 ns e6 ((?N1 @ ?N2) @ ?N3) ?ab (l_arena_off e + 3 * h + nd)"
    by (rule lgrows_trans [OF _ _ order_refl]) (use g6 sub(3,4) X5 ar5(3) in \<open>auto simp: nd_def\<close>)
  then have "lgrows H ?e3 ns e8 (((?N1 @ ?N2) @ ?N3) @ []) ?A (l_arena_off e + 3 * h + nd)"
    by (rule lgrows_trans) (use g8 in \<open>auto simp: h_def\<close>)
  then have "lgrows H ?e3 ns e8 (connected_nodes (Suc l) n ins) ?A (l_arena_off e + 3 * h + nd)" by (simp add: h_def)
  from lgrows_alloc [OF this]
  have g: "lgrows H e ns (e8\<lparr>l_arena_off := l_arena_off e\<rparr>) (connected_nodes (Suc l) n ins) ?A
      (l_arena_off e + need_connected (Suc l))"
    by (simp add: need add.assoc)
  have "lc_connected H (Suc l) (2 ^ Suc l) inputs base_out e = Some (e8\<lparr>l_arena_off := l_arena_off e\<rparr>)"
    using e4 [unfolded times3] e5 e6 e7 e8 cap(1)
    by (simp add: lc_arena_alloc_ok Let_def h_def p_def add.assoc mult_2)
  then show ?case using i8 g by (auto simp: n_def h_def)
qed

subsection \<open>Standalone graphs\<close>

lemma lc_standalone_ok:
  assumes "lready e ns (scount l)" "lwater e" "lfits e (need_standalone l)"
    and "base_out + 2 ^ l \<le> length (l_cells e)" "cells_of base_out (2 ^ l) \<inter> labove e (need_standalone l) = {}"
  shows "\<exists>e'. lc_standalone H l base_out e = Some e'
    \<and> lgrows H e ns e' (standalone_nodes l (length ns)) (cells_of base_out (2 ^ l) \<union> labove e (need_standalone l))
        (l_arena_off e + need_standalone l)
    \<and> lat H e' (ns @ standalone_nodes l (length ns)) base_out (standalone_base l (length ns))"
  using assms
proof (induction l arbitrary: e ns base_out)
  case 0
  obtain e' where e': "store_block base_out (l_hash H e (length ns) [], e\<lparr>l_next_id := l_next_id e + 1\<rparr>) = Some e'"
    "lgrows H e ns e' [[]] (cells_of base_out 1) 0" "lat H e' (ns @ [[]]) base_out [length ns]"
    using lnode_ok [of e ns "[]" base_out] 0(1,4) by (auto simp: lready_def)
  have "lgrows H e ns e' [[]] (cells_of base_out (2 ^ 0) \<union> labove e (need_standalone 0)) (l_arena_off e)"
    using lgrows_none [OF e'(2) 0(2)] by (rule lgrows_mono) simp
  moreover have "lc_standalone H 0 base_out e = Some e'"
    using e'(1) 0(1) by (simp add: lc_source_def l_hash_def node_label_def lready_def)
  ultimately show ?case using e'(3) by simp
next
  case (Suc l)
  define h n p where "h = (2 ^ l :: nat)" and "n = length ns" and "p = l_arena e + l_arena_off e"
  define nd where "nd = max (need_standalone l) (max (need_connector l) (need_connected l))"
  let ?e3 = "lalloc e (3 * h)" and ?ab = "labove e (need_standalone (Suc l))" and ?X = "cells_of (p + 3 * h) nd"
  let ?N1 = "standalone_nodes l n" and ?N2 = "connector_nodes l (n + scount l) (standalone_base l n)"
    and ?N3 = "connected_nodes l (n + scount l + bcount l) (connector_out l (n + scount l))"
  note [simp del] = need_standalone.simps
  have need: "need_standalone (Suc l) = 3 * h + nd" by (simp add: need_standalone.simps h_def nd_def)
  have h0: "0 < h" by (simp add: h_def)
  have sub: "cells_of p h \<subseteq> ?ab" "cells_of (p + h) h \<subseteq> ?ab" "cells_of (p + 2 * h) h \<subseteq> ?ab" "?X \<subseteq> ?ab"
    by (auto simp: need p_def)
  have cap: "l_arena_off e + 3 * h + nd \<le> l_arena_cap e" "l_arena e + l_arena_cap e \<le> length (l_cells e)"
    using Suc.prems(3) need by simp_all
  then have len: "p + 3 * h + nd \<le> length (l_cells e)" by (simp add: p_def)
  have rdy: "lready e ns (scount l + bcount l + ccount l)" using Suc.prems(1) by (rule lready_mono) simp
  have X3: "labove ?e3 (need_standalone l) \<subseteq> ?X" by (auto simp: p_def nd_def)
  have "\<exists>e4. lc_standalone H l p ?e3 = Some e4
    \<and> lgrows H ?e3 ns e4 (standalone_nodes l (length ns)) (cells_of p (2 ^ l) \<union> labove ?e3 (need_standalone l))
        (l_arena_off ?e3 + need_standalone l)
    \<and> lat H e4 (ns @ standalone_nodes l (length ns)) p (standalone_base l (length ns))"
  proof (rule Suc.IH)
    show "lready ?e3 ns (scount l)" using lready_mono [OF rdy, of "scount l"] by simp
    show "cells_of p (2 ^ l) \<inter> labove ?e3 (need_standalone l) = {}" by (auto simp: p_def h_def)
  qed (use len cap in \<open>auto simp: h_def p_def nd_def\<close>)
  then obtain e4 where e4: "lc_standalone H l p ?e3 = Some e4"
    and g4: "lgrows H ?e3 ns e4 ?N1 (cells_of p h \<union> labove ?e3 (need_standalone l)) (l_arena_off ?e3 + need_standalone l)"
    and i4: "lat H e4 (ns @ ?N1) p (standalone_base l n)" by (auto simp: h_def n_def)
  have l4: "length (ns @ ?N1) = n + scount l" by (simp add: n_def)
  have ar4: "l_arena e4 + l_arena_off e4 = p + 3 * h" "length (l_cells e4) = length (l_cells e)"
    "l_arena_off e4 = l_arena_off e + 3 * h" "l_arena_cap e4 = l_arena_cap e" "l_arena e4 = l_arena e"
    using lgrows_arena [OF g4] lgrows_length [OF g4] by (simp_all add: p_def)
  have w4: "lwater e4" using lwater_grows [OF g4] by simp
  have rdy4: "lready e4 (ns @ ?N1) (bcount l + ccount l)"
    by (rule lgrows_ready [OF g4]) (use rdy in \<open>simp add: add.assoc\<close>)
  have X4: "labove e4 (need_connector l) \<subseteq> ?X" unfolding ar4(1) by (auto simp: nd_def)
  have "\<exists>e5. lc_connector H l p (p + h) e4 = Some e5
    \<and> lgrows H e4 (ns @ ?N1) e5 (connector_nodes l (length (ns @ ?N1)) (standalone_base l n))
        (cells_of (p + h) (2 ^ l) \<union> labove e4 (need_connector l)) (l_arena_off e4 + need_connector l)
    \<and> lat H e5 ((ns @ ?N1) @ connector_nodes l (length (ns @ ?N1)) (standalone_base l n)) (p + h)
        (connector_out l (length (ns @ ?N1)))"
  proof (rule lc_connector_ok [OF _ i4])
    show "lready e4 (ns @ ?N1) (bcount l)" using rdy4 by (rule lready_mono) simp
  qed (use ar4 len cap in \<open>auto simp: h_def nd_def\<close>)
  then obtain e5 where e5: "lc_connector H l p (p + h) e4 = Some e5"
    and g5: "lgrows H e4 (ns @ ?N1) e5 ?N2 (cells_of (p + h) h \<union> labove e4 (need_connector l))
        (l_arena_off e4 + need_connector l)"
    and i5: "lat H e5 ((ns @ ?N1) @ ?N2) (p + h) (connector_out l (n + scount l))"
    unfolding l4 by (auto simp: h_def)
  have l5: "length ((ns @ ?N1) @ ?N2) = n + scount l + bcount l" by (simp add: n_def)
  have ar5: "l_arena e5 + l_arena_off e5 = p + 3 * h" "length (l_cells e5) = length (l_cells e)"
    "l_arena_off e5 = l_arena_off e + 3 * h" "l_arena_cap e5 = l_arena_cap e" "l_arena e5 = l_arena e"
    using lgrows_arena [OF g5] lgrows_length [OF g5] ar4 by simp_all
  have w5: "lwater e5" using lwater_grows [OF g5 w4] .
  have X5: "labove e5 (need_connected l) \<subseteq> ?X" unfolding ar5(1) by (auto simp: nd_def)
  have "\<exists>e6. lc_connected H l (2 ^ l) (p + h) (p + 2 * h) e5 = Some e6
    \<and> lgrows H e5 ((ns @ ?N1) @ ?N2) e6 (connected_nodes l (length ((ns @ ?N1) @ ?N2)) (connector_out l (n + scount l)))
        (cells_of (p + 2 * h) (2 ^ l) \<union> labove e5 (need_connected l)) (l_arena_off e5 + need_connected l)
    \<and> lat H e6 (((ns @ ?N1) @ ?N2) @ connected_nodes l (length ((ns @ ?N1) @ ?N2)) (connector_out l (n + scount l)))
        (p + 2 * h) (connected_base l (length ((ns @ ?N1) @ ?N2)))"
  proof (rule lc_connected_ok [OF _ w5 i5])
    show "lready e5 ((ns @ ?N1) @ ?N2) (ccount l)"
      by (rule lgrows_ready [OF g5]) (use rdy4 in simp)
  qed (use ar5 len cap in \<open>auto simp: h_def nd_def\<close>)
  then obtain e6 where e6: "lc_connected H l h (p + h) (p + 2 * h) e5 = Some e6"
    and g6: "lgrows H e5 ((ns @ ?N1) @ ?N2) e6 ?N3 (cells_of (p + 2 * h) h \<union> labove e5 (need_connected l))
        (l_arena_off e5 + need_connected l)"
    and i6: "lat H e6 (((ns @ ?N1) @ ?N2) @ ?N3) (p + 2 * h) (connected_base l (n + scount l + bcount l))"
    unfolding l5 by (auto simp: h_def)
  have l6: "length (l_cells e6) = length (l_cells e)" using lgrows_length [OF g6] ar5 by simp
  have "cells_of p h \<inter> (cells_of (p + h) h \<union> ?X) = {}" "cells_of p h \<inter> (cells_of (p + 2 * h) h \<union> ?X) = {}"
    by auto
  then have "cells_of p h \<inter> (cells_of (p + h) h \<union> labove e4 (need_connector l)) = {}"
    "cells_of p h \<inter> (cells_of (p + 2 * h) h \<union> labove e5 (need_connected l)) = {}"
    using X4 X5 by blast+
  then have i4': "lat H e6 (((ns @ ?N1) @ ?N2) @ ?N3) p (standalone_base l n)"
    by (intro lat_frame [OF _ g6] lat_frame [OF _ g5] i4) (simp_all add: h_def)
  have out: "cells_of base_out (2 * h) \<inter> ?ab = {}" using Suc.prems(5) by (simp add: h_def)
  obtain e7 e8 where e7: "copy_blocks e6 base_out p h = Some e7"
    and e8: "copy_blocks e7 (base_out + h) (p + 2 * h) h = Some e8"
    and g8: "lgrows H e6 (((ns @ ?N1) @ ?N2) @ ?N3) e8 [] (cells_of base_out (2 * h)) 0"
    and i8: "lat H e8 (((ns @ ?N1) @ ?N2) @ ?N3) base_out (standalone_base (Suc l) n)"
    using lbase_copies_ok [OF lgrows_next [OF g6] i4' i6 _ _ h0 _ apart_sub [OF out sub(1)] apart_sub [OF out sub(3)]]
      Suc.prems(4) by (auto simp: l6 h_def)
  let ?A = "cells_of base_out (2 ^ Suc l) \<union> ?ab"
  have "lgrows H ?e3 ns e5 (?N1 @ ?N2) ?ab (max (l_arena_off e + 3 * h + need_standalone l) (l_arena_off e + 3 * h + need_connector l))"
    using g4 g5 by (rule lgrows_trans) (use sub X3 X4 ar4(3) in auto)
  then have "lgrows H ?e3 ns e6 ((?N1 @ ?N2) @ ?N3) ?ab (l_arena_off e + 3 * h + nd)"
    by (rule lgrows_trans [OF _ _ order_refl]) (use g6 sub(3,4) X5 ar5(3) in \<open>auto simp: nd_def\<close>)
  then have "lgrows H ?e3 ns e8 (((?N1 @ ?N2) @ ?N3) @ []) ?A (l_arena_off e + 3 * h + nd)"
    by (rule lgrows_trans) (use g8 in \<open>auto simp: h_def\<close>)
  then have "lgrows H ?e3 ns e8 (standalone_nodes (Suc l) n) ?A (l_arena_off e + 3 * h + nd)" by simp
  from lgrows_alloc [OF this]
  have g: "lgrows H e ns (e8\<lparr>l_arena_off := l_arena_off e\<rparr>) (standalone_nodes (Suc l) n) ?A
      (l_arena_off e + need_standalone (Suc l))"
    by (simp add: need add.assoc)
  have "lc_standalone H (Suc l) base_out e = Some (e8\<lparr>l_arena_off := l_arena_off e\<rparr>)"
    using e4 [unfolded times3] e5 e6 e7 e8 cap(1)
    by (simp add: lc_arena_alloc_ok Let_def h_def p_def add.assoc mult_2)
  then show ?case using i8 g by (auto simp: n_def)
qed

end

end
