(* ===== verification/Inplace_Label.thy ===== *)
theory Inplace_Label
  imports Inplace_Graph
begin

section \<open>The in-place chunk labeler agrees with \<open>do_label\<close>\<close>

lemma copy_rank_ok:
  assumes "\<And>j. i \<le> j \<Longrightarrow> j < i + n \<Longrightarrow> ld (l_cells e) (base + j) = Some (f j) \<and> length (f j) = POSE_HASH_BYTES"
    and "(rank + i + n) * POSE_HASH_BYTES \<le> length out"
  shows "\<exists>out'. copy_rank e base rank i n out = Some out'
    \<and> agree_off (cells_of ((rank + i) * POSE_HASH_BYTES) (n * POSE_HASH_BYTES)) out out'
    \<and> rd out' ((rank + i) * POSE_HASH_BYTES) (n * POSE_HASH_BYTES) = Some (concat (map f [i..<i + n]))"
  using assms
proof (induction n arbitrary: i out)
  case 0
  then show ?case by (simp add: rd_def)
next
  case (Suc n)
  have f: "ld (l_cells e) (base + i) = Some (f i)" and l: "length (f i) = POSE_HASH_BYTES"
    using Suc.prems(1) [of i] by auto
  let ?p = "(rank + i) * POSE_HASH_BYTES"
  have q: "(rank + Suc i) * POSE_HASH_BYTES = ?p + POSE_HASH_BYTES" by simp
  have b: "?p + POSE_HASH_BYTES + n * POSE_HASH_BYTES \<le> length out"
    using Suc.prems(2) by (simp add: algebra_simps)
  obtain out1 where o1: "wr out ?p (f i) = Some out1"
    using wr_ok [of ?p "f i" out] b l by auto
  have a1: "agree_off (cells_of ?p POSE_HASH_BYTES) out out1" using wr_agree [OF o1] l by simp
  have "\<exists>out'. copy_rank e base rank (Suc i) n out1 = Some out'
    \<and> agree_off (cells_of ((rank + Suc i) * POSE_HASH_BYTES) (n * POSE_HASH_BYTES)) out1 out'
    \<and> rd out' ((rank + Suc i) * POSE_HASH_BYTES) (n * POSE_HASH_BYTES) = Some (concat (map f [Suc i..<Suc i + n]))"
    by (rule Suc.IH) (use Suc.prems b agree_off_length [OF a1] in \<open>auto simp: algebra_simps\<close>)
  then obtain out' where o': "copy_rank e base rank (Suc i) n out1 = Some out'"
    "agree_off (cells_of (?p + POSE_HASH_BYTES) (n * POSE_HASH_BYTES)) out1 out'"
    "rd out' (?p + POSE_HASH_BYTES) (n * POSE_HASH_BYTES) = Some (concat (map f [Suc i..<Suc i + n]))"
    unfolding q by blast
  have "agree_off (cells_of ?p (Suc n * POSE_HASH_BYTES)) out out'"
    using a1 o'(2) by (rule agree_off_trans) auto
  moreover have "rd out1 ?p POSE_HASH_BYTES = Some (f i)" using rd_wr [OF o1] l by simp
  then have "rd out' ?p POSE_HASH_BYTES = Some (f i)" by (rule rd_frame [OF o'(2), rotated]) auto
  from rd_join [OF this o'(3)]
  have "rd out' ?p (Suc n * POSE_HASH_BYTES) = Some (concat (map f [i..<i + Suc n]))"
    unfolding upt_add_Suc by simp
  moreover have "copy_rank e base rank i (Suc n) out = Some out'" using f o1 o'(1) by simp
  ultimately show ?case by blast
qed

text \<open>The buffers a caller of \<open>do_label_inplace\<close> provides.\<close>

definition inplace_buffers_fit :: "u64 \<Rightarrow> bytes \<Rightarrow> bytes \<Rightarrow> bool" where
  "inplace_buffers_fit m buf scratch \<longleftrightarrow>
     (let n = pose_graph_parameter_n m in
        unat m * POSE_HASH_BYTES \<le> length buf
        \<and> (4 + POSE_ARENA_FACTOR) * 2 ^ n * POSE_HASH_BYTES \<le> length scratch)"

lemma blocks32_view: "blocks32 (view_labels b (length b div POSE_HASH_BYTES))"
proof -
  have "length (take POSE_HASH_BYTES (drop (i * POSE_HASH_BYTES) b)) = POSE_HASH_BYTES"
    if "i < length b div POSE_HASH_BYTES" for i
    using order_trans [OF mult_le_mono1 [of "Suc i"] div_times_less_eq_dividend, of "length b" POSE_HASH_BYTES] that
    by (auto simp: min_def)
  then show ?thesis by (simp add: blocks32_def view_labels_def)
qed

context node_hash begin

text \<open>Both standalone copies, in one arena used twice.\<close>

lemma lc_two_copies_ok:
  assumes "l_next_id e = 0" "l_arena e = 4 * 2 ^ n" "l_arena_off e = 0" "l_arena_cap e = 16 * 2 ^ n"
    and "l_arena_hi e = 0" "20 * 2 ^ n \<le> length (l_cells e)" "2 * scount (n + 1) < 2 ^ 64"
  shows "\<exists>e1 e2. lc_standalone H (n + 1) 0 e = Some e1 \<and> l_arena_hi e1 = need_standalone (n + 1)
    \<and> lc_standalone H (n + 1) (2 * 2 ^ n) (e1\<lparr>l_next_id := of_nat (scount (n + 1)), l_arena_off := 0\<rparr>) = Some e2
    \<and> l_arena_hi e2 = need_standalone (n + 1) \<and> l_hash H e2 = l_hash H e
    \<and> lat H e2 (graph_nodes n) 0 (standalone_base (n + 1) 0)
    \<and> lat H e2 (graph_nodes n) (2 * 2 ^ n) (standalone_base (n + 1) (scount (n + 1)))
    \<and> length (l_cells e2) = length (l_cells e) \<and> (blocks32 (l_cells e) \<longrightarrow> blocks32 (l_cells e2))"
proof -
  define hw L where "hw = (2 ^ n :: nat)" and "L = n + 1"
  have L: "2 ^ L = 2 * hw" by (simp add: L_def hw_def)
  have need: "need_standalone L \<le> 16 * hw"
    using need_standalone_fits [of n] by (simp add: L_def hw_def POSE_ARENA_FACTOR_def del: need_standalone.simps)
  have S: "2 * scount L < 2 ^ 64" using assms(7) by (simp add: L_def del: scount.simps)
  have "\<exists>e1. lc_standalone H L 0 e = Some e1
    \<and> lgrows H e [] e1 (standalone_nodes L (length ([] :: nat list list))) (cells_of 0 (2 ^ L) \<union> labove e (need_standalone L))
        (l_arena_off e + need_standalone L)
    \<and> lat H e1 ([] @ standalone_nodes L (length ([] :: nat list list))) 0 (standalone_base L (length ([] :: nat list list)))"
  proof (rule lc_standalone_ok)
    show "cells_of 0 (2 ^ L) \<inter> labove e (need_standalone L) = {}" unfolding L using assms(2) by (simp add: hw_def)
  qed (use assms need L S in \<open>auto simp: hw_def lready_def lwater_def\<close>)
  then obtain e1 where e1: "lc_standalone H L 0 e = Some e1"
    and g1: "lgrows H e [] e1 (standalone_nodes L 0) (cells_of 0 (2 ^ L) \<union> labove e (need_standalone L)) (need_standalone L)"
    and i1: "lat H e1 (standalone_nodes L 0) 0 (standalone_base L 0)"
    using assms(3) by auto
  let ?e = "e1\<lparr>l_next_id := of_nat (scount L), l_arena_off := 0\<rparr>" and ?ns = "standalone_nodes L 0"
  have i1': "lat H ?e ?ns 0 (standalone_base L 0)" using i1 by (simp add: lat_def l_hash_def)
  have "\<exists>e2. lc_standalone H L (2 * hw) ?e = Some e2
    \<and> lgrows H ?e ?ns e2 (standalone_nodes L (length ?ns)) (cells_of (2 * hw) (2 ^ L) \<union> labove ?e (need_standalone L))
        (l_arena_off ?e + need_standalone L)
    \<and> lat H e2 (?ns @ standalone_nodes L (length ?ns)) (2 * hw) (standalone_base L (length ?ns))"
  proof (rule lc_standalone_ok)
    show "cells_of (2 * hw) (2 ^ L) \<inter> labove ?e (need_standalone L) = {}"
      unfolding L using assms(2) lgrows_arena [OF g1] by (auto simp: hw_def)
  qed (use assms(2-6) need L S lgrows_length [OF g1] lgrows_arena [OF g1] in \<open>auto simp: hw_def lready_def lwater_def\<close>)
  then obtain e2 where e2: "lc_standalone H L (2 * hw) ?e = Some e2"
    and g2: "lgrows H ?e ?ns e2 (standalone_nodes L (scount L)) (cells_of (2 * hw) (2 ^ L) \<union> labove ?e (need_standalone L))
        (need_standalone L)"
    and i2: "lat H e2 (?ns @ standalone_nodes L (scount L)) (2 * hw) (standalone_base L (scount L))" by auto
  have "cells_of 0 (length (standalone_base L 0)) \<inter> (cells_of (2 * hw) (2 ^ L) \<union> labove ?e (need_standalone L)) = {}"
    unfolding length_standalone_base L using assms(2) lgrows_arena [OF g1] by (auto simp: hw_def)
  from lat_frame [OF i1' g2 this]
  have i2': "lat H e2 (?ns @ standalone_nodes L (scount L)) 0 (standalone_base L 0)" .
  have "l_arena_hi e1 = need_standalone L" "l_arena_hi e2 = need_standalone L"
    using g1 g2 assms(5) by (simp_all add: lgrows_def)
  moreover have "l_hash H e2 = l_hash H e"
    using lgrows_hash [OF g1] lgrows_hash [OF g2] by (simp add: l_hash_def)
  moreover have "length (l_cells e2) = length (l_cells e)" "blocks32 (l_cells e) \<longrightarrow> blocks32 (l_cells e2)"
    using g1 g2 lgrows_length [OF g1] lgrows_length [OF g2] by (auto simp: lgrows_def)
  ultimately show ?thesis using e1 e2 i2 i2' unfolding graph_nodes_def L_def hw_def by blast
qed

lemma copy_rank_base_ok:
  assumes at: "lat H e ns p base" "k + n \<le> length base"
    and out: "(rank + n) * POSE_HASH_BYTES \<le> length out"
  shows "\<exists>out'. copy_rank e (p + k) rank 0 n out = Some out'
    \<and> agree_off (cells_of (rank * POSE_HASH_BYTES) (n * POSE_HASH_BYTES)) out out'
    \<and> rd out' (rank * POSE_HASH_BYTES) (n * POSE_HASH_BYTES)
        = Some (concat (map (label_in H e ns) (take n (drop k base))))"
proof -
  have "ld (l_cells e) (p + k + j) = Some (label_in H e ns (base ! (k + j)))
      \<and> length (label_in H e ns (base ! (k + j))) = POSE_HASH_BYTES" if "j < n" for j
  proof -
    have b: "base ! (k + j) < length ns" using that at(2) lat_less [OF at(1)] by simp
    have "ld (l_cells e) (p + (k + j)) = Some (label_in H e ns (base ! (k + j)))"
      using lat_ld [OF at(1) agree_off_refl [of "{}"]] that at(2) by simp
    moreover have "length (label_in H e ns (base ! (k + j))) = POSE_HASH_BYTES"
      using b length_labels [of _ "l_seed e" "l_desc e" "l_algo e" ns] by (simp add: l_hash_def)
    ultimately show ?thesis by (simp add: add.assoc)
  qed
  then obtain out' where o: "copy_rank e (p + k) rank 0 n out = Some out'"
    "agree_off (cells_of ((rank + 0) * POSE_HASH_BYTES) (n * POSE_HASH_BYTES)) out out'"
    "rd out' ((rank + 0) * POSE_HASH_BYTES) (n * POSE_HASH_BYTES)
      = Some (concat (map (\<lambda>j. label_in H e ns (base ! (k + j))) [0..<0 + n]))"
    using copy_rank_ok [of 0 n e "p + k" "\<lambda>j. label_in H e ns (base ! (k + j))" rank out] out by auto
  have "map (\<lambda>j. label_in H e ns (base ! (k + j))) [0..<0 + n] = map (label_in H e ns) (take n (drop k base))"
    using at(2) by (intro nth_equalityI) auto
  then show ?thesis using o by auto
qed

lemma do_label_inplace_ok:
  assumes m: "m \<noteq> 0" "m \<le> POSE_GRAPH_MAX_M" and fit: "inplace_buffers_fit m buf scratch"
  shows "\<exists>buf' scratch'. do_label_inplace H seed m buf scratch al = Some (0, buf', scratch')
    \<and> rd buf' 0 (unat m * POSE_HASH_BYTES) = Some (concat (output_labels H seed m al))
    \<and> agree_off (cells_of 0 (unat m * POSE_HASH_BYTES)) buf buf' \<and> length scratch' = length scratch"
proof -
  note [simp del] = standalone_base.simps scount.simps standalone_node_count.simps lc_standalone.simps
  define n hw S B where "n = pose_graph_parameter_n m" and "hw = (2 ^ n :: nat)" and "S = scount (n + 1)"
    and "B = POSE_HASH_BYTES"
  note w = parameter_word_facts [OF m, folded n_def, folded hw_def S_def]
  have hwm: "hw \<le> unat m" "unat m \<le> 2 * hw"
    using parameter_n_le [OF m(1)] parameter_n_ge [of m] by (simp_all add: n_def hw_def)
  have f: "unat m * B \<le> length buf" "20 * hw * B \<le> length scratch"
    using fit by (simp_all add: inplace_buffers_fit_def Let_def n_def hw_def B_def POSE_ARENA_FACTOR_def)
  define e where "e = \<lparr>l_next_id = 0, l_seed = seed, l_desc = graph_descriptor H m (of_nat n),
    l_arena = 4 * hw, l_arena_cap = 16 * hw, l_arena_off = 0, l_arena_hi = 0, l_algo = al,
    l_cells = view_labels scratch (length scratch div B)\<rparr>"
  have B: "0 < B" by (simp add: B_def POSE_HASH_BYTES_def)
  have cells: "20 * hw \<le> length (l_cells e)"
    using f(2) B by (simp add: e_def less_eq_div_iff_mult_less_eq)
  obtain e1 e2 where e1: "lc_standalone H (n + 1) 0 e = Some e1"
    and e2: "lc_standalone H (n + 1) (2 * hw) (e1\<lparr>l_next_id := of_nat S, l_arena_off := 0\<rparr>) = Some e2"
    and hash: "l_hash H e2 = l_hash H e"
    and i0: "lat H e2 (graph_nodes n) 0 (standalone_base (n + 1) 0)"
    and i1: "lat H e2 (graph_nodes n) (2 * hw) (standalone_base (n + 1) S)"
    and fr: "length (l_cells e2) = length (l_cells e)" "blocks32 (l_cells e) \<longrightarrow> blocks32 (l_cells e2)"
    using lc_two_copies_ok [of e n, folded hw_def S_def] w(4) cells by (auto simp: e_def)
  let ?L = "label_in H e2 (graph_nodes n)"
  have k0: "hw + hw \<le> length (standalone_base (n + 1) 0)"
    and k1: "hw + (unat m - hw) \<le> length (standalone_base (n + 1) S)" using hwm by (simp_all add: hw_def)
  have r0: "(0 + hw) * POSE_HASH_BYTES \<le> length buf"
    using order_trans [OF mult_le_mono1 [OF hwm(1)] f(1)] by (simp add: B_def)
  obtain buf1 where o1: "copy_rank e2 (0 + hw) 0 0 hw buf = Some buf1"
    "agree_off (cells_of (0 * B) (hw * B)) buf buf1"
    "rd buf1 (0 * B) (hw * B) = Some (concat (map ?L (take hw (drop hw (standalone_base (n + 1) 0)))))"
    using copy_rank_base_ok [OF i0 k0 r0, folded B_def] by blast
  have r1: "(hw + (unat m - hw)) * POSE_HASH_BYTES \<le> length buf1"
    using f(1) hwm(1) agree_off_length [OF o1(2)] by (simp add: B_def)
  obtain buf2 where o2: "copy_rank e2 (2 * hw + hw) hw 0 (unat m - hw) buf1 = Some buf2"
    "agree_off (cells_of (hw * B) ((unat m - hw) * B)) buf1 buf2"
    "rd buf2 (hw * B) ((unat m - hw) * B)
      = Some (concat (map ?L (take (unat m - hw) (drop hw (standalone_base (n + 1) S)))))"
    using copy_rank_base_ok [OF i1 k1 r1, folded B_def] by blast
  have spl: "unat m * B = hw * B + (unat m - hw) * B" using hwm(1) by (simp flip: add_mult_distrib)
  have "rd buf2 0 (hw * B) = Some (concat (map ?L (take hw (drop hw (standalone_base (n + 1) 0)))))"
    by (rule rd_frame [OF o2(2)]) (use o1(3) in auto)
  from rd_join [OF this, of "(unat m - hw) * B"] o2(3)
  have "rd buf2 0 (unat m * B) = Some (concat (map ?L (challenge_nodes n (unat m))))"
    unfolding spl by (simp add: challenge_nodes_def hw_def S_def)
  then have "rd buf2 0 (unat m * B) = Some (concat (output_labels H seed m al))"
    unfolding hash by (simp add: output_labels_def Let_def l_hash_def e_def n_def)
  moreover have "agree_off (cells_of 0 (unat m * B)) buf buf2"
    unfolding spl using o1(2) o2(2) by (rule agree_off_trans) auto
  moreover have "length (unview scratch (l_cells e2) []) = length scratch"
  proof (rule length_unview)
    have "l_cells e = view_labels scratch (length scratch div POSE_HASH_BYTES)" by (simp add: e_def B_def)
    then have "blocks32 (l_cells e2)" using fr(2) blocks32_view by metis
    then show "\<forall>l\<in>set (l_cells e2). length l = POSE_HASH_BYTES" unfolding blocks32_def .
    show "length (l_cells e2) * POSE_HASH_BYTES + length ([] :: u64 list) * 8 \<le> length scratch"
      using fr(1) div_times_less_eq_dividend [of "length scratch" B] by (simp add: e_def B_def)
  qed
  moreover have "do_label_inplace H seed m buf scratch al = Some (0, buf2, unview scratch (l_cells e2) [])"
    using m e1 e2 o1(1) o2(1) w
    by (simp add: do_label_inplace_def Let_def e_def n_def hw_def S_def B_def POSE_ARENA_FACTOR_def
        standalone_node_count_of_nat)
  ultimately show ?thesis unfolding B_def by blast
qed

text \<open>Byte for byte the output of \<open>do_label\<close>, on equal output buffers.\<close>

lemma inplace_equals_do_label:
  assumes "label_buffers_fit m out buf" "inplace_buffers_fit m out scratch"
  shows "map_option (\<lambda>(rc, o', s). (rc, o')) (do_label_inplace H seed m out scratch al)
    = map_option (\<lambda>(rc, o', s). (rc, o')) (do_label H seed m out buf al)"
proof (cases "m = 0 \<or> m > POSE_GRAPH_MAX_M")
  case True
  then show ?thesis by (auto simp: do_label_inplace_def do_label_def)
next
  case False
  then have m: "m \<noteq> 0" "m \<le> POSE_GRAPH_MAX_M" by auto
  let ?n = "unat m * POSE_HASH_BYTES"
  obtain o1 b1 where d1: "do_label H seed m out buf al = Some (0, o1, b1)"
    "rd o1 0 ?n = Some (concat (output_labels H seed m al))" "agree_off (cells_of 0 ?n) out o1"
    using do_label_ok [OF m assms(1), of seed al] by blast
  obtain o2 b2 where d2: "do_label_inplace H seed m out scratch al = Some (0, o2, b2)"
    "rd o2 0 ?n = Some (concat (output_labels H seed m al))" "agree_off (cells_of 0 ?n) out o2"
    using do_label_inplace_ok [OF m assms(2), of seed al] by blast
  have "o1 = o2"
  proof (rule nth_equalityI)
    show "length o1 = length o2" using d1(3) d2(3) by (simp add: agree_off_def)
    fix a assume a: "a < length o1"
    show "o1 ! a = o2 ! a"
    proof (cases "a < ?n")
      case True
      then show ?thesis using rd_nth [OF d1(2), of a] rd_nth [OF d2(2), of a] by simp
    next
      case False
      then show ?thesis using d1(3) d2(3) a by (simp add: agree_off_def)
    qed
  qed
  then show ?thesis using d1(1) d2(1) by simp
qed

end

end
