(* ===== verification/Blake3_Portable.thy ===== *)
theory Blake3_Portable
  imports Prelude
begin

section \<open>BLAKE3 compression, portable backend (\<open>blake3_portable.c\<close>, \<open>blake3_impl.h\<close>)\<close>

text \<open>
  The constants and byte conversions of \<open>blake3_impl.h\<close> and the portable compression function:
  32-bit words are \<open>32 word\<close>, a \<open>uint32_t[k]\<close> is a list of \<open>k\<close> words, a block is a list of 64
  bytes. A function that writes an array returns the array.
\<close>

subsection \<open>Constants\<close>

definition BLAKE3_KEY_LEN :: nat where "BLAKE3_KEY_LEN = 32"
definition BLAKE3_OUT_LEN :: nat where "BLAKE3_OUT_LEN = 32"
definition BLAKE3_BLOCK_LEN :: nat where "BLAKE3_BLOCK_LEN = 64"
definition BLAKE3_CHUNK_LEN :: nat where "BLAKE3_CHUNK_LEN = 1024"

definition CHUNK_START :: byte where "CHUNK_START = 1"
definition CHUNK_END :: byte where "CHUNK_END = 2"
definition PARENT :: byte where "PARENT = 4"
definition ROOT :: byte where "ROOT = 8"
definition KEYED_HASH :: byte where "KEYED_HASH = 16"
definition DERIVE_KEY_CONTEXT :: byte where "DERIVE_KEY_CONTEXT = 32"
definition DERIVE_KEY_MATERIAL :: byte where "DERIVE_KEY_MATERIAL = 64"

definition IV :: "u32 list" where
  "IV = [0x6A09E667, 0xBB67AE85, 0x3C6EF372, 0xA54FF53A, 0x510E527F, 0x9B05688C, 0x1F83D9AB, 0x5BE0CD19]"

definition MSG_SCHEDULE :: "nat list list" where
  "MSG_SCHEDULE =
     [[0, 1, 2, 3, 4, 5, 6, 7, 8, 9, 10, 11, 12, 13, 14, 15],
      [2, 6, 3, 10, 7, 0, 4, 13, 1, 11, 12, 5, 9, 14, 15, 8],
      [3, 4, 10, 12, 13, 2, 7, 14, 6, 5, 9, 0, 11, 15, 8, 1],
      [10, 7, 12, 9, 14, 3, 13, 15, 4, 0, 11, 2, 5, 8, 1, 6],
      [12, 13, 9, 11, 15, 10, 14, 8, 7, 2, 5, 3, 0, 1, 6, 4],
      [9, 14, 11, 5, 8, 12, 15, 1, 13, 3, 0, 10, 2, 6, 4, 7],
      [11, 15, 5, 0, 1, 9, 8, 6, 14, 10, 2, 12, 3, 4, 7, 13]]"

subsection \<open>Byte conversions\<close>

definition counter_low :: "u64 \<Rightarrow> u32" where "counter_low counter = ucast counter"

definition counter_high :: "u64 \<Rightarrow> u32" where "counter_high counter = ucast (drop_bit 32 counter)"

definition load32 :: "bytes \<Rightarrow> u32" where
  "load32 p = push_bit 0 (ucast (p ! 0)) OR push_bit 8 (ucast (p ! 1))
     OR push_bit 16 (ucast (p ! 2)) OR push_bit 24 (ucast (p ! 3))"

definition store32 :: "u32 \<Rightarrow> bytes" where
  "store32 w = [ucast (drop_bit 0 w), ucast (drop_bit 8 w), ucast (drop_bit 16 w), ucast (drop_bit 24 w)]"

definition load_key_words :: "bytes \<Rightarrow> u32 list" where
  "load_key_words key = map (\<lambda>i. load32 (drop (i * 4) key)) [0..<8]"

definition load_block_words :: "bytes \<Rightarrow> u32 list" where
  "load_block_words block = map (\<lambda>i. load32 (drop (i * 4) block)) [0..<16]"

definition store_cv_words :: "u32 list \<Rightarrow> bytes" where
  "store_cv_words cv_words = concat (map (\<lambda>i. store32 (cv_words ! i)) [0..<8])"

text \<open>
  The branches of \<open>highest_one\<close> and \<open>popcnt\<close> for GCC and Clang. \<open>clzll\<close> is the compiler builtin
  that counts leading zeros, undefined at 0; \<open>popcnt\<close> counts one bits.
\<close>

definition clzll :: "u64 \<Rightarrow> nat" where
  "clzll x = length (takeWhile (\<lambda>n. \<not> bit x n) (rev [0..<64]))"

definition highest_one :: "u64 \<Rightarrow> nat" where "highest_one x = 63 XOR clzll x"

definition popcnt :: "u64 \<Rightarrow> nat" where "popcnt x = length (filter (bit x) [0..<64])"

definition round_down_to_power_of_2 :: "u64 \<Rightarrow> u64" where
  "round_down_to_power_of_2 x = push_bit (highest_one (x OR 1)) 1"

subsection \<open>Compression\<close>

definition rotr32 :: "u32 \<Rightarrow> nat \<Rightarrow> u32" where
  "rotr32 w c = drop_bit c w OR push_bit (32 - c) w"

definition b3_g :: "u32 list \<Rightarrow> nat \<Rightarrow> nat \<Rightarrow> nat \<Rightarrow> nat \<Rightarrow> u32 \<Rightarrow> u32 \<Rightarrow> u32 list" where
  "b3_g state a b c d x y =
     (let state = state[a := state ! a + state ! b + x];
          state = state[d := rotr32 (state ! d XOR state ! a) 16];
          state = state[c := state ! c + state ! d];
          state = state[b := rotr32 (state ! b XOR state ! c) 12];
          state = state[a := state ! a + state ! b + y];
          state = state[d := rotr32 (state ! d XOR state ! a) 8];
          state = state[c := state ! c + state ! d];
          state = state[b := rotr32 (state ! b XOR state ! c) 7]
      in state)"

definition round_fn :: "u32 list \<Rightarrow> u32 list \<Rightarrow> nat \<Rightarrow> u32 list" where
  "round_fn state msg r =
     (let schedule = MSG_SCHEDULE ! r;
          state = b3_g state 0 4 8 12 (msg ! (schedule ! 0)) (msg ! (schedule ! 1));
          state = b3_g state 1 5 9 13 (msg ! (schedule ! 2)) (msg ! (schedule ! 3));
          state = b3_g state 2 6 10 14 (msg ! (schedule ! 4)) (msg ! (schedule ! 5));
          state = b3_g state 3 7 11 15 (msg ! (schedule ! 6)) (msg ! (schedule ! 7));
          state = b3_g state 0 5 10 15 (msg ! (schedule ! 8)) (msg ! (schedule ! 9));
          state = b3_g state 1 6 11 12 (msg ! (schedule ! 10)) (msg ! (schedule ! 11));
          state = b3_g state 2 7 8 13 (msg ! (schedule ! 12)) (msg ! (schedule ! 13));
          state = b3_g state 3 4 9 14 (msg ! (schedule ! 14)) (msg ! (schedule ! 15))
      in state)"

definition compress_pre :: "u32 list \<Rightarrow> bytes \<Rightarrow> byte \<Rightarrow> u64 \<Rightarrow> byte \<Rightarrow> u32 list" where
  "compress_pre cv block block_len counter flags =
     (let block_words = map (\<lambda>i. load32 (drop (4 * i) block)) [0..<16];
          state = map (\<lambda>i. cv ! i) [0..<8] @ map (\<lambda>i. IV ! i) [0..<4]
            @ [counter_low counter, counter_high counter, ucast block_len, ucast flags];
          state = round_fn state block_words 0;
          state = round_fn state block_words 1;
          state = round_fn state block_words 2;
          state = round_fn state block_words 3;
          state = round_fn state block_words 4;
          state = round_fn state block_words 5;
          state = round_fn state block_words 6
      in state)"

definition blake3_compress_in_place_portable :: "u32 list \<Rightarrow> bytes \<Rightarrow> byte \<Rightarrow> u64 \<Rightarrow> byte \<Rightarrow> u32 list" where
  "blake3_compress_in_place_portable cv block block_len counter flags =
     (let state = compress_pre cv block block_len counter flags
      in map (\<lambda>i. state ! i XOR state ! (i + 8)) [0..<8])"

definition blake3_compress_xof_portable :: "u32 list \<Rightarrow> bytes \<Rightarrow> byte \<Rightarrow> u64 \<Rightarrow> byte \<Rightarrow> bytes" where
  "blake3_compress_xof_portable cv block block_len counter flags =
     (let state = compress_pre cv block block_len counter flags
      in concat (map (\<lambda>i. store32 (state ! i XOR state ! (i + 8))) [0..<8])
           @ concat (map (\<lambda>i. store32 (state ! (i + 8) XOR cv ! i)) [0..<8]))"

subsection \<open>Hashing whole blocks\<close>

fun hash_one_loop :: "bytes \<Rightarrow> nat \<Rightarrow> u32 list \<Rightarrow> u64 \<Rightarrow> byte \<Rightarrow> byte \<Rightarrow> byte \<Rightarrow> u32 list" where
  "hash_one_loop input 0 cv counter flags block_flags flags_end = cv"
| "hash_one_loop input (Suc blocks) cv counter flags block_flags flags_end =
     (let block_flags' = (if Suc blocks = 1 then block_flags OR flags_end else block_flags);
          cv' = blake3_compress_in_place_portable cv (take BLAKE3_BLOCK_LEN input) (of_nat BLAKE3_BLOCK_LEN)
                  counter block_flags'
      in hash_one_loop (drop BLAKE3_BLOCK_LEN input) blocks cv' counter flags flags flags_end)"

definition hash_one_portable :: "bytes \<Rightarrow> nat \<Rightarrow> u32 list \<Rightarrow> u64 \<Rightarrow> byte \<Rightarrow> byte \<Rightarrow> byte \<Rightarrow> bytes" where
  "hash_one_portable input blocks key counter flags flags_start flags_end =
     store_cv_words (hash_one_loop input blocks key counter flags (flags OR flags_start) flags_end)"

fun blake3_hash_many_portable ::
  "bytes list \<Rightarrow> nat \<Rightarrow> u32 list \<Rightarrow> u64 \<Rightarrow> bool \<Rightarrow> byte \<Rightarrow> byte \<Rightarrow> byte \<Rightarrow> bytes" where
  "blake3_hash_many_portable [] blocks key counter increment_counter flags flags_start flags_end = []"
| "blake3_hash_many_portable (input # inputs) blocks key counter increment_counter flags flags_start flags_end =
     hash_one_portable input blocks key counter flags flags_start flags_end
       @ blake3_hash_many_portable inputs blocks key (if increment_counter then counter + 1 else counter)
           increment_counter flags flags_start flags_end"

subsection \<open>Lengths\<close>

lemma length_store32 [simp]: "length (store32 w) = 4"
  by (simp add: store32_def)

lemma length_store_cv_words [simp]: "length (store_cv_words cv) = 32"
  by (simp add: store_cv_words_def length_concat comp_def sum_list_triv)

lemma length_b3_g [simp]: "length (b3_g s a b c d x y) = length s"
  by (simp add: b3_g_def Let_def)

lemma length_round_fn [simp]: "length (round_fn s msg r) = length s"
  by (simp add: round_fn_def Let_def)

lemma length_compress_pre [simp]: "length (compress_pre cv block block_len counter flags) = 16"
  by (simp add: compress_pre_def Let_def)

lemma length_compress_in_place [simp]:
  "length (blake3_compress_in_place_portable cv block block_len counter flags) = 8"
  by (simp add: blake3_compress_in_place_portable_def Let_def)

lemma length_compress_xof [simp]: "length (blake3_compress_xof_portable cv block block_len counter flags) = 64"
  by (simp add: blake3_compress_xof_portable_def Let_def length_concat comp_def sum_list_triv)

lemma length_hash_one [simp]: "length (hash_one_portable input blocks key counter flags fs fe) = 32"
  by (simp add: hash_one_portable_def)

text \<open>Without a counter increment, hashing many inputs is hashing each.\<close>

lemma hash_many_portable_map:
  "blake3_hash_many_portable inputs blocks key counter False flags fs fe
     = concat (map (\<lambda>i. hash_one_portable i blocks key counter flags fs fe) inputs)"
  by (induction inputs) auto

lemma hash_many_portable_single:
  "blake3_hash_many_portable [input] blocks key counter inc flags fs fe
     = hash_one_portable input blocks key counter flags fs fe"
  by simp

subsection \<open>Structure of the compression\<close>

text \<open>Every row of the message schedule is a permutation, each row the second one applied to the
  row before.\<close>

lemma msg_schedule_perm: "\<forall>row\<in>set MSG_SCHEDULE. sort row = [0..<16]"
  by code_simp

lemma msg_schedule_step:
  "\<forall>(row, next_row)\<in>set (zip MSG_SCHEDULE (tl MSG_SCHEDULE)). next_row = map ((!) row) (MSG_SCHEDULE ! 1)"
  by code_simp

lemma load32_store32: "load32 (store32 w) = w"
proof (rule bit_word_eqI)
  fix n assume "n < LENGTH(32)"
  then show "bit (load32 (store32 w)) n = bit w n"
    by (cases "24 \<le> n"; cases "16 \<le> n") (auto simp: load32_def store32_def bit_simps)
qed

subsection \<open>The highest one bit\<close>

lemma xor_63: "c < 64 \<Longrightarrow> (63 :: nat) XOR c = 63 - c"
proof -
  assume "c < 64"
  moreover have "\<forall>c\<in>set [0..<64]. (63 :: nat) XOR c = 63 - c" by code_simp
  ultimately show ?thesis by simp
qed

lemma takeWhile_rev_upt:
  "\<exists>n<k. P n \<Longrightarrow> length (takeWhile (\<lambda>n. \<not> P n) (rev [0..<k])) < k
    \<and> P (k - 1 - length (takeWhile (\<lambda>n. \<not> P n) (rev [0..<k])))
    \<and> (\<forall>n<k. k - 1 - length (takeWhile (\<lambda>n. \<not> P n) (rev [0..<k])) < n \<longrightarrow> \<not> P n)"
proof (induction k)
  case (Suc k)
  show ?case
  proof (cases "P k")
    case False
    with Suc.prems have "\<exists>n<k. P n" by (auto simp: less_Suc_eq)
    from Suc.IH [OF this] False show ?thesis by (auto simp: less_Suc_eq)
  qed simp
qed simp

lemma highest_one_bit:
  assumes "x \<noteq> 0"
  shows "highest_one x < 64" "bit x (highest_one x)" "\<And>n. highest_one x < n \<Longrightarrow> \<not> bit x n"
proof -
  have "\<exists>n<64. bit x n" using assms by (auto simp: bit_eq_iff)
  from takeWhile_rev_upt [OF this] have c: "clzll x < 64" "bit x (63 - clzll x)"
    "\<forall>n<64. 63 - clzll x < n \<longrightarrow> \<not> bit x n" by (simp_all add: clzll_def)
  then show "highest_one x < 64" "bit x (highest_one x)" by (simp_all add: highest_one_def xor_63)
  fix n assume "highest_one x < n"
  then show "\<not> bit x n" using c by (cases "n < 64") (auto simp: highest_one_def xor_63 dest: bit_imp_le_length)
qed

lemma unat_round_down:
  "unat (round_down_to_power_of_2 x) = 2 ^ highest_one (x OR 1)"
proof -
  have "bit (x OR 1) 0" by (simp add: bit_simps)
  then have "x OR 1 \<noteq> 0" by auto
  from highest_one_bit(1) [OF this] have "(2 :: nat) ^ highest_one (x OR 1) < 2 ^ 64"
    by (intro power_strict_increasing) auto
  then have "unat (of_nat (2 ^ highest_one (x OR 1)) :: u64) = 2 ^ highest_one (x OR 1)"
    by (simp only: unat_of_nat take_bit_nat_eq_self_iff) simp
  then show ?thesis by (simp add: round_down_to_power_of_2_def push_bit_eq_mult)
qed

end
