(* ===== verification/Blake3_Vector.thy ===== *)
theory Blake3_Vector
  imports Blake3_Portable
begin

section \<open>The vector form of the BLAKE3 round\<close>

text \<open>
  Every SIMD backend of the vendored BLAKE3 hashes several inputs at once with one round function:
  the state is sixteen vectors, one lane per input, and the round works on four vectors at a time.
  \<open>round_lanes\<close> is that round over any vector operations; a backend instantiates it with its own.
  The locale \<open>lane_hom\<close> states when a projection of the vectors to one lane commutes with the
  operations; then it commutes with the round, which on one lane is \<open>round_fn\<close> of the portable
  backend (\<open>round_lanes_scalar\<close>).
\<close>

subsection \<open>Groups of four statements\<close>

definition rows2 :: "('v \<Rightarrow> 'v \<Rightarrow> 'v) \<Rightarrow> 'v list \<Rightarrow> nat list \<Rightarrow> nat list \<Rightarrow> 'v list" where
  "rows2 f v as bs = foldl (\<lambda>v (a, b). v[a := f (v ! a) (v ! b)]) v (zip as bs)"

definition rows1 :: "('v \<Rightarrow> 'v) \<Rightarrow> 'v list \<Rightarrow> nat list \<Rightarrow> 'v list" where
  "rows1 f v as = foldl (\<lambda>v a. v[a := f (v ! a)]) v as"

definition rows_m :: "('v \<Rightarrow> 'v \<Rightarrow> 'v) \<Rightarrow> 'v list \<Rightarrow> nat list \<Rightarrow> 'v list \<Rightarrow> nat list \<Rightarrow> 'v list" where
  "rows_m f v as m js = foldl (\<lambda>v (a, j). v[a := f (v ! a) (m ! j)]) v (zip as js)"

definition half_lanes ::
  "('v \<Rightarrow> 'v \<Rightarrow> 'v) \<Rightarrow> ('v \<Rightarrow> 'v \<Rightarrow> 'v) \<Rightarrow> ('v \<Rightarrow> 'v) \<Rightarrow> ('v \<Rightarrow> 'v) \<Rightarrow> 'v list \<Rightarrow> 'v list \<Rightarrow> nat list
    \<Rightarrow> nat list \<Rightarrow> nat list \<Rightarrow> nat list \<Rightarrow> 'v list" where
  "half_lanes vadd vxor rot_d rot_b v m js bs cs ds =
     (let v = rows_m vadd v [0, 1, 2, 3] m js;
          v = rows2 vadd v [0, 1, 2, 3] bs;
          v = rows2 vxor v ds [0, 1, 2, 3];
          v = rows1 rot_d v ds;
          v = rows2 vadd v cs ds;
          v = rows2 vxor v bs cs;
          v = rows1 rot_b v bs
      in v)"

definition round_lanes ::
  "('v \<Rightarrow> 'v \<Rightarrow> 'v) \<Rightarrow> ('v \<Rightarrow> 'v \<Rightarrow> 'v) \<Rightarrow> ('v \<Rightarrow> 'v) \<Rightarrow> ('v \<Rightarrow> 'v) \<Rightarrow> ('v \<Rightarrow> 'v) \<Rightarrow> ('v \<Rightarrow> 'v)
    \<Rightarrow> 'v list \<Rightarrow> 'v list \<Rightarrow> nat \<Rightarrow> 'v list" where
  "round_lanes vadd vxor rot16 rot12 rot8 rot7 v m r =
     (let s = MSG_SCHEDULE ! r;
          v = half_lanes vadd vxor rot16 rot12 v m [s ! 0, s ! 2, s ! 4, s ! 6]
                [4, 5, 6, 7] [8, 9, 10, 11] [12, 13, 14, 15];
          v = half_lanes vadd vxor rot8 rot7 v m [s ! 1, s ! 3, s ! 5, s ! 7]
                [4, 5, 6, 7] [8, 9, 10, 11] [12, 13, 14, 15];
          v = half_lanes vadd vxor rot16 rot12 v m [s ! 8, s ! 10, s ! 12, s ! 14]
                [5, 6, 7, 4] [10, 11, 8, 9] [15, 12, 13, 14];
          v = half_lanes vadd vxor rot8 rot7 v m [s ! 9, s ! 11, s ! 13, s ! 15]
                [5, 6, 7, 4] [10, 11, 8, 9] [15, 12, 13, 14]
      in v)"

lemma length_rows [simp]:
  "length (rows2 f v as bs) = length v" "length (rows1 g v as) = length v" "length (rows_m f v as m js) = length v"
proof -
  have "length (foldl (\<lambda>v (a, b). v[a := f (v ! a) (v ! b)]) v ps) = length v" for ps
    by (induction ps arbitrary: v) auto
  then show "length (rows2 f v as bs) = length v" by (simp add: rows2_def)
  have "length (foldl (\<lambda>v (a, b). v[a := f (v ! a) (m ! b)]) v ps) = length v" for ps
    by (induction ps arbitrary: v) auto
  then show "length (rows_m f v as m js) = length v" by (simp add: rows_m_def)
  show "length (rows1 g v as) = length v" unfolding rows1_def by (induction as arbitrary: v) auto
qed

lemma length_half_lanes [simp]: "length (half_lanes vadd vxor rD rB v m js bs cs ds) = length v"
  by (simp add: half_lanes_def Let_def)

lemma length_round_lanes [simp]: "length (round_lanes vadd vxor r1 r2 r3 r4 v m r) = length v"
  by (simp add: round_lanes_def Let_def)

subsection \<open>One lane of the vector round\<close>

locale lane_hom =
  fixes h :: "'v \<Rightarrow> 'w" and P :: "'v \<Rightarrow> bool"
    and vadd vxor :: "'v \<Rightarrow> 'v \<Rightarrow> 'v" and rot16 rot12 rot8 rot7 :: "'v \<Rightarrow> 'v"
    and vadd' vxor' :: "'w \<Rightarrow> 'w \<Rightarrow> 'w" and rot16' rot12' rot8' rot7' :: "'w \<Rightarrow> 'w"
  assumes vadd: "P x \<Longrightarrow> P y \<Longrightarrow> P (vadd x y) \<and> h (vadd x y) = vadd' (h x) (h y)"
    and vxor: "P x \<Longrightarrow> P y \<Longrightarrow> P (vxor x y) \<and> h (vxor x y) = vxor' (h x) (h y)"
    and rot16: "P x \<Longrightarrow> P (rot16 x) \<and> h (rot16 x) = rot16' (h x)"
    and rot12: "P x \<Longrightarrow> P (rot12 x) \<and> h (rot12 x) = rot12' (h x)"
    and rot8: "P x \<Longrightarrow> P (rot8 x) \<and> h (rot8 x) = rot8' (h x)"
    and rot7: "P x \<Longrightarrow> P (rot7 x) \<and> h (rot7 x) = rot7' (h x)"
begin

definition tracks :: "'v list \<Rightarrow> 'w list \<Rightarrow> bool" where
  "tracks v w \<longleftrightarrow> list_all P v \<and> map h v = w"

lemma tracks_nth: "tracks v w \<Longrightarrow> a < length v \<Longrightarrow> P (v ! a) \<and> h (v ! a) = w ! a"
  by (auto simp: tracks_def list_all_length)

lemma tracks_length: "tracks v w \<Longrightarrow> length w = length v"
  by (auto simp: tracks_def)

lemma tracks_update: "tracks v w \<Longrightarrow> P x \<Longrightarrow> h x = y \<Longrightarrow> tracks (v[a := x]) (w[a := y])"
  by (cases "a < length v") (auto simp: tracks_def map_update list_all_length nth_list_update)

lemma tracks_rows2:
  assumes "\<And>x y. P x \<Longrightarrow> P y \<Longrightarrow> P (f x y) \<and> h (f x y) = f' (h x) (h y)"
  shows "tracks v w \<Longrightarrow> \<forall>a\<in>set as. a < length v \<Longrightarrow> \<forall>b\<in>set bs. b < length v
    \<Longrightarrow> tracks (rows2 f v as bs) (rows2 f' w as bs)"
  unfolding rows2_def
proof (induction as bs arbitrary: v w rule: list_induct2')
  case (4 a as b bs)
  then have "tracks (v[a := f (v ! a) (v ! b)]) (w[a := f' (w ! a) (w ! b)])"
    by (intro tracks_update) (auto simp: tracks_nth assms)
  from "4.IH" [OF this] "4.prems" show ?case by simp
qed auto

lemma tracks_rows_m:
  assumes "\<And>x y. P x \<Longrightarrow> P y \<Longrightarrow> P (f x y) \<and> h (f x y) = f' (h x) (h y)"
  shows "tracks v w \<Longrightarrow> tracks m n \<Longrightarrow> \<forall>a\<in>set as. a < length v \<Longrightarrow> \<forall>b\<in>set js. b < length m
    \<Longrightarrow> tracks (rows_m f v as m js) (rows_m f' w as n js)"
  unfolding rows_m_def
proof (induction as js arbitrary: v w rule: list_induct2')
  case (4 a as b bs)
  then have "tracks (v[a := f (v ! a) (m ! b)]) (w[a := f' (w ! a) (n ! b)])"
    by (intro tracks_update) (auto simp: tracks_nth assms)
  from "4.IH" [OF this] "4.prems" show ?case by simp
qed auto

lemma tracks_rows1:
  assumes "\<And>x. P x \<Longrightarrow> P (f x) \<and> h (f x) = f' (h x)"
  shows "tracks v w \<Longrightarrow> \<forall>a\<in>set as. a < length v \<Longrightarrow> tracks (rows1 f v as) (rows1 f' w as)"
  unfolding rows1_def
proof (induction as arbitrary: v w)
  case (Cons a as)
  then have "tracks (v[a := f (v ! a)]) (w[a := f' (w ! a)])"
    by (intro tracks_update) (auto simp: tracks_nth assms)
  from Cons.IH [OF this] Cons.prems show ?case by simp
qed auto

lemma tracks_half:
  assumes "\<And>x. P x \<Longrightarrow> P (rD x) \<and> h (rD x) = rD' (h x)" "\<And>x. P x \<Longrightarrow> P (rB x) \<and> h (rB x) = rB' (h x)"
    and "tracks v w" "tracks m n" "length v = 16" "\<forall>j\<in>set js. j < length m"
    and "\<forall>b\<in>set bs. b < 16" "\<forall>b\<in>set cs. b < 16" "\<forall>b\<in>set ds. b < 16"
  shows "tracks (half_lanes vadd vxor rD rB v m js bs cs ds) (half_lanes vadd' vxor' rD' rB' w n js bs cs ds)"
  unfolding half_lanes_def Let_def using assms
  by (intro tracks_rows1 tracks_rows2 tracks_rows_m vadd vxor) auto

lemma tracks_round:
  assumes "tracks v w" "tracks m n" "length v = 16" "length m = 16" "\<forall>j\<in>set (MSG_SCHEDULE ! r). j < 16"
    "length (MSG_SCHEDULE ! r) = 16"
  shows "tracks (round_lanes vadd vxor rot16 rot12 rot8 rot7 v m r)
    (round_lanes vadd' vxor' rot16' rot12' rot8' rot7' w n r)"
  unfolding round_lanes_def Let_def using assms
  by (intro tracks_half rot16 rot12 rot8 rot7) (auto intro!: nth_mem)

end

subsection \<open>The vector round on one lane\<close>

text \<open>The four results of half a quarter round.\<close>

definition q_a :: "u32 \<Rightarrow> u32 \<Rightarrow> u32 \<Rightarrow> u32 \<Rightarrow> u32 \<Rightarrow> u32" where
  "q_a a b c d x = a + x + b"
definition q_d :: "nat \<Rightarrow> u32 \<Rightarrow> u32 \<Rightarrow> u32 \<Rightarrow> u32 \<Rightarrow> u32 \<Rightarrow> u32" where
  "q_d kd a b c d x = rotr32 (d XOR q_a a b c d x) kd"
definition q_c :: "nat \<Rightarrow> u32 \<Rightarrow> u32 \<Rightarrow> u32 \<Rightarrow> u32 \<Rightarrow> u32 \<Rightarrow> u32" where
  "q_c kd a b c d x = c + q_d kd a b c d x"
definition q_b :: "nat \<Rightarrow> nat \<Rightarrow> u32 \<Rightarrow> u32 \<Rightarrow> u32 \<Rightarrow> u32 \<Rightarrow> u32 \<Rightarrow> u32" where
  "q_b kd kb a b c d x = rotr32 (b XOR q_c kd a b c d x) kb"

lemmas q_defs = q_a_def q_b_def q_c_def q_d_def

definition q_half :: "nat \<Rightarrow> nat \<Rightarrow> u32 list \<Rightarrow> nat \<Rightarrow> nat \<Rightarrow> nat \<Rightarrow> nat \<Rightarrow> u32 \<Rightarrow> u32 list" where
  "q_half kd kb s a b c d x = s[a := q_a (s ! a) (s ! b) (s ! c) (s ! d) x,
     b := q_b kd kb (s ! a) (s ! b) (s ! c) (s ! d) x, c := q_c kd (s ! a) (s ! b) (s ! c) (s ! d) x,
     d := q_d kd (s ! a) (s ! b) (s ! c) (s ! d) x]"

lemma b3_g_halves:
  assumes "distinct [a, b, c, d]" "a < length s" "b < length s" "c < length s" "d < length s"
  shows "b3_g s a b c d x y = q_half 8 7 (q_half 16 12 s a b c d x) a b c d y"
proof -
  have half: "(let t = t[a := t ! a + t ! b + z]; t = t[d := rotr32 (t ! d XOR t ! a) kd];
      t = t[c := t ! c + t ! d]; t = t[b := rotr32 (t ! b XOR t ! c) kb] in t) = q_half kd kb t a b c d z"
    if "length t = length s" for t z kd kb
    by (rule nth_equalityI) (use assms that in \<open>simp_all add: q_half_def q_defs Let_def nth_list_update add_ac\<close>)
  have len: "length (q_half 16 12 s a b c d x) = length s" by (simp add: q_half_def)
  show ?thesis
    using half [OF refl, of x 16 12] half [OF len, of y 8 7] by (simp add: b3_g_def Let_def)
qed

lemma length_q_half [simp]: "length (q_half kd kb s a b c d x) = length s"
  by (simp add: q_half_def)

lemma nth_q_half:
  assumes "distinct [a, b, c, d]" "a < length s" "b < length s" "c < length s" "d < length s"
  shows "q_half kd kb s a b c d x ! i
    = (if i = a then q_a (s ! a) (s ! b) (s ! c) (s ! d) x else if i = b then q_b kd kb (s ! a) (s ! b) (s ! c) (s ! d) x
       else if i = c then q_c kd (s ! a) (s ! b) (s ! c) (s ! d) x
       else if i = d then q_d kd (s ! a) (s ! b) (s ! c) (s ! d) x else s ! i)"
  using assms by (simp add: q_half_def nth_list_update)

text \<open>The entries of four statements that do not read what they write.\<close>

lemma nth_rows2:
  assumes "distinct [a0, a1, a2, a3]" "a0 \<noteq> b1" "a0 \<noteq> b2" "a0 \<noteq> b3" "a1 \<noteq> b2" "a1 \<noteq> b3" "a2 \<noteq> b3"
    "a0 < length v" "a1 < length v" "a2 < length v" "a3 < length v"
  shows "rows2 f v [a0, a1, a2, a3] [b0, b1, b2, b3] ! i
    = (if i = a0 then f (v ! a0) (v ! b0) else if i = a1 then f (v ! a1) (v ! b1)
       else if i = a2 then f (v ! a2) (v ! b2) else if i = a3 then f (v ! a3) (v ! b3) else v ! i)"
  using assms(1) by (simp add: rows2_def nth_list_update assms(2-))

lemma nth_rows_m:
  assumes "distinct [a0, a1, a2, a3]" "a0 < length v" "a1 < length v" "a2 < length v" "a3 < length v"
  shows "rows_m f v [a0, a1, a2, a3] m [b0, b1, b2, b3] ! i
    = (if i = a0 then f (v ! a0) (m ! b0) else if i = a1 then f (v ! a1) (m ! b1)
       else if i = a2 then f (v ! a2) (m ! b2) else if i = a3 then f (v ! a3) (m ! b3) else v ! i)"
  using assms(1) by (simp add: rows_m_def nth_list_update assms(2-))

lemma nth_rows1:
  assumes "distinct [a0, a1, a2, a3]" "a0 < length v" "a1 < length v" "a2 < length v" "a3 < length v"
  shows "rows1 f v [a0, a1, a2, a3] ! i
    = (if i = a0 \<or> i = a1 \<or> i = a2 \<or> i = a3 then f (v ! i) else v ! i)"
  using assms by (auto simp: rows1_def nth_list_update)

lemma nth_equality16:
  assumes "length v = 16" "length w = 16"
    "v ! 0 = w ! 0" "v ! 1 = w ! 1" "v ! 2 = w ! 2" "v ! 3 = w ! 3" "v ! 4 = w ! 4" "v ! 5 = w ! 5"
    "v ! 6 = w ! 6" "v ! 7 = w ! 7" "v ! 8 = w ! 8" "v ! 9 = w ! 9" "v ! 10 = w ! 10" "v ! 11 = w ! 11"
    "v ! 12 = w ! 12" "v ! 13 = w ! 13" "v ! 14 = w ! 14" "v ! 15 = w ! 15"
  shows "v = w"
proof (rule nth_equalityI)
  fix i assume "i < length v"
  then have "i \<in> {0, 1, 2, 3, 4, 5, 6, 7, 8, 9, 10, 11, 12, 13, 14, 15}"
    using assms(1) by (auto simp: numeral_eq_Suc less_Suc_eq)
  then show "v ! i = w ! i" using assms(3-) by fastforce
qed (simp add: assms)

lemmas nth_rows = nth_rows1 nth_rows2 nth_rows_m

lemma half_columns:
  assumes "length v = 16"
  shows "half_lanes (+) (XOR) (\<lambda>x. rotr32 x kd) (\<lambda>x. rotr32 x kb) v m [j0, j1, j2, j3]
      [4, 5, 6, 7] [8, 9, 10, 11] [12, 13, 14, 15]
    = q_half kd kb (q_half kd kb (q_half kd kb (q_half kd kb v 0 4 8 12 (m ! j0)) 1 5 9 13 (m ! j1)) 2 6 10 14 (m ! j2)) 3 7 11 15 (m ! j3)"
  by (rule nth_equality16) (simp_all add: assms half_lanes_def nth_rows nth_q_half q_defs)

lemma q_half_columns:
  assumes "length v = 16"
  shows "q_half 8 7 (q_half 16 12 (q_half 8 7 (q_half 16 12 (q_half 8 7 (q_half 16 12 (q_half 8 7 (q_half 16 12 v 0 4 8 12 x0) 0 4 8 12 y0) 1 5 9 13 x1) 1 5 9 13 y1) 2 6 10 14 x2) 2 6 10 14 y2) 3 7 11 15 x3) 3 7 11 15 y3
    = q_half 8 7 (q_half 8 7 (q_half 8 7 (q_half 8 7 (q_half 16 12 (q_half 16 12 (q_half 16 12 (q_half 16 12 v 0 4 8 12 x0) 1 5 9 13 x1) 2 6 10 14 x2) 3 7 11 15 x3) 0 4 8 12 y0) 1 5 9 13 y1) 2 6 10 14 y2) 3 7 11 15 y3"
  by (rule nth_equality16) (simp_all add: assms nth_q_half)

lemma half_diagonals:
  assumes "length v = 16"
  shows "half_lanes (+) (XOR) (\<lambda>x. rotr32 x kd) (\<lambda>x. rotr32 x kb) v m [j0, j1, j2, j3]
      [5, 6, 7, 4] [10, 11, 8, 9] [15, 12, 13, 14]
    = q_half kd kb (q_half kd kb (q_half kd kb (q_half kd kb v 0 5 10 15 (m ! j0)) 1 6 11 12 (m ! j1)) 2 7 8 13 (m ! j2)) 3 4 9 14 (m ! j3)"
  by (rule nth_equality16) (simp_all add: assms half_lanes_def nth_rows nth_q_half q_defs)

lemma q_half_diagonals:
  assumes "length v = 16"
  shows "q_half 8 7 (q_half 16 12 (q_half 8 7 (q_half 16 12 (q_half 8 7 (q_half 16 12 (q_half 8 7 (q_half 16 12 v 0 5 10 15 x0) 0 5 10 15 y0) 1 6 11 12 x1) 1 6 11 12 y1) 2 7 8 13 x2) 2 7 8 13 y2) 3 4 9 14 x3) 3 4 9 14 y3
    = q_half 8 7 (q_half 8 7 (q_half 8 7 (q_half 8 7 (q_half 16 12 (q_half 16 12 (q_half 16 12 (q_half 16 12 v 0 5 10 15 x0) 1 6 11 12 x1) 2 7 8 13 x2) 3 4 9 14 x3) 0 5 10 15 y0) 1 6 11 12 y1) 2 7 8 13 y2) 3 4 9 14 y3"
  by (rule nth_equality16) (simp_all add: assms nth_q_half)

lemma round_lanes_scalar:
  assumes "length v = 16"
  shows "round_lanes (+) (XOR) (\<lambda>x. rotr32 x 16) (\<lambda>x. rotr32 x 12) (\<lambda>x. rotr32 x 8) (\<lambda>x. rotr32 x 7) v m r
    = round_fn v m r"
  by (simp add: round_lanes_def round_fn_def b3_g_halves half_columns half_diagonals q_half_columns
      q_half_diagonals assms Let_def del: One_nat_def)

lemma schedule_row: "r < 7 \<Longrightarrow> length (MSG_SCHEDULE ! r) = 16 \<and> (\<forall>j\<in>set (MSG_SCHEDULE ! r). j < 16)"
proof -
  assume "r < 7"
  then have "MSG_SCHEDULE ! r \<in> set MSG_SCHEDULE" by (intro nth_mem) (simp add: MSG_SCHEDULE_def)
  moreover have "\<forall>row\<in>set MSG_SCHEDULE. length row = 16 \<and> (\<forall>j\<in>set row. j < 16)" by code_simp
  ultimately show ?thesis by blast
qed

end
