(* ===== verification/Blake3_Neon.thy ===== *)
theory Blake3_Neon
  imports Blake3_Vector
begin

section \<open>The NEON backend (\<open>blake3_neon.c\<close>)\<close>

text \<open>
  A \<open>uint32x4_t\<close> is the list of its four 32-bit lanes, lowest first; the machine is little-endian,
  as the file requires. The intrinsics of \<open>arm_neon.h\<close> it uses are lane-wise arithmetic, a
  reversal of 16-bit halves, a shift with insert, a byte shuffle and the 2x2 transposition
  \<open>vtrnq_u32\<close>. The theorem of this theory is that \<open>blake3_hash_many_neon\<close> computes what
  \<open>blake3_hash_many_portable\<close> computes.
\<close>

type_synonym vec4 = "u32 list"

subsection \<open>Vector operations\<close>

definition loadu_128 :: "bytes \<Rightarrow> vec4" where
  "loadu_128 src = map (\<lambda>k. load32 (drop (4 * k) src)) [0..<4]"

definition storeu_128 :: "vec4 \<Rightarrow> bytes" where
  "storeu_128 v = concat (map store32 v)"

definition add_128 :: "vec4 \<Rightarrow> vec4 \<Rightarrow> vec4" where "add_128 a b = map2 (+) a b"

definition xor_128 :: "vec4 \<Rightarrow> vec4 \<Rightarrow> vec4" where "xor_128 a b = map2 (XOR) a b"

definition set1_128 :: "u32 \<Rightarrow> vec4" where "set1_128 x = replicate 4 x"

definition set4 :: "u32 \<Rightarrow> u32 \<Rightarrow> u32 \<Rightarrow> u32 \<Rightarrow> vec4" where "set4 a b c d = [a, b, c, d]"

text \<open>\<open>vrev32q_u16\<close> swaps the 16-bit halves of each 32-bit lane.\<close>

definition rot16_128 :: "vec4 \<Rightarrow> vec4" where
  "rot16_128 x = map (\<lambda>w. word_cat (ucast w :: 16 word) (ucast (drop_bit 16 w) :: 16 word)) x"

text \<open>\<open>vsriq_n_u32 a b n\<close> keeps the top \<open>n\<close> bits of each lane of \<open>a\<close> and inserts \<open>b\<close> shifted right.\<close>

definition vsriq_n_u32 :: "vec4 \<Rightarrow> vec4 \<Rightarrow> nat \<Rightarrow> vec4" where
  "vsriq_n_u32 a b n = map2 (\<lambda>p q. (p AND NOT (mask (32 - n))) OR drop_bit n q) a b"

definition vshlq_n_u32 :: "vec4 \<Rightarrow> nat \<Rightarrow> vec4" where "vshlq_n_u32 a n = map (push_bit n) a"

definition rot12_128 :: "vec4 \<Rightarrow> vec4" where "rot12_128 x = vsriq_n_u32 (vshlq_n_u32 x (32 - 12)) x 12"

text \<open>The byte shuffle \<open>1,2,3,0\<close> of each lane.\<close>

definition rot8_128 :: "vec4 \<Rightarrow> vec4" where
  "rot8_128 x = map (\<lambda>w. let b = store32 w in load32 [b ! 1, b ! 2, b ! 3, b ! 0]) x"

definition rot7_128 :: "vec4 \<Rightarrow> vec4" where "rot7_128 x = vsriq_n_u32 (vshlq_n_u32 x (32 - 7)) x 7"

definition round_fn4 :: "vec4 list \<Rightarrow> vec4 list \<Rightarrow> nat \<Rightarrow> vec4 list" where
  "round_fn4 v m r = round_lanes add_128 xor_128 rot16_128 rot12_128 rot8_128 rot7_128 v m r"

subsection \<open>Transposition\<close>

definition vtrnq_u32 :: "vec4 \<Rightarrow> vec4 \<Rightarrow> vec4 \<times> vec4" where
  "vtrnq_u32 a b = ([a ! 0, b ! 0, a ! 2, b ! 2], [a ! 1, b ! 1, a ! 3, b ! 3])"

definition transpose_vecs_128 :: "vec4 list \<Rightarrow> vec4 list" where
  "transpose_vecs_128 vecs =
     (let rows01 = vtrnq_u32 (vecs ! 0) (vecs ! 1);
          rows23 = vtrnq_u32 (vecs ! 2) (vecs ! 3)
      in [take 2 (fst rows01) @ take 2 (fst rows23),
          take 2 (snd rows01) @ take 2 (snd rows23),
          drop 2 (fst rows01) @ drop 2 (fst rows23),
          drop 2 (snd rows01) @ drop 2 (snd rows23)])"

definition transpose_msg_vecs4 :: "bytes list \<Rightarrow> nat \<Rightarrow> vec4 list" where
  "transpose_msg_vecs4 inputs block_offset =
     concat (map (\<lambda>k. transpose_vecs_128
       [loadu_128 (drop (block_offset + k * 16) (inputs ! 0)), loadu_128 (drop (block_offset + k * 16) (inputs ! 1)),
        loadu_128 (drop (block_offset + k * 16) (inputs ! 2)), loadu_128 (drop (block_offset + k * 16) (inputs ! 3))])
       [0..<4])"

subsection \<open>Four inputs at once\<close>

definition load_counters4 :: "u64 \<Rightarrow> bool \<Rightarrow> vec4 \<times> vec4" where
  "load_counters4 counter increment_counter =
     (let msk = (if increment_counter then NOT 0 else 0)
      in (set4 (counter_low (counter + (msk AND 0))) (counter_low (counter + (msk AND 1)))
            (counter_low (counter + (msk AND 2))) (counter_low (counter + (msk AND 3))),
          set4 (counter_high (counter + (msk AND 0))) (counter_high (counter + (msk AND 1)))
            (counter_high (counter + (msk AND 2))) (counter_high (counter + (msk AND 3)))))"

fun hash4_rounds :: "vec4 list \<Rightarrow> vec4 list \<Rightarrow> nat \<Rightarrow> vec4 list" where
  "hash4_rounds v msg_vecs 0 = v"
| "hash4_rounds v msg_vecs (Suc r) = round_fn4 (hash4_rounds v msg_vecs r) msg_vecs r"

text \<open>The block loop; \<open>left\<close> is the number of blocks still to hash after block number \<open>block\<close>.\<close>

fun hash4_loop :: "bytes list \<Rightarrow> nat \<Rightarrow> nat \<Rightarrow> vec4 list \<Rightarrow> vec4 \<Rightarrow> vec4 \<Rightarrow> byte \<Rightarrow> byte \<Rightarrow> byte \<Rightarrow> vec4 list" where
  "hash4_loop inputs block 0 h_vecs clow chigh flags block_flags flags_end = h_vecs"
| "hash4_loop inputs block (Suc left) h_vecs clow chigh flags block_flags flags_end =
     (let block_flags' = (if left = 0 then block_flags OR flags_end else block_flags);
          msg_vecs = transpose_msg_vecs4 inputs (block * BLAKE3_BLOCK_LEN);
          v = h_vecs @ map (\<lambda>i. set1_128 (IV ! i)) [0..<4]
                @ [clow, chigh, set1_128 (of_nat BLAKE3_BLOCK_LEN), set1_128 (ucast block_flags')];
          v = hash4_rounds v msg_vecs 7;
          h_vecs' = map (\<lambda>i. xor_128 (v ! i) (v ! (i + 8))) [0..<8]
      in hash4_loop inputs (Suc block) left h_vecs' clow chigh flags flags flags_end)"

definition blake3_hash4_neon :: "bytes list \<Rightarrow> nat \<Rightarrow> u32 list \<Rightarrow> u64 \<Rightarrow> bool \<Rightarrow> byte \<Rightarrow> byte \<Rightarrow> byte \<Rightarrow> bytes" where
  "blake3_hash4_neon inputs blocks key counter increment_counter flags flags_start flags_end =
     (let (clow, chigh) = load_counters4 counter increment_counter;
          h_vecs = hash4_loop inputs 0 blocks (map (\<lambda>i. set1_128 (key ! i)) [0..<8]) clow chigh
                     flags (flags OR flags_start) flags_end;
          lo = transpose_vecs_128 (take 4 h_vecs);
          hi = transpose_vecs_128 (drop 4 h_vecs)
      in concat (map (\<lambda>i. storeu_128 (lo ! i) @ storeu_128 (hi ! i)) [0..<4]))"

subsection \<open>Many inputs\<close>

text \<open>\<open>hash_one_neon\<close> copies the words of the chaining value out in the machine's (little-endian) order.\<close>

definition hash_one_neon :: "bytes \<Rightarrow> nat \<Rightarrow> u32 list \<Rightarrow> u64 \<Rightarrow> byte \<Rightarrow> byte \<Rightarrow> byte \<Rightarrow> bytes" where
  "hash_one_neon input blocks key counter flags flags_start flags_end =
     concat (map store32 (hash_one_loop input blocks key counter flags (flags OR flags_start) flags_end))"

fun blake3_hash_many_neon ::
  "bytes list \<Rightarrow> nat \<Rightarrow> u32 list \<Rightarrow> u64 \<Rightarrow> bool \<Rightarrow> byte \<Rightarrow> byte \<Rightarrow> byte \<Rightarrow> bytes" where
  "blake3_hash_many_neon (i0 # i1 # i2 # i3 # inputs) blocks key counter increment_counter flags flags_start flags_end =
     blake3_hash4_neon [i0, i1, i2, i3] blocks key counter increment_counter flags flags_start flags_end
       @ blake3_hash_many_neon inputs blocks key (if increment_counter then counter + 4 else counter)
           increment_counter flags flags_start flags_end"
| "blake3_hash_many_neon [] blocks key counter increment_counter flags flags_start flags_end = []"
| "blake3_hash_many_neon (input # inputs) blocks key counter increment_counter flags flags_start flags_end =
     hash_one_neon input blocks key counter flags flags_start flags_end
       @ blake3_hash_many_neon inputs blocks key (if increment_counter then counter + 1 else counter)
           increment_counter flags flags_start flags_end"

subsection \<open>The rotations\<close>

lemma rot16_lane: "word_cat (ucast w :: 16 word) (ucast (drop_bit 16 w) :: 16 word) = rotr32 w 16"
  by (rule bit_word_eqI) (auto simp: bit_simps rotr32_def bit_word_cat_iff dest: bit_imp_le_length)

lemma vsri_lane:
  fixes w :: u32 assumes "n < 32" "0 < n"
  shows "(push_bit (32 - n) w AND NOT (mask (32 - n))) OR drop_bit n w = rotr32 w n"
proof (rule bit_word_eqI)
  fix k assume "k < LENGTH(32)"
  then show "bit ((push_bit (32 - n) w AND NOT (mask (32 - n))) OR drop_bit n w) k = bit (rotr32 w n) k"
    using assms by (auto simp: rotr32_def bit_simps)
qed

lemma rot8_lane: "load32 [store32 w ! 1, store32 w ! 2, store32 w ! 3, store32 w ! 0] = rotr32 w 8"
proof (rule bit_word_eqI)
  fix n assume "n < LENGTH(32)"
  then show "bit (load32 [store32 w ! 1, store32 w ! 2, store32 w ! 3, store32 w ! 0]) n = bit (rotr32 w 8) n"
    by (cases "24 \<le> n"; cases "16 \<le> n"; cases "8 \<le> n")
      (auto simp: load32_def store32_def rotr32_def bit_simps dest: bit_imp_le_length)
qed

lemma length_rot [simp]:
  "length (rot16_128 v) = length v" "length (rot12_128 v) = length v" "length (rot8_128 v) = length v"
  "length (rot7_128 v) = length v" "length (add_128 a b) = min (length a) (length b)"
  "length (xor_128 a b) = min (length a) (length b)"
  by (simp_all add: rot16_128_def rot12_128_def rot8_128_def rot7_128_def vsriq_n_u32_def vshlq_n_u32_def
      add_128_def xor_128_def)

lemma nth_rot:
  assumes "i < length v"
  shows "rot16_128 v ! i = rotr32 (v ! i) 16" "rot12_128 v ! i = rotr32 (v ! i) 12"
    "rot8_128 v ! i = rotr32 (v ! i) 8" "rot7_128 v ! i = rotr32 (v ! i) 7"
  using assms vsri_lane [of 12 "v ! i"] vsri_lane [of 7 "v ! i"] rot16_lane [of "v ! i"] rot8_lane [of "v ! i"]
  by (simp_all add: rot16_128_def rot12_128_def rot8_128_def rot7_128_def vsriq_n_u32_def vshlq_n_u32_def Let_def)

lemma nth_xor_128: "i < length a \<Longrightarrow> i < length b \<Longrightarrow> xor_128 a b ! i = a ! i XOR b ! i"
  by (simp add: xor_128_def)

text \<open>Projection to one lane commutes with the vector operations.\<close>

interpretation neon: lane_hom "\<lambda>v. v ! i" "\<lambda>v. i < length v" add_128 xor_128 rot16_128 rot12_128 rot8_128 rot7_128
  "(+)" "(XOR)" "\<lambda>x. rotr32 x 16" "\<lambda>x. rotr32 x 12" "\<lambda>x. rotr32 x 8" "\<lambda>x. rotr32 x 7" for i
  by unfold_locales (simp_all add: add_128_def xor_128_def nth_rot)

definition lane :: "nat \<Rightarrow> vec4 list \<Rightarrow> u32 list" where "lane i v = map (\<lambda>x. x ! i) v"

lemma lane_round_fn4:
  assumes "\<forall>x\<in>set v. i < length x" "\<forall>x\<in>set m. i < length x" "length v = 16" "length m = 16" "r < 7"
  shows "lane i (round_fn4 v m r) = round_fn (lane i v) (lane i m) r \<and> (\<forall>x\<in>set (round_fn4 v m r). i < length x)"
proof -
  have "neon.tracks i v (lane i v)" "neon.tracks i m (lane i m)"
    using assms by (auto simp: neon.tracks_def lane_def list_all_iff)
  from neon.tracks_round [OF this assms(3,4), of r] schedule_row [OF assms(5)]
  have "neon.tracks i (round_fn4 v m r) (round_fn (lane i v) (lane i m) r)"
    using assms(3) by (simp add: round_fn4_def round_lanes_scalar lane_def)
  then show ?thesis by (auto simp: neon.tracks_def lane_def list_all_iff)
qed

subsection \<open>Transposition\<close>

lemma transpose_vecs_nth:
  assumes "length vecs = 4"
  shows "transpose_vecs_128 vecs = map (\<lambda>i. lane i vecs) [0..<4]"
proof -
  obtain a b c d where v: "vecs = [a, b, c, d]" using assms
    by (auto simp: numeral_eq_Suc length_Suc_conv)
  show ?thesis
    by (simp add: v transpose_vecs_128_def vtrnq_u32_def lane_def Let_def upt_rec numeral_eq_Suc)
qed

lemma load32_take: "k + 4 \<le> n \<Longrightarrow> load32 (drop k (take n xs)) = load32 (drop k xs)"
  by (simp add: load32_def drop_take)

lemma nth_lane [simp]: "j < length v \<Longrightarrow> lane i v ! j = v ! j ! i"
  by (simp add: lane_def)

lemma length_lane [simp]: "length (lane i v) = length v"
  by (simp add: lane_def)

lemma length_loadu [simp]: "length (loadu_128 src) = 4"
  by (simp add: loadu_128_def)

lemma transpose_msg_nth:
  "transpose_msg_vecs4 inputs off
     = map (\<lambda>j. map (\<lambda>i. load32 (drop (off + 4 * j) (inputs ! i))) [0..<4]) [0..<16]"
proof -
  have t: "transpose_vecs_128 [loadu_128 (drop p a), loadu_128 (drop p b), loadu_128 (drop p c), loadu_128 (drop p d)]
      = map (\<lambda>j. [load32 (drop (p + 4 * j) a), load32 (drop (p + 4 * j) b), load32 (drop (p + 4 * j) c),
          load32 (drop (p + 4 * j) d)]) [0..<4]" for p and a b c d :: bytes
    by (subst transpose_vecs_nth) (simp_all add: lane_def loadu_128_def add.commute)
  show ?thesis
    by (simp add: transpose_msg_vecs4_def t upt_rec numeral_eq_Suc)
qed

lemma lane_transpose_msg:
  assumes "i < 4" "off + 64 \<le> length (inputs ! i)"
  shows "lane i (transpose_msg_vecs4 inputs off)
    = map (\<lambda>j. load32 (drop (4 * j) (take 64 (drop off (inputs ! i))))) [0..<16]"
  using assms by (simp add: transpose_msg_nth lane_def comp_def load32_take add.commute)

subsection \<open>One lane of \<open>blake3_hash4_neon\<close>\<close>

definition lanes4 :: "vec4 list \<Rightarrow> bool" where "lanes4 v \<longleftrightarrow> (\<forall>x\<in>set v. 4 \<le> length x)"

lemma length_round_fn4 [simp]: "length (round_fn4 v m r) = length v"
  by (simp add: round_fn4_def)

lemma lane_hash4_rounds:
  assumes "i < 4" "\<forall>x\<in>set v. i < length x" "\<forall>x\<in>set m. i < length x" "length v = 16" "length m = 16" "k \<le> 7"
  shows "lane i (hash4_rounds v m k) = fold (\<lambda>r s. round_fn s (lane i m) r) [0..<k] (lane i v)
    \<and> (\<forall>x\<in>set (hash4_rounds v m k). i < length x) \<and> length (hash4_rounds v m k) = 16"
  using assms(6)
proof (induction k)
  case (Suc k)
  then show ?case using lane_round_fn4 [of "hash4_rounds v m k" i m k] assms by simp
qed (simp add: assms)

lemma compress_pre_fold:
  "compress_pre cv block block_len counter flags
     = fold (\<lambda>r s. round_fn s (map (\<lambda>i. load32 (drop (4 * i) block)) [0..<16]) r) [0..<7]
         (map (\<lambda>i. cv ! i) [0..<8] @ map (\<lambda>i. IV ! i) [0..<4]
            @ [counter_low counter, counter_high counter, ucast block_len, ucast flags])"
  by (simp add: compress_pre_def Let_def upt_rec numeral_eq_Suc)

lemma lane_hash4_loop:
  assumes i: "i < 4" and c: "clow ! i = counter_low counter" "chigh ! i = counter_high counter"
    "length clow = 4" "length chigh = 4"
  shows "length h = 8 \<Longrightarrow> lanes4 h \<Longrightarrow> (block + left) * 64 \<le> length (inputs ! i)
    \<Longrightarrow> lane i (hash4_loop inputs block left h clow chigh flags bf fe)
        = hash_one_loop (drop (block * 64) (inputs ! i)) left (lane i h) counter flags bf fe
      \<and> length (hash4_loop inputs block left h clow chigh flags bf fe) = 8
      \<and> lanes4 (hash4_loop inputs block left h clow chigh flags bf fe)"
proof (induction left arbitrary: block h bf)
  case (Suc left)
  let ?inp = "inputs ! i"
  let ?m = "transpose_msg_vecs4 inputs (block * 64)"
  define bf' where "bf' = (if left = 0 then bf OR fe else bf)"
  let ?v = "h @ map (\<lambda>i. set1_128 (IV ! i)) [0..<4] @ [clow, chigh, set1_128 64, set1_128 (ucast bf')]"
  define w where "w = hash4_rounds ?v ?m 7"
  let ?h = "map (\<lambda>i. xor_128 (w ! i) (w ! (i + 8))) [0..<8]"
  let ?cv = "blake3_compress_in_place_portable (lane i h) (take 64 (drop (block * 64) ?inp)) 64 counter bf'"
  have len: "block * 64 + 64 \<le> length ?inp" using Suc.prems by simp
  have v: "\<forall>k<4. \<forall>x\<in>set ?v. k < length x" "length ?v = 16"
    using Suc.prems c by (auto simp: lanes4_def set1_128_def)
  have m: "\<forall>k<4. \<forall>x\<in>set ?m. k < length x" "length ?m = 16" by (auto simp: transpose_msg_nth)
  have w: "lane k w = fold (\<lambda>r s. round_fn s (lane k ?m) r) [0..<7] (lane k ?v)
      \<and> (\<forall>x\<in>set w. k < length x) \<and> length w = 16" if "k < 4" for k
    unfolding w_def
  proof (rule lane_hash4_rounds [OF that _ _ v(2) m(2)])
    show "\<forall>x\<in>set ?v. k < length x" using v(1) that by blast
    show "\<forall>x\<in>set ?m. k < length x" using m(1) that by blast
  qed simp
  have lv: "lane i ?v = map (\<lambda>k. lane i h ! k) [0..<8] @ map (\<lambda>i. IV ! i) [0..<4]
      @ [counter_low counter, counter_high counter, ucast (64 :: byte), ucast bf']"
    using Suc.prems(1) i c map_nth [of "lane i h"] by (simp add: lane_def comp_def set1_128_def)
  have pre: "lane i w = compress_pre (lane i h) (take 64 (drop (block * 64) ?inp)) 64 counter bf'"
    using w [OF i] lane_transpose_msg [OF i len] by (simp only: lv compress_pre_fold)
  have len_w: "length w = 16" and nth_w: "k < 16 \<Longrightarrow> 4 \<le> length (w ! k)" for k
    using w [of 3] nth_mem [of k w] by fastforce+
  have "lane i ?h = map (\<lambda>k. lane i w ! k XOR lane i w ! (k + 8)) [0..<8]"
    using i nth_w len_w by (auto simp: lane_def nth_xor_128 less_le_trans)
  then have cv: "lane i ?h = ?cv"
    by (simp add: pre blake3_compress_in_place_portable_def Let_def)
  have h: "lanes4 ?h" using nth_w by (simp add: lanes4_def)
  have loop: "hash4_loop inputs block (Suc left) h clow chigh flags bf fe
      = hash4_loop inputs (Suc block) left ?h clow chigh flags flags fe"
    by (simp only: hash4_loop.simps BLAKE3_BLOCK_LEN_def Let_def of_nat_numeral bf'_def w_def)
  have one: "hash_one_loop (drop (block * 64) ?inp) (Suc left) (lane i h) counter flags bf fe
      = hash_one_loop (drop (Suc block * 64) ?inp) left ?cv counter flags flags fe"
    by (simp add: BLAKE3_BLOCK_LEN_def Let_def add.commute bf'_def)
  from Suc.IH [of ?h "Suc block" flags] h Suc.prems(3) show ?case
    unfolding loop one cv [symmetric] by simp
qed simp

subsection \<open>The backend computes the portable hash\<close>

lemma length_hash_one_loop: "length cv = 8 \<Longrightarrow> length (hash_one_loop input blocks cv counter flags bf fe) = 8"
  by (induction blocks arbitrary: input cv bf) (auto simp: Let_def)

lemma store_cv_words_concat: "length cv = 8 \<Longrightarrow> store_cv_words cv = concat (map store32 cv)"
  using map_nth [of cv] by (metis (no_types, lifting) map_map comp_def map_eq_conv store_cv_words_def)

lemma hash_one_neon_portable:
  "length key = 8 \<Longrightarrow> hash_one_neon input blocks key counter flags fs fe
     = hash_one_portable input blocks key counter flags fs fe"
  by (simp add: hash_one_neon_def hash_one_portable_def store_cv_words_concat length_hash_one_loop)

lemma load_counters4_nth:
  assumes "i < 4"
  shows "fst (load_counters4 counter inc) ! i = counter_low (if inc then counter + of_nat i else counter)"
    "snd (load_counters4 counter inc) ! i = counter_high (if inc then counter + of_nat i else counter)"
    "length (fst (load_counters4 counter inc)) = 4" "length (snd (load_counters4 counter inc)) = 4"
proof -
  have "i \<in> {0, 1, 2, 3}" using assms by auto
  then show "fst (load_counters4 counter inc) ! i = counter_low (if inc then counter + of_nat i else counter)"
    "snd (load_counters4 counter inc) ! i = counter_high (if inc then counter + of_nat i else counter)"
    by (auto simp: load_counters4_def set4_def Let_def)
qed (simp_all add: load_counters4_def set4_def Let_def)

lemma hash4_neon_portable:
  assumes "length key = 8" "length inputs = 4" "\<forall>x\<in>set inputs. blocks * 64 \<le> length x"
  shows "blake3_hash4_neon inputs blocks key counter inc flags fs fe
    = concat (map (\<lambda>i. hash_one_portable (inputs ! i) blocks key (if inc then counter + of_nat i else counter)
        flags fs fe) [0..<4])"
proof -
  let ?k = "map (\<lambda>i. set1_128 (key ! i)) [0..<8]"
  define c where "c = load_counters4 counter inc"
  define h where "h = hash4_loop inputs 0 blocks ?k (fst c) (snd c) flags (flags OR fs) fe"
  define cv where "cv = (\<lambda>i. hash_one_loop (inputs ! i) blocks key (if inc then counter + of_nat i else counter)
      flags (flags OR fs) fe)"
  have k: "lane i ?k = key" if "i < 4" for i
    using that map_nth [of key] assms(1) by (simp add: lane_def comp_def set1_128_def)
  have h: "lane i h = cv i \<and> length h = 8" if "i < 4" for i
    using lane_hash4_loop [OF that, of "fst c" "if inc then counter + of_nat i else counter" "snd c" ?k 0 blocks
        inputs flags "flags OR fs" fe] load_counters4_nth [OF that, of counter inc] k [OF that] assms that
    by (auto simp: h_def c_def cv_def lanes4_def set1_128_def)
  have lo: "transpose_vecs_128 (take 4 h) = map (\<lambda>i. take 4 (cv i)) [0..<4]"
    and hi: "transpose_vecs_128 (drop 4 h) = map (\<lambda>i. drop 4 (cv i)) [0..<4]"
    using h h [of 0] by (simp_all add: transpose_vecs_nth lane_def take_map [symmetric] drop_map [symmetric])
  have out: "storeu_128 (take 4 (cv i)) @ storeu_128 (drop 4 (cv i)) = concat (map store32 (cv i))" for i
    unfolding storeu_128_def concat_append [symmetric] map_append [symmetric] append_take_drop_id ..
  have "blake3_hash4_neon inputs blocks key counter inc flags fs fe
      = concat (map (\<lambda>i. storeu_128 (map (\<lambda>i. take 4 (cv i)) [0..<4] ! i)
          @ storeu_128 (map (\<lambda>i. drop 4 (cv i)) [0..<4] ! i)) [0..<4])"
    by (simp only: blake3_hash4_neon_def Let_def case_prod_beta c_def [symmetric] h_def [symmetric] lo hi)
  also have "\<dots> = concat (map (\<lambda>i. concat (map store32 (cv i))) [0..<4])"
    by (intro arg_cong [of _ _ concat] map_cong refl) (simp add: out)
  finally have "blake3_hash4_neon inputs blocks key counter inc flags fs fe
      = concat (map (\<lambda>i. concat (map store32 (cv i))) [0..<4])" .
  then show ?thesis
    by (simp add: cv_def hash_one_portable_def store_cv_words_concat length_hash_one_loop assms(1))
qed

lemma hash_many_neon_portable:
  "length key = 8 \<Longrightarrow> \<forall>x\<in>set inputs. blocks * 64 \<le> length x
    \<Longrightarrow> blake3_hash_many_neon inputs blocks key counter inc flags fs fe
      = blake3_hash_many_portable inputs blocks key counter inc flags fs fe"
proof (induction inputs blocks key counter inc flags fs fe rule: blake3_hash_many_neon.induct)
  case (1 i0 i1 i2 i3 inputs blocks key counter inc flags fs fe)
  then show ?case
    by (simp add: hash4_neon_portable upt_rec numeral_eq_Suc add.assoc)
qed (simp_all add: hash_one_neon_portable)

end
