(* ===== verification/Blake3_Dispatch.thy ===== *)
theory Blake3_Dispatch
  imports Blake3_Neon
begin

section \<open>Run-time choice of the BLAKE3 backend (\<open>blake3_dispatch.c\<close>)\<close>

text \<open>
  A build is for x86-64, with the four SIMD backends of the vendored library, or for AArch64, with
  the NEON backend (the two branches of \<open>CMakeLists.txt\<close>). On x86-64 the processor is asked for its
  features with \<open>cpuid\<close> and \<open>xgetbv\<close>, which are parameters, and so are the SSE and AVX backends;
  what the library promises of them is \<open>simd_ok\<close>: each computes what the portable one computes.
\<close>

subsection \<open>Processor features\<close>

record x86_cpu =
  cpuid :: "u32 \<Rightarrow> u32 \<times> u32 \<times> u32 \<times> u32"
  cpuidex :: "u32 \<Rightarrow> u32 \<Rightarrow> u32 \<times> u32 \<times> u32 \<times> u32"
  xgetbv :: u64

definition SSE2 :: u32 where "SSE2 = push_bit 0 1"
definition SSSE3 :: u32 where "SSSE3 = push_bit 1 1"
definition SSE41 :: u32 where "SSE41 = push_bit 2 1"
definition AVX :: u32 where "AVX = push_bit 3 1"
definition AVX2 :: u32 where "AVX2 = push_bit 4 1"
definition AVX512F :: u32 where "AVX512F = push_bit 5 1"
definition AVX512VL :: u32 where "AVX512VL = push_bit 6 1"
definition UNDEFINED :: u32 where "UNDEFINED = push_bit 30 1"

definition has :: "u32 \<Rightarrow> u32 \<Rightarrow> bool" where "has features f \<longleftrightarrow> features AND f \<noteq> 0"

definition detect_features :: "x86_cpu \<Rightarrow> u32" where
  "detect_features cpu =
     (let max_id = (case cpuid cpu 0 of (eax, _) \<Rightarrow> eax);
          ecx = (case cpuid cpu 1 of (_, _, ecx, _) \<Rightarrow> ecx);
          features = 0 OR SSE2;
          features = (if bit ecx 9 then features OR SSSE3 else features);
          features = (if bit ecx 19 then features OR SSE41 else features)
      in if bit ecx 27 \<and> xgetbv cpu AND 6 = 6 then
           let features = (if bit ecx 28 then features OR AVX else features)
           in if 7 \<le> sint max_id then
                let ebx = (case cpuidex cpu 7 0 of (_, ebx, _) \<Rightarrow> ebx);
                    features = (if bit ebx 5 then features OR AVX2 else features)
                in if xgetbv cpu AND 224 = 224 then
                     let features = (if bit ebx 31 then features OR AVX512VL else features)
                     in if bit ebx 16 then features OR AVX512F else features
                   else features
              else features
         else features)"

text \<open>\<open>get_cpu_features\<close> keeps the detected features in the static \<open>g_cpu_features\<close>.\<close>

definition get_cpu_features :: "x86_cpu \<Rightarrow> u32 \<Rightarrow> u32 \<times> u32" where
  "get_cpu_features cpu g_cpu_features =
     (if g_cpu_features \<noteq> UNDEFINED then (g_cpu_features, g_cpu_features)
      else let features = detect_features cpu in (features, features))"

definition features_of :: "x86_cpu \<Rightarrow> u32" where
  "features_of cpu = fst (get_cpu_features cpu UNDEFINED)"

subsection \<open>Platforms\<close>

record simd_backend =
  sb_compress_in_place :: "u32 list \<Rightarrow> bytes \<Rightarrow> byte \<Rightarrow> u64 \<Rightarrow> byte \<Rightarrow> u32 list"
  sb_compress_xof :: "u32 list \<Rightarrow> bytes \<Rightarrow> byte \<Rightarrow> u64 \<Rightarrow> byte \<Rightarrow> bytes"
  sb_hash_many :: "bytes list \<Rightarrow> nat \<Rightarrow> u32 list \<Rightarrow> u64 \<Rightarrow> bool \<Rightarrow> byte \<Rightarrow> byte \<Rightarrow> byte \<Rightarrow> bytes"

record x86_simd =
  sse2 :: simd_backend
  sse41 :: simd_backend
  avx2_hash_many :: "bytes list \<Rightarrow> nat \<Rightarrow> u32 list \<Rightarrow> u64 \<Rightarrow> bool \<Rightarrow> byte \<Rightarrow> byte \<Rightarrow> byte \<Rightarrow> bytes"
  avx512 :: simd_backend
  avx512_xof_many :: "u32 list \<Rightarrow> bytes \<Rightarrow> byte \<Rightarrow> u64 \<Rightarrow> byte \<Rightarrow> nat \<Rightarrow> bytes"

datatype b3_platform = IS_X86_64 x86_cpu x86_simd | IS_AARCH64

fun MAX_SIMD_DEGREE :: "b3_platform \<Rightarrow> nat" where
  "MAX_SIMD_DEGREE (IS_X86_64 cpu simd) = 16"
| "MAX_SIMD_DEGREE IS_AARCH64 = 4"

definition MAX_SIMD_DEGREE_OR_2 :: "b3_platform \<Rightarrow> nat" where
  "MAX_SIMD_DEGREE_OR_2 P = (if MAX_SIMD_DEGREE P > 2 then MAX_SIMD_DEGREE P else 2)"

subsection \<open>Dispatch\<close>

fun blake3_compress_in_place :: "b3_platform \<Rightarrow> u32 list \<Rightarrow> bytes \<Rightarrow> byte \<Rightarrow> u64 \<Rightarrow> byte \<Rightarrow> u32 list" where
  "blake3_compress_in_place (IS_X86_64 cpu simd) cv block block_len counter flags =
     (let features = features_of cpu
      in if has features AVX512VL then sb_compress_in_place (avx512 simd) cv block block_len counter flags
         else if has features SSE41 then sb_compress_in_place (sse41 simd) cv block block_len counter flags
         else if has features SSE2 then sb_compress_in_place (sse2 simd) cv block block_len counter flags
         else blake3_compress_in_place_portable cv block block_len counter flags)"
| "blake3_compress_in_place IS_AARCH64 cv block block_len counter flags =
     blake3_compress_in_place_portable cv block block_len counter flags"

fun blake3_compress_xof :: "b3_platform \<Rightarrow> u32 list \<Rightarrow> bytes \<Rightarrow> byte \<Rightarrow> u64 \<Rightarrow> byte \<Rightarrow> bytes" where
  "blake3_compress_xof (IS_X86_64 cpu simd) cv block block_len counter flags =
     (let features = features_of cpu
      in if has features AVX512VL then sb_compress_xof (avx512 simd) cv block block_len counter flags
         else if has features SSE41 then sb_compress_xof (sse41 simd) cv block block_len counter flags
         else if has features SSE2 then sb_compress_xof (sse2 simd) cv block block_len counter flags
         else blake3_compress_xof_portable cv block block_len counter flags)"
| "blake3_compress_xof IS_AARCH64 cv block block_len counter flags =
     blake3_compress_xof_portable cv block block_len counter flags"

definition xof_many_loop :: "b3_platform \<Rightarrow> u32 list \<Rightarrow> bytes \<Rightarrow> byte \<Rightarrow> u64 \<Rightarrow> byte \<Rightarrow> nat \<Rightarrow> bytes" where
  "xof_many_loop P cv block block_len counter flags outblocks =
     concat (map (\<lambda>i. blake3_compress_xof P cv block block_len (counter + of_nat i) flags) [0..<outblocks])"

fun blake3_xof_many :: "b3_platform \<Rightarrow> u32 list \<Rightarrow> bytes \<Rightarrow> byte \<Rightarrow> u64 \<Rightarrow> byte \<Rightarrow> nat \<Rightarrow> bytes" where
  "blake3_xof_many (IS_X86_64 cpu simd) cv block block_len counter flags outblocks =
     (if outblocks = 0 then []
      else if has (features_of cpu) AVX512VL then avx512_xof_many simd cv block block_len counter flags outblocks
      else xof_many_loop (IS_X86_64 cpu simd) cv block block_len counter flags outblocks)"
| "blake3_xof_many IS_AARCH64 cv block block_len counter flags outblocks =
     (if outblocks = 0 then [] else xof_many_loop IS_AARCH64 cv block block_len counter flags outblocks)"

fun blake3_hash_many ::
  "b3_platform \<Rightarrow> bytes list \<Rightarrow> nat \<Rightarrow> u32 list \<Rightarrow> u64 \<Rightarrow> bool \<Rightarrow> byte \<Rightarrow> byte \<Rightarrow> byte \<Rightarrow> bytes" where
  "blake3_hash_many (IS_X86_64 cpu simd) inputs blocks key counter inc flags flags_start flags_end =
     (let features = features_of cpu
      in if features AND (AVX512F OR AVX512VL) = AVX512F OR AVX512VL
         then sb_hash_many (avx512 simd) inputs blocks key counter inc flags flags_start flags_end
         else if has features AVX2 then avx2_hash_many simd inputs blocks key counter inc flags flags_start flags_end
         else if has features SSE41
         then sb_hash_many (sse41 simd) inputs blocks key counter inc flags flags_start flags_end
         else if has features SSE2
         then sb_hash_many (sse2 simd) inputs blocks key counter inc flags flags_start flags_end
         else blake3_hash_many_portable inputs blocks key counter inc flags flags_start flags_end)"
| "blake3_hash_many IS_AARCH64 inputs blocks key counter inc flags flags_start flags_end =
     blake3_hash_many_neon inputs blocks key counter inc flags flags_start flags_end"

fun blake3_simd_degree :: "b3_platform \<Rightarrow> nat" where
  "blake3_simd_degree (IS_X86_64 cpu simd) =
     (let features = features_of cpu
      in if features AND (AVX512F OR AVX512VL) = AVX512F OR AVX512VL then 16
         else if has features AVX2 then 8
         else if has features SSE41 then 4
         else if has features SSE2 then 4
         else 1)"
| "blake3_simd_degree IS_AARCH64 = 4"

subsection \<open>Every choice computes the portable functions\<close>

definition backend_ok :: "simd_backend \<Rightarrow> bool" where
  "backend_ok sb \<longleftrightarrow>
     (\<forall>cv block block_len counter flags. length cv = 8 \<longrightarrow> length block = 64 \<longrightarrow>
        sb_compress_in_place sb cv block block_len counter flags
          = blake3_compress_in_place_portable cv block block_len counter flags
        \<and> sb_compress_xof sb cv block block_len counter flags
          = blake3_compress_xof_portable cv block block_len counter flags) \<and>
     (\<forall>inputs blocks key counter inc flags fs fe. length key = 8 \<longrightarrow> (\<forall>x\<in>set inputs. blocks * 64 \<le> length x) \<longrightarrow>
        sb_hash_many sb inputs blocks key counter inc flags fs fe
          = blake3_hash_many_portable inputs blocks key counter inc flags fs fe)"

definition simd_ok :: "x86_simd \<Rightarrow> bool" where
  "simd_ok s \<longleftrightarrow> backend_ok (sse2 s) \<and> backend_ok (sse41 s) \<and> backend_ok (avx512 s) \<and>
     (\<forall>inputs blocks key counter inc flags fs fe. length key = 8 \<longrightarrow> (\<forall>x\<in>set inputs. blocks * 64 \<le> length x) \<longrightarrow>
        avx2_hash_many s inputs blocks key counter inc flags fs fe
          = blake3_hash_many_portable inputs blocks key counter inc flags fs fe) \<and>
     (\<forall>cv block block_len counter flags outblocks. length cv = 8 \<longrightarrow> length block = 64 \<longrightarrow>
        avx512_xof_many s cv block block_len counter flags outblocks
          = concat (map (\<lambda>i. blake3_compress_xof_portable cv block block_len (counter + of_nat i) flags) [0..<outblocks]))"

fun platform_ok :: "b3_platform \<Rightarrow> bool" where
  "platform_ok (IS_X86_64 cpu simd) = simd_ok simd"
| "platform_ok IS_AARCH64 = True"

lemma backend_okD:
  assumes "backend_ok sb"
  shows "length cv = 8 \<Longrightarrow> length block = 64 \<Longrightarrow> sb_compress_in_place sb cv block block_len counter flags
      = blake3_compress_in_place_portable cv block block_len counter flags"
    and "length cv = 8 \<Longrightarrow> length block = 64 \<Longrightarrow> sb_compress_xof sb cv block block_len counter flags
      = blake3_compress_xof_portable cv block block_len counter flags"
    and "length key = 8 \<Longrightarrow> \<forall>x\<in>set inputs. blocks * 64 \<le> length x \<Longrightarrow>
      sb_hash_many sb inputs blocks key counter inc flags fs fe
        = blake3_hash_many_portable inputs blocks key counter inc flags fs fe"
  using assms unfolding backend_ok_def by blast+

lemma simd_okD:
  assumes "simd_ok s"
  shows "backend_ok (sse2 s)" "backend_ok (sse41 s)" "backend_ok (avx512 s)"
    and "length key = 8 \<Longrightarrow> \<forall>x\<in>set inputs. blocks * 64 \<le> length x \<Longrightarrow>
      avx2_hash_many s inputs blocks key counter inc flags fs fe
        = blake3_hash_many_portable inputs blocks key counter inc flags fs fe"
    and "length cv = 8 \<Longrightarrow> length block = 64 \<Longrightarrow> avx512_xof_many s cv block block_len counter flags outblocks
      = concat (map (\<lambda>i. blake3_compress_xof_portable cv block block_len (counter + of_nat i) flags) [0..<outblocks])"
  using assms unfolding simd_ok_def by blast+

lemma dispatch_compress_in_place:
  "platform_ok P \<Longrightarrow> length cv = 8 \<Longrightarrow> length block = 64 \<Longrightarrow>
    blake3_compress_in_place P cv block block_len counter flags
      = blake3_compress_in_place_portable cv block block_len counter flags"
  by (cases P) (simp_all add: Let_def simd_okD backend_okD)

lemma dispatch_compress_xof:
  "platform_ok P \<Longrightarrow> length cv = 8 \<Longrightarrow> length block = 64 \<Longrightarrow>
    blake3_compress_xof P cv block block_len counter flags
      = blake3_compress_xof_portable cv block block_len counter flags"
  by (cases P) (simp_all add: Let_def simd_okD backend_okD)

lemma dispatch_xof_many:
  "platform_ok P \<Longrightarrow> length cv = 8 \<Longrightarrow> length block = 64 \<Longrightarrow>
    blake3_xof_many P cv block block_len counter flags outblocks
      = concat (map (\<lambda>i. blake3_compress_xof_portable cv block block_len (counter + of_nat i) flags) [0..<outblocks])"
  using dispatch_compress_xof [of P cv block]
  by (cases P) (simp_all add: simd_okD xof_many_loop_def)

lemma dispatch_hash_many:
  "platform_ok P \<Longrightarrow> length key = 8 \<Longrightarrow> \<forall>x\<in>set inputs. blocks * 64 \<le> length x \<Longrightarrow>
    blake3_hash_many P inputs blocks key counter inc flags fs fe
      = blake3_hash_many_portable inputs blocks key counter inc flags fs fe"
  by (cases P) (simp_all add: Let_def simd_okD backend_okD hash_many_neon_portable)

lemma simd_degree_range: "blake3_simd_degree P \<in> {1, 4, 8, 16}"
  by (cases P) (simp_all add: Let_def)

lemma simd_degree_le_max: "blake3_simd_degree P \<le> MAX_SIMD_DEGREE P"
  by (cases P) (simp_all add: Let_def)

text \<open>The x86-64 baseline has SSE2, so the portable fall-through is never taken there.\<close>

lemma has_sse2: "has (features_of cpu) SSE2"
proof -
  have *: "bit SSE2 0" by (simp add: SSE2_def)
  have "bit (detect_features cpu) 0"
    by (auto simp: detect_features_def Let_def bit_or_iff * split: prod.splits)
  then have "features_of cpu AND SSE2 \<noteq> 0"
    using * by (auto simp: features_of_def get_cpu_features_def Let_def bit_eq_iff bit_and_iff intro!: exI [of _ 0])
  then show ?thesis by (simp add: has_def)
qed

text \<open>Asking again for the features gives the same answer, whatever was asked before.\<close>

lemma detect_defined: "detect_features cpu \<noteq> UNDEFINED"
proof
  assume eq: "detect_features cpu = UNDEFINED"
  have "bit (detect_features cpu) 0"
    by (auto simp: detect_features_def Let_def bit_or_iff SSE2_def split: prod.splits)
  then show False by (simp add: eq UNDEFINED_def bit_push_bit_iff)
qed

lemma get_cpu_features_stable:
  assumes "g = UNDEFINED \<or> g = features_of cpu"
  shows "fst (get_cpu_features cpu g) = features_of cpu" "snd (get_cpu_features cpu g) = features_of cpu"
  using assms detect_defined by (auto simp: features_of_def get_cpu_features_def Let_def)

end
