(* ===== verification/Blake3.thy ===== *)
theory Blake3
  imports Blake3_Dispatch
begin

section \<open>The incremental BLAKE3 hasher (\<open>blake3.c\<close>)\<close>

text \<open>
  The chunk state, the tree compression and the hasher of the vendored library, over a platform
  \<open>P\<close>. Lengths are natural numbers; \<open>buf_len\<close>, \<open>blocks_compressed\<close> and the flags are bytes and the
  chunk counter is a 64-bit word, as declared. An array of \<open>n\<close> chaining values is the list of its
  \<open>32 n\<close> bytes, and the stack of the hasher is the list of its live chaining values. Threading
  (\<open>BLAKE3_USE_TBB\<close>) is off in this build.
\<close>

subsection \<open>Chunk state\<close>

record chunk_state =
  cs_cv :: "u32 list"
  cs_counter :: u64
  cs_buf :: bytes
  cs_buf_len :: byte
  cs_blocks :: byte
  cs_flags :: byte

definition chunk_state_init :: "u32 list \<Rightarrow> byte \<Rightarrow> chunk_state" where
  "chunk_state_init key fl =
     \<lparr>cs_cv = key, cs_counter = 0, cs_buf = replicate BLAKE3_BLOCK_LEN 0, cs_buf_len = 0, cs_blocks = 0, cs_flags = fl\<rparr>"

definition chunk_state_reset :: "chunk_state \<Rightarrow> u32 list \<Rightarrow> u64 \<Rightarrow> chunk_state" where
  "chunk_state_reset s key counter =
     s\<lparr>cs_cv := key, cs_counter := counter, cs_blocks := 0, cs_buf := replicate BLAKE3_BLOCK_LEN 0, cs_buf_len := 0\<rparr>"

definition chunk_state_len :: "chunk_state \<Rightarrow> nat" where
  "chunk_state_len s = BLAKE3_BLOCK_LEN * unat (cs_blocks s) + unat (cs_buf_len s)"

definition chunk_state_fill_buf :: "chunk_state \<Rightarrow> bytes \<Rightarrow> chunk_state \<times> nat" where
  "chunk_state_fill_buf s input =
     (let tk = min (BLAKE3_BLOCK_LEN - unat (cs_buf_len s)) (length input);
          p = unat (cs_buf_len s)
      in (s\<lparr>cs_buf := take p (cs_buf s) @ take tk input @ drop (p + tk) (cs_buf s), cs_buf_len := cs_buf_len s + of_nat tk\<rparr>, tk))"

definition chunk_state_maybe_start_flag :: "chunk_state \<Rightarrow> byte" where
  "chunk_state_maybe_start_flag s = (if cs_blocks s = 0 then CHUNK_START else 0)"

record output_t =
  o_cv :: "u32 list"
  o_counter :: u64
  o_block :: bytes
  o_block_len :: byte
  o_flags :: byte

definition output_chaining_value :: "b3_platform \<Rightarrow> output_t \<Rightarrow> bytes" where
  "output_chaining_value P o' = store_cv_words
     (blake3_compress_in_place P (o_cv o') (o_block o') (o_block_len o') (o_counter o') (o_flags o'))"

definition output_root_bytes :: "b3_platform \<Rightarrow> output_t \<Rightarrow> u64 \<Rightarrow> nat \<Rightarrow> bytes" where
  "output_root_bytes P o' seek out_len =
     (if out_len = 0 then []
      else let xof = (\<lambda>c. blake3_compress_xof P (o_cv o') (o_block o') (o_block_len o') c (o_flags o' OR ROOT));
               output_block_counter = seek div 64;
               offset_within_block = unat (seek mod 64);
               n0 = (if offset_within_block \<noteq> 0 then min out_len (64 - offset_within_block) else 0);
               head = (if offset_within_block \<noteq> 0 then take n0 (drop offset_within_block (xof output_block_counter)) else []);
               c1 = (if offset_within_block \<noteq> 0 then output_block_counter + 1 else output_block_counter);
               out_len1 = out_len - n0;
               body = (if out_len1 div 64 \<noteq> 0
                       then blake3_xof_many P (o_cv o') (o_block o') (o_block_len o') c1 (o_flags o' OR ROOT) (out_len1 div 64)
                       else []);
               c2 = c1 + of_nat (out_len1 div 64);
               rest = out_len1 mod 64
           in head @ body @ (if rest \<noteq> 0 then take rest (xof c2) else []))"

definition compress_buffered :: "b3_platform \<Rightarrow> chunk_state \<Rightarrow> bytes \<Rightarrow> chunk_state" where
  "compress_buffered P s blk =
     s\<lparr>cs_cv := blake3_compress_in_place P (cs_cv s) blk (of_nat BLAKE3_BLOCK_LEN) (cs_counter s)
               (cs_flags s OR chunk_state_maybe_start_flag s),
       cs_blocks := cs_blocks s + 1\<rparr>"

function chunk_update_blocks :: "b3_platform \<Rightarrow> chunk_state \<Rightarrow> bytes \<Rightarrow> chunk_state \<times> bytes" where
  "chunk_update_blocks P s input =
     (if length input > BLAKE3_BLOCK_LEN
      then chunk_update_blocks P (compress_buffered P s (take BLAKE3_BLOCK_LEN input)) (drop BLAKE3_BLOCK_LEN input)
      else (s, input))"
  by auto
termination
  by (relation "measure (\<lambda>(P, s, input). length input)") (auto simp: BLAKE3_BLOCK_LEN_def)

declare chunk_update_blocks.simps [simp del]

definition chunk_state_update :: "b3_platform \<Rightarrow> chunk_state \<Rightarrow> bytes \<Rightarrow> chunk_state" where
  "chunk_state_update P s input =
     (let (s, input) =
        (if cs_buf_len s > 0 then
           let (s, tk) = chunk_state_fill_buf s input; input = drop tk input
           in if length input > 0
              then ((compress_buffered P s (cs_buf s))\<lparr>cs_buf_len := 0, cs_buf := replicate BLAKE3_BLOCK_LEN 0\<rparr>, input)
              else (s, input)
         else (s, input));
        (s, input) = chunk_update_blocks P s input
      in fst (chunk_state_fill_buf s input))"

definition chunk_state_output :: "chunk_state \<Rightarrow> output_t" where
  "chunk_state_output s =
     \<lparr>o_cv = cs_cv s, o_counter = cs_counter s, o_block = cs_buf s, o_block_len = cs_buf_len s,
      o_flags = cs_flags s OR chunk_state_maybe_start_flag s OR CHUNK_END\<rparr>"

definition parent_output :: "bytes \<Rightarrow> u32 list \<Rightarrow> byte \<Rightarrow> output_t" where
  "parent_output blk key fl =
     \<lparr>o_cv = key, o_counter = 0, o_block = blk, o_block_len = of_nat BLAKE3_BLOCK_LEN, o_flags = fl OR PARENT\<rparr>"

subsection \<open>Subtrees\<close>

definition left_subtree_len :: "nat \<Rightarrow> nat" where
  "left_subtree_len input_len =
     (let full_chunks = (input_len - 1) div BLAKE3_CHUNK_LEN
      in unat (round_down_to_power_of_2 (of_nat full_chunks)) * BLAKE3_CHUNK_LEN)"

definition compress_chunks_parallel :: "b3_platform \<Rightarrow> bytes \<Rightarrow> u32 list \<Rightarrow> u64 \<Rightarrow> byte \<Rightarrow> bytes" where
  "compress_chunks_parallel P input key counter fl =
     (let n = length input div BLAKE3_CHUNK_LEN;
          chunks = map (\<lambda>i. take BLAKE3_CHUNK_LEN (drop (i * BLAKE3_CHUNK_LEN) input)) [0..<n];
          out = blake3_hash_many P chunks (BLAKE3_CHUNK_LEN div BLAKE3_BLOCK_LEN) key counter True fl CHUNK_START CHUNK_END
      in if length input > n * BLAKE3_CHUNK_LEN then
           let s = (chunk_state_init key fl)\<lparr>cs_counter := counter + of_nat n\<rparr>;
               s = chunk_state_update P s (drop (n * BLAKE3_CHUNK_LEN) input)
           in out @ output_chaining_value P (chunk_state_output s)
         else out)"

definition compress_parents_parallel :: "b3_platform \<Rightarrow> bytes \<Rightarrow> u32 list \<Rightarrow> byte \<Rightarrow> bytes" where
  "compress_parents_parallel P cvs key fl =
     (let num = length cvs div BLAKE3_OUT_LEN; n = num div 2;
          parents = map (\<lambda>i. take BLAKE3_BLOCK_LEN (drop (2 * i * BLAKE3_OUT_LEN) cvs)) [0..<n];
          out = blake3_hash_many P parents 1 key 0 False (fl OR PARENT) 0 0
      in if num > 2 * n then out @ take BLAKE3_OUT_LEN (drop (2 * n * BLAKE3_OUT_LEN) cvs) else out)"

lemma bit_nat_le: "bit (n :: nat) k \<Longrightarrow> 2 ^ k \<le> n"
  by (rule ccontr) (simp add: bit_iff_odd)

lemma left_subtree_len_bounds:
  assumes "BLAKE3_CHUNK_LEN < n"
  shows "left_subtree_len n < n" "BLAKE3_CHUNK_LEN \<le> left_subtree_len n"
proof -
  let ?f = "(n - 1) div BLAKE3_CHUNK_LEN"
  let ?x = "(of_nat ?f :: u64) OR 1"
  have f: "1 \<le> ?f" "?f * BLAKE3_CHUNK_LEN < n"
    using assms by (auto simp: BLAKE3_CHUNK_LEN_def)
  have "bit ?x 0" by (simp add: bit_simps)
  then have nz: "?x \<noteq> 0" by auto
  have "2 ^ highest_one ?x \<le> max 1 ?f"
  proof (cases "highest_one ?x = 0")
    case False
    then have "bit (of_nat ?f :: u64) (highest_one ?x)"
      using highest_one_bit(2) [OF nz] by (auto simp: bit_or_iff bit_1_iff)
    then have "bit ?f (highest_one ?x)" by (simp add: bit_of_nat_iff)
    then show ?thesis by (meson bit_nat_le le_max_iff_disj)
  qed simp
  also have "\<dots> = ?f" using f(1) by simp
  finally have "2 ^ highest_one ?x * BLAKE3_CHUNK_LEN \<le> ?f * BLAKE3_CHUNK_LEN" by simp
  from le_less_trans [OF this f(2)] show "left_subtree_len n < n"
    unfolding left_subtree_len_def Let_def unat_round_down .
  show "BLAKE3_CHUNK_LEN \<le> left_subtree_len n"
    unfolding left_subtree_len_def Let_def unat_round_down by simp
qed

text \<open>
  \<open>blake3_compress_subtree_wide\<close> keeps the right half's chaining values at offset \<open>degree\<close> of
  \<open>cv_array\<close>; bytes of the array between the two halves that no call wrote are shown as zeros.
\<close>

function blake3_compress_subtree_wide :: "b3_platform \<Rightarrow> bytes \<Rightarrow> u32 list \<Rightarrow> u64 \<Rightarrow> byte \<Rightarrow> bytes" where
  "blake3_compress_subtree_wide P input key counter fl =
     (if length input \<le> blake3_simd_degree P * BLAKE3_CHUNK_LEN then compress_chunks_parallel P input key counter fl
      else let left_len = left_subtree_len (length input);
               right_counter = counter + of_nat (left_len div BLAKE3_CHUNK_LEN);
               degree = (if left_len > BLAKE3_CHUNK_LEN \<and> blake3_simd_degree P = 1 then 2 else blake3_simd_degree P);
               left_cvs = blake3_compress_subtree_wide P (take left_len input) key counter fl;
               right_cvs = blake3_compress_subtree_wide P (drop left_len input) key right_counter fl;
               cv_array = left_cvs @ replicate (degree * BLAKE3_OUT_LEN - length left_cvs) 0 @ right_cvs;
               num = (length left_cvs + length right_cvs) div BLAKE3_OUT_LEN
           in if length left_cvs = BLAKE3_OUT_LEN then take (2 * BLAKE3_OUT_LEN) cv_array
              else compress_parents_parallel P (take (num * BLAKE3_OUT_LEN) cv_array) key fl)"
  by auto
termination
proof (relation "measure (\<lambda>(P, input, key, counter, fl). length input)", goal_cases)
  case 1 show ?case by simp
next
  case (2 P input key counter fl)
  have "1 \<le> blake3_simd_degree P" using simd_degree_range [of P] by auto
  then have "BLAKE3_CHUNK_LEN \<le> blake3_simd_degree P * BLAKE3_CHUNK_LEN" by simp
  then have "BLAKE3_CHUNK_LEN < length input" using 2 by linarith
  from left_subtree_len_bounds [OF this] 2 show ?case by simp
next
  case (3 P input key counter fl)
  have "1 \<le> blake3_simd_degree P" using simd_degree_range [of P] by auto
  then have "BLAKE3_CHUNK_LEN \<le> blake3_simd_degree P * BLAKE3_CHUNK_LEN" by simp
  then have "BLAKE3_CHUNK_LEN < length input" using 3 by linarith
  from left_subtree_len_bounds [OF this] 3 show ?case by (auto simp: BLAKE3_CHUNK_LEN_def)
qed

declare blake3_compress_subtree_wide.simps [simp del]

text \<open>The condensing loop of \<open>compress_subtree_to_parent_node\<close>; its \<open>fuel\<close> halves with the number of values.\<close>

fun condense :: "nat \<Rightarrow> b3_platform \<Rightarrow> bytes \<Rightarrow> u32 list \<Rightarrow> byte \<Rightarrow> bytes" where
  "condense 0 P cvs key fl = cvs"
| "condense (Suc fuel) P cvs key fl =
     (if length cvs div BLAKE3_OUT_LEN > 2 then condense fuel P (compress_parents_parallel P cvs key fl) key fl else cvs)"

definition compress_subtree_to_parent_node :: "b3_platform \<Rightarrow> bytes \<Rightarrow> u32 list \<Rightarrow> u64 \<Rightarrow> byte \<Rightarrow> bytes" where
  "compress_subtree_to_parent_node P input key counter fl =
     (let cvs = blake3_compress_subtree_wide P input key counter fl
      in take (2 * BLAKE3_OUT_LEN) (condense (length cvs) P cvs key fl))"

subsection \<open>Hasher\<close>

record blake3_hasher =
  hkey :: "u32 list"
  chunk :: chunk_state
  cv_stack :: "bytes list"

definition hasher_init_base :: "u32 list \<Rightarrow> byte \<Rightarrow> blake3_hasher" where
  "hasher_init_base key fl = \<lparr>hkey = key, chunk = chunk_state_init key fl, cv_stack = []\<rparr>"

definition blake3_hasher_init :: blake3_hasher where "blake3_hasher_init = hasher_init_base IV 0"

definition blake3_hasher_init_keyed :: "bytes \<Rightarrow> blake3_hasher" where
  "blake3_hasher_init_keyed key = hasher_init_base (load_key_words key) KEYED_HASH"

definition merge_top :: "b3_platform \<Rightarrow> blake3_hasher \<Rightarrow> blake3_hasher" where
  "merge_top P h =
     (let st = cv_stack h; k = length st - 2
      in h\<lparr>cv_stack := take k st @
             [output_chaining_value P (parent_output (st ! k @ st ! (k + 1)) (hkey h) (cs_flags (chunk h)))]\<rparr>)"

text \<open>
  \<open>hasher_merge_cv_stack\<close>'s loop merges down to \<open>popcnt\<close> entries. A stack of one entry is never merged:
  with an entry on the stack the chunk counter, and so its count of one bits, is positive.
\<close>

function hasher_merge_to :: "b3_platform \<Rightarrow> blake3_hasher \<Rightarrow> nat \<Rightarrow> blake3_hasher" where
  "hasher_merge_to P h n =
     (if length (cv_stack h) > max n 1 then hasher_merge_to P (merge_top P h) n else h)"
  by auto
termination
  by (relation "measure (\<lambda>(P, h, n). length (cv_stack h))") (auto simp: merge_top_def Let_def)

declare hasher_merge_to.simps [simp del]

definition hasher_merge_cv_stack :: "b3_platform \<Rightarrow> blake3_hasher \<Rightarrow> u64 \<Rightarrow> blake3_hasher" where
  "hasher_merge_cv_stack P h total_len = hasher_merge_to P h (popcnt total_len)"

definition hasher_push_cv :: "b3_platform \<Rightarrow> blake3_hasher \<Rightarrow> bytes \<Rightarrow> u64 \<Rightarrow> blake3_hasher" where
  "hasher_push_cv P h new_cv counter =
     (let h = hasher_merge_cv_stack P h counter in h\<lparr>cv_stack := cv_stack h @ [new_cv]\<rparr>)"

text \<open>The loop that shrinks \<open>subtree_len\<close> until it divides the bytes hashed so far.\<close>

function shrink_subtree :: "nat \<Rightarrow> nat \<Rightarrow> nat" where
  "shrink_subtree subtree_len count_so_far =
     (if (subtree_len - 1) AND count_so_far \<noteq> 0 then shrink_subtree (subtree_len div 2) count_so_far else subtree_len)"
  by auto
termination
proof (relation "measure fst", goal_cases)
  case (2 subtree_len count_so_far)
  then show ?case by (cases subtree_len) auto
qed simp

declare shrink_subtree.simps [simp del]

lemma shrink_subtree_range: "0 < n \<Longrightarrow> 0 < shrink_subtree n c \<and> shrink_subtree n c \<le> n"
proof (induction n c rule: shrink_subtree.induct)
  case (1 n c)
  show ?case
  proof (cases "(n - 1) AND c \<noteq> 0")
    case True
    then have "n \<noteq> 1" by auto
    with "1.prems" have "0 < n div 2" by simp
    with "1.IH" [OF True] have "0 < shrink_subtree (n div 2) c \<and> shrink_subtree (n div 2) c \<le> n div 2" by simp
    then show ?thesis using True by (subst (1 2) shrink_subtree.simps) auto
  qed (use "1.prems" in \<open>subst (1 2) shrink_subtree.simps, simp\<close>)
qed

definition update_subtree :: "b3_platform \<Rightarrow> blake3_hasher \<Rightarrow> bytes \<Rightarrow> blake3_hasher" where
  "update_subtree P h input =
     (let subtree_len = length input; subtree_chunks = of_nat (subtree_len div BLAKE3_CHUNK_LEN);
          counter = cs_counter (chunk h); fl = cs_flags (chunk h);
          h = (if subtree_len \<le> BLAKE3_CHUNK_LEN then
                 let s = (chunk_state_init (hkey h) fl)\<lparr>cs_counter := counter\<rparr>;
                     s = chunk_state_update P s input
                 in hasher_push_cv P h (output_chaining_value P (chunk_state_output s)) (cs_counter s)
               else
                 let cv_pair = compress_subtree_to_parent_node P input (hkey h) counter fl;
                     h = hasher_push_cv P h (take BLAKE3_OUT_LEN cv_pair) counter
                 in hasher_push_cv P h (drop BLAKE3_OUT_LEN cv_pair) (counter + subtree_chunks div 2))
      in h\<lparr>chunk := (chunk h)\<lparr>cs_counter := counter + subtree_chunks\<rparr>\<rparr>)"

definition next_subtree_len :: "blake3_hasher \<Rightarrow> nat \<Rightarrow> nat" where
  "next_subtree_len h input_len =
     shrink_subtree (unat (round_down_to_power_of_2 (of_nat input_len)))
       (unat (cs_counter (chunk h) * of_nat BLAKE3_CHUNK_LEN))"

lemma next_subtree_len_pos: "0 < next_subtree_len h n"
  using shrink_subtree_range [of "2 ^ k" for k] by (simp add: next_subtree_len_def unat_round_down)

function update_subtrees :: "b3_platform \<Rightarrow> blake3_hasher \<Rightarrow> bytes \<Rightarrow> blake3_hasher \<times> bytes" where
  "update_subtrees P h input =
     (if length input > BLAKE3_CHUNK_LEN then
        let n = next_subtree_len h (length input)
        in update_subtrees P (update_subtree P h (take n input)) (drop n input)
      else (h, input))"
  by auto
termination
  by (relation "measure (\<lambda>(P, h, input). length input)")
     (auto intro!: diff_less simp: next_subtree_len_pos BLAKE3_CHUNK_LEN_def)

declare update_subtrees.simps [simp del]

definition blake3_hasher_update_tail :: "b3_platform \<Rightarrow> blake3_hasher \<Rightarrow> bytes \<Rightarrow> blake3_hasher" where
  "blake3_hasher_update_tail P h input =
     (let (h, input) = update_subtrees P h input
      in if length input > 0
         then let h = h\<lparr>chunk := chunk_state_update P (chunk h) input\<rparr>
              in hasher_merge_cv_stack P h (cs_counter (chunk h))
         else h)"

definition blake3_hasher_update :: "b3_platform \<Rightarrow> blake3_hasher \<Rightarrow> bytes \<Rightarrow> blake3_hasher" where
  "blake3_hasher_update P h input =
     (if length input = 0 then h
      else if chunk_state_len (chunk h) > 0 then
        let tk = min (BLAKE3_CHUNK_LEN - chunk_state_len (chunk h)) (length input);
            h = h\<lparr>chunk := chunk_state_update P (chunk h) (take tk input)\<rparr>;
            input = drop tk input
        in if length input > 0 then
             let h = hasher_push_cv P h (output_chaining_value P (chunk_state_output (chunk h))) (cs_counter (chunk h));
                 h = h\<lparr>chunk := chunk_state_reset (chunk h) (hkey h) (cs_counter (chunk h) + 1)\<rparr>
             in blake3_hasher_update_tail P h input
           else h
      else blake3_hasher_update_tail P h input)"

fun roll_up :: "b3_platform \<Rightarrow> blake3_hasher \<Rightarrow> output_t \<Rightarrow> nat \<Rightarrow> output_t" where
  "roll_up P h out 0 = out"
| "roll_up P h out (Suc cvs_remaining) =
     roll_up P h (parent_output (cv_stack h ! cvs_remaining @ output_chaining_value P out) (hkey h) (cs_flags (chunk h)))
       cvs_remaining"

definition blake3_hasher_finalize_seek :: "b3_platform \<Rightarrow> blake3_hasher \<Rightarrow> u64 \<Rightarrow> nat \<Rightarrow> bytes" where
  "blake3_hasher_finalize_seek P h seek out_len =
     (if out_len = 0 then []
      else if cv_stack h = [] then output_root_bytes P (chunk_state_output (chunk h)) seek out_len
      else if chunk_state_len (chunk h) > 0 then
        output_root_bytes P (roll_up P h (chunk_state_output (chunk h)) (length (cv_stack h))) seek out_len
      else let k = length (cv_stack h) - 2;
               out = parent_output (cv_stack h ! k @ cv_stack h ! (k + 1)) (hkey h) (cs_flags (chunk h))
           in output_root_bytes P (roll_up P h out k) seek out_len)"

definition blake3_hasher_finalize :: "b3_platform \<Rightarrow> blake3_hasher \<Rightarrow> nat \<Rightarrow> bytes" where
  "blake3_hasher_finalize P h out_len = blake3_hasher_finalize_seek P h 0 out_len"

definition blake3_hasher_init_derive_key_raw :: "b3_platform \<Rightarrow> bytes \<Rightarrow> blake3_hasher" where
  "blake3_hasher_init_derive_key_raw P ctxt =
     (let h = blake3_hasher_update P (hasher_init_base IV DERIVE_KEY_CONTEXT) ctxt
      in hasher_init_base (load_key_words (blake3_hasher_finalize P h BLAKE3_KEY_LEN)) DERIVE_KEY_MATERIAL)"

definition blake3_hasher_reset :: "blake3_hasher \<Rightarrow> blake3_hasher" where
  "blake3_hasher_reset h = h\<lparr>chunk := chunk_state_reset (chunk h) (hkey h) 0, cv_stack := []\<rparr>"

subsection \<open>Messages of one chunk\<close>

text \<open>
  A chunk state that was fed a message piece by piece is the one that was fed it at once, as long
  as the message fits one chunk.
\<close>

definition fresh :: "chunk_state \<Rightarrow> bool" where
  "fresh s \<longleftrightarrow> cs_buf s = replicate 64 0 \<and> cs_buf_len s = 0"

definition with_buf :: "chunk_state \<Rightarrow> bytes \<Rightarrow> chunk_state" where
  "with_buf s r = s\<lparr>cs_buf := r @ replicate (64 - length r) 0, cs_buf_len := of_nat (length r)\<rparr>"

lemma unat_byte: "n < 256 \<Longrightarrow> unat (of_nat n :: byte) = n"
  by (simp add: unat_of_nat take_bit_nat_eq_self_iff)

lemma fresh_compress: "fresh s \<Longrightarrow> fresh (compress_buffered P s blk)"
  by (simp add: fresh_def compress_buffered_def)

lemma chunk_update_blocks_rest:
  "chunk_update_blocks P s input = (s', r) \<Longrightarrow> length r \<le> 64 \<and> (r = [] \<longleftrightarrow> input = []) \<and> (fresh s \<longrightarrow> fresh s')"
proof (induction P s input rule: chunk_update_blocks.induct)
  case (1 P s input)
  show ?case
  proof (cases "length input > BLAKE3_BLOCK_LEN")
    case True
    with "1.IH" [OF True] "1.prems" show ?thesis
      by (subst (asm) chunk_update_blocks.simps) (auto simp: fresh_compress BLAKE3_BLOCK_LEN_def)
  qed (use "1.prems" in \<open>subst (asm) chunk_update_blocks.simps, auto simp: BLAKE3_BLOCK_LEN_def\<close>)
qed

lemma chunk_update_blocks_append:
  "chunk_update_blocks P s a = (s', r) \<Longrightarrow> chunk_update_blocks P s (a @ b) = chunk_update_blocks P s' (r @ b)"
proof (induction P s a arbitrary: r rule: chunk_update_blocks.induct)
  case (1 P s a)
  show ?case
  proof (cases "length a > BLAKE3_BLOCK_LEN")
    case True
    with "1.prems" have "chunk_update_blocks P (compress_buffered P s (take BLAKE3_BLOCK_LEN a)) (drop BLAKE3_BLOCK_LEN a) = (s', r)"
      by (subst (asm) chunk_update_blocks.simps) simp
    from "1.IH" [OF True this] True show ?thesis
      by (subst chunk_update_blocks.simps) simp
  next
    case False
    with "1.prems" have "s' = s" "r = a" by (subst (asm) chunk_update_blocks.simps, simp)+
    then show ?thesis by simp
  qed
qed

lemma fill_fresh:
  "fresh s \<Longrightarrow> length r \<le> 64 \<Longrightarrow> fst (chunk_state_fill_buf s r) = with_buf s r"
  by (simp add: fresh_def with_buf_def chunk_state_fill_buf_def BLAKE3_BLOCK_LEN_def Let_def)

lemma update_fresh:
  assumes "fresh s" "chunk_update_blocks P s a = (s', r)"
  shows "chunk_state_update P s a = with_buf s' r"
  using assms chunk_update_blocks_rest [OF assms(2)] fill_fresh [of s' r]
  by (simp add: chunk_state_update_def fresh_def)

lemma update_with_buf:
  assumes "fresh s" "length r \<le> 64"
  shows "chunk_state_update P (with_buf s r) b = (case chunk_update_blocks P s (r @ b) of (s', r') \<Rightarrow> with_buf s' r')"
proof (cases "r = []")
  case True
  then have "with_buf s r = s" using assms(1) by (simp add: with_buf_def fresh_def)
  then show ?thesis using True update_fresh [OF assms(1)] by (auto split: prod.split)
next
  case False
  let ?k = "64 - length r"
  have n: "unat (of_nat (length r) :: byte) = length r" using assms(2) by (intro unat_byte) simp
  then have pos: "(0 :: byte) < of_nat (length r)" using False by (simp add: word_less_nat_alt)
  show ?thesis
  proof (cases "length b > ?k")
    case True
    have fill: "chunk_state_fill_buf (with_buf s r) b = (with_buf s (r @ take ?k b), ?k)"
      using True n assms(2) by (auto simp: chunk_state_fill_buf_def with_buf_def BLAKE3_BLOCK_LEN_def Let_def)
    have len: "length (r @ take ?k b) = 64" using True assms(2) by auto
    let ?s = "compress_buffered P s (r @ take ?k b)"
    have c: "(compress_buffered P (with_buf s (r @ take ?k b)) (r @ take ?k b))\<lparr>cs_buf_len := 0, cs_buf := replicate 64 0\<rparr> = ?s"
      using assms(1) by (simp add: compress_buffered_def with_buf_def fresh_def chunk_state_maybe_start_flag_def)
    have "64 < length r + length b" using True assms(2) by linarith
    then have "chunk_update_blocks P s (r @ b) = chunk_update_blocks P ?s (drop ?k b)"
      using assms(2) by (subst chunk_update_blocks.simps) (simp add: BLAKE3_BLOCK_LEN_def)
    moreover obtain s' r' where u: "chunk_update_blocks P ?s (drop ?k b) = (s', r')" by fastforce
    moreover have "fst (chunk_state_fill_buf s' r') = with_buf s' r'"
      using chunk_update_blocks_rest [OF u] assms(1) by (intro fill_fresh) (auto simp: fresh_compress)
    moreover have "cs_buf (with_buf s (r @ take ?k b)) = r @ take ?k b" using len by (simp add: with_buf_def)
    moreover have "0 < cs_buf_len (with_buf s r)" using pos by (simp add: with_buf_def)
    ultimately show ?thesis
      using True c fill by (simp add: chunk_state_update_def BLAKE3_BLOCK_LEN_def)
  next
    case short: False
    have fill: "chunk_state_fill_buf (with_buf s r) b = (with_buf s (r @ b), length b)"
      using short n assms(2) by (auto simp: chunk_state_fill_buf_def with_buf_def BLAKE3_BLOCK_LEN_def Let_def)
    have "length r + length b \<le> 64" using short assms(2) by linarith
    then have "chunk_update_blocks P s (r @ b) = (s, r @ b)"
      by (subst chunk_update_blocks.simps) (simp add: BLAKE3_BLOCK_LEN_def)
    moreover have "chunk_update_blocks P t [] = (t, [])" for t
      by (subst chunk_update_blocks.simps) simp
    moreover have "chunk_state_fill_buf t [] = (t, 0)" for t
      by (simp add: chunk_state_fill_buf_def Let_def)
    ultimately show ?thesis
      using short pos fill by (simp add: chunk_state_update_def with_buf_def [of s r])
  qed
qed

lemma chunk_update_append:
  assumes "fresh s"
  shows "chunk_state_update P (chunk_state_update P s a) b = chunk_state_update P s (a @ b)"
proof -
  obtain s' r where a: "chunk_update_blocks P s a = (s', r)" by fastforce
  obtain t q where b: "chunk_update_blocks P s (a @ b) = (t, q)" by fastforce
  have "fresh s'" "length r \<le> 64" using chunk_update_blocks_rest [OF a] assms by auto
  from update_with_buf [OF this] show ?thesis
    using update_fresh [OF assms a] update_fresh [OF assms b] b chunk_update_blocks_append [OF a] by simp
qed

lemma chunk_update_blocks_count:
  "chunk_update_blocks P s input = (s', r) \<Longrightarrow> 64 * unat (cs_blocks s) + length input \<le> 1024
    \<Longrightarrow> 64 * unat (cs_blocks s') + length r = 64 * unat (cs_blocks s) + length input
      \<and> cs_flags s' = cs_flags s \<and> cs_counter s' = cs_counter s"
proof (induction P s input rule: chunk_update_blocks.induct)
  case (1 P s input)
  show ?case
  proof (cases "length input > BLAKE3_BLOCK_LEN")
    case True
    then have "unat (cs_blocks s) < 255" using "1.prems"(2) by (simp add: BLAKE3_BLOCK_LEN_def)
    then have u: "unat (cs_blocks s + 1) = unat (cs_blocks s) + 1"
      by (simp add: unat_word_ariths)
    have "chunk_update_blocks P (compress_buffered P s (take BLAKE3_BLOCK_LEN input)) (drop BLAKE3_BLOCK_LEN input) = (s', r)"
      using "1.prems"(1) True by (subst (asm) chunk_update_blocks.simps) simp
    from "1.IH" [OF True this] "1.prems"(2) u True show ?thesis
      by (simp add: compress_buffered_def BLAKE3_BLOCK_LEN_def)
  next
    case False
    with "1.prems"(1) have "s' = s" "r = input" by (subst (asm) chunk_update_blocks.simps, simp)+
    then show ?thesis by simp
  qed
qed

lemma chunk_state_len_update:
  assumes "fresh s" "cs_blocks s = 0" "length a \<le> 1024"
  shows "chunk_state_len (chunk_state_update P s a) = length a"
proof -
  obtain s' r where a: "chunk_update_blocks P s a = (s', r)" by fastforce
  have "length r \<le> 64" using chunk_update_blocks_rest [OF a] by simp
  then show ?thesis
    using chunk_update_blocks_count [OF a] assms update_fresh [OF assms(1) a] unat_byte [of "length r"]
    by (simp add: chunk_state_len_def with_buf_def BLAKE3_BLOCK_LEN_def)
qed

text \<open>The hasher after absorbing at most one chunk.\<close>

definition absorbed :: "b3_platform \<Rightarrow> u32 list \<Rightarrow> byte \<Rightarrow> bytes \<Rightarrow> blake3_hasher" where
  "absorbed P key fl msg = (hasher_init_base key fl)\<lparr>chunk := chunk_state_update P (chunk_state_init key fl) msg\<rparr>"

lemma fresh_init [simp]: "fresh (chunk_state_init key fl)"
  by (simp add: fresh_def chunk_state_init_def BLAKE3_BLOCK_LEN_def)

lemma update_Nil: "fresh s \<Longrightarrow> chunk_state_update P s [] = s"
  by (simp add: update_fresh [of s P "[]" s "[]"] chunk_update_blocks.simps with_buf_def fresh_def)

lemma absorbed_Nil: "absorbed P key fl [] = hasher_init_base key fl"
  by (simp add: absorbed_def update_Nil hasher_init_base_def)

lemma hasher_update_absorbed:
  assumes "length (a @ b) \<le> BLAKE3_CHUNK_LEN"
  shows "blake3_hasher_update P (absorbed P key fl a) b = absorbed P key fl (a @ b)"
proof (cases "b = []")
  case False
  let ?s = "chunk_state_init key fl"
  have s: "cs_blocks ?s = 0" by (simp add: chunk_state_init_def)
  have len: "chunk_state_len (chunk_state_update P ?s a) = length a"
    using assms s by (intro chunk_state_len_update) (auto simp: BLAKE3_CHUNK_LEN_def)
  note app = chunk_update_append [OF fresh_init, of P key fl a b]
  show ?thesis
  proof (cases "a = []")
    case True
    have "update_subtrees P h b = (h, b)" for h
      using assms by (subst update_subtrees.simps) simp
    moreover have "hasher_merge_to P h n = h" if "cv_stack h = []" for h n
      using that by (subst hasher_merge_to.simps) simp
    moreover have "chunk_state_update P ?s [] = ?s" by (simp add: update_Nil)
    moreover have "chunk_state_len ?s = 0" by (simp add: chunk_state_len_def chunk_state_init_def)
    ultimately show ?thesis
      using True False app
      by (simp add: absorbed_def hasher_init_base_def blake3_hasher_update_def blake3_hasher_update_tail_def
          hasher_merge_cv_stack_def Let_def)
  next
    case a: False
    then have "min (BLAKE3_CHUNK_LEN - length a) (length b) = length b" using assms by simp
    then show ?thesis
      using a False app len
      by (simp add: absorbed_def hasher_init_base_def blake3_hasher_update_def Let_def)
  qed
qed (simp add: blake3_hasher_update_def)

text \<open>The hash of a message of at most one chunk, whatever the sequence of updates.\<close>

definition chunk_hash :: "b3_platform \<Rightarrow> u32 list \<Rightarrow> byte \<Rightarrow> bytes \<Rightarrow> bytes" where
  "chunk_hash P key fl msg =
     output_root_bytes P (chunk_state_output (chunk_state_update P (chunk_state_init key fl) msg)) 0 BLAKE3_OUT_LEN"

lemma finalize_absorbed: "blake3_hasher_finalize P (absorbed P key fl msg) BLAKE3_OUT_LEN = chunk_hash P key fl msg"
  by (simp add: blake3_hasher_finalize_def blake3_hasher_finalize_seek_def absorbed_def hasher_init_base_def
      chunk_hash_def BLAKE3_OUT_LEN_def)

lemma hash_in_pieces:
  assumes "length (concat parts) \<le> BLAKE3_CHUNK_LEN"
  shows "blake3_hasher_finalize P (fold (\<lambda>b h. blake3_hasher_update P h b) parts (hasher_init_base key fl)) BLAKE3_OUT_LEN
    = chunk_hash P key fl (concat parts)"
proof -
  have "length (a @ concat parts) \<le> BLAKE3_CHUNK_LEN \<Longrightarrow>
      fold (\<lambda>b h. blake3_hasher_update P h b) parts (absorbed P key fl a) = absorbed P key fl (a @ concat parts)" for a
  proof (induction parts arbitrary: a)
    case (Cons b parts)
    then show ?case using hasher_update_absorbed [of a b P key fl] Cons.IH [of "a @ b"] by simp
  qed simp
  from this [of "[]"] assms show ?thesis by (simp add: absorbed_Nil finalize_absorbed)
qed

end
