(* ===== verification/Sha256.thy ===== *)
theory Sha256
  imports Prelude
begin

section \<open>SHA-256 of a node message (\<open>sha256.c\<close>)\<close>

text \<open>
  The portable block compression, the one written with the ARMv8 SHA-2 instructions, and
  \<open>pose_sha256\<close>, which pads into a buffer of 256 bytes. The instructions are the parameter
  \<open>arm_sha\<close>; \<open>arm_sha_ok\<close> states what the architecture documents of them: four rounds of the
  compression and four words of the message schedule. The theorems: the two compressions agree,
  and the padding is the one of FIPS 180-4 exactly for the message lengths 184 to 247.
\<close>

subsection \<open>Tables and functions\<close>

text \<open>One row of the source per list, four constants each.\<close>

definition sha_K :: "u32 list" where
  "sha_K = concat [
    [0x428a2f98, 0x71374491, 0xb5c0fbcf, 0xe9b5dba5], [0x3956c25b, 0x59f111f1, 0x923f82a4, 0xab1c5ed5],
    [0xd807aa98, 0x12835b01, 0x243185be, 0x550c7dc3], [0x72be5d74, 0x80deb1fe, 0x9bdc06a7, 0xc19bf174],
    [0xe49b69c1, 0xefbe4786, 0x0fc19dc6, 0x240ca1cc], [0x2de92c6f, 0x4a7484aa, 0x5cb0a9dc, 0x76f988da],
    [0x983e5152, 0xa831c66d, 0xb00327c8, 0xbf597fc7], [0xc6e00bf3, 0xd5a79147, 0x06ca6351, 0x14292967],
    [0x27b70a85, 0x2e1b2138, 0x4d2c6dfc, 0x53380d13], [0x650a7354, 0x766a0abb, 0x81c2c92e, 0x92722c85],
    [0xa2bfe8a1, 0xa81a664b, 0xc24b8b70, 0xc76c51a3], [0xd192e819, 0xd6990624, 0xf40e3585, 0x106aa070],
    [0x19a4c116, 0x1e376c08, 0x2748774c, 0x34b0bcb5], [0x391c0cb3, 0x4ed8aa4a, 0x5b9cca4f, 0x682e6ff3],
    [0x748f82ee, 0x78a5636f, 0x84c87814, 0x8cc70208], [0x90befffa, 0xa4506ceb, 0xbef9a3f7, 0xc67178f2]]"

definition H0 :: "u32 list" where
  "H0 = [0x6a09e667, 0xbb67ae85, 0x3c6ef372, 0xa54ff53a, 0x510e527f, 0x9b05688c, 0x1f83d9ab, 0x5be0cd19]"

definition ROTR32 :: "u32 \<Rightarrow> nat \<Rightarrow> u32" where "ROTR32 x n = drop_bit n x OR push_bit (32 - n) x"
definition CH :: "u32 \<Rightarrow> u32 \<Rightarrow> u32 \<Rightarrow> u32" where "CH x y z = (x AND y) XOR (NOT x AND z)"
definition MAJ :: "u32 \<Rightarrow> u32 \<Rightarrow> u32 \<Rightarrow> u32" where "MAJ x y z = (x AND y) XOR (x AND z) XOR (y AND z)"
definition SIG0 :: "u32 \<Rightarrow> u32" where "SIG0 x = ROTR32 x 2 XOR ROTR32 x 13 XOR ROTR32 x 22"
definition SIG1 :: "u32 \<Rightarrow> u32" where "SIG1 x = ROTR32 x 6 XOR ROTR32 x 11 XOR ROTR32 x 25"
definition sig0 :: "u32 \<Rightarrow> u32" where "sig0 x = ROTR32 x 7 XOR ROTR32 x 18 XOR drop_bit 3 x"
definition sig1 :: "u32 \<Rightarrow> u32" where "sig1 x = ROTR32 x 17 XOR ROTR32 x 19 XOR drop_bit 10 x"

subsection \<open>Portable compression\<close>

definition load_be32 :: "bytes \<Rightarrow> nat \<Rightarrow> u32" where
  "load_be32 b p = push_bit 24 (ucast (b ! p)) OR push_bit 16 (ucast (b ! (p + 1)))
     OR push_bit 8 (ucast (b ! (p + 2))) OR ucast (b ! (p + 3))"

text \<open>The first \<open>i\<close> words of \<open>w\<close>, in the order the two loops fill them.\<close>

definition next_w :: "u32 list \<Rightarrow> nat \<Rightarrow> u32" where
  "next_w w i = sig1 (w ! (i - 2)) + w ! (i - 7) + sig0 (w ! (i - 15)) + w ! (i - 16)"

fun extend_w :: "nat \<Rightarrow> u32 list \<Rightarrow> u32 list" where
  "extend_w 0 w = w"
| "extend_w (Suc k) w = extend_w k (w @ [next_w w (length w)])"

definition message_schedule :: "bytes \<Rightarrow> u32 list" where
  "message_schedule block = extend_w 48 (map (\<lambda>i. load_be32 block (i * 4)) [0..<16])"

type_synonym sha_vars = "u32 \<times> u32 \<times> u32 \<times> u32 \<times> u32 \<times> u32 \<times> u32 \<times> u32"

text \<open>One round, given \<open>K[i] + w[i]\<close>.\<close>

definition sha_round :: "u32 \<Rightarrow> u32 \<Rightarrow> sha_vars \<Rightarrow> sha_vars" where
  "sha_round k wi v = (case v of (a, b, c, d, e, f, g, h) \<Rightarrow>
     (let t1 = h + SIG1 e + CH e f g + k + wi;
          t2 = SIG0 a + MAJ a b c
      in (t1 + t2, a, b, c, d + t1, e, f, g)))"

definition vars_of :: "u32 list \<Rightarrow> sha_vars" where
  "vars_of s = (s ! 0, s ! 1, s ! 2, s ! 3, s ! 4, s ! 5, s ! 6, s ! 7)"

definition add_vars :: "u32 list \<Rightarrow> sha_vars \<Rightarrow> u32 list" where
  "add_vars s v = (case v of (a, b, c, d, e, f, g, h) \<Rightarrow>
     [s ! 0 + a, s ! 1 + b, s ! 2 + c, s ! 3 + d, s ! 4 + e, s ! 5 + f, s ! 6 + g, s ! 7 + h])"

definition sha256_compress_portable :: "u32 list \<Rightarrow> bytes \<Rightarrow> u32 list" where
  "sha256_compress_portable state block =
     (let w = message_schedule block
      in add_vars state (fold (\<lambda>i. sha_round (sha_K ! i) (w ! i)) [0..<64] (vars_of state)))"

subsection \<open>ARMv8 SHA-2 compression\<close>

text \<open>A \<open>uint32x4_t\<close> as its four lanes, lowest first.\<close>

type_synonym q32 = "u32 \<times> u32 \<times> u32 \<times> u32"

record arm_sha =
  vsha256hq :: "q32 \<Rightarrow> q32 \<Rightarrow> q32 \<Rightarrow> q32"
  vsha256h2q :: "q32 \<Rightarrow> q32 \<Rightarrow> q32 \<Rightarrow> q32"
  vsha256su0q :: "q32 \<Rightarrow> q32 \<Rightarrow> q32"
  vsha256su1q :: "q32 \<Rightarrow> q32 \<Rightarrow> q32 \<Rightarrow> q32"

definition vadd32 :: "q32 \<Rightarrow> q32 \<Rightarrow> q32" where
  "vadd32 x y = (case x of (a, b, c, d) \<Rightarrow> case y of (e, f, g, h) \<Rightarrow> (a + e, b + f, c + g, d + h))"

definition vld1q :: "u32 list \<Rightarrow> nat \<Rightarrow> q32" where
  "vld1q xs p = (xs ! p, xs ! (p + 1), xs ! (p + 2), xs ! (p + 3))"

text \<open>\<open>vrev32q_u8\<close> of sixteen message bytes, read as words: big-endian loads.\<close>

definition load_msg :: "bytes \<Rightarrow> nat \<Rightarrow> q32" where
  "load_msg block p = (load_be32 block p, load_be32 block (p + 4), load_be32 block (p + 8), load_be32 block (p + 12))"

type_synonym arm_state = "q32 \<times> q32 \<times> q32 \<times> q32 \<times> q32 \<times> q32"

text \<open>
  \<open>SHA256_ROUNDS4\<close>: four rounds, then the next four schedule words replace the oldest message
  vector. The vectors rotate, so \<open>msg0\<close> is always the oldest.
\<close>

definition rounds4_nosched :: "arm_sha \<Rightarrow> nat \<Rightarrow> q32 \<Rightarrow> q32 \<times> q32 \<Rightarrow> q32 \<times> q32" where
  "rounds4_nosched A k msg = (\<lambda>(abcd, efgh).
     let wk = vadd32 msg (vld1q sha_K k)
     in (vsha256hq A abcd efgh wk, vsha256h2q A efgh abcd wk))"

definition rounds4 :: "arm_sha \<Rightarrow> nat \<Rightarrow> arm_state \<Rightarrow> arm_state" where
  "rounds4 A k = (\<lambda>(abcd, efgh, m0, m1, m2, m3).
     let (abcd', efgh') = rounds4_nosched A k m0 (abcd, efgh)
     in (abcd', efgh', m1, m2, m3, vsha256su1q A (vsha256su0q A m0 m1) m2 m3))"

definition sha256_compress_arm :: "arm_sha \<Rightarrow> u32 list \<Rightarrow> bytes \<Rightarrow> u32 list" where
  "sha256_compress_arm A state block =
     (let abcd0 = vld1q state 0; efgh0 = vld1q state 4;
          (abcd, efgh, m0, m1, m2, m3) =
            fold (\<lambda>j. rounds4 A (4 * j)) [0..<12]
              (abcd0, efgh0, load_msg block 0, load_msg block 16, load_msg block 32, load_msg block 48);
          (abcd, efgh) = rounds4_nosched A 48 m0 (abcd, efgh);
          (abcd, efgh) = rounds4_nosched A 52 m1 (abcd, efgh);
          (abcd, efgh) = rounds4_nosched A 56 m2 (abcd, efgh);
          (abcd, efgh) = rounds4_nosched A 60 m3 (abcd, efgh);
          (a, b, c, d) = vadd32 abcd abcd0;
          (e, f, g, h) = vadd32 efgh efgh0
      in [a, b, c, d, e, f, g, h])"

subsection \<open>The hash\<close>

text \<open>A build compresses with the instructions (\<open>Some\<close>) or portably (\<open>None\<close>).\<close>

definition sha256_compress :: "arm_sha option \<Rightarrow> u32 list \<Rightarrow> bytes \<Rightarrow> u32 list" where
  "sha256_compress A = (case A of None \<Rightarrow> sha256_compress_portable | Some A \<Rightarrow> sha256_compress_arm A)"

fun store_bits :: "nat \<Rightarrow> u64 \<Rightarrow> bytes \<Rightarrow> bytes" where
  "store_bits 0 bits padded = padded"
| "store_bits (Suc i) bits padded = store_bits i (drop_bit 8 bits) (padded[248 + i := ucast (bits AND 0xff)])"

definition pad_message :: "bytes \<Rightarrow> bytes" where
  "pad_message msg =
     (let padded = msg @ replicate (256 - length msg) 0;
          padded = padded[length msg := 0x80]
      in store_bits 8 (of_nat (length msg) * 8) padded)"

fun compress_blocks :: "arm_sha option \<Rightarrow> bytes \<Rightarrow> nat \<Rightarrow> u32 list \<Rightarrow> u32 list option" where
  "compress_blocks A padded 0 state = Some state"
| "compress_blocks A padded (Suc n) state =
     (case rd padded 0 64 of
        None \<Rightarrow> None
      | Some block \<Rightarrow> compress_blocks A (drop 64 padded) n (sha256_compress A state block))"

definition store_be32 :: "u32 \<Rightarrow> bytes" where
  "store_be32 w = [ucast (drop_bit 24 w), ucast (drop_bit 16 w), ucast (drop_bit 8 w), ucast w]"

text \<open>A message of 256 bytes or more overruns \<open>padded\<close>, and so does a read of a fifth block.\<close>

definition pose_sha256 :: "arm_sha option \<Rightarrow> bytes \<Rightarrow> bytes option" where
  "pose_sha256 A msg =
     (if 256 \<le> length msg then None
      else case compress_blocks A (pad_message msg) ((length msg + 1 + 8 + 63) div 64) H0 of
             None \<Rightarrow> None
           | Some state \<Rightarrow> Some (concat (map (\<lambda>i. store_be32 (state ! i)) [0..<8])))"

subsection \<open>The message schedule\<close>

lemma length_extend_w [simp]: "length (extend_w k w) = length w + k"
  by (induction k arbitrary: w) auto

lemma extend_w_prefix: "i < length w \<Longrightarrow> extend_w k w ! i = w ! i"
  by (induction k arbitrary: w) (auto simp: nth_append)

lemma next_w_cong:
  "16 \<le> i \<Longrightarrow> (\<And>j. j < i \<Longrightarrow> v ! j = w ! j) \<Longrightarrow> next_w v i = next_w w i"
  by (simp add: next_w_def)

lemma extend_w_next: "16 \<le> length w \<Longrightarrow> length w \<le> i \<Longrightarrow> i < length w + k
    \<Longrightarrow> extend_w k w ! i = next_w (extend_w k w) i"
proof (induction k arbitrary: w)
  case (Suc k)
  let ?w = "w @ [next_w w (length w)]"
  show ?case
  proof (cases "i = length w")
    case True
    have "next_w w i = next_w (extend_w k ?w) i"
      by (rule next_w_cong) (use Suc.prems True in \<open>auto simp: extend_w_prefix nth_append\<close>)
    then show ?thesis using True by (simp add: extend_w_prefix)
  next
    case False
    with Suc.IH [of ?w] Suc.prems show ?thesis by simp
  qed
qed simp

lemma schedule_length [simp]: "length (message_schedule b) = 64"
  by (simp add: message_schedule_def)

lemma schedule_load: "i < 16 \<Longrightarrow> message_schedule b ! i = load_be32 b (i * 4)"
  by (simp add: message_schedule_def extend_w_prefix)

lemma schedule_next: "16 \<le> i \<Longrightarrow> i < 64 \<Longrightarrow> message_schedule b ! i = next_w (message_schedule b) i"
  unfolding message_schedule_def by (rule extend_w_next) auto

subsection \<open>The instructions compute the portable compression\<close>

fun four_rounds :: "q32 \<Rightarrow> q32 \<Rightarrow> q32 \<Rightarrow> sha_vars" where
  "four_rounds (a, b, c, d) (e, f, g, h) (w0, w1, w2, w3) =
     sha_round 0 w3 (sha_round 0 w2 (sha_round 0 w1 (sha_round 0 w0 (a, b, c, d, e, f, g, h))))"

fun lo4 :: "sha_vars \<Rightarrow> q32" where "lo4 (a, b, c, d, e, f, g, h) = (a, b, c, d)"
fun hi4 :: "sha_vars \<Rightarrow> q32" where "hi4 (a, b, c, d, e, f, g, h) = (e, f, g, h)"

fun su0 :: "q32 \<Rightarrow> q32 \<Rightarrow> q32" where
  "su0 (w0, w1, w2, w3) (w4, w5, w6, w7) = (w0 + sig0 w1, w1 + sig0 w2, w2 + sig0 w3, w3 + sig0 w4)"

fun su1 :: "q32 \<Rightarrow> q32 \<Rightarrow> q32 \<Rightarrow> q32" where
  "su1 (x0, x1, x2, x3) (w8, w9, w10, w11) (w12, w13, w14, w15) =
     (let r0 = x0 + sig1 w14 + w9; r1 = x1 + sig1 w15 + w10
      in (r0, r1, x2 + sig1 r0 + w11, x3 + sig1 r1 + w12))"

definition arm_sha_ok :: "arm_sha \<Rightarrow> bool" where
  "arm_sha_ok A \<longleftrightarrow>
     (\<forall>abcd efgh wk. vsha256hq A abcd efgh wk = lo4 (four_rounds abcd efgh wk)
        \<and> vsha256h2q A efgh abcd wk = hi4 (four_rounds abcd efgh wk))
     \<and> (\<forall>x y. vsha256su0q A x y = su0 x y)
     \<and> (\<forall>x y z. vsha256su1q A x y z = su1 x y z)"

lemma arm_sha_okD:
  assumes "arm_sha_ok A"
  shows "vsha256hq A x y z = lo4 (four_rounds x y z)" "vsha256h2q A y x z = hi4 (four_rounds x y z)"
    "vsha256su0q A x y = su0 x y" "vsha256su1q A x y z = su1 x y z"
  using assms unfolding arm_sha_ok_def by blast+

definition rounds_to :: "bytes \<Rightarrow> nat \<Rightarrow> sha_vars \<Rightarrow> sha_vars" where
  "rounds_to block n = fold (\<lambda>i. sha_round (sha_K ! i) (message_schedule block ! i)) [0..<n]"

lemma sha_round_sum: "sha_round k w v = sha_round 0 (w + k) v"
  by (simp add: sha_round_def Let_def add_ac split: prod.split)

lemma sha_vars_cases: obtains a b c d e f g h where "(v :: sha_vars) = (a, b, c, d, e, f, g, h)"
proof -
  obtain a b c d e f r where v: "v = (a, b, c, d, e, f, r)" by (cases v rule: prod_cases7)
  obtain g h where "r = (g, h)" by (cases r)
  with v that show thesis by simp
qed

lemma fold_rounds4:
  "fold F [0..<k + 4] v = F (k + 3) (F (k + 2) (F (k + 1) (F k (fold F [0..<k] v))))"
  by (simp add: numeral_eq_Suc)

lemma rounds4_nosched_ok:
  assumes "arm_sha_ok A"
  shows "rounds4_nosched A k (vld1q (message_schedule blk) k) (lo4 (rounds_to blk k v), hi4 (rounds_to blk k v))
    = (lo4 (rounds_to blk (k + 4) v), hi4 (rounds_to blk (k + 4) v))"
proof -
  let ?v = "rounds_to blk k v"
  obtain a b c d e f g h where v: "?v = (a, b, c, d, e, f, g, h)" by (rule sha_vars_cases)
  have "four_rounds (lo4 ?v) (hi4 ?v) (vadd32 (vld1q (message_schedule blk) k) (vld1q sha_K k))
      = rounds_to blk (k + 4) v"
    unfolding rounds_to_def fold_rounds4 unfolding rounds_to_def [symmetric]
    by (simp add: v vld1q_def vadd32_def sha_round_sum [of "sha_K ! _"])
  then show ?thesis
    by (simp add: rounds4_nosched_def Let_def arm_sha_okD [OF assms])
qed

lemma su_schedule:
  assumes "k + 20 \<le> 64" and w: "w = message_schedule blk"
  shows "su1 (su0 (vld1q w k) (vld1q w (k + 4))) (vld1q w (k + 8)) (vld1q w (k + 12)) = vld1q w (k + 16)"
proof -
  have n: "w ! (k + 16 + i) = sig1 (w ! (k + 14 + i)) + w ! (k + 9 + i) + sig0 (w ! (k + 1 + i)) + w ! (k + i)"
    if "i < 4" for i
    using schedule_next [of "k + 16 + i" blk] that assms(1) by (simp add: w next_w_def algebra_simps)
  show ?thesis
    using n [of 0] n [of 1] n [of 2] n [of 3]
    by (simp add: vld1q_def Let_def add_ac numeral_eq_Suc)
qed

lemma rounds4_ok:
  assumes "arm_sha_ok A" "k + 20 \<le> 64"
  shows "rounds4 A k (lo4 (rounds_to blk k v), hi4 (rounds_to blk k v), vld1q (message_schedule blk) k,
      vld1q (message_schedule blk) (k + 4), vld1q (message_schedule blk) (k + 8), vld1q (message_schedule blk) (k + 12))
    = (lo4 (rounds_to blk (k + 4) v), hi4 (rounds_to blk (k + 4) v), vld1q (message_schedule blk) (k + 4),
      vld1q (message_schedule blk) (k + 8), vld1q (message_schedule blk) (k + 12), vld1q (message_schedule blk) (k + 16))"
  by (simp add: rounds4_def rounds4_nosched_ok [OF assms(1)] arm_sha_okD [OF assms(1)] su_schedule [OF assms(2) refl])

lemma arm_compress_portable:
  assumes "arm_sha_ok A"
  shows "sha256_compress_arm A state blk = sha256_compress_portable state blk"
proof -
  let ?w = "message_schedule blk" and ?v = "vars_of state"
  have load: "vld1q ?w (4 * i) = load_msg blk (16 * i)" if "i < 4" for i
    using that by (simp add: vld1q_def load_msg_def schedule_load algebra_simps)
  let ?s = "\<lambda>k. (lo4 (rounds_to blk k ?v), hi4 (rounds_to blk k ?v), vld1q ?w k, vld1q ?w (k + 4), vld1q ?w (k + 8), vld1q ?w (k + 12))"
  have "j \<le> 12 \<Longrightarrow> fold (\<lambda>j. rounds4 A (4 * j)) [0..<j] (?s 0) = ?s (4 * j)" for j
  proof (induction j)
    case (Suc j)
    then show ?case using rounds4_ok [OF assms, of "4 * j" blk ?v] by (simp add: algebra_simps)
  qed simp
  from this [of 12] have fold12: "fold (\<lambda>j. rounds4 A (4 * j)) [0..<12] (?s 0) = ?s 48" by simp
  have init: "?s 0 = (vld1q state 0, vld1q state 4, load_msg blk 0, load_msg blk 16, load_msg blk 32, load_msg blk 48)"
    using load [of 0] load [of 1] load [of 2] load [of 3]
    by (simp add: rounds_to_def vars_of_def vld1q_def [of state] numeral_eq_Suc)
  note tail = rounds4_nosched_ok [OF assms, of 48 blk ?v] rounds4_nosched_ok [OF assms, of 52 blk ?v]
    rounds4_nosched_ok [OF assms, of 56 blk ?v] rounds4_nosched_ok [OF assms, of 60 blk ?v]
  have tail': "rounds4_nosched A 48 (vld1q ?w 48) (lo4 (rounds_to blk 48 ?v), hi4 (rounds_to blk 48 ?v))
      = (lo4 (rounds_to blk 52 ?v), hi4 (rounds_to blk 52 ?v))"
    "rounds4_nosched A 52 (vld1q ?w (48 + 4)) (lo4 (rounds_to blk 52 ?v), hi4 (rounds_to blk 52 ?v))
      = (lo4 (rounds_to blk 56 ?v), hi4 (rounds_to blk 56 ?v))"
    "rounds4_nosched A 56 (vld1q ?w (48 + 8)) (lo4 (rounds_to blk 56 ?v), hi4 (rounds_to blk 56 ?v))
      = (lo4 (rounds_to blk 60 ?v), hi4 (rounds_to blk 60 ?v))"
    "rounds4_nosched A 60 (vld1q ?w (48 + 12)) (lo4 (rounds_to blk 60 ?v), hi4 (rounds_to blk 60 ?v))
      = (lo4 (rounds_to blk 64 ?v), hi4 (rounds_to blk 64 ?v))"
    using tail by simp_all
  obtain a b c d e f g h where v: "rounds_to blk 64 ?v = (a, b, c, d, e, f, g, h)" by (rule sha_vars_cases)
  have "sha256_compress_arm A state blk = add_vars state (rounds_to blk 64 ?v)"
    unfolding sha256_compress_arm_def Let_def init [symmetric] fold12 prod.case tail'
    by (simp add: v vadd32_def vld1q_def add_vars_def add.commute numeral_2_eq_2)
  then show ?thesis by (simp add: sha256_compress_portable_def rounds_to_def Let_def)
qed

subsection \<open>The padding\<close>

text \<open>FIPS 180-4: the message, the byte \<open>0x80\<close>, zeros up to 56 modulo 64, the bit count.\<close>

definition fips_pad :: "bytes \<Rightarrow> bytes" where
  "fips_pad msg = msg @ 0x80 # replicate ((119 - length msg mod 64) mod 64) 0 @ u64_be (of_nat (8 * length msg))"

definition fips_sha256 :: "bytes \<Rightarrow> bytes" where
  "fips_sha256 msg =
     (let blocks = map (\<lambda>i. take 64 (drop (64 * i) (fips_pad msg))) [0..<length (fips_pad msg) div 64];
          state = fold (\<lambda>b s. sha256_compress_portable s b) blocks H0
      in concat (map (\<lambda>i. store_be32 (state ! i)) [0..<8]))"

lemma length_store_bits [simp]: "length (store_bits i bits p) = length p"
  by (induction i arbitrary: bits p) auto

lemma ucast_and_255: "(ucast ((w :: u64) AND 0xff) :: byte) = ucast w"
proof -
  have m: "(0xff :: u64) = mask 8" by (simp add: mask_eq_exp_minus_1)
  show ?thesis unfolding m by (rule bit_word_eqI) (simp add: bit_simps)
qed

lemma store_bits_map:
  "248 + i \<le> length p \<Longrightarrow> store_bits i bits p
    = take 248 p @ map (\<lambda>j. ucast (drop_bit (8 * (i - 1 - j)) bits)) [0..<i] @ drop (248 + i) p"
proof (induction i arbitrary: bits p)
  case (Suc i)
  let ?p = "p[248 + i := ucast (bits AND 0xff)]"
  have "drop (248 + i) ?p = ucast bits # drop (248 + Suc i) p"
    using Suc.prems by (subst Cons_nth_drop_Suc [symmetric]) (simp_all add: ucast_and_255)
  moreover have "drop_bit (8 * (i - Suc j)) (drop_bit 8 bits) = drop_bit (8 * (i - j)) bits" if "j < i" for j
  proof -
    have "8 * (i - Suc j) + 8 = 8 * (i - j)" using that by linarith
    then show ?thesis by (simp only: drop_bit_drop_bit)
  qed
  ultimately show ?case using Suc.IH [of ?p "drop_bit 8 bits"] Suc.prems by simp
qed simp

lemma store_bits_be:
  assumes "length p = 256"
  shows "store_bits 8 bits p = take 248 p @ u64_be bits"
proof -
  have "[0..<8] = [0, 1, 2, 3, 4, 5, 6, 7 :: nat]" by (simp add: upt_rec)
  then show ?thesis using assms by (simp add: store_bits_map u64_be_def)
qed

lemma pad_message_fips:
  assumes "184 \<le> length msg" "length msg \<le> 247"
  shows "pad_message msg = fips_pad msg" "length (fips_pad msg) = 256"
proof -
  obtain k where k: "length msg + k = 247" using assms(2) le_Suc_ex by metis
  have "(119 - length msg mod 64) mod 64 = k"
  proof (cases "k \<le> 55")
    case True
    define r where "r = 55 - k"
    have "length msg = r + 64 * 3" and s: "119 - r = k + 64" "r < 64" using True k by (auto simp: r_def)
    then have "length msg mod 64 = r" by (simp only: mod_mult_self2 mod_less)
    then show ?thesis using True s by simp
  next
    case False
    define r where "r = 119 - k"
    have "length msg = r + 64 * 2" and s: "119 - r = k" "r < 64" "k < 64"
      using False k assms(1) by (auto simp: r_def)
    then have "length msg mod 64 = r" by (simp only: mod_mult_self2 mod_less)
    then show ?thesis using s by simp
  qed
  then have f: "fips_pad msg = msg @ 0x80 # replicate k 0 @ u64_be (of_nat (length msg) * 8)"
    by (simp add: fips_pad_def mult.commute)
  have r: "replicate (256 - length msg) (0 :: byte) = 0 # replicate k 0 @ replicate 8 0"
    using k by (simp flip: replicate_add replicate_Suc)
  have "(msg @ replicate (256 - length msg) 0)[length msg := 0x80] = (msg @ 0x80 # replicate k 0) @ replicate 8 0"
    unfolding r by (simp add: list_update_append)
  then have "pad_message msg = store_bits 8 (of_nat (length msg) * 8) ((msg @ 0x80 # replicate k 0) @ replicate 8 0)"
    by (simp add: pad_message_def)
  also have "\<dots> = fips_pad msg"
  proof -
    have "248 - length msg = Suc k" using k by simp
    then show ?thesis using k by (subst store_bits_be) (simp_all add: f)
  qed
  finally show "pad_message msg = fips_pad msg" .
  show "length (fips_pad msg) = 256" using k by (simp add: f)
qed

text \<open>A build's compression is the portable one.\<close>

definition sha_build_ok :: "arm_sha option \<Rightarrow> bool" where
  "sha_build_ok A \<longleftrightarrow> (case A of None \<Rightarrow> True | Some A \<Rightarrow> arm_sha_ok A)"

lemma sha256_compress_portable_eq: "sha_build_ok A \<Longrightarrow> sha256_compress A = sha256_compress_portable"
  by (auto simp: sha_build_ok_def sha256_compress_def arm_compress_portable fun_eq_iff split: option.splits)

lemma compress_blocks_fold:
  "64 * n \<le> length p \<Longrightarrow> compress_blocks A p n s
    = Some (fold (\<lambda>b s. sha256_compress A s b) (map (\<lambda>i. take 64 (drop (64 * i) p)) [0..<n]) s)"
proof (induction n arbitrary: p s)
  case (Suc n)
  have "map (\<lambda>i. take 64 (drop (64 * i) p)) [0..<Suc n]
      = take 64 p # map (\<lambda>i. take 64 (drop (64 * i) (drop 64 p))) [0..<n]"
    by (simp add: upt_zero_Suc comp_def add.commute del: upt_Suc)
  then show ?case using Suc.IH [of "drop 64 p"] Suc.prems by (simp add: rd_def del: upt_Suc)
qed simp

lemma pose_sha256_fips:
  assumes "sha_build_ok A" "184 \<le> length msg" "length msg \<le> 247"
  shows "pose_sha256 A msg = Some (fips_sha256 msg)"
proof -
  note pad = pad_message_fips [OF assms(2,3)]
  have n: "(length msg + 1 + 8 + 63) div 64 = 4"
    using assms(2,3) by (intro div_nat_eqI) auto
  show ?thesis
    using assms(3) unfolding pose_sha256_def n
    by (simp add: compress_blocks_fold pad sha256_compress_portable_eq [OF assms(1)]
        fips_sha256_def Let_def)
qed

text \<open>Longer messages make the code access memory past the end of \<open>padded\<close>.\<close>

lemma compress_blocks_overrun: "length p < 64 * n \<Longrightarrow> compress_blocks A p n s = None"
  by (induction A p n s rule: compress_blocks.induct) (auto simp: rd_def)

lemma pose_sha256_overrun:
  assumes "248 \<le> length msg"
  shows "pose_sha256 A msg = None"
proof (cases "256 \<le> length msg")
  case False
  have l: "length (pad_message msg) = 256" using False by (simp add: pad_message_def Let_def)
  have "5 \<le> (length msg + 1 + 8 + 63) div 64" using assms by (simp add: div_le_mono less_eq_div_iff_mult_less_eq)
  then have "compress_blocks A (pad_message msg) ((length msg + 1 + 8 + 63) div 64) H0 = None"
    using l by (intro compress_blocks_overrun) simp
  then show ?thesis by (simp add: pose_sha256_def)
qed (simp add: pose_sha256_def)

lemma length_store_be32 [simp]: "length (store_be32 w) = 4"
  by (simp add: store_be32_def)

lemma length_fips_sha256 [simp]: "length (fips_sha256 msg) = 32"
  by (simp add: fips_sha256_def Let_def length_concat comp_def sum_list_triv)

end
