(* ===== verification/Aes_Prf.thy ===== *)
theory Aes_Prf
  imports Labeler
begin

section \<open>The AES-128-CBC-MAC label function (\<open>aes_prf.c\<close>)\<close>

text \<open>
  The message builder, the software key schedule, the per-thread key cache and the two hardware
  backends. A 128-bit vector is a \<open>128 word\<close>, byte 0 lowest. The AES instructions are parameters:
  \<open>vaeseq_u8\<close>, \<open>vaesmcq_u8\<close> on ARM and \<open>aesenc\<close>, \<open>aesenclast\<close> on x86; \<open>aes_parity\<close> states how the
  two architectures document them in terms of each other. The theorems: the interleaved kernel for
  four messages computes what the single-message kernel computes, on any instructions; the two
  backends compute the same labels; the key cache never changes a result.
\<close>

type_synonym v128 = "128 word"

definition load128 :: "bytes \<Rightarrow> v128" where
  "load128 bs = foldr (\<lambda>b acc. push_bit 8 acc OR ucast b) bs 0"

definition store128 :: "v128 \<Rightarrow> bytes" where
  "store128 v = map (\<lambda>i. ucast (drop_bit (8 * i) v)) [0..<16]"

subsection \<open>The message\<close>

definition AES_MSG_BYTES :: nat where "AES_MSG_BYTES = 112"
definition AES_BLOCKS :: nat where "AES_BLOCKS = 7"

definition pred_bytes :: "label option \<Rightarrow> bytes" where
  "pred_bytes p = (case p of None \<Rightarrow> replicate 32 0 | Some l \<Rightarrow> mem32 l)"

definition build_aes_msg :: "u64 \<Rightarrow> label option \<Rightarrow> label option \<Rightarrow> bytes \<Rightarrow> bytes" where
  "build_aes_msg node_index pred0 pred1 descriptor =
     u64_be node_index @ replicate 8 0 @ pred_bytes pred0 @ pred_bytes pred1 @ mem32 descriptor"

subsection \<open>The key schedule\<close>

definition s_sbox :: "byte list" where
  "s_sbox = [
    0x63,0x7c,0x77,0x7b,0xf2,0x6b,0x6f,0xc5,0x30,0x01,0x67,0x2b,0xfe,0xd7,0xab,0x76,
    0xca,0x82,0xc9,0x7d,0xfa,0x59,0x47,0xf0,0xad,0xd4,0xa2,0xaf,0x9c,0xa4,0x72,0xc0,
    0xb7,0xfd,0x93,0x26,0x36,0x3f,0xf7,0xcc,0x34,0xa5,0xe5,0xf1,0x71,0xd8,0x31,0x15,
    0x04,0xc7,0x23,0xc3,0x18,0x96,0x05,0x9a,0x07,0x12,0x80,0xe2,0xeb,0x27,0xb2,0x75,
    0x09,0x83,0x2c,0x1a,0x1b,0x6e,0x5a,0xa0,0x52,0x3b,0xd6,0xb3,0x29,0xe3,0x2f,0x84,
    0x53,0xd1,0x00,0xed,0x20,0xfc,0xb1,0x5b,0x6a,0xcb,0xbe,0x39,0x4a,0x4c,0x58,0xcf,
    0xd0,0xef,0xaa,0xfb,0x43,0x4d,0x33,0x85,0x45,0xf9,0x02,0x7f,0x50,0x3c,0x9f,0xa8,
    0x51,0xa3,0x40,0x8f,0x92,0x9d,0x38,0xf5,0xbc,0xb6,0xda,0x21,0x10,0xff,0xf3,0xd2,
    0xcd,0x0c,0x13,0xec,0x5f,0x97,0x44,0x17,0xc4,0xa7,0x7e,0x3d,0x64,0x5d,0x19,0x73,
    0x60,0x81,0x4f,0xdc,0x22,0x2a,0x90,0x88,0x46,0xee,0xb8,0x14,0xde,0x5e,0x0b,0xdb,
    0xe0,0x32,0x3a,0x0a,0x49,0x06,0x24,0x5c,0xc2,0xd3,0xac,0x62,0x91,0x95,0xe4,0x79,
    0xe7,0xc8,0x37,0x6d,0x8d,0xd5,0x4e,0xa9,0x6c,0x56,0xf4,0xea,0x65,0x7a,0xae,0x08,
    0xba,0x78,0x25,0x2e,0x1c,0xa6,0xb4,0xc6,0xe8,0xdd,0x74,0x1f,0x4b,0xbd,0x8b,0x8a,
    0x70,0x3e,0xb5,0x66,0x48,0x03,0xf6,0x0e,0x61,0x35,0x57,0xb9,0x86,0xc1,0x1d,0x9e,
    0xe1,0xf8,0x98,0x11,0x69,0xd9,0x8e,0x94,0x9b,0x1e,0x87,0xe9,0xce,0x55,0x28,0xdf,
    0x8c,0xa1,0x89,0x0d,0xbf,0xe6,0x42,0x68,0x41,0x99,0x2d,0x0f,0xb0,0x54,0xbb,0x16]"

definition s_rcon :: "byte list" where
  "s_rcon = [0x01,0x02,0x04,0x08,0x10,0x20,0x40,0x80,0x1b,0x36]"

definition sbox :: "byte \<Rightarrow> byte" where "sbox b = s_sbox ! unat b"

text \<open>One step of the loop appends word \<open>i\<close> to the words before it.\<close>

definition schedule_word :: "bytes \<Rightarrow> nat \<Rightarrow> bytes" where
  "schedule_word w i =
     (let t = take 4 (drop ((i - 1) * 4) w);
          t = (if i mod 4 = 0
               then [sbox (t ! 1) XOR s_rcon ! (i div 4 - 1), sbox (t ! 2), sbox (t ! 3), sbox (t ! 0)]
               else t)
      in map (\<lambda>j. w ! ((i - 4) * 4 + j) XOR t ! j) [0..<4])"

definition aes128_schedule_bytes :: "bytes \<Rightarrow> bytes" where
  "aes128_schedule_bytes key = fold (\<lambda>i w. w @ schedule_word w i) [4..<44] (take 16 key)"

definition aes128_expand :: "bytes \<Rightarrow> v128 list" where
  "aes128_expand key =
     (let w = aes128_schedule_bytes key in map (\<lambda>i. load128 (take 16 (drop (i * 16) w))) [0..<11])"

subsection \<open>The key cache\<close>

record aes_key_cache =
  kc_seed :: bytes
  rk_hi :: "v128 list"
  rk_lo :: "v128 list"
  kc_valid :: bool

text \<open>The thread-local cache before the first call: static storage, all zeros.\<close>

definition cache0 :: aes_key_cache where
  "cache0 = \<lparr>kc_seed = replicate 32 0, rk_hi = replicate 11 0, rk_lo = replicate 11 0, kc_valid = False\<rparr>"

definition get_round_keys :: "aes_key_cache \<Rightarrow> bytes \<Rightarrow> aes_key_cache" where
  "get_round_keys kc seed =
     (if \<not> kc_valid kc \<or> kc_seed kc \<noteq> mem32 seed
      then \<lparr>kc_seed = mem32 seed, rk_hi = aes128_expand (mem32 seed), rk_lo = aes128_expand (drop 16 (mem32 seed)), kc_valid = True\<rparr>
      else kc)"

subsection \<open>The ARM kernels\<close>

record aes_arm =
  vaeseq_u8 :: "v128 \<Rightarrow> v128 \<Rightarrow> v128"
  vaesmcq_u8 :: "v128 \<Rightarrow> v128"

definition arm_AR :: "aes_arm \<Rightarrow> v128 list \<Rightarrow> nat \<Rightarrow> v128 \<Rightarrow> v128" where
  "arm_AR A rk r s = vaesmcq_u8 A (vaeseq_u8 A s (rk ! r))"

definition arm_final :: "aes_arm \<Rightarrow> v128 list \<Rightarrow> v128 \<Rightarrow> v128" where
  "arm_final A rk s = vaeseq_u8 A s (rk ! 9) XOR rk ! 10"

definition msg_block :: "bytes \<Rightarrow> nat \<Rightarrow> v128" where
  "msg_block msg b = load128 (take 16 (drop (b * 16) msg))"

definition cbc_mac_single_arm :: "aes_arm \<Rightarrow> v128 list \<Rightarrow> bytes \<Rightarrow> v128" where
  "cbc_mac_single_arm A rk msg =
     fold (\<lambda>b s. arm_final A rk (fold (arm_AR A rk) [0..<9] (s XOR msg_block msg b))) [0..<AES_BLOCKS] 0"

text \<open>The eight chains of the interleaved kernel, in the order \<open>h0 l0 h1 l1 h2 l2 h3 l3\<close>.\<close>

type_synonym chains = "v128 \<times> v128 \<times> v128 \<times> v128 \<times> v128 \<times> v128 \<times> v128 \<times> v128"

text \<open>One statement group of the kernel: the same step on the \<open>h\<close> and on the \<open>l\<close> chains.\<close>

definition step8 :: "(v128 \<Rightarrow> v128) \<Rightarrow> (v128 \<Rightarrow> v128) \<Rightarrow> chains \<Rightarrow> chains" where
  "step8 f g c = (case c of (h0, l0, h1, l1, h2, l2, h3, l3) \<Rightarrow>
     (f h0, g l0, f h1, g l1, f h2, g l2, f h3, g l3))"

definition xor8 :: "v128 \<Rightarrow> v128 \<Rightarrow> v128 \<Rightarrow> v128 \<Rightarrow> chains \<Rightarrow> chains" where
  "xor8 m0 m1 m2 m3 c = (case c of (h0, l0, h1, l1, h2, l2, h3, l3) \<Rightarrow>
     (h0 XOR m0, l0 XOR m0, h1 XOR m1, l1 XOR m1, h2 XOR m2, l2 XOR m2, h3 XOR m3, l3 XOR m3))"

definition load_xor8 :: "bytes \<Rightarrow> nat \<Rightarrow> chains \<Rightarrow> chains" where
  "load_xor8 msgs b =
     xor8 (load128 (take 16 (drop (b * 16) msgs)))
          (load128 (take 16 (drop (AES_MSG_BYTES + b * 16) msgs)))
          (load128 (take 16 (drop (2 * AES_MSG_BYTES + b * 16) msgs)))
          (load128 (take 16 (drop (3 * AES_MSG_BYTES + b * 16) msgs)))"

definition store8 :: "chains \<Rightarrow> bytes" where
  "store8 c = (case c of (h0, l0, h1, l1, h2, l2, h3, l3) \<Rightarrow>
     store128 h0 @ store128 l0 @ store128 h1 @ store128 l1 @ store128 h2 @ store128 l2 @ store128 h3 @ store128 l3)"

definition zero8 :: chains where "zero8 = (0, 0, 0, 0, 0, 0, 0, 0)"

definition cbc_mac_4x2_arm :: "aes_arm \<Rightarrow> v128 list \<Rightarrow> v128 list \<Rightarrow> bytes \<Rightarrow> bytes" where
  "cbc_mac_4x2_arm A hi lo msgs =
     store8 (fold (\<lambda>b c. step8 (arm_final A hi) (arm_final A lo)
         (fold (\<lambda>r. step8 (arm_AR A hi r) (arm_AR A lo r)) [0..<9] (load_xor8 msgs b c))) [0..<AES_BLOCKS] zero8)"

subsection \<open>The x86 kernels\<close>

record aes_x86 =
  mm_aesenc_si128 :: "v128 \<Rightarrow> v128 \<Rightarrow> v128"
  mm_aesenclast_si128 :: "v128 \<Rightarrow> v128 \<Rightarrow> v128"

definition x86_first :: "v128 list \<Rightarrow> v128 \<Rightarrow> v128" where "x86_first rk s = s XOR rk ! 0"

definition x86_enc :: "aes_x86 \<Rightarrow> v128 list \<Rightarrow> nat \<Rightarrow> v128 \<Rightarrow> v128" where
  "x86_enc X rk r s = mm_aesenc_si128 X s (rk ! r)"

definition x86_last :: "aes_x86 \<Rightarrow> v128 list \<Rightarrow> v128 \<Rightarrow> v128" where
  "x86_last X rk s = mm_aesenclast_si128 X s (rk ! 10)"

definition cbc_mac_single_x86 :: "aes_x86 \<Rightarrow> v128 list \<Rightarrow> bytes \<Rightarrow> v128" where
  "cbc_mac_single_x86 X rk msg =
     fold (\<lambda>b s. x86_last X rk (fold (x86_enc X rk) [1..<10] (x86_first rk (s XOR msg_block msg b)))) [0..<AES_BLOCKS] 0"

definition cbc_mac_4x2_x86 :: "aes_x86 \<Rightarrow> v128 list \<Rightarrow> v128 list \<Rightarrow> bytes \<Rightarrow> bytes" where
  "cbc_mac_4x2_x86 X hi lo msgs =
     store8 (fold (\<lambda>b c. step8 (x86_last X hi) (x86_last X lo)
         (fold (\<lambda>r. step8 (x86_enc X hi r) (x86_enc X lo r)) [1..<10]
           (step8 (x86_first hi) (x86_first lo) (load_xor8 msgs b c)))) [0..<AES_BLOCKS] zero8)"

subsection \<open>\<open>pose_aes_prf_many\<close>\<close>

datatype aes_backend = AES_CE aes_arm | AES_NI aes_x86 | NO_AES

fun cbc_mac_single :: "aes_backend \<Rightarrow> v128 list \<Rightarrow> bytes \<Rightarrow> v128" where
  "cbc_mac_single (AES_CE A) rk msg = cbc_mac_single_arm A rk msg"
| "cbc_mac_single (AES_NI X) rk msg = cbc_mac_single_x86 X rk msg"
| "cbc_mac_single NO_AES rk msg = 0"

fun cbc_mac_4x2 :: "aes_backend \<Rightarrow> v128 list \<Rightarrow> v128 list \<Rightarrow> bytes \<Rightarrow> bytes" where
  "cbc_mac_4x2 (AES_CE A) hi lo msgs = cbc_mac_4x2_arm A hi lo msgs"
| "cbc_mac_4x2 (AES_NI X) hi lo msgs = cbc_mac_4x2_x86 X hi lo msgs"
| "cbc_mac_4x2 NO_AES hi lo msgs = []"

text \<open>\<open>None\<close> is the \<open>abort\<close> of a build with no AES backend.\<close>

definition pose_aes_prf_many ::
  "aes_backend \<Rightarrow> aes_key_cache \<Rightarrow> bool \<Rightarrow> u64 list \<Rightarrow> label option list option \<Rightarrow> label option list option
    \<Rightarrow> bytes \<Rightarrow> bytes \<Rightarrow> (bytes \<times> aes_key_cache) option" where
  "pose_aes_prf_many B kc is_source node_indices pred0s pred1s seed descriptor =
     (if B = NO_AES then None
      else let kc = get_round_keys kc seed; n = length node_indices;
               p0 = (\<lambda>i. if is_source then None else pred_at pred0s i);
               p1 = (\<lambda>i. if is_source then None else pred_at pred1s i);
               msg = (\<lambda>i. build_aes_msg (node_indices ! i) (p0 i) (p1 i) descriptor)
           in if n = 4
              then Some (cbc_mac_4x2 B (rk_hi kc) (rk_lo kc) (msg 0 @ msg 1 @ msg 2 @ msg 3), kc)
              else Some (concat (map (\<lambda>i. store128 (cbc_mac_single B (rk_hi kc) (msg i))
                                        @ store128 (cbc_mac_single B (rk_lo kc) (msg i))) [0..<n]), kc))"

subsection \<open>The interleaved kernels compute the single-message kernel\<close>

lemma length_store128 [simp]: "length (store128 v) = 16"
  by (simp add: store128_def)

lemma length_pred_bytes [simp]: "length (pred_bytes p) = 32"
  by (simp add: pred_bytes_def split: option.split)

lemma length_build_aes_msg [simp]: "length (build_aes_msg i p0 p1 d) = AES_MSG_BYTES"
  by (simp add: build_aes_msg_def AES_MSG_BYTES_def)

lemma fold_step8:
  "fold (\<lambda>r. step8 (f r) (g r)) rs (h0, l0, h1, l1, h2, l2, h3, l3)
     = (fold f rs h0, fold g rs l0, fold f rs h1, fold g rs l1, fold f rs h2, fold g rs l2, fold f rs h3, fold g rs l3)"
  by (induction rs arbitrary: h0 l0 h1 l1 h2 l2 h3 l3) (auto simp: step8_def)

lemma load_xor8_blocks:
  assumes "length m0 = AES_MSG_BYTES" "length m1 = AES_MSG_BYTES" "length m2 = AES_MSG_BYTES" "b < AES_BLOCKS"
  shows "load_xor8 (m0 @ m1 @ m2 @ m3) b = xor8 (msg_block m0 b) (msg_block m1 b) (msg_block m2 b) (msg_block m3 b)"
proof -
  have "b * 16 + 16 \<le> 112" using assms(4) by (simp add: AES_BLOCKS_def)
  then show ?thesis using assms(1-3) by (simp add: load_xor8_def msg_block_def AES_MSG_BYTES_def)
qed

lemma cbc_4x2_generic:
  assumes "length m0 = AES_MSG_BYTES" "length m1 = AES_MSG_BYTES" "length m2 = AES_MSG_BYTES"
    and F: "\<And>h0 l0 h1 l1 h2 l2 h3 l3. F (h0, l0, h1, l1, h2, l2, h3, l3) = (f h0, g l0, f h1, g l1, f h2, g l2, f h3, g l3)"
    and bs: "\<forall>b\<in>set bs. b < AES_BLOCKS"
  shows "fold (\<lambda>b c. F (load_xor8 (m0 @ m1 @ m2 @ m3) b c)) bs (h0, l0, h1, l1, h2, l2, h3, l3)
    = (fold (\<lambda>b s. f (s XOR msg_block m0 b)) bs h0, fold (\<lambda>b s. g (s XOR msg_block m0 b)) bs l0,
       fold (\<lambda>b s. f (s XOR msg_block m1 b)) bs h1, fold (\<lambda>b s. g (s XOR msg_block m1 b)) bs l1,
       fold (\<lambda>b s. f (s XOR msg_block m2 b)) bs h2, fold (\<lambda>b s. g (s XOR msg_block m2 b)) bs l2,
       fold (\<lambda>b s. f (s XOR msg_block m3 b)) bs h3, fold (\<lambda>b s. g (s XOR msg_block m3 b)) bs l3)"
  using bs
proof (induction bs arbitrary: h0 l0 h1 l1 h2 l2 h3 l3)
  case (Cons b bs)
  then show ?case by (simp add: load_xor8_blocks [OF assms(1-3)] xor8_def F)
qed simp

lemma cbc_mac_4x2_single:
  assumes "B \<noteq> NO_AES" "\<forall>i<4. length (m i) = AES_MSG_BYTES"
  shows "cbc_mac_4x2 B hi lo (m 0 @ m 1 @ m 2 @ m 3)
    = concat (map (\<lambda>i. store128 (cbc_mac_single B hi (m i)) @ store128 (cbc_mac_single B lo (m i))) [0..<4])"
proof -
  have m: "length (m 0) = AES_MSG_BYTES" "length (m 1) = AES_MSG_BYTES" "length (m 2) = AES_MSG_BYTES"
    using assms(2) by simp_all
  have up: "[0..<4] = [0, 1, 2, 3 :: nat]" by (simp add: upt_rec)
  show ?thesis
  proof (cases B)
    case (AES_CE A)
    show ?thesis
      unfolding AES_CE cbc_mac_4x2.simps cbc_mac_4x2_arm_def zero8_def
      by (subst cbc_4x2_generic [OF m, where f = "\<lambda>s. arm_final A hi (fold (arm_AR A hi) [0..<9] s)"
            and g = "\<lambda>s. arm_final A lo (fold (arm_AR A lo) [0..<9] s)"])
         (simp_all only: fold_step8 step8_def [of "arm_final A hi"] prod.case set_upt atLeastLessThan_iff
           store8_def cbc_mac_single.simps cbc_mac_single_arm_def up list.map concat.simps append_assoc append_Nil2, simp)
  next
    case (AES_NI X)
    show ?thesis
      unfolding AES_NI cbc_mac_4x2.simps cbc_mac_4x2_x86_def zero8_def
      by (subst cbc_4x2_generic [OF m, where f = "\<lambda>s. x86_last X hi (fold (x86_enc X hi) [1..<10] (x86_first hi s))"
            and g = "\<lambda>s. x86_last X lo (fold (x86_enc X lo) [1..<10] (x86_first lo s))"])
         (simp_all only: fold_step8 step8_def [of "x86_last X hi"] step8_def [of "x86_first hi"] prod.case set_upt
           atLeastLessThan_iff store8_def cbc_mac_single.simps cbc_mac_single_x86_def up list.map concat.simps
           append_assoc append_Nil2, simp)
  qed (use assms in simp)
qed

subsection \<open>The label, the cache and the batch\<close>

text \<open>The label of one node under a seed: both CBC-MACs of its message.\<close>

definition aes_label :: "aes_backend \<Rightarrow> bool \<Rightarrow> u64 \<Rightarrow> label option \<Rightarrow> label option \<Rightarrow> bytes \<Rightarrow> bytes \<Rightarrow> label" where
  "aes_label B is_source i p0 p1 seed descriptor =
     (let msg = build_aes_msg i (if is_source then None else p0) (if is_source then None else p1) descriptor
      in store128 (cbc_mac_single B (aes128_expand (mem32 seed)) msg)
         @ store128 (cbc_mac_single B (aes128_expand (drop 16 (mem32 seed))) msg))"

definition cache_ok :: "aes_key_cache \<Rightarrow> bool" where
  "cache_ok kc \<longleftrightarrow> (kc_valid kc \<longrightarrow>
     rk_hi kc = aes128_expand (kc_seed kc) \<and> rk_lo kc = aes128_expand (drop 16 (kc_seed kc)))"

lemma cache0_ok [simp]: "cache_ok cache0"
  by (simp add: cache_ok_def cache0_def)

lemma get_round_keys_ok:
  assumes "cache_ok kc"
  shows "cache_ok (get_round_keys kc seed)" "rk_hi (get_round_keys kc seed) = aes128_expand (mem32 seed)"
    "rk_lo (get_round_keys kc seed) = aes128_expand (drop 16 (mem32 seed))"
  using assms by (auto simp: get_round_keys_def cache_ok_def)

lemma length_aes_label [simp]: "length (aes_label B src i p0 p1 seed d) = 32"
  by (simp add: aes_label_def Let_def)

text \<open>Whatever seeds the thread hashed before, a call returns one label per node and keeps the cache right.\<close>

lemma pose_aes_prf_many_ok:
  assumes "cache_ok kc" "B \<noteq> NO_AES"
  shows "\<exists>kc'. pose_aes_prf_many B kc src ids p0s p1s seed d
      = Some (concat (map (\<lambda>i. aes_label B src (ids ! i) (pred_at p0s i) (pred_at p1s i) seed d) [0..<length ids]), kc')
    \<and> cache_ok kc'"
proof -
  let ?m = "\<lambda>i. build_aes_msg (ids ! i) (if src then None else pred_at p0s i) (if src then None else pred_at p1s i) d"
  note keys = get_round_keys_ok [OF assms(1), of seed]
  show ?thesis
  proof (cases "length ids = 4")
    case True
    show ?thesis
      using assms(2) keys cbc_mac_4x2_single [OF assms(2), of ?m] True
      by (simp add: pose_aes_prf_many_def Let_def aes_label_def)
  next
    case False
    then show ?thesis
      using assms(2) keys by (simp add: pose_aes_prf_many_def Let_def aes_label_def)
  qed
qed

lemma pose_aes_prf_abort: "pose_aes_prf_many NO_AES kc src ids p0s p1s seed d = None"
  by (simp add: pose_aes_prf_many_def)

subsection \<open>The two backends compute the same labels\<close>

text \<open>
  The documented relation of the instructions: \<open>AESE\<close> xors the key in first, \<open>AESENC\<close> is
  \<open>AESE\<close> with a zero key, \<open>AESMC\<close>, then the key, and \<open>AESENCLAST\<close> the same without \<open>AESMC\<close>.
\<close>

definition aes_parity :: "aes_arm \<Rightarrow> aes_x86 \<Rightarrow> bool" where
  "aes_parity A X \<longleftrightarrow> (\<forall>s k. vaeseq_u8 A s k = vaeseq_u8 A (s XOR k) 0)
     \<and> (\<forall>s k. mm_aesenc_si128 X s k = vaesmcq_u8 A (vaeseq_u8 A s 0) XOR k)
     \<and> (\<forall>s k. mm_aesenclast_si128 X s k = vaeseq_u8 A s 0 XOR k)"

lemma aes_parityD:
  assumes "aes_parity A X"
  shows "vaeseq_u8 A s k = vaeseq_u8 A (s XOR k) 0"
    and "mm_aesenc_si128 X s k = vaesmcq_u8 A (vaeseq_u8 A s 0) XOR k"
    and "mm_aesenclast_si128 X s k = vaeseq_u8 A s 0 XOR k"
  using assms unfolding aes_parity_def by blast+

lemma aes_block_parity:
  assumes "aes_parity A X"
  shows "arm_final A rk (fold (arm_AR A rk) [0..<9] s) = x86_last X rk (fold (x86_enc X rk) [1..<10] (x86_first rk s))"
proof -
  have "fold (x86_enc X rk) [1..<Suc n] (x86_first rk s) = fold (arm_AR A rk) [0..<n] s XOR rk ! n" for n
  proof (induction n)
    case (Suc n)
    have "fold (x86_enc X rk) [1..<Suc (Suc n)] (x86_first rk s)
        = x86_enc X rk (Suc n) (fold (x86_enc X rk) [1..<Suc n] (x86_first rk s))" by simp
    also have "\<dots> = vaesmcq_u8 A (vaeseq_u8 A (fold (arm_AR A rk) [0..<n] s) (rk ! n)) XOR rk ! Suc n"
      unfolding Suc.IH x86_enc_def
      by (subst aes_parityD(2) [OF assms], subst aes_parityD(1) [OF assms, of _ "rk ! n"]) simp
    also have "vaesmcq_u8 A (vaeseq_u8 A (fold (arm_AR A rk) [0..<n] s) (rk ! n)) = fold (arm_AR A rk) [0..<Suc n] s"
      by (simp add: arm_AR_def [of A rk n])
    finally show ?case .
  qed (simp add: x86_first_def)
  from this [of 9] show ?thesis
    unfolding x86_last_def arm_final_def
    by (simp add: aes_parityD(3) [OF assms] aes_parityD(1) [OF assms, of _ "rk ! 9"])
qed

lemma aes_label_parity:
  assumes "aes_parity A X"
  shows "aes_label (AES_CE A) src i p0 p1 seed d = aes_label (AES_NI X) src i p0 p1 seed d"
proof -
  have "cbc_mac_single (AES_CE A) rk msg = cbc_mac_single (AES_NI X) rk msg" for rk msg
    by (simp add: cbc_mac_single_arm_def cbc_mac_single_x86_def aes_block_parity [OF assms])
  then show ?thesis by (simp add: aes_label_def)
qed

subsection \<open>Sizes and round trips\<close>

lemma length_schedule_bytes: "length key \<ge> 16 \<Longrightarrow> length (aes128_schedule_bytes key) = 176"
proof -
  assume k: "length key \<ge> 16"
  have "length (fold (\<lambda>i w. w @ schedule_word w i) is w) = length w + 4 * length is" for "is" w
    by (induction "is" arbitrary: w) (auto simp: schedule_word_def Let_def)
  then show ?thesis unfolding aes128_schedule_bytes_def using k by (simp only:) simp
qed

lemma bit_load128:
  "length bs \<le> 16 \<Longrightarrow> bit (load128 bs) n \<longleftrightarrow> n div 8 < length bs \<and> bit (bs ! (n div 8)) (n mod 8)"
proof (induction bs arbitrary: n)
  case (Cons b bs)
  have ln: "load128 (b # bs) = push_bit 8 (load128 bs) OR ucast b" by (simp add: load128_def)
  have ub: "bit (ucast b :: v128) n \<longleftrightarrow> bit b n" using bit_imp_le_length [of b n] by (auto simp: bit_ucast_iff)
  show ?case
  proof (cases "n < 8")
    case True
    then show ?thesis using ub by (simp add: ln bit_or_iff bit_push_bit_iff)
  next
    case False
    then obtain k where n: "n = k + 8" by (metis add.commute le_Suc_ex not_less)
    have nb: "\<not> bit b n" using bit_imp_le_length [of b n] False by auto
    have "bit (load128 (b # bs)) n \<longleftrightarrow> k + 8 < 128 \<and> bit (load128 bs) k"
      using ub nb by (simp add: ln bit_or_iff bit_push_bit_iff n)
    also have "\<dots> \<longleftrightarrow> k + 8 < 128 \<and> k div 8 < length bs \<and> bit (bs ! (k div 8)) (k mod 8)"
      using Cons.IH [of k] Cons.prems by simp
    also have "\<dots> \<longleftrightarrow> k div 8 < length bs \<and> bit (bs ! (k div 8)) (k mod 8)"
    proof -
      have "k + 8 < 128" if "k div 8 < length bs"
      proof -
        have "k div 8 < 15" using that Cons.prems by simp
        then show ?thesis by (simp add: div_less_iff_less_mult)
      qed
      then show ?thesis by blast
    qed
    finally have *: "bit (load128 (b # bs)) n \<longleftrightarrow> k div 8 < length bs \<and> bit (bs ! (k div 8)) (k mod 8)" .
    have "n div 8 = Suc (k div 8)" "n mod 8 = k mod 8" unfolding n by (subst div_add_self2) simp_all
    then show ?thesis using * by simp
  qed
qed (simp add: load128_def)

lemma store_load128:
  assumes "length bs = 16"
  shows "store128 (load128 bs) = bs"
proof (rule nth_equalityI)
  fix i assume "i < length (store128 (load128 bs))"
  then have i: "i < 16" by simp
  have "bit (store128 (load128 bs) ! i) k = bit (bs ! i) k" if "k < 8" for k
    using that i assms by (simp add: store128_def bit_simps bit_load128)
  then show "store128 (load128 bs) ! i = bs ! i" by (intro bit_word_eqI) auto
qed (simp add: assms)

end
