(* ===== verification/Hash.thy ===== *)
theory Hash
  imports Blake3 Sha256 Aes_Prf
begin

section \<open>Labels from hashes (\<open>hash.c\<close>)\<close>

text \<open>
  The 192-byte node message, the derived BLAKE3 label keys with their lazy initialisation, the label
  of one node and of a batch under the three algorithms, the graph descriptor and the chunk seed,
  on a hardware platform \<open>hw\<close>. The calls read and update two caches, the global label keys and the
  thread's AES round keys; \<open>hash_state\<close> holds both. The theory ends with the record \<open>pose_labeler hw\<close>
  that \<open>graph.c\<close> calls and its interpretation of the locale \<open>node_hash\<close>.
\<close>

record hw =
  hw_b3 :: b3_platform
  hw_sha :: "arm_sha option"
  hw_aes :: aes_backend

definition hw_ok :: "hw \<Rightarrow> bool" where
  "hw_ok h \<longleftrightarrow> platform_ok (hw_b3 h) \<and> hw_aes h \<noteq> NO_AES"

text \<open>The AArch64 build of \<open>CMakeLists.txt\<close>: NEON, the SHA-2 and the AES instructions.\<close>

definition arm_hw :: "arm_sha \<Rightarrow> aes_arm \<Rightarrow> hw" where
  "arm_hw S A = \<lparr>hw_b3 = IS_AARCH64, hw_sha = Some S, hw_aes = AES_CE A\<rparr>"

lemma arm_hw_ok [simp]: "hw_ok (arm_hw S A)"
  by (simp add: hw_ok_def arm_hw_def)

subsection \<open>Label keys\<close>

definition cstr :: "string \<Rightarrow> bytes" where "cstr s = map of_char s"

definition blake3_hasher_init_derive_key :: "b3_platform \<Rightarrow> string \<Rightarrow> blake3_hasher" where
  "blake3_hasher_init_derive_key P ctxt = blake3_hasher_init_derive_key_raw P (cstr ctxt)"

record label_keys =
  g_key_src :: "u32 list"
  g_key_int :: "u32 list"
  g_keys_ready :: bool

definition ensure_keys :: "b3_platform \<Rightarrow> label_keys \<Rightarrow> label_keys" where
  "ensure_keys P g =
     (if g_keys_ready g then g
      else \<lparr>g_key_src = hkey (blake3_hasher_init_derive_key P ''pose-db/label/src''),
            g_key_int = hkey (blake3_hasher_init_derive_key P ''pose-db/label/int''),
            g_keys_ready = True\<rparr>)"

definition pose_label_node_keys :: "b3_platform \<Rightarrow> label_keys \<Rightarrow> u32 list \<times> u32 list \<times> label_keys" where
  "pose_label_node_keys P g = (let g = ensure_keys P g in (g_key_src g, g_key_int g, g))"

record hash_state =
  keys :: label_keys
  tl_key_cache :: aes_key_cache

definition hash_state0 :: hash_state where
  "hash_state0 = \<lparr>keys = \<lparr>g_key_src = replicate 8 0, g_key_int = replicate 8 0, g_keys_ready = False\<rparr>,
     tl_key_cache = cache0\<rparr>"

subsection \<open>The node message\<close>

definition NODE_MSG_BYTES :: nat where "NODE_MSG_BYTES = 3 * BLAKE3_BLOCK_LEN"

definition build_node_msg :: "u64 \<Rightarrow> label option \<Rightarrow> label option \<Rightarrow> bytes \<Rightarrow> bytes \<Rightarrow> bytes" where
  "build_node_msg node_index pred0 pred1 seed descriptor =
     u64_be node_index @ replicate 56 0 @ pred_bytes pred0 @ pred_bytes pred1 @ mem32 seed @ mem32 descriptor"

subsection \<open>Labels\<close>

definition pose_label_node ::
  "hw \<Rightarrow> hash_state \<Rightarrow> bool \<Rightarrow> u64 \<Rightarrow> label option \<Rightarrow> label option \<Rightarrow> bytes \<Rightarrow> bytes \<Rightarrow> hash_algo
    \<Rightarrow> (label \<times> hash_state) option" where
  "pose_label_node h hs is_source node_index pred0 pred1 seed descriptor algo =
     (let p0 = (if is_source then None else pred0); p1 = (if is_source then None else pred1)
      in case algo of
           POSE_HASH_AES_PRF \<Rightarrow>
             (case pose_aes_prf_many (hw_aes h) (tl_key_cache hs) is_source [node_index] (Some [p0]) (Some [p1]) seed descriptor of
                None \<Rightarrow> None
              | Some (tmp, kc) \<Rightarrow> Some (mem32 tmp, hs\<lparr>tl_key_cache := kc\<rparr>))
         | POSE_HASH_SHA256 \<Rightarrow>
             (case pose_sha256 (hw_sha h) (build_node_msg node_index p0 p1 seed descriptor) of
                None \<Rightarrow> None
              | Some tmp \<Rightarrow> Some (mem32 tmp, hs))
         | POSE_HASH_BLAKE3 \<Rightarrow>
             let g = ensure_keys (hw_b3 h) (keys hs);
                 tmp = blake3_hash_many (hw_b3 h) [build_node_msg node_index p0 p1 seed descriptor] 3
                         (if is_source then g_key_src g else g_key_int g) 0 False KEYED_HASH CHUNK_START (CHUNK_END OR ROOT)
             in Some (mem32 tmp, hs\<lparr>keys := g\<rparr>))"

text \<open>The loop over groups of four nodes of the AES branch.\<close>

definition ptr_from :: "nat \<Rightarrow> 'a list option \<Rightarrow> 'a list option" where
  "ptr_from base ps = map_option (drop base) ps"

function aes_groups ::
  "aes_backend \<Rightarrow> aes_key_cache \<Rightarrow> bool \<Rightarrow> u64 list \<Rightarrow> label option list option \<Rightarrow> label option list option
    \<Rightarrow> bytes \<Rightarrow> bytes \<Rightarrow> nat \<Rightarrow> (bytes \<times> aes_key_cache) option" where
  "aes_groups B kc is_source ids pred0s pred1s seed descriptor base =
     (if base < length ids then
        let b = (if length ids - base < 4 then length ids - base else 4)
        in case pose_aes_prf_many B kc is_source (take b (drop base ids)) (ptr_from base pred0s) (ptr_from base pred1s) seed descriptor of
             None \<Rightarrow> None
           | Some (tmp, kc) \<Rightarrow>
               (case aes_groups B kc is_source ids pred0s pred1s seed descriptor (base + 4) of
                  None \<Rightarrow> None
                | Some (rest, kc) \<Rightarrow> Some (tmp @ rest, kc))
      else Some ([], kc))"
  by auto
termination
  by (relation "measure (\<lambda>(B, kc, src, ids, p0, p1, seed, d, base). length ids - base)") auto

declare aes_groups.simps [simp del]

definition out_labels :: "nat \<Rightarrow> bytes \<Rightarrow> label list" where
  "out_labels n tmp = map (\<lambda>i. mem32 (drop (i * 32) tmp)) [0..<n]"

text \<open>The buffers on its stack hold \<open>POSE_LABEL_BATCH\<close> messages and labels: a longer batch leaves them.\<close>

definition pose_label_node_many ::
  "hw \<Rightarrow> hash_state \<Rightarrow> bool \<Rightarrow> u64 list \<Rightarrow> label option list option \<Rightarrow> label option list option \<Rightarrow> bytes \<Rightarrow> bytes
    \<Rightarrow> hash_algo \<Rightarrow> (label list \<times> hash_state) option" where
  "pose_label_node_many h hs is_source ids pred0s pred1s seed descriptor algo =
     (let n = length ids;
          msgs = map (\<lambda>i. build_node_msg (ids ! i) (if is_source then None else pred_at pred0s i)
                            (if is_source then None else pred_at pred1s i) seed descriptor) [0..<n]
      in if n > POSE_LABEL_BATCH then None
         else case algo of
           POSE_HASH_AES_PRF \<Rightarrow>
             (case aes_groups (hw_aes h) (tl_key_cache hs) is_source ids pred0s pred1s seed descriptor 0 of
                None \<Rightarrow> None
              | Some (tmp, kc) \<Rightarrow> Some (out_labels n tmp, hs\<lparr>tl_key_cache := kc\<rparr>))
         | POSE_HASH_SHA256 \<Rightarrow>
             (case those (map (pose_sha256 (hw_sha h)) msgs) of
                None \<Rightarrow> None
              | Some outs \<Rightarrow> Some (out_labels n (concat outs), hs))
         | POSE_HASH_BLAKE3 \<Rightarrow>
             let g = ensure_keys (hw_b3 h) (keys hs);
                 tmp = blake3_hash_many (hw_b3 h) msgs 3
                         (if is_source then g_key_src g else g_key_int g) 0 False KEYED_HASH CHUNK_START (CHUNK_END OR ROOT)
             in Some (out_labels n tmp, hs\<lparr>keys := g\<rparr>))"

subsection \<open>Descriptor and chunk seed\<close>

definition pose_graph_descriptor :: "b3_platform \<Rightarrow> u64 \<Rightarrow> u64 \<Rightarrow> bytes" where
  "pose_graph_descriptor P m n =
     (let h = blake3_hasher_init_derive_key P ''pose-db/descriptor'';
          h = blake3_hasher_update P h (u64_be m @ u64_be n @ [0, 0, 0, 0, 0, 0, 1, 0])
      in blake3_hasher_finalize P h POSE_HASH_BYTES)"

definition pose_chunk_seed :: "b3_platform \<Rightarrow> bytes \<Rightarrow> u64 \<Rightarrow> bytes" where
  "pose_chunk_seed P session_seed chunk_index =
     (let h = blake3_hasher_init_derive_key P ''pose-db/chunk-seed'';
          h = blake3_hasher_update P h session_seed;
          h = blake3_hasher_update P h (u64_be chunk_index)
      in blake3_hasher_finalize P h POSE_HASH_BYTES)"

text \<open>The functions of \<open>hash.h\<close> as \<open>graph.c\<close> calls them, from the caches of a new process.\<close>

definition pose_labeler :: "hw \<Rightarrow> labeler" where
  "pose_labeler h =
     \<lparr>label_node = (\<lambda>src i p0 p1 sd ds al. fst (the (pose_label_node h hash_state0 src i p0 p1 sd ds al))),
      label_node_many = (\<lambda>src ids p0s p1s sd ds al. fst (the (pose_label_node_many h hash_state0 src ids p0s p1s sd ds al))),
      graph_descriptor = pose_graph_descriptor (hw_b3 h),
      chunk_seed = pose_chunk_seed (hw_b3 h)\<rparr>"

subsection \<open>The reference label\<close>

text \<open>
  The derived key of a context, and the label of a node as a function of its message alone: the
  portable BLAKE3 of three blocks, the FIPS SHA-256 or the two CBC-MACs.
\<close>

definition derive_key :: "b3_platform \<Rightarrow> string \<Rightarrow> u32 list" where
  "derive_key P ctxt = hkey (blake3_hasher_init_derive_key P ctxt)"

definition label_key :: "b3_platform \<Rightarrow> bool \<Rightarrow> u32 list" where
  "label_key P is_source = derive_key P (if is_source then ''pose-db/label/src'' else ''pose-db/label/int'')"

definition ref_label :: "hw \<Rightarrow> bool \<Rightarrow> u64 \<Rightarrow> label option \<Rightarrow> label option \<Rightarrow> bytes \<Rightarrow> bytes \<Rightarrow> hash_algo \<Rightarrow> label" where
  "ref_label h is_source i p0 p1 seed descriptor algo =
     (let msg = build_node_msg i (if is_source then None else p0) (if is_source then None else p1) seed descriptor
      in case algo of
           POSE_HASH_AES_PRF \<Rightarrow> aes_label (hw_aes h) is_source i p0 p1 seed descriptor
         | POSE_HASH_SHA256 \<Rightarrow> the (pose_sha256 (hw_sha h) msg)
         | POSE_HASH_BLAKE3 \<Rightarrow>
             hash_one_portable msg 3 (label_key (hw_b3 h) is_source) 0 KEYED_HASH CHUNK_START (CHUNK_END OR ROOT))"

definition keys_ok :: "b3_platform \<Rightarrow> label_keys \<Rightarrow> bool" where
  "keys_ok P g \<longleftrightarrow> (g_keys_ready g \<longrightarrow> g_key_src g = label_key P True \<and> g_key_int g = label_key P False)"

text \<open>The invariant of the two caches; it holds in a new process and every call keeps it.\<close>

definition state_ok :: "hw \<Rightarrow> hash_state \<Rightarrow> bool" where
  "state_ok h hs \<longleftrightarrow> keys_ok (hw_b3 h) (keys hs) \<and> cache_ok (tl_key_cache hs)"

lemma state0_ok [simp]: "state_ok h hash_state0"
  by (simp add: state_ok_def hash_state0_def keys_ok_def)

lemma ensure_keys_ok:
  assumes "keys_ok P g"
  shows "keys_ok P (ensure_keys P g)" "g_key_src (ensure_keys P g) = label_key P True"
    "g_key_int (ensure_keys P g) = label_key P False" "g_keys_ready (ensure_keys P g)"
  using assms by (auto simp: ensure_keys_def keys_ok_def label_key_def derive_key_def)

lemma length_label_key [simp]: "length (label_key P src) = 8"
  by (simp add: label_key_def derive_key_def blake3_hasher_init_derive_key_def blake3_hasher_init_derive_key_raw_def
      hasher_init_base_def load_key_words_def Let_def)

lemma length_node_msg [simp]: "length (build_node_msg i p0 p1 s d) = 192"
  by (simp add: build_node_msg_def)

lemma sha_192:
  assumes "length msg = 192"
  shows "\<exists>l. pose_sha256 A msg = Some l \<and> length l = 32"
proof -
  have l: "length (pad_message msg) = 256" using assms by (simp add: pad_message_def Let_def)
  have "\<exists>s. compress_blocks A (pad_message msg) 4 H0 = Some s"
    using l by (simp add: compress_blocks_fold)
  then show ?thesis using assms by (auto simp: pose_sha256_def length_concat comp_def sum_list_triv)
qed

lemma length_ref_label [simp]: "length (ref_label h src i p0 p1 sd ds al) = 32"
proof (cases al)
  case POSE_HASH_SHA256
  then show ?thesis
    using sha_192 [of "build_node_msg i (if src then None else p0) (if src then None else p1) sd ds" "hw_sha h"]
    by (auto simp: ref_label_def Let_def)
qed (auto simp: ref_label_def Let_def)

lemma blake3_batch:
  assumes "platform_ok P" "\<forall>m\<in>set msgs. length m = 192" "length key = 8"
  shows "blake3_hash_many P msgs 3 key 0 False KEYED_HASH CHUNK_START (CHUNK_END OR ROOT)
    = concat (map (\<lambda>m. hash_one_portable m 3 key 0 KEYED_HASH CHUNK_START (CHUNK_END OR ROOT)) msgs)"
  using assms by (simp add: dispatch_hash_many hash_many_portable_map)

lemma pose_label_node_ok:
  assumes "hw_ok h" "state_ok h hs"
  shows "\<exists>hs'. pose_label_node h hs src i p0 p1 sd ds al = Some (ref_label h src i p0 p1 sd ds al, hs') \<and> state_ok h hs'"
proof (cases al)
  case POSE_HASH_BLAKE3
  have k: "keys_ok (hw_b3 h) (keys hs)" and p: "platform_ok (hw_b3 h)"
    using assms by (auto simp: state_ok_def hw_ok_def)
  show ?thesis
    using assms(2) ensure_keys_ok [OF k] POSE_HASH_BLAKE3
    by (simp add: pose_label_node_def ref_label_def Let_def blake3_batch [OF p] mem32_id state_ok_def)
next
  case POSE_HASH_SHA256
  then show ?thesis
    using assms(2) sha_192 [of "build_node_msg i (if src then None else p0) (if src then None else p1) sd ds" "hw_sha h"]
    by (auto simp: pose_label_node_def ref_label_def Let_def mem32_id)
next
  case POSE_HASH_AES_PRF
  obtain kc where "pose_aes_prf_many (hw_aes h) (tl_key_cache hs) src [i] (Some [if src then None else p0])
      (Some [if src then None else p1]) sd ds = Some (aes_label (hw_aes h) src i p0 p1 sd ds, kc)" "cache_ok kc"
    using pose_aes_prf_many_ok [of "tl_key_cache hs" "hw_aes h" src "[i]" "Some [if src then None else p0]"
        "Some [if src then None else p1]" sd ds] assms
    by (auto simp: state_ok_def hw_ok_def pred_at_def aes_label_def Let_def)
  then show ?thesis
    using assms(2) POSE_HASH_AES_PRF by (simp add: pose_label_node_def ref_label_def Let_def mem32_id state_ok_def)
qed

subsection \<open>A batch is its nodes\<close>

lemma pred_at_from: "preds_fit n ps \<Longrightarrow> base \<le> n \<Longrightarrow> pred_at (ptr_from base ps) i = pred_at ps (base + i)"
  by (cases ps) (auto simp: pred_at_def ptr_from_def preds_fit_def)

lemma aes_groups_ok:
  assumes "B \<noteq> NO_AES" "preds_fit (length ids) p0s" "preds_fit (length ids) p1s"
  shows "cache_ok kc \<Longrightarrow> \<exists>kc'. aes_groups B kc src ids p0s p1s sd ds base
      = Some (concat (map (\<lambda>i. aes_label B src (ids ! i) (pred_at p0s i) (pred_at p1s i) sd ds) [base..<length ids]), kc')
    \<and> cache_ok kc'"
proof (induction "length ids - base" arbitrary: base kc rule: less_induct)
  case less
  show ?case
  proof (cases "base < length ids")
    case True
    define b where "b = (if length ids - base < 4 then length ids - base else 4)"
    have b: "0 < b" "base + b \<le> length ids" using True by (auto simp: b_def)
    let ?f = "\<lambda>i. aes_label B src (ids ! i) (pred_at p0s i) (pred_at p1s i) sd ds"
    have eq: "map (\<lambda>i. aes_label B src (take b (drop base ids) ! i) (pred_at (ptr_from base p0s) i)
        (pred_at (ptr_from base p1s) i) sd ds) [0..<length (take b (drop base ids))] = map (\<lambda>i. ?f (base + i)) [0..<b]"
      by (rule map_cong)
        (use b True in \<open>auto simp: pred_at_from [OF assms(2)] pred_at_from [OF assms(3)] less_imp_le\<close>)
    obtain kc1 where c1: "pose_aes_prf_many B kc src (take b (drop base ids)) (ptr_from base p0s) (ptr_from base p1s) sd ds
        = Some (concat (map (\<lambda>i. ?f (base + i)) [0..<b]), kc1)" "cache_ok kc1"
      using pose_aes_prf_many_ok [OF less.prems assms(1), of src "take b (drop base ids)" "ptr_from base p0s"
          "ptr_from base p1s" sd ds] unfolding eq by blast
    have lt: "length ids - (base + 4) < length ids - base" using True by simp
    obtain kc2 where c2: "aes_groups B kc1 src ids p0s p1s sd ds (base + 4)
        = Some (concat (map ?f [base + 4..<length ids]), kc2)" "cache_ok kc2"
      using less.hyps [OF lt c1(2)] by blast
    have "map (\<lambda>i. ?f (base + i)) [0..<b] = map ?f [base..<base + b]"
      by (simp add: map_add_upt [symmetric, of base] comp_def add.commute)
    moreover have "[base + 4..<length ids] = [base + b..<length ids]" by (auto simp: b_def)
    ultimately have "concat (map (\<lambda>i. ?f (base + i)) [0..<b]) @ concat (map ?f [base + 4..<length ids])
        = concat (map ?f [base..<length ids])"
      using b map_upt_join [of base "base + b" "length ids" ?f] by (simp flip: concat_append)
    then show ?thesis
      using True c1 c2 by (subst aes_groups.simps) (simp add: b_def)
  next
    case False
    then show ?thesis using less.prems by (subst aes_groups.simps) simp
  qed
qed

lemma out_labels_concat:
  assumes "\<forall>x\<in>set ls. length x = 32" "n = length ls"
  shows "out_labels n (concat ls) = ls"
proof (rule nth_equalityI)
  fix i assume "i < length (out_labels n (concat ls))"
  then have i: "i < length ls" by (simp add: out_labels_def assms(2))
  have "take 32 (drop (i * 32) (concat ls)) = ls ! i"
    using assms(1) i
  proof (induction ls arbitrary: i)
    case (Cons x ls)
    then show ?case by (cases i) auto
  qed simp
  moreover have "mem32 p = take 32 p" if "32 \<le> length p" for p
    using that by (intro nth_equalityI) (auto simp: mem32_def)
  moreover have "i * 32 + 32 \<le> length (concat ls)"
  proof -
    have "length (concat ls) = length ls * 32" using assms(1) by (simp add: length_concat map_idI sum_list_triv cong: map_cong)
    then show ?thesis using i by simp
  qed
  ultimately show "out_labels n (concat ls) ! i = ls ! i"
    using i by (simp add: out_labels_def assms(2))
qed (simp add: out_labels_def assms(2))

lemma pose_label_node_many_ok:
  assumes "hw_ok h" "state_ok h hs" "preds_fit (length ids) p0s" "preds_fit (length ids) p1s"
    and "length ids \<le> POSE_LABEL_BATCH"
  shows "\<exists>hs'. pose_label_node_many h hs src ids p0s p1s sd ds al
      = Some (map (\<lambda>i. ref_label h src (ids ! i) (pred_at p0s i) (pred_at p1s i) sd ds al) [0..<length ids], hs')
    \<and> state_ok h hs'"
proof (cases al)
  case POSE_HASH_BLAKE3
  have k: "keys_ok (hw_b3 h) (keys hs)" and p: "platform_ok (hw_b3 h)"
    using assms by (auto simp: state_ok_def hw_ok_def)
  show ?thesis
    using assms(2,5) ensure_keys_ok [OF k] POSE_HASH_BLAKE3
    by (simp add: pose_label_node_many_def ref_label_def Let_def blake3_batch [OF p] state_ok_def comp_def
        out_labels_concat)
next
  case POSE_HASH_SHA256
  let ?m = "\<lambda>i. build_node_msg (ids ! i) (if src then None else pred_at p0s i) (if src then None else pred_at p1s i) sd ds"
  have "pose_sha256 (hw_sha h) (?m i) = Some (the (pose_sha256 (hw_sha h) (?m i)))
      \<and> length (the (pose_sha256 (hw_sha h) (?m i))) = 32" for i
    using sha_192 [of "?m i" "hw_sha h"] by auto
  then have "those (map (pose_sha256 (hw_sha h)) (map ?m [0..<length ids]))
      = Some (map (\<lambda>i. the (pose_sha256 (hw_sha h) (?m i))) [0..<length ids])" and
    "\<forall>x\<in>set (map (\<lambda>i. the (pose_sha256 (hw_sha h) (?m i))) [0..<length ids]). length x = 32"
    unfolding map_map comp_def by (auto intro: those_map_Some)
  then show ?thesis
    using assms(2,5) POSE_HASH_SHA256
    by (simp add: pose_label_node_many_def ref_label_def Let_def out_labels_concat)
next
  case POSE_HASH_AES_PRF
  have "cache_ok (tl_key_cache hs)" "hw_aes h \<noteq> NO_AES" using assms by (auto simp: state_ok_def hw_ok_def)
  from aes_groups_ok [OF this(2) assms(3,4) this(1), of src sd ds 0] show ?thesis
    using assms(2,5) POSE_HASH_AES_PRF
    by (auto simp: pose_label_node_many_def ref_label_def Let_def out_labels_concat state_ok_def)
qed

subsection \<open>The labeler of \<open>graph.c\<close>\<close>

lemma pose_labeler_node:
  "hw_ok h \<Longrightarrow> label_node (pose_labeler h) src i p0 p1 sd ds al = ref_label h src i p0 p1 sd ds al"
  using pose_label_node_ok [of h hash_state0 src i p0 p1 sd ds al] by (auto simp: pose_labeler_def)

lemma pose_labeler_hash:
  assumes "hw_ok h"
  shows "node_hash (pose_labeler h)"
proof
  fix ids :: "u64 list" and p0s p1s :: "label option list option" and src sd ds al
  assume "length ids \<le> POSE_LABEL_BATCH" "preds_fit (length ids) p0s" "preds_fit (length ids) p1s"
  from pose_label_node_many_ok [OF assms state0_ok this(2,3,1), of src sd ds al]
  show "label_node_many (pose_labeler h) src ids p0s p1s sd ds al
      = map (\<lambda>i. label_node (pose_labeler h) src (ids ! i) (pred_at p0s i) (pred_at p1s i) sd ds al) [0..<length ids]"
    unfolding pose_labeler_node [OF assms] by (auto simp: pose_labeler_def)
qed (simp add: pose_labeler_node [OF assms] POSE_HASH_BYTES_def)

text \<open>The promises of \<open>hash.h\<close>, on the AArch64 build whatever its crypto instructions compute.\<close>

interpretation arm: node_hash "pose_labeler (arm_hw S A)" for S A
  by (rule pose_labeler_hash) simp

subsection \<open>The message determines its fields\<close>

lemma node_msg_inj:
  "build_node_msg i p0 p1 s d = build_node_msg i' p0' p1' s' d' \<longleftrightarrow>
     i = i' \<and> pred_bytes p0 = pred_bytes p0' \<and> pred_bytes p1 = pred_bytes p1' \<and> mem32 s = mem32 s' \<and> mem32 d = mem32 d'"
  by (simp add: build_node_msg_def u64_be_inj)

lemma aes_msg_inj:
  "build_aes_msg i p0 p1 d = build_aes_msg i' p0' p1' d' \<longleftrightarrow>
     i = i' \<and> pred_bytes p0 = pred_bytes p0' \<and> pred_bytes p1 = pred_bytes p1' \<and> mem32 d = mem32 d'"
  by (simp add: build_aes_msg_def u64_be_inj)

subsection \<open>BLAKE3 labels are keyed BLAKE3\<close>

lemma xof_prefix:
  "take 32 (blake3_compress_xof_portable cv blk len c fl) = store_cv_words (blake3_compress_in_place_portable cv blk len c fl)"
  by (simp add: blake3_compress_xof_portable_def blake3_compress_in_place_portable_def store_cv_words_def Let_def
      length_concat comp_def sum_list_triv upt_rec)

lemma keyed_hash_192:
  assumes "platform_ok P" "length key = 8" "length msg = 192"
  shows "chunk_hash P key KEYED_HASH msg = hash_one_portable msg 3 key 0 KEYED_HASH CHUNK_START (CHUNK_END OR ROOT)"
proof -
  let ?s0 = "chunk_state_init key KEYED_HASH"
  define s1 where "s1 = compress_buffered P ?s0 (take 64 msg)"
  define s2 where "s2 = compress_buffered P s1 (take 64 (drop 64 msg))"
  have blocks: "chunk_update_blocks P ?s0 msg = (s2, drop 128 msg)"
    using assms(3) by (simp add: chunk_update_blocks.simps BLAKE3_BLOCK_LEN_def s1_def s2_def)
  have cv1: "cs_cv s1 = blake3_compress_in_place_portable key (take 64 msg) 64 0 (KEYED_HASH OR CHUNK_START)"
    using assms by (simp add: s1_def compress_buffered_def chunk_state_init_def chunk_state_maybe_start_flag_def
        dispatch_compress_in_place BLAKE3_BLOCK_LEN_def)
  have cv2: "cs_cv s2 = blake3_compress_in_place_portable (cs_cv s1) (take 64 (drop 64 msg)) 64 0 KEYED_HASH"
    using assms cv1 by (simp add: s2_def s1_def compress_buffered_def chunk_state_init_def chunk_state_maybe_start_flag_def
        dispatch_compress_in_place BLAKE3_BLOCK_LEN_def)
  have "chunk_state_update P ?s0 msg = with_buf s2 (drop 128 msg)"
    by (rule update_fresh [OF fresh_init blocks])
  then have "chunk_hash P key KEYED_HASH msg
      = take 32 (blake3_compress_xof_portable (cs_cv s2) (drop 128 msg) 64 0 (KEYED_HASH OR CHUNK_END OR ROOT))"
    using assms cv2 by (simp add: chunk_hash_def chunk_state_output_def output_root_bytes_def with_buf_def s2_def s1_def
        compress_buffered_def chunk_state_init_def chunk_state_maybe_start_flag_def BLAKE3_OUT_LEN_def Let_def
        dispatch_compress_xof or.assoc)
  also have "\<dots> = hash_one_portable msg 3 key 0 KEYED_HASH CHUNK_START (CHUNK_END OR ROOT)"
    using assms(3) by (simp add: xof_prefix hash_one_portable_def cv1 cv2 BLAKE3_BLOCK_LEN_def numeral_3_eq_3 Let_def)
  finally show ?thesis .
qed

subsection \<open>Descriptor and chunk seed\<close>

lemma derive_key_hash:
  "length (concat parts) \<le> BLAKE3_CHUNK_LEN \<Longrightarrow>
    blake3_hasher_finalize P (fold (\<lambda>b h. blake3_hasher_update P h b) parts (blake3_hasher_init_derive_key P ctxt)) 32
      = chunk_hash P (derive_key P ctxt) DERIVE_KEY_MATERIAL (concat parts)"
  using hash_in_pieces [of parts P "derive_key P ctxt" DERIVE_KEY_MATERIAL]
  by (simp add: derive_key_def blake3_hasher_init_derive_key_def blake3_hasher_init_derive_key_raw_def Let_def
      BLAKE3_OUT_LEN_def hasher_init_base_def)

lemma graph_descriptor_hash:
  "pose_graph_descriptor P m n
     = chunk_hash P (derive_key P ''pose-db/descriptor'') DERIVE_KEY_MATERIAL (u64_be m @ u64_be n @ u64_be 256)"
proof -
  have b: "u64_be 256 = [0, 0, 0, 0, 0, 0, 1, 0]" by code_simp
  show ?thesis
    using derive_key_hash [of "[u64_be m @ u64_be n @ [0, 0, 0, 0, 0, 0, 1, 0]]" P "''pose-db/descriptor''"]
    by (simp add: pose_graph_descriptor_def Let_def POSE_HASH_BYTES_def b BLAKE3_CHUNK_LEN_def)
qed

lemma chunk_seed_hash:
  "length seed + 8 \<le> BLAKE3_CHUNK_LEN \<Longrightarrow> pose_chunk_seed P seed k
     = chunk_hash P (derive_key P ''pose-db/chunk-seed'') DERIVE_KEY_MATERIAL (seed @ u64_be k)"
  using derive_key_hash [of "[seed, u64_be k]" P "''pose-db/chunk-seed''"]
  by (simp add: pose_chunk_seed_def Let_def POSE_HASH_BYTES_def)

end
