(* ===== verification/Reference_Hw.thy ===== *)
theory Reference_Hw
  imports Hash
begin

section \<open>Concrete instructions\<close>

text \<open>
  Functions that satisfy what the development assumes of the hardware: the SHA-2 instructions from
  the round function, the AES instructions of FIPS 197 on both architectures, and an x86 platform
  whose SIMD backends are the portable code. They show that the hypotheses can hold.
\<close>

definition ref_arm_sha :: arm_sha where
  "ref_arm_sha = \<lparr>vsha256hq = (\<lambda>abcd efgh wk. lo4 (four_rounds abcd efgh wk)),
     vsha256h2q = (\<lambda>efgh abcd wk. hi4 (four_rounds abcd efgh wk)), vsha256su0q = su0, vsha256su1q = su1\<rparr>"

lemma ref_arm_sha_ok: "arm_sha_ok ref_arm_sha"
  by (simp add: arm_sha_ok_def ref_arm_sha_def)

text \<open>\<open>ShiftRows\<close> after \<open>SubBytes\<close>, and \<open>MixColumns\<close>, on the sixteen bytes of a state.\<close>

definition sub_shift :: "v128 \<Rightarrow> v128" where
  "sub_shift s = load128 (map (\<lambda>i. sbox (store128 s ! (5 * i mod 16))) [0..<16])"

definition xtime :: "byte \<Rightarrow> byte" where
  "xtime b = push_bit 1 b XOR (if bit b 7 then 0x1b else 0)"

definition mix_byte :: "bytes \<Rightarrow> nat \<Rightarrow> byte" where
  "mix_byte bs i =
     (let c = 4 * (i div 4); a = (\<lambda>k. bs ! (c + (i + k) mod 4))
      in xtime (a 0) XOR (xtime (a 1) XOR a 1) XOR a 2 XOR a 3)"

definition mix_columns :: "v128 \<Rightarrow> v128" where
  "mix_columns s = load128 (map (mix_byte (store128 s)) [0..<16])"

definition ref_aes_arm :: aes_arm where
  "ref_aes_arm = \<lparr>vaeseq_u8 = (\<lambda>s k. sub_shift (s XOR k)), vaesmcq_u8 = mix_columns\<rparr>"

definition ref_aes_x86 :: aes_x86 where
  "ref_aes_x86 = \<lparr>mm_aesenc_si128 = (\<lambda>s k. mix_columns (sub_shift s) XOR k),
     mm_aesenclast_si128 = (\<lambda>s k. sub_shift s XOR k)\<rparr>"

lemma ref_aes_parity: "aes_parity ref_aes_arm ref_aes_x86"
  by (simp add: aes_parity_def ref_aes_arm_def ref_aes_x86_def)

text \<open>AES-128 of FIPS 197, appendix B, with these instructions and the key schedule of the code.\<close>

definition ref_encrypt :: "bytes \<Rightarrow> bytes \<Rightarrow> bytes" where
  "ref_encrypt key blk = store128 (let rk = aes128_expand key
     in arm_final ref_aes_arm rk (fold (arm_AR ref_aes_arm rk) [0..<9] (load128 blk)))"

definition portable_backend :: simd_backend where
  "portable_backend = \<lparr>sb_compress_in_place = blake3_compress_in_place_portable,
     sb_compress_xof = blake3_compress_xof_portable, sb_hash_many = blake3_hash_many_portable\<rparr>"

definition portable_simd :: x86_simd where
  "portable_simd = \<lparr>sse2 = portable_backend, sse41 = portable_backend, avx2_hash_many = blake3_hash_many_portable,
     avx512 = portable_backend, avx512_xof_many = (\<lambda>cv blk len c fl n.
       concat (map (\<lambda>i. blake3_compress_xof_portable cv blk len (c + of_nat i) fl) [0..<n]))\<rparr>"

lemma portable_simd_ok: "simd_ok portable_simd"
  by (simp add: simd_ok_def backend_ok_def portable_simd_def portable_backend_def)

text \<open>A processor with AVX2 and without AVX-512.\<close>

definition avx2_cpu :: x86_cpu where
  "avx2_cpu = \<lparr>cpuid = (\<lambda>i. (7, 0, 0xFFFFFFFF, 0)), cpuidex = (\<lambda>i j. (0, 0x20, 0, 0)), xgetbv = 7\<rparr>"

definition x86_hw :: hw where
  "x86_hw = \<lparr>hw_b3 = IS_X86_64 avx2_cpu portable_simd, hw_sha = None, hw_aes = AES_NI ref_aes_x86\<rparr>"

lemma x86_hw_ok: "hw_ok x86_hw"
  by (simp add: hw_ok_def x86_hw_def portable_simd_ok)

end
