(* ===== verification/Edges.thy ===== *)
theory Edges
  imports Labeling
begin

section \<open>The edge structure (\<open>pose_graph_edges\<close>)\<close>

text \<open>
  \<open>pose_graph_edges\<close> runs the emitter without a label buffer and with an edge recorder, then
  marks the challenge ranks. The result is the predecessor list of every node of the abstract
  graph, in id order, with each rank \<open>0..<m\<close> on exactly one node.
\<close>

subsection \<open>The code\<close>

text \<open>\<open>for (i = 0; i < n; i++) nodes[base[half_w + i]].challenge_rank = rank + i\<close>.\<close>

fun mark_ranks :: "u64 list \<Rightarrow> nat \<Rightarrow> nat \<Rightarrow> nat \<Rightarrow> nat \<Rightarrow> pose_node list \<Rightarrow> pose_node list option" where
  "mark_ranks c base rank i 0 N = Some N"
| "mark_ranks c base rank i (Suc n) N = do {
     nid \<leftarrow> ld c (base + i);
     nd \<leftarrow> ld N (unat nid);
     N' \<leftarrow> st N (unat nid) (nd\<lparr>challenge_rank := int (rank + i)\<rparr>);
     mark_ranks c base rank (i + 1) n N' }"

text \<open>\<open>sizeof(pose_node_t)\<close> on a 64-bit target.\<close>

definition POSE_NODE_BYTES :: u64 where "POSE_NODE_BYTES = 32"

text \<open>
  The three id arrays are three allocations; here they are three parts of one cell memory, at
  offsets \<open>0\<close>, \<open>2 * half_w\<close> and \<open>4 * half_w\<close>. The outcome is the return code and, on success, the
  node array and its length.
\<close>

definition pose_graph_edges ::
  "labeler \<Rightarrow> (nat \<Rightarrow> u64 \<Rightarrow> bytes option) \<Rightarrow> u64 \<Rightarrow> (int \<times> (pose_node list \<times> u64) option) option" where
  "pose_graph_edges H malloc m =
     (if m = 0 \<or> m > POSE_GRAPH_MAX_M then Some (-1, None)
      else
       (let n = pose_graph_parameter_n m;
            level = n + 1;
            half_w = push_bit n (1 :: u64);
            retained = m - half_w;
            total = 2 * standalone_node_count level;
            edge_arena_elems = of_nat POSE_ARENA_FACTOR * half_w
        in
        if malloc 0 (total * POSE_NODE_BYTES) = None then Some (-1, None)
        else
         (case (malloc 1 (2 * half_w * 8), malloc 2 (2 * half_w * 8), malloc 3 (edge_arena_elems * 8)) of
            (Some left, Some right, Some arena) \<Rightarrow>
             (let left_base = 0; right_base = 2 * unat half_w;
                  e = \<lparr>e_next_id = 0, e_labels = None, e_nodes = Some (replicate (unat total) blank_node),
                       e_seed = [], e_desc = replicate POSE_HASH_BYTES 0, e_arena = 4 * unat half_w,
                       e_arena_cap = unat edge_arena_elems, e_arena_off = 0, e_algo = POSE_HASH_BLAKE3,
                       e_cells = view_cells left 0 @ view_cells right 0 @ view_cells arena 0\<rparr>
              in do {
                e1 \<leftarrow> emit_standalone H level left_base e;
                e2 \<leftarrow> emit_standalone H level right_base e1;
                N0 \<leftarrow> e_nodes e2;
                N1 \<leftarrow> mark_ranks (e_cells e2) (left_base + unat half_w) 0 0 (unat half_w) N0;
                N2 \<leftarrow> mark_ranks (e_cells e2) (right_base + unat half_w) (unat half_w) 0 (unat retained) N1;
                Some (0, Some (N2, e_next_id e2)) })
          | _ \<Rightarrow> Some (-1, None))))"

subsection \<open>Marking the ranks\<close>

lemma mark_ranks_ok:
  assumes "\<And>j. i \<le> j \<Longrightarrow> j < i + n \<Longrightarrow> ld c (base + j) = Some (of_nat (g j)) \<and> g j < length N"
    and "length N < 2 ^ 64" "inj_on g {i..<i + n}"
  shows "\<exists>N'. mark_ranks c base rank i n N = Some N' \<and> length N' = length N
    \<and> (\<forall>j\<in>{i..<i + n}. N' ! g j = (N ! g j)\<lparr>challenge_rank := int (rank + j)\<rparr>)
    \<and> (\<forall>x. x \<notin> g ` {i..<i + n} \<longrightarrow> N' ! x = N ! x)"
  using assms
proof (induction n arbitrary: i N)
  case (Suc n)
  have gi: "ld c (base + i) = Some (of_nat (g i))" "g i < length N" using Suc.prems(1) [of i] by auto
  have u: "unat (of_nat (g i) :: u64) = g i" using gi(2) Suc.prems(2) by (simp add: unat_of_nat_u64)
  let ?N = "N[g i := (N ! g i)\<lparr>challenge_rank := int (rank + i)\<rparr>]"
  have "\<exists>N'. mark_ranks c base rank (Suc i) n ?N = Some N' \<and> length N' = length ?N
    \<and> (\<forall>j\<in>{Suc i..<Suc i + n}. N' ! g j = (?N ! g j)\<lparr>challenge_rank := int (rank + j)\<rparr>)
    \<and> (\<forall>x. x \<notin> g ` {Suc i..<Suc i + n} \<longrightarrow> N' ! x = ?N ! x)"
    by (rule Suc.IH) (use Suc.prems in \<open>auto intro: inj_on_subset\<close>)
  then obtain N' where N': "mark_ranks c base rank (Suc i) n ?N = Some N'" "length N' = length N"
    "\<forall>j\<in>{Suc i..<Suc i + n}. N' ! g j = (?N ! g j)\<lparr>challenge_rank := int (rank + j)\<rparr>"
    "\<forall>x. x \<notin> g ` {Suc i..<Suc i + n} \<longrightarrow> N' ! x = ?N ! x" by auto
  have ins: "{i..<i + Suc n} = insert i {Suc i..<Suc i + n}" by auto
  have gne: "g j \<noteq> g i" if "j \<in> {Suc i..<Suc i + n}" for j
    using inj_onD [OF Suc.prems(3), of j i] that by auto
  then have "g i \<notin> g ` {Suc i..<Suc i + n}" by (metis imageE)
  then have "N' ! g i = (N ! g i)\<lparr>challenge_rank := int (rank + i)\<rparr>" using N'(4) gi(2) by simp
  moreover have "N' ! g j = (N ! g j)\<lparr>challenge_rank := int (rank + j)\<rparr>" if "j \<in> {Suc i..<Suc i + n}" for j
    using N'(3) gne [OF that] that by simp
  moreover have "N' ! x = N ! x" if "x \<notin> g ` {i..<i + Suc n}" for x
    using N'(4) that unfolding ins by simp
  ultimately show ?case using gi u N'(1,2) unfolding ins by (simp add: ld_def st_def)
qed simp

text \<open>The challenge nodes are distinct.\<close>

lemma distinct_standalone_base: "distinct (standalone_base l s)"
  using sorted_standalone_base [of l s] strict_sorted_iff by blast

lemma distinct_challenge_nodes: "distinct (challenge_nodes n m)"
proof -
  have "x \<notin> set (standalone_base (n + 1) (scount (n + 1)))" if "x \<in> set (standalone_base (n + 1) 0)" for x
    using standalone_base_range [of x "n + 1" 0] standalone_base_range [of x "n + 1" "scount (n + 1)"] that
    by linarith
  then have "set (standalone_base (n + 1) 0) \<inter> set (standalone_base (n + 1) (scount (n + 1))) = {}" by blast
  moreover have "set (drop (2 ^ n) (standalone_base (n + 1) 0)) \<subseteq> set (standalone_base (n + 1) 0)"
    "set (take (m - 2 ^ n) (drop (2 ^ n) (standalone_base (n + 1) (scount (n + 1)))))
      \<subseteq> set (standalone_base (n + 1) (scount (n + 1)))"
    by (auto dest: in_set_takeD in_set_dropD simp del: standalone_base.simps)
  ultimately show ?thesis
    unfolding challenge_nodes_def distinct_append
    by (intro conjI distinct_take distinct_drop distinct_standalone_base) blast
qed

subsection \<open>The result is the abstract graph\<close>

text \<open>What the node array has to hold: the predecessors of every node, the rank of every
  challenge node, \<open>-1\<close> elsewhere.\<close>

definition edges_spec :: "nat \<Rightarrow> nat \<Rightarrow> pose_node list \<Rightarrow> bool" where
  "edges_spec n m N \<longleftrightarrow> length N = length (graph_nodes n)
     \<and> (\<forall>r<m. N ! (challenge_nodes n m ! r) = (node_of (graph_nodes n ! (challenge_nodes n m ! r)))\<lparr>challenge_rank := int r\<rparr>)
     \<and> (\<forall>x<length (graph_nodes n). x \<notin> set (challenge_nodes n m) \<longrightarrow> N ! x = node_of (graph_nodes n ! x))"

lemma mark_both_ok:
  assumes ids: "ids_at c 0 b0" "ids_at c (2 * hw) b1" "length b0 = 2 * hw" "length b1 = 2 * hw"
    and dist: "distinct (drop hw b0 @ take k (drop hw b1))" "k \<le> hw"
    and bnd: "\<forall>x\<in>set b0 \<union> set b1. x < length N" "length N < 2 ^ 64"
  shows "\<exists>N1 N2. mark_ranks c hw 0 0 hw N = Some N1 \<and> mark_ranks c (2 * hw + hw) hw 0 k N1 = Some N2
    \<and> length N2 = length N
    \<and> (\<forall>r<hw + k. N2 ! ((drop hw b0 @ take k (drop hw b1)) ! r)
          = (N ! ((drop hw b0 @ take k (drop hw b1)) ! r))\<lparr>challenge_rank := int r\<rparr>)
    \<and> (\<forall>x. x \<notin> set (drop hw b0 @ take k (drop hw b1)) \<longrightarrow> N2 ! x = N ! x)"
proof -
  define f g where "f = (\<lambda>j. b0 ! (hw + j))" and "g = (\<lambda>j. b1 ! (hw + j))"
  have F: "drop hw b0 = map f [0..<hw]" and G: "take k (drop hw b1) = map g [0..<k]"
    using ids(3,4) dist(2) by (auto intro!: nth_equalityI simp: f_def g_def)
  have inj: "inj_on f {0..<0 + hw}" "inj_on g {0..<0 + k}" and dis: "f ` {0..<hw} \<inter> g ` {0..<k} = {}"
    using dist(1) unfolding F G by (auto simp: distinct_map)
  have lf: "ld c (hw + j) = Some (of_nat (f j)) \<and> f j < length N" if "0 \<le> j" "j < 0 + hw" for j
    using ids_at_ld [OF ids(1), of "hw + j"] that ids(3) bnd(1) by (simp add: f_def)
  have lg: "ld c (2 * hw + hw + j) = Some (of_nat (g j)) \<and> g j < length N" if "0 \<le> j" "j < 0 + k" for j
    using ids_at_ld [OF ids(2), of "hw + j"] that ids(4) dist(2) bnd(1) by (simp add: g_def add.assoc)
  obtain N1 where N1: "mark_ranks c hw 0 0 hw N = Some N1" "length N1 = length N"
    "\<forall>j\<in>{0..<0 + hw}. N1 ! f j = (N ! f j)\<lparr>challenge_rank := int (0 + j)\<rparr>"
    "\<forall>x. x \<notin> f ` {0..<0 + hw} \<longrightarrow> N1 ! x = N ! x"
    using mark_ranks_ok [OF lf bnd(2) inj(1), of 0] by blast
  have lg1: "ld c (2 * hw + hw + j) = Some (of_nat (g j)) \<and> g j < length N1" if "0 \<le> j" "j < 0 + k" for j
    using lg [OF that] N1(2) by simp
  obtain N2 where N2: "mark_ranks c (2 * hw + hw) hw 0 k N1 = Some N2" "length N2 = length N1"
    "\<forall>j\<in>{0..<0 + k}. N2 ! g j = (N1 ! g j)\<lparr>challenge_rank := int (hw + j)\<rparr>"
    "\<forall>x. x \<notin> g ` {0..<0 + k} \<longrightarrow> N2 ! x = N1 ! x"
    using mark_ranks_ok [OF lg1 _ inj(2), of hw] bnd(2) N1(2) by auto
  have a: "N2 ! f j = (N ! f j)\<lparr>challenge_rank := int j\<rparr>" if "j < hw" for j
  proof -
    have "f j \<in> f ` {0..<hw}" using that by simp
    then have "f j \<notin> g ` {0..<0 + k}" using dis by (simp add: disjoint_iff)
    then show ?thesis using N1(3) N2(4) that by simp
  qed
  have b: "N2 ! g j = (N ! g j)\<lparr>challenge_rank := int (hw + j)\<rparr>" if "j < k" for j
  proof -
    have "g j \<in> g ` {0..<k}" using that by simp
    then have "g j \<notin> f ` {0..<0 + hw}" using dis by (auto simp: disjoint_iff)
    then show ?thesis using N2(3) N1(4) that by simp
  qed
  have "N2 ! ((map f [0..<hw] @ map g [0..<k]) ! r)
      = (N ! ((map f [0..<hw] @ map g [0..<k]) ! r))\<lparr>challenge_rank := int r\<rparr>" if "r < hw + k" for r
    using a [of r] b [of "r - hw"] that by (auto simp: nth_append)
  moreover have "N2 ! x = N ! x" if "x \<notin> set (map f [0..<hw] @ map g [0..<k])" for x
    using N1(4) N2(4) that by auto
  ultimately show ?thesis using N1(1,2) N2(1,2) unfolding F G by auto
qed

context node_hash begin

lemma pose_graph_edges_ok:
  assumes m: "m \<noteq> 0" "m \<le> POSE_GRAPH_MAX_M" and mal: "malloc_ok malloc" "\<forall>i s. malloc i s \<noteq> None"
  shows "\<exists>N. pose_graph_edges H malloc m = Some (0, Some (N, scratch_node_count m))
    \<and> edges_spec (pose_graph_parameter_n m) (unat m) N"
proof -
  note [simp del] = standalone_base.simps standalone_nodes.simps scount.simps standalone_node_count.simps
    emit_standalone.simps
  define n hw S where "n = pose_graph_parameter_n m" and "hw = (2 ^ n :: nat)" and "S = scount (n + 1)"
  note w = parameter_word_facts [OF m, folded n_def, folded hw_def S_def]
  have n: "n \<le> 19" using parameter_n_max [OF m(2)] by (simp add: n_def)
  have hw: "hw \<le> 2 ^ 19" using power_increasing [OF n, of "2 :: nat"] by (simp add: hw_def)
  have hwm: "hw \<le> unat m" "unat m \<le> 2 * hw"
    using parameter_n_le [OF m(1)] parameter_n_ge [of m] by (simp_all add: n_def hw_def)
  have pw: "push_bit n (1 :: u64) = of_nat hw" by (simp add: hw_def push_bit_eq_mult)
  have el: "of_nat POSE_ARENA_FACTOR * push_bit n (1 :: u64) = of_nat (16 * hw)"
    by (simp add: hw_def push_bit_eq_mult POSE_ARENA_FACTOR_def)
  have sz: "unat (2 * push_bit n (1 :: u64) * 8) = 16 * hw" "unat (of_nat (16 * hw) * 8 :: u64) = 128 * hw"
    "unat (of_nat (16 * hw) :: u64) = 16 * hw"
    using unat_of_nat_u64 [of "16 * hw"] unat_of_nat_u64 [of "128 * hw"] hw
    by (simp_all add: hw_def push_bit_eq_mult)
  obtain nd left right arena where nd: "malloc 0 (2 * standalone_node_count (n + 1) * POSE_NODE_BYTES) = Some nd"
    and left: "malloc 1 (2 * push_bit n 1 * 8) = Some left"
    and right: "malloc 2 (2 * push_bit n 1 * 8) = Some right"
    and arena: "malloc 3 (of_nat (16 * hw) * 8) = Some arena"
    using mal(2) not_None_eq by metis
  have len: "length left = 16 * hw" "length right = 16 * hw" "length arena = 128 * hw"
    using mal(1) left right arena sz unfolding malloc_ok_def by metis+
  have tot: "2 * standalone_node_count (n + 1) = scratch_node_count m"
    by (simp add: scratch_node_count_def n_def)
  define e where "e = \<lparr>e_next_id = 0, e_labels = None, e_nodes = Some (replicate (2 * S) blank_node),
    e_seed = [], e_desc = replicate POSE_HASH_BYTES 0, e_arena = 4 * hw,
    e_arena_cap = 16 * hw, e_arena_off = 0, e_algo = POSE_HASH_BLAKE3,
    e_cells = view_cells left 0 @ view_cells right 0 @ view_cells arena 0\<rparr>"
  have cells: "length (e_cells e) = 20 * hw" using len by (simp add: e_def)
  have "emits H e []" "room e (2 * S)" using w(4) by (auto simp: e_def emits_def room_def)
  then obtain e1 e2 where e1: "emit_standalone H (n + 1) 0 e = Some e1"
    and g1: "grows H e [] e1 (standalone_nodes (n + 1) 0) UNIV"
    and e2: "emit_standalone H (n + 1) (2 * hw) (e1\<lparr>e_next_id := of_nat S, e_arena := 4 * hw,
        e_arena_cap := 16 * hw, e_arena_off := 0\<rparr>) = Some e2"
    and em: "emits H e2 (graph_nodes n)"
    and i0: "ids_at (e_cells e2) 0 (standalone_base (n + 1) 0)"
    and i1: "ids_at (e_cells e2) (2 * hw) (standalone_base (n + 1) S)"
    and fr: "map_option length (e_nodes e2) = map_option length (e_nodes e)"
    using two_copies_ok [of e n "4 * hw" "16 * hw", folded hw_def S_def] cells by (auto simp: e_def)
  have same: "e1\<lparr>e_next_id := of_nat S, e_arena := 4 * hw, e_arena_cap := 16 * hw, e_arena_off := 0\<rparr> = e1"
    using grows_emits [OF g1] grows_frame [OF g1]
    by (cases e1) (simp add: emits_def same_frame_def e_def S_def)
  obtain N0 where N0: "e_nodes e2 = Some N0" "length N0 = 2 * S" using fr by (auto simp: e_def)
  have lg: "length (graph_nodes n) = 2 * S" by (simp add: S_def)
  have N0n: "N0 = map node_of (graph_nodes n)" using em N0 unfolding emits_def lg by simp
  have "e_next_id e2 = of_nat (2 * S)" using em unfolding emits_def lg by blast
  then have "unat (e_next_id e2) = unat (scratch_node_count m)" using w(3,4) by (simp only: unat_of_nat_u64)
  then have nid: "e_next_id e2 = scratch_node_count m" by (simp only: word_unat_eq_iff)
  have bnd: "\<forall>x\<in>set (standalone_base (n + 1) 0) \<union> set (standalone_base (n + 1) S). x < length N0"
    using standalone_base_range [of _ "n + 1"] unfolding N0(2) S_def by fastforce
  have ch: "challenge_nodes n (unat m) = drop hw (standalone_base (n + 1) 0)
      @ take (unat m - hw) (drop hw (standalone_base (n + 1) S))"
    by (simp add: challenge_nodes_def hw_def S_def)
  have bl: "length (standalone_base (n + 1) 0) = 2 * hw" "length (standalone_base (n + 1) S) = 2 * hw"
    "unat m - hw \<le> hw" "length N0 < 2 ^ 64"
    using hwm N0(2) w(4) by (simp_all add: hw_def)
  obtain N1 N2 where N: "mark_ranks (e_cells e2) hw 0 0 hw N0 = Some N1"
      "mark_ranks (e_cells e2) (2 * hw + hw) hw 0 (unat m - hw) N1 = Some N2" "length N2 = length N0"
    and R: "\<forall>r<hw + (unat m - hw). N2 ! (challenge_nodes n (unat m) ! r)
        = (N0 ! (challenge_nodes n (unat m) ! r))\<lparr>challenge_rank := int r\<rparr>"
    and Q: "\<forall>x. x \<notin> set (challenge_nodes n (unat m)) \<longrightarrow> N2 ! x = N0 ! x"
    using mark_both_ok [OF i0 i1 bl(1,2) distinct_challenge_nodes [of n "unat m", unfolded ch] bl(3) bnd bl(4)]
    unfolding ch by blast
  have "edges_spec n (unat m) N2"
    unfolding edges_spec_def
  proof (intro conjI allI impI)
    fix r assume r: "r < unat m"
    then have "challenge_nodes n (unat m) ! r \<in> set (challenge_nodes n (unat m))"
      using length_challenge_nodes [of n "unat m"] hwm by (simp add: hw_def)
    then have "challenge_nodes n (unat m) ! r < length (graph_nodes n)"
      unfolding lg S_def by (rule challenge_nodes_less)
    then show "N2 ! (challenge_nodes n (unat m) ! r)
        = (node_of (graph_nodes n ! (challenge_nodes n (unat m) ! r)))\<lparr>challenge_rank := int r\<rparr>"
      using R r hwm(1) by (simp add: N0n)
  qed (use N(3) Q lg in \<open>simp_all add: N0n\<close>)
  moreover have "pose_graph_edges H malloc m = Some (0, Some (N2, scratch_node_count m))"
    unfolding pose_graph_edges_def Let_def n_def [symmetric] el left right arena sz w(1,2) nd tot w(3)
      option.case prod.case
    using m nd e1 [unfolded e_def] e2 [unfolded same] N(1,2) N0(1) nid by (simp add: tot [symmetric] not_less)
  ultimately show ?thesis by (auto simp: n_def)
qed

end

end
