(* ===== verification/Edge_Labels.thy ===== *)
theory Edge_Labels
  imports Edges
begin

section \<open>Labels follow the exported edges\<close>

text \<open>
  What a verifier does with the node array of \<open>pose_graph_edges\<close>: read a node's predecessors,
  find the node of a challenge rank. The labels \<open>do_label\<close> writes are the ones this array
  describes: there is one label per node, each the hash of its predecessors' labels, and the output
  block of rank \<open>r\<close> is the label of the one node that carries \<open>r\<close>.
\<close>

definition pred_ids :: "pose_node \<Rightarrow> nat list" where
  "pred_ids nd = take (num_preds nd) [unat (pred0 nd), unat (pred1 nd)]"

text \<open>A labeling of a node array.\<close>

definition labels_edges :: "labeler \<Rightarrow> bytes \<Rightarrow> bytes \<Rightarrow> hash_algo \<Rightarrow> pose_node list \<Rightarrow> label list \<Rightarrow> bool" where
  "labels_edges H seed desc al N L \<longleftrightarrow> length L = length N
     \<and> (\<forall>i<length N. L ! i = node_label H seed desc al i (map ((!) L) (pred_ids (N ! i))))"

text \<open>Every predecessor comes earlier, and a node with two has the lower id first.\<close>

definition edges_ordered :: "pose_node list \<Rightarrow> bool" where
  "edges_ordered N \<longleftrightarrow> (\<forall>i<length N. sorted_wrt (<) (pred_ids (N ! i)) \<and> (\<forall>x\<in>set (pred_ids (N ! i)). x < i))"

text \<open>The ids that carry a rank.\<close>

definition ranked :: "pose_node list \<Rightarrow> int \<Rightarrow> nat list" where
  "ranked N r = filter (\<lambda>i. challenge_rank (N ! i) = r) [0..<length N]"

subsection \<open>Nodes of the abstract graph\<close>

lemma canonical_graph: "p \<in> set (graph_nodes n) \<Longrightarrow> canonical p"
  by (auto simp: graph_nodes_def dest: canonical_standalone simp del: standalone_nodes.simps)

lemma pred_ids_node_of:
  assumes "canonical p" "\<forall>x\<in>set p. x < 2 ^ 64"
  shows "pred_ids ((node_of p)\<lparr>challenge_rank := r\<rparr>) = p" "pred_ids (node_of p) = p"
proof -
  consider "p = []" | a where "p = [a]" | a b where "p = [a, b]"
    using assms(1) by (cases p; cases "tl p"; cases "tl (tl p)") (auto simp: canonical_def)
  then show "pred_ids ((node_of p)\<lparr>challenge_rank := r\<rparr>) = p" "pred_ids (node_of p) = p"
    using assms(2) by (cases; simp add: pred_ids_def node_of_def blank_node_def unat_of_nat_u64)+
qed

lemma rank_node_of [simp]: "challenge_rank (node_of p) = -1"
  by (auto simp: node_of_def blank_node_def split: list.splits)

lemma graph_small: "n \<le> 19 \<Longrightarrow> length (graph_nodes n) < 2 ^ 64"
  using scount_bound [of "n + 1"] by simp

subsection \<open>The exported array against the specification\<close>

lemma edges_spec_preds:
  assumes "edges_spec n m N" "n \<le> 19" "i < length N" "m \<le> 2 ^ (n + 1)" "2 ^ n \<le> m"
  shows "pred_ids (N ! i) = graph_nodes n ! i"
proof -
  have lN: "length N = length (graph_nodes n)" using assms(1) by (simp add: edges_spec_def)
  have can: "canonical (graph_nodes n ! i)"
    using assms(3) lN nth_mem canonical_graph by metis
  have "x < 2 ^ 64" if "x \<in> set (graph_nodes n ! i)" for x
    using topo_graph_nodes [of n] that assms(3) lN graph_small [OF assms(2)] unfolding topo_def by fastforce
  then have pn: "pred_ids ((node_of (graph_nodes n ! i))\<lparr>challenge_rank := r\<rparr>) = graph_nodes n ! i"
    "pred_ids (node_of (graph_nodes n ! i)) = graph_nodes n ! i" for r
    using pred_ids_node_of [OF can] by blast+
  show ?thesis
  proof (cases "i \<in> set (challenge_nodes n m)")
    case True
    then obtain r where r: "r < m" "challenge_nodes n m ! r = i"
      using length_challenge_nodes [of n m] assms(4,5) by (auto simp: in_set_conv_nth)
    then have "N ! i = (node_of (graph_nodes n ! i))\<lparr>challenge_rank := int r\<rparr>"
      using assms(1) unfolding edges_spec_def by blast
    then show ?thesis by (simp only: pn)
  next
    case False
    then show ?thesis using assms(1,3) lN pn by (simp add: edges_spec_def)
  qed
qed

lemma filter_eq_upt: "x < n \<Longrightarrow> filter (\<lambda>i. i = x) [0..<n] = [x]" for n :: nat
  by (induction n) (auto simp: less_Suc_eq filter_empty_conv)

lemma edges_spec_ranked:
  assumes "edges_spec n m N" "r < m" "m \<le> 2 ^ (n + 1)" "2 ^ n \<le> m"
  shows "ranked N (int r) = [challenge_nodes n m ! r]"
proof -
  let ?c = "challenge_nodes n m"
  have lc: "length ?c = m" using length_challenge_nodes [of n m] assms(3,4) by simp
  have less: "?c ! k < length N" if "k < m" for k
    using challenge_nodes_less [of "?c ! k" n m] that lc assms(1) by (simp add: edges_spec_def)
  have rk: "challenge_rank (N ! i) = int r \<longleftrightarrow> i = ?c ! r" if i: "i < length N" for i
  proof (cases "i \<in> set ?c")
    case True
    then obtain k where k: "k < m" "?c ! k = i" using lc by (auto simp: in_set_conv_nth)
    then have "challenge_rank (N ! i) = int k" using assms(1) by (auto simp: edges_spec_def)
    moreover have "k = r \<longleftrightarrow> ?c ! k = ?c ! r"
      using distinct_challenge_nodes [of n m] k(1) assms(2) lc by (simp add: nth_eq_iff_index_eq)
    ultimately show ?thesis using k(2) by auto
  next
    case False
    moreover have "?c ! r \<in> set ?c" using assms(2) lc by simp
    ultimately show ?thesis using assms(1) i by (auto simp: edges_spec_def)
  qed
  have "ranked N (int r) = filter (\<lambda>i. i = ?c ! r) [0..<length N]"
    unfolding ranked_def by (rule filter_cong) (simp_all add: rk)
  also have "\<dots> = [?c ! r]"
    using filter_eq_upt [OF less [OF assms(2)]] .
  finally show ?thesis .
qed

lemma edges_spec_ordered:
  assumes "edges_spec n m N" "n \<le> 19" "m \<le> 2 ^ (n + 1)" "2 ^ n \<le> m"
  shows "edges_ordered N"
proof -
  have lN: "length N = length (graph_nodes n)" using assms(1) by (simp add: edges_spec_def)
  have "sorted_wrt (<) (graph_nodes n ! i) \<and> (\<forall>x\<in>set (graph_nodes n ! i). x < i)" if "i < length N" for i
    using canonical_graph [of "graph_nodes n ! i" n] topo_graph_nodes [of n] that lN
    by (auto simp: canonical_def topo_def)
  then show ?thesis using edges_spec_preds [OF assms(1,2) _ assms(3,4)] by (simp add: edges_ordered_def)
qed

text \<open>The labels of the abstract graph label the exported array.\<close>

lemma edges_spec_labels:
  assumes "edges_spec n m N" "n \<le> 19" "m \<le> 2 ^ (n + 1)" "2 ^ n \<le> m"
  shows "labels_edges H seed desc al N (labels_of (node_label H seed desc al) (graph_nodes n))"
proof -
  have "length N = length (graph_nodes n)" using assms(1) unfolding edges_spec_def by blast
  then show ?thesis
    using labels_of_nth [OF topo_graph_nodes, of _ n "node_label H seed desc al"] edges_spec_preds [OF assms(1,2) _ assms(3,4)]
    unfolding labels_edges_def by (simp del: length_graph_nodes)
qed

lemma parameter_n_range:
  assumes "m \<noteq> 0" "m \<le> POSE_GRAPH_MAX_M"
  shows "pose_graph_parameter_n m \<le> 19" "2 ^ pose_graph_parameter_n m \<le> unat m"
    "unat m \<le> 2 ^ (pose_graph_parameter_n m + 1)"
  using assms parameter_n_max parameter_n_le parameter_n_ge by blast+

context node_hash begin

text \<open>The rank-\<open>r\<close> block of the output is the label of the node that carries rank \<open>r\<close>.\<close>

lemma output_label_ranked:
  assumes "m \<noteq> 0" "m \<le> POSE_GRAPH_MAX_M" "edges_spec (pose_graph_parameter_n m) (unat m) N" "r < unat m"
  shows "output_labels H seed m al ! r
    = labels_of (node_label H seed (graph_descriptor H m (of_nat (pose_graph_parameter_n m))) al)
        (graph_nodes (pose_graph_parameter_n m)) ! hd (ranked N (int r))"
  using edges_spec_ranked [OF assms(3,4)] parameter_n_range [OF assms(1,2)] assms(4)
    length_challenge_nodes [of "pose_graph_parameter_n m" "unat m"]
  by (simp add: output_labels_def Let_def)

lemma label_edges_ok:
  assumes m: "m \<noteq> 0" "m \<le> POSE_GRAPH_MAX_M" and mal: "malloc_ok malloc" "\<forall>i s. malloc i s \<noteq> None"
    and fit: "label_buffers_fit m out buf"
  shows "\<exists>N L out' buf'. pose_graph_edges H malloc m = Some (0, Some (N, scratch_node_count m))
    \<and> do_label H seed m out buf al = Some (0, out', buf')
    \<and> labels_edges H seed (graph_descriptor H m (of_nat (pose_graph_parameter_n m))) al N L
    \<and> (\<forall>r<unat m. \<exists>i. ranked N (int r) = [i] \<and> rd out' (r * POSE_HASH_BYTES) POSE_HASH_BYTES = Some (L ! i))"
proof -
  let ?n = "pose_graph_parameter_n m"
  let ?L = "labels_of (node_label H seed (graph_descriptor H m (of_nat ?n)) al) (graph_nodes ?n)"
  obtain N where N: "pose_graph_edges H malloc m = Some (0, Some (N, scratch_node_count m))"
    "edges_spec ?n (unat m) N" using pose_graph_edges_ok [OF m mal] by blast
  obtain out' buf' where o: "do_label H seed m out buf al = Some (0, out', buf')"
    "rd out' 0 (unat m * POSE_HASH_BYTES) = Some (concat (output_labels H seed m al))"
    using do_label_ok [OF m fit, of seed al] by blast
  note l = length_output_labels [OF m(1), of H seed al]
  have "rd out' (r * POSE_HASH_BYTES) POSE_HASH_BYTES = Some (output_labels H seed m al ! r)" if "r < unat m" for r
    using rd_concat_nth [of out' "output_labels H seed m al" POSE_HASH_BYTES r] o(2) l that length_output_label by simp
  then have "\<exists>i. ranked N (int r) = [i] \<and> rd out' (r * POSE_HASH_BYTES) POSE_HASH_BYTES = Some (?L ! i)"
    if "r < unat m" for r
    using output_label_ranked [OF m N(2) that] edges_spec_ranked [OF N(2) that] parameter_n_range [OF m] that by simp
  then show ?thesis
    using N(1) o(1) edges_spec_labels [OF N(2)] parameter_n_range [OF m] by blast
qed

text \<open>The prover's answer to a challenge is the block that a labeling stored.\<close>

lemma challenge_answers_label:
  assumes "malloc_ok malloc" "\<forall>i s. malloc i s \<noteq> None" "m \<le> POSE_GRAPH_MAX_M" "idx < m"
    and "POSE_HASH_BYTES \<le> length out" "unat m * POSE_HASH_BYTES \<le> length region"
  shows "\<exists>out' region'. pose_graph_challenge H malloc seed m idx out al = Some (0, out')
    \<and> pose_graph_label H malloc seed m region al = Some (0, region')
    \<and> rd region' (unat idx * POSE_HASH_BYTES) POSE_HASH_BYTES = Some (take POSE_HASH_BYTES out')"
proof -
  have m: "m \<noteq> 0" using assms(4) by auto
  let ?L = "output_labels H seed m al"
  obtain out' where o: "pose_graph_challenge H malloc seed m idx out al = Some (0, out')"
    "take POSE_HASH_BYTES out' = ?L ! unat idx"
    using pose_graph_challenge_ok [of malloc m idx out seed al] assms by blast
  obtain region' where r: "pose_graph_label H malloc seed m region al = Some (0, region')"
    "rd region' 0 (unat m * POSE_HASH_BYTES) = Some (concat ?L)"
    using pose_graph_label_ok [of malloc m region seed al] assms m by blast
  have l: "length ?L = unat m" by (rule length_output_labels [OF m])
  have "rd region' (unat idx * POSE_HASH_BYTES) POSE_HASH_BYTES = Some (?L ! unat idx)"
    using rd_concat_nth [of region' ?L POSE_HASH_BYTES "unat idx"] r(2) l assms(4) length_output_label
    by (simp add: word_less_nat_alt)
  then show ?thesis using o r(1) by auto
qed

text \<open>The outcome of every request: 0 exactly for a valid one with its allocations, else \<open>-1\<close> and no write.\<close>

lemma pose_graph_label_outcome:
  assumes "malloc_ok malloc" "unat m * POSE_HASH_BYTES \<le> length out"
  shows "\<exists>rc out'. pose_graph_label H malloc seed m out al = Some (rc, out')
    \<and> (if m \<noteq> 0 \<and> m \<le> POSE_GRAPH_MAX_M \<and> malloc 0 (label_scratch_bytes m) \<noteq> None then rc = 0 else rc = -1 \<and> out' = out)"
proof (cases "m \<noteq> 0 \<and> m \<le> POSE_GRAPH_MAX_M \<and> malloc 0 (label_scratch_bytes m) \<noteq> None")
  case True
  then show ?thesis using pose_graph_label_ok [OF assms(1) _ _ _ assms(2), of seed al] by auto
next
  case False
  then show ?thesis by (auto simp: pose_graph_label_def do_label_def split: option.splits)
qed

lemma pose_graph_challenge_outcome:
  assumes "malloc_ok malloc" "POSE_HASH_BYTES \<le> length out"
  shows "\<exists>rc out'. pose_graph_challenge H malloc seed m idx out al = Some (rc, out')
    \<and> (if idx < m \<and> m \<le> POSE_GRAPH_MAX_M \<and> malloc 0 (m * of_nat POSE_HASH_BYTES) \<noteq> None
          \<and> malloc 1 (label_scratch_bytes m) \<noteq> None
       then rc = 0 else rc = -1 \<and> out' = out)"
proof (cases "idx < m \<and> m \<le> POSE_GRAPH_MAX_M \<and> malloc 0 (m * of_nat POSE_HASH_BYTES) \<noteq> None
          \<and> malloc 1 (label_scratch_bytes m) \<noteq> None")
  case True
  then show ?thesis using pose_graph_challenge_ok [OF assms(1) _ _ _ _ assms(2), of m idx seed al] by auto
next
  case False
  then show ?thesis
    by (auto simp: pose_graph_challenge_def do_label_def not_less not_le split: option.splits)
qed

end

end
