(* ===== verification/Region.thy ===== *)
theory Region
  imports Labeling Inplace_Label
begin

section \<open>Labeling a region in chunks\<close>

text \<open>
  The region functions of \<open>graph.c\<close> cut a region into chunks and label up to
  \<open>POSE_REGION_THREADS\<close> of them at a time, each by \<open>chunk_thread_fn\<close> in a thread of its own. The
  threads of a batch touch disjoint parts of the memory, so a batch is modelled as its jobs run
  one after the other in an order the environment chooses; the theorems hold for every order.
  The output buffers are a list of memories (the region alone, or the slots of a disk wave) and a
  pointer into one is a buffer number and an offset; each scratch buffer is a memory of its own.
\<close>

subsection \<open>The code\<close>

definition POSE_REGION_THREADS :: nat where "POSE_REGION_THREADS = 4"

text \<open>
  \<open>pose_label_sink_fn\<close>: from the state behind \<open>ctx\<close>, the bytes \<open>buf[0..len)\<close> and the offset, the
  return code and the new state.
\<close>

type_synonym 'c sink = "'c \<Rightarrow> bytes \<Rightarrow> u64 \<Rightarrow> int \<times> 'c"

record 'c chunk_arg =
  c_seed :: bytes
  c_m :: u64
  c_buf :: nat
  c_out :: nat
  c_scratch :: nat
  c_rc :: int
  c_algo :: hash_algo
  c_inplace :: bool
  wt_sink :: "'c sink option"
  wt_off :: u64
  wt_len :: nat

text \<open>The memory of a batch: the array \<open>args\<close>, the output buffers, the scratch buffers, the sink's state.\<close>

record 'c work =
  w_args :: "'c chunk_arg list"
  w_outs :: "bytes list"
  w_scratch :: "bytes list"
  w_ctx :: 'c

definition label_chunk :: "labeler \<Rightarrow> 'c chunk_arg \<Rightarrow> bytes \<Rightarrow> bytes \<Rightarrow> (int \<times> bytes \<times> bytes) option" where
  "label_chunk H a out scratch =
     (if c_inplace a then do_label_inplace H (c_seed a) (c_m a) out scratch (c_algo a)
      else do_label H (c_seed a) (c_m a) out scratch (c_algo a))"

definition chunk_thread_fn :: "labeler \<Rightarrow> nat \<Rightarrow> 'c work \<Rightarrow> 'c work option" where
  "chunk_thread_fn H i w = do {
     a \<leftarrow> ld (w_args w) i;
     buf \<leftarrow> ld (w_outs w) (c_buf a);
     scratch \<leftarrow> ld (w_scratch w) (c_scratch a);
     (if c_out a \<le> length buf then Some () else None);
     (rc, out, scratch') \<leftarrow> label_chunk H a (drop (c_out a) buf) scratch;
     (rc', ctx) \<leftarrow> (case (rc = 0, wt_sink a) of
         (True, Some sink) \<Rightarrow> map_option (\<lambda>bs. sink (w_ctx w) bs (wt_off a)) (rd out 0 (wt_len a))
       | _ \<Rightarrow> Some (rc, w_ctx w));
     Some (w\<lparr>w_args := (w_args w)[i := a\<lparr>c_rc := rc'\<rparr>],
             w_outs := (w_outs w)[c_buf a := take (c_out a) buf @ out],
             w_scratch := (w_scratch w)[c_scratch a := scratch'], w_ctx := ctx\<rparr>) }"

fun run_jobs :: "labeler \<Rightarrow> nat list \<Rightarrow> 'c work \<Rightarrow> 'c work option" where
  "run_jobs H [] w = Some w"
| "run_jobs H (i # is) w = do { w' \<leftarrow> chunk_thread_fn H i w; run_jobs H is w' }"

text \<open>\<open>for (i = 0; i < n; i++) if (args[i].rc != 0) { rc = args[i].rc; break; }\<close>.\<close>

fun first_rc :: "'c chunk_arg list \<Rightarrow> int" where
  "first_rc [] = 0"
| "first_rc (a # as) = (if c_rc a \<noteq> 0 then c_rc a else first_rc as)"

text \<open>
  The inner loop of the region functions. Its 64-bit block counters stay below the region's block
  count and are natural numbers here; \<open>chunk_index\<close> is 64-bit.
\<close>

definition chunk_index :: "u64 \<Rightarrow> nat \<Rightarrow> nat \<Rightarrow> u64" where
  "chunk_index offset block cb = (offset + of_nat block) div of_nat cb"

function fill_args :: "labeler \<Rightarrow> bytes \<Rightarrow> u64 \<Rightarrow> hash_algo \<Rightarrow> nat \<Rightarrow> nat \<Rightarrow> nat \<Rightarrow> nat \<Rightarrow> unit chunk_arg list \<times> nat" where
  "fill_args H seed offset algo tot cb block n =
     (if n < POSE_REGION_THREADS \<and> block < tot then
       (let this_blocks = (if tot - block > cb then cb else tot - block);
            a = \<lparr>c_seed = chunk_seed H seed (chunk_index offset block cb), c_m = of_nat this_blocks, c_buf = 0,
                 c_out = block * POSE_HASH_BYTES, c_scratch = n, c_rc = 0, c_algo = algo, c_inplace = False,
                 wt_sink = None, wt_off = 0, wt_len = 0\<rparr>;
            (as, block') = fill_args H seed offset algo tot cb (block + this_blocks) (n + 1)
        in (a # as, block'))
      else ([], block))"
  by pat_completeness auto
termination
  by (relation "measure (\<lambda>(H, seed, offset, algo, tot, cb, block, n). POSE_REGION_THREADS - n)") auto

declare fill_args.simps [simp del]

text \<open>
  What the system decides: whether the creation of thread \<open>i\<close> of the batch that starts at a block
  succeeds, and the order in which the jobs of that batch finish.
\<close>

record env =
  spawn :: "nat \<Rightarrow> nat \<Rightarrow> bool"
  finish_order :: "nat \<Rightarrow> nat list \<Rightarrow> nat list"

definition env_ok :: "env \<Rightarrow> bool" where
  "env_ok E \<longleftrightarrow> (\<forall>b js. distinct js \<longrightarrow> distinct (finish_order E b js) \<and> set (finish_order E b js) = set js)"

text \<open>A batch with a thread for every job but the last, which the calling thread runs.\<close>

definition run_spawned :: "labeler \<Rightarrow> env \<Rightarrow> nat \<Rightarrow> unit work \<Rightarrow> (int \<times> unit work) option" where
  "run_spawned H E block w =
     (let n = length (w_args w);
          launched = takeWhile (spawn E block) [0..<n - 1];
          rc = (if length launched < n - 1 then -1 else 0);
          jobs = (if rc = 0 then launched @ [n - 1] else launched)
      in do {
        w' \<leftarrow> run_jobs H (finish_order E block jobs) w;
        Some (if rc = 0 then first_rc (w_args w') else rc, w') })"

text \<open>A batch on the pool: every job runs (theory \<open>Pool\<close>).\<close>

definition run_pooled :: "labeler \<Rightarrow> env \<Rightarrow> nat \<Rightarrow> 'c work \<Rightarrow> (int \<times> 'c work) option" where
  "run_pooled H E block w = do {
     w' \<leftarrow> run_jobs H (finish_order E block [0..<length (w_args w)]) w;
     Some (first_rc (w_args w'), w') }"

text \<open>
  The outer loop, for either kind of batch. A zero chunk size would divide by zero; the callers
  never have one.
\<close>

lemma fill_args_ge: "snd (fill_args H seed offset algo tot cb block n) \<ge> block"
proof (induction H seed offset algo tot cb block n rule: fill_args.induct)
  case (1 H seed offset algo tot cb block n)
  show ?case
    using "1.IH" [OF _ refl refl] by (subst fill_args.simps) (auto simp: Let_def case_prod_unfold)
qed

lemma fill_args_advances:
  assumes "0 < cb" "n < POSE_REGION_THREADS" "block < tot"
  shows "snd (fill_args H seed offset algo tot cb block n) > block"
  using assms fill_args_ge [of "block + cb" H seed offset algo tot cb "n + 1"]
    fill_args_ge [of "tot" H seed offset algo tot cb "n + 1"]
  by (subst fill_args.simps) (auto simp: Let_def case_prod_unfold)

function region_loop ::
  "(nat \<Rightarrow> unit work \<Rightarrow> (int \<times> unit work) option) \<Rightarrow> labeler \<Rightarrow> bytes \<Rightarrow> u64 \<Rightarrow> hash_algo \<Rightarrow> nat \<Rightarrow> nat \<Rightarrow> nat \<Rightarrow> unit work
    \<Rightarrow> (int \<times> unit work) option" where
  "region_loop run H seed offset algo tot cb block w =
     (if block < tot then
       (if cb = 0 then None
        else
         (let (args, block') = fill_args H seed offset algo tot cb block 0 in do {
            (rc, w') \<leftarrow> run block (w\<lparr>w_args := args\<rparr>);
            if rc = 0 then region_loop run H seed offset algo tot cb block' w' else Some (rc, w') }))
      else Some (0, w))"
  by pat_completeness auto
termination
proof (relation "measure (\<lambda>(run, H, seed, offset, algo, tot, cb, block, w). tot - block)", goal_cases)
  case (2 run H seed offset algo tot cb block w x args block')
  then have "block < snd x"
    using fill_args_advances [of cb 0 block tot H seed offset algo] by (simp add: POSE_REGION_THREADS_def)
  moreover have "snd x = block'" using 2(4) by (metis snd_conv)
  ultimately show ?case using 2(1) by simp
qed simp

declare region_loop.simps [simp del]

definition region_args_bad :: "bytes option \<Rightarrow> u64 \<Rightarrow> bool" where
  "region_args_bad region region_len \<longleftrightarrow> region = None \<or> region_len = 0 \<or> region_len mod of_nat POSE_HASH_BYTES \<noteq> 0"

text \<open>The scratch buffers are the caller's; the outcome is the return code and the region.\<close>

definition label_region_with ::
  "(nat \<Rightarrow> unit work \<Rightarrow> (int \<times> unit work) option) \<Rightarrow> labeler \<Rightarrow> bytes \<Rightarrow> bytes option \<Rightarrow> u64 \<Rightarrow> u64 \<Rightarrow> bytes list
    \<Rightarrow> hash_algo \<Rightarrow> u32 \<Rightarrow> (int \<times> bytes option) option" where
  "label_region_with run H seed region region_len offset scratch algo chunk_blocks =
     (let cb = unat (resolve_chunk_blocks chunk_blocks)
      in if region_args_bad region region_len then Some (-1, region)
         else do {
           (rc, w) \<leftarrow> region_loop run H seed offset algo (unat (region_len div of_nat POSE_HASH_BYTES)) cb 0
                      \<lparr>w_args = [], w_outs = [the region], w_scratch = scratch, w_ctx = ()\<rparr>;
           Some (rc, Some (w_outs w ! 0)) })"

definition pose_graph_label_region_ex ::
  "labeler \<Rightarrow> env \<Rightarrow> bytes \<Rightarrow> bytes option \<Rightarrow> u64 \<Rightarrow> u64 \<Rightarrow> bytes list \<Rightarrow> hash_algo \<Rightarrow> u32 \<Rightarrow> (int \<times> bytes option) option" where
  "pose_graph_label_region_ex H E = label_region_with (run_spawned H E) H"

definition pose_graph_label_region_pooled ::
  "labeler \<Rightarrow> env \<Rightarrow> bytes \<Rightarrow> bytes option \<Rightarrow> u64 \<Rightarrow> u64 \<Rightarrow> bytes list \<Rightarrow> hash_algo \<Rightarrow> u32 \<Rightarrow> (int \<times> bytes option) option" where
  "pose_graph_label_region_pooled H E = label_region_with (run_pooled H E) H"

definition pose_graph_label_region ::
  "labeler \<Rightarrow> env \<Rightarrow> (nat \<Rightarrow> u64 \<Rightarrow> bytes option) \<Rightarrow> bytes \<Rightarrow> bytes option \<Rightarrow> u64 \<Rightarrow> u64 \<Rightarrow> hash_algo \<Rightarrow> u32
    \<Rightarrow> (int \<times> bytes option) option" where
  "pose_graph_label_region H E malloc seed region region_len offset algo chunk_blocks =
     (if region_args_bad region region_len then Some (-1, region)
      else
       (let scratch_bytes = pose_graph_scratch_bytes (resolve_chunk_blocks chunk_blocks)
        in case those (map (\<lambda>i. malloc i scratch_bytes) [0..<POSE_REGION_THREADS]) of
             None \<Rightarrow> Some (-1, region)
           | Some scratch \<Rightarrow> pose_graph_label_region_ex H E seed region region_len offset scratch algo chunk_blocks))"

subsection \<open>The in-place region and the disk wave\<close>

text \<open>The seed of super-chunk \<open>j\<close>: \<open>(region_block_offset + j * chunk_blocks) / chunk_blocks\<close>.\<close>

definition super_index :: "u64 \<Rightarrow> u64 \<Rightarrow> nat \<Rightarrow> u64" where
  "super_index offset j cb = (offset + j * of_nat cb) div of_nat cb"

function fill_inplace :: "labeler \<Rightarrow> bytes \<Rightarrow> u64 \<Rightarrow> hash_algo \<Rightarrow> nat \<Rightarrow> nat \<Rightarrow> nat \<Rightarrow> nat \<Rightarrow> unit chunk_arg list \<times> nat" where
  "fill_inplace H seed offset algo tot cb block n =
     (if n < POSE_REGION_THREADS \<and> block + cb \<le> tot then
       (let j = block div cb;
            a = \<lparr>c_seed = chunk_seed H seed (super_index offset (of_nat j) cb), c_m = of_nat cb, c_buf = 0,
                 c_out = block * POSE_HASH_BYTES, c_scratch = n, c_rc = 0, c_algo = algo, c_inplace = True,
                 wt_sink = None, wt_off = 0, wt_len = 0\<rparr>;
            (as, block') = fill_inplace H seed offset algo tot cb (block + cb) (n + 1)
        in (a # as, block'))
      else ([], block))"
  by pat_completeness auto
termination
  by (relation "measure (\<lambda>(H, seed, offset, algo, tot, cb, block, n). POSE_REGION_THREADS - n)") auto

declare fill_inplace.simps [simp del]

lemma fill_inplace_ge: "snd (fill_inplace H seed offset algo tot cb block n) \<ge> block"
proof (induction H seed offset algo tot cb block n rule: fill_inplace.induct)
  case (1 H seed offset algo tot cb block n)
  show ?case
    using "1.IH" [OF _ refl refl] by (subst fill_inplace.simps) (auto simp: Let_def case_prod_unfold)
qed

lemma fill_inplace_advances:
  assumes "0 < cb" "n < POSE_REGION_THREADS" "block + cb \<le> tot"
  shows "snd (fill_inplace H seed offset algo tot cb block n) > block"
  using assms fill_inplace_ge [of "block + cb" H seed offset algo tot cb "n + 1"]
  by (subst fill_inplace.simps) (auto simp: Let_def case_prod_unfold)

function inplace_loop ::
  "labeler \<Rightarrow> env \<Rightarrow> bytes \<Rightarrow> u64 \<Rightarrow> hash_algo \<Rightarrow> nat \<Rightarrow> nat \<Rightarrow> nat \<Rightarrow> unit work \<Rightarrow> (int \<times> unit work) option" where
  "inplace_loop H E seed offset algo tot cb block w =
     (if block + cb \<le> tot then
       (if cb = 0 then None
        else
         (let (args, block') = fill_inplace H seed offset algo tot cb block 0 in do {
            (rc, w') \<leftarrow> run_pooled H E block (w\<lparr>w_args := args\<rparr>);
            if rc = 0 then inplace_loop H E seed offset algo tot cb block' w' else Some (rc, w') }))
      else Some (0, w))"
  by pat_completeness auto
termination
proof (relation "measure (\<lambda>(H, E, seed, offset, algo, tot, cb, block, w). tot + 1 - block)", goal_cases)
  case (2 H E seed offset algo tot cb block w x args block')
  then have "block < snd x"
    using fill_inplace_advances [of cb 0 block tot H seed offset algo] by (simp add: POSE_REGION_THREADS_def)
  moreover have "snd x = block'" using 2(4) by (metis snd_conv)
  ultimately show ?case using 2(1) by simp
qed simp

declare inplace_loop.simps [simp del]

definition pose_graph_label_region_pooled_inplace ::
  "labeler \<Rightarrow> env \<Rightarrow> bytes \<Rightarrow> bytes option \<Rightarrow> u64 \<Rightarrow> u64 \<Rightarrow> bytes list \<Rightarrow> hash_algo \<Rightarrow> u32 \<Rightarrow> (int \<times> bytes option) option" where
  "pose_graph_label_region_pooled_inplace H E seed region region_len offset scratch algo chunk_blocks =
     (let cb = unat (resolve_chunk_blocks chunk_blocks)
      in if region_args_bad region region_len then Some (-1, region)
         else if unat region_len < cb * POSE_HASH_BYTES then Some (0, region)
         else do {
           (rc, w) \<leftarrow> inplace_loop H E seed offset algo (unat (region_len div of_nat POSE_HASH_BYTES)) cb 0
                      \<lparr>w_args = [], w_outs = [the region], w_scratch = scratch, w_ctx = ()\<rparr>;
           Some (rc, Some (w_outs w ! 0)) })"

definition wave_arg ::
  "labeler \<Rightarrow> bytes \<Rightarrow> hash_algo \<Rightarrow> nat \<Rightarrow> u64 \<Rightarrow> u64 \<Rightarrow> u64 \<Rightarrow> nat \<Rightarrow> 'c sink \<Rightarrow> nat \<Rightarrow> 'c chunk_arg" where
  "wave_arg H seed algo cb super_index_base offset byte_start write_len sink i =
     (let j = super_index_base + of_nat i
      in \<lparr>c_seed = chunk_seed H seed (super_index offset j cb), c_m = of_nat cb, c_buf = i, c_out = 0, c_scratch = i,
          c_rc = 0, c_algo = algo, c_inplace = True, wt_sink = Some sink, wt_off = byte_start + j * of_nat write_len,
          wt_len = write_len\<rparr>)"

text \<open>\<open>sink\<close> is \<open>None\<close> for a null pointer; the outcome includes the slots and the sink's state.\<close>

definition pose_graph_label_disk_wave ::
  "labeler \<Rightarrow> env \<Rightarrow> bytes \<Rightarrow> bytes list \<Rightarrow> bytes list \<Rightarrow> hash_algo \<Rightarrow> u32 \<Rightarrow> int \<Rightarrow> u64 \<Rightarrow> u64 \<Rightarrow> u64 \<Rightarrow> nat
    \<Rightarrow> 'c sink option \<Rightarrow> 'c \<Rightarrow> (int \<times> bytes list \<times> 'c) option" where
  "pose_graph_label_disk_wave H E seed slots scratch algo chunk_blocks n_this super_index_base offset byte_start write_len
      sink ctx =
     (let cb = unat (resolve_chunk_blocks chunk_blocks)
      in if n_this < 1 \<or> n_this > int POSE_REGION_THREADS \<or> sink = None then Some (-1, slots, ctx)
         else
          (let args = map (wave_arg H seed algo cb super_index_base offset byte_start write_len (the sink))
                        [0..<nat n_this]
           in do {
             (rc, w) \<leftarrow> run_pooled H E 0 \<lparr>w_args = args, w_outs = slots, w_scratch = scratch, w_ctx = ctx\<rparr>;
             Some (rc, w_outs w, w_ctx w) }))"

text \<open>\<open>pose_graph_challenge_node_ids\<close>: the array it leaves, or \<open>None\<close> when it returns without writing.\<close>

definition pose_graph_challenge_node_ids :: "u32 \<Rightarrow> u64 list option" where
  "pose_graph_challenge_node_ids chunk_blocks =
     (let cb = resolve_chunk_blocks chunk_blocks
      in if cb = 0 \<or> ucast cb > POSE_GRAPH_MAX_M then None else Some (map of_nat [0..<unat cb]))"

end
