(* ===== verification/Region_Correct.thy ===== *)
theory Region_Correct
  imports Region
begin

section \<open>A batch of chunks\<close>

text \<open>
  What one job and one batch compute. The jobs of a batch have disjoint footprints, so in every order
  each leaves the labels of its chunk in its slice, no other byte changes, and a job with a sink has
  handed it those labels.
\<close>

definition chunk_bytes :: "'c chunk_arg \<Rightarrow> nat" where "chunk_bytes a = unat (c_m a) * POSE_HASH_BYTES"

text \<open>The buffers of a job, for either labeler.\<close>

definition job_fits :: "bytes list \<Rightarrow> bytes list \<Rightarrow> 'c chunk_arg \<Rightarrow> bool" where
  "job_fits outs scratch a \<longleftrightarrow> c_m a \<noteq> 0 \<and> c_m a \<le> POSE_GRAPH_MAX_M
     \<and> c_buf a < length outs \<and> c_scratch a < length scratch \<and> c_out a \<le> length (outs ! c_buf a)
     \<and> (if c_inplace a then inplace_buffers_fit else label_buffers_fit) (c_m a) (drop (c_out a) (outs ! c_buf a))
         (scratch ! c_scratch a)
     \<and> (wt_sink a \<noteq> None \<longrightarrow> c_out a + wt_len a \<le> length (outs ! c_buf a))"

text \<open>The bytes a job reads or writes in its output buffer.\<close>

definition foot :: "'c chunk_arg \<Rightarrow> nat set" where
  "foot a = cells_of (c_out a) (max (chunk_bytes a) (if wt_sink a = None then 0 else wt_len a))"

definition apart :: "'c chunk_arg \<Rightarrow> 'c chunk_arg \<Rightarrow> bool" where
  "apart a b \<longleftrightarrow> c_scratch a \<noteq> c_scratch b \<and> (c_buf a \<noteq> c_buf b \<or> foot a \<inter> foot b = {})"

text \<open>The labels of a job, and what it hands to its sink: labels, then padding of its buffer.\<close>

definition job_output :: "labeler \<Rightarrow> 'c chunk_arg \<Rightarrow> label list" where
  "job_output H a = output_labels H (c_seed a) (c_m a) (c_algo a)"

definition payload :: "labeler \<Rightarrow> bytes list \<Rightarrow> 'c chunk_arg \<Rightarrow> bytes" where
  "payload H outs a = take (wt_len a) (concat (job_output H a) @ drop (c_out a + chunk_bytes a) (outs ! c_buf a))"

definition job_sink :: "labeler \<Rightarrow> bytes list \<Rightarrow> 'c chunk_arg \<Rightarrow> 'c \<Rightarrow> int \<times> 'c" where
  "job_sink H outs a c = (case wt_sink a of None \<Rightarrow> (0, c) | Some sink \<Rightarrow> sink c (payload H outs a) (wt_off a))"

definition holds :: "labeler \<Rightarrow> bytes list \<Rightarrow> 'c chunk_arg \<Rightarrow> bool" where
  "holds H outs a \<longleftrightarrow> rd (outs ! c_buf a) (c_out a) (chunk_bytes a) = Some (concat (job_output H a))"

text \<open>Same buffer sizes.\<close>

definition same_shape :: "'c work \<Rightarrow> 'c work \<Rightarrow> bool" where
  "same_shape w w' \<longleftrightarrow> map length (w_outs w') = map length (w_outs w) \<and> map length (w_scratch w') = map length (w_scratch w)"

lemma same_shape_trans: "same_shape u v \<Longrightarrow> same_shape v w \<Longrightarrow> same_shape u w"
  by (simp add: same_shape_def)

lemma map_length_nth: "map length xs = map length ys \<Longrightarrow> length xs = length ys \<and> (\<forall>i<length xs. length (xs ! i) = length (ys ! i))"
  by (metis length_map nth_map)

lemma job_fits_shape:
  assumes "same_shape w w'"
  shows "job_fits (w_outs w') (w_scratch w') a = job_fits (w_outs w) (w_scratch w) a"
  using assms map_length_nth [of "w_outs w'" "w_outs w"] map_length_nth [of "w_scratch w'" "w_scratch w"]
  by (auto simp: same_shape_def job_fits_def inplace_buffers_fit_def label_buffers_fit_def Let_def simp del: scount.simps)

lemma rc_irrelevant [simp]:
  "job_fits outs scratch (a\<lparr>c_rc := r\<rparr>) = job_fits outs scratch a" "foot (a\<lparr>c_rc := r\<rparr>) = foot a"
  "apart (a\<lparr>c_rc := r\<rparr>) b = apart a b" "apart a (b\<lparr>c_rc := r\<rparr>) = apart a b"
  "job_output H (a\<lparr>c_rc := r\<rparr>) = job_output H a" "chunk_bytes (a\<lparr>c_rc := r\<rparr>) = chunk_bytes a"
  "payload H outs (a\<lparr>c_rc := r\<rparr>) = payload H outs a" "job_sink H outs (a\<lparr>c_rc := r\<rparr>) = job_sink H outs a"
  "holds H outs (a\<lparr>c_rc := r\<rparr>) = holds H outs a"
  by (simp_all add: job_fits_def foot_def apart_def job_output_def chunk_bytes_def payload_def holds_def fun_eq_iff job_sink_def
      split: option.split)

lemma rd_after: "p \<le> length b \<Longrightarrow> rd (take p b @ xs) p n = rd xs 0 n"
  by (simp add: rd_def min_def)

lemma agree_off_after:
  assumes "agree_off (cells_of 0 n) (drop p b) xs" "p \<le> length b"
  shows "agree_off (cells_of p n) b (take p b @ xs)"
  using assms by (auto simp: agree_off_def nth_append min_def)

text \<open>The bytes of \<open>A\<close> in buffer \<open>k\<close> may change.\<close>

definition outs_off :: "nat \<Rightarrow> nat set \<Rightarrow> bytes list \<Rightarrow> bytes list \<Rightarrow> bool" where
  "outs_off k A outs outs' \<longleftrightarrow> length outs' = length outs \<and> (\<forall>b<length outs. b \<noteq> k \<longrightarrow> outs' ! b = outs ! b)
     \<and> (k < length outs \<longrightarrow> agree_off A (outs ! k) (outs' ! k))"

lemma foot_bytes: "cells_of (c_out a) (chunk_bytes a) \<subseteq> foot a"
  by (auto simp: foot_def)

lemma holds_frame:
  assumes "holds H outs a" "outs_off k A outs outs'" "c_buf a < length outs" "c_buf a \<noteq> k \<or> foot a \<inter> A = {}"
  shows "holds H outs' a"
proof (cases "c_buf a = k")
  case True
  then have "agree_off A (outs ! c_buf a) (outs' ! c_buf a)" "cells_of (c_out a) (chunk_bytes a) \<inter> A = {}"
    using assms foot_bytes [of a] by (auto simp: outs_off_def)
  then show ?thesis using assms(1) rd_frame unfolding holds_def by metis
next
  case False
  then show ?thesis using assms by (simp add: outs_off_def holds_def)
qed

lemma payload_frame:
  assumes "outs_off k A outs outs'" "c_buf a < length outs" "c_buf a \<noteq> k \<or> foot a \<inter> A = {}" "wt_sink a \<noteq> None"
    and "length (concat (job_output H a)) = chunk_bytes a"
  shows "payload H outs' a = payload H outs a"
proof (cases "c_buf a = k")
  case True
  let ?o = "outs ! c_buf a" and ?o' = "outs' ! c_buf a" and ?p = "c_out a + chunk_bytes a" and ?n = "wt_len a - chunk_bytes a"
  have g: "agree_off A ?o ?o'" "foot a \<inter> A = {}" using assms True by (auto simp: outs_off_def)
  have "take ?n (drop ?p ?o') = take ?n (drop ?p ?o)"
  proof (rule nth_equalityI)
    show "length (take ?n (drop ?p ?o')) = length (take ?n (drop ?p ?o))" using g(1) by (simp add: agree_off_def)
    fix i assume i: "i < length (take ?n (drop ?p ?o'))"
    then have "?p + i \<in> foot a" using assms(4) by (auto simp: foot_def)
    then have "?p + i \<notin> A" using g(2) by blast
    moreover have "?p + i < length ?o" "length ?o' = length ?o" using i g(1) by (auto simp: agree_off_def)
    ultimately have "?o' ! (?p + i) = ?o ! (?p + i)" using g(1) by (simp add: agree_off_def)
    then show "take ?n (drop ?p ?o') ! i = take ?n (drop ?p ?o) ! i"
      using i \<open>?p + i < length ?o\<close> \<open>length ?o' = length ?o\<close> by simp
  qed
  then show ?thesis using assms(5) by (simp add: payload_def)
next
  case False
  then show ?thesis using assms(1,2) by (simp add: outs_off_def payload_def)
qed

subsection \<open>One job\<close>

text \<open>What \<open>chunk_thread_fn\<close> on job \<open>i\<close> does to the memory.\<close>

definition job_done :: "labeler \<Rightarrow> nat \<Rightarrow> 'c work \<Rightarrow> 'c work \<Rightarrow> bool" where
  "job_done H i w w' \<longleftrightarrow>
     (let a = w_args w ! i; r = job_sink H (w_outs w) a (w_ctx w)
      in same_shape w w' \<and> w_args w' = (w_args w)[i := a\<lparr>c_rc := fst r\<rparr>] \<and> w_ctx w' = snd r
         \<and> holds H (w_outs w') a \<and> outs_off (c_buf a) (foot a) (w_outs w) (w_outs w'))"

context node_hash begin

lemma length_job_output: "c_m a \<noteq> 0 \<Longrightarrow> length (concat (job_output H a)) = chunk_bytes a"
  using length_concat_const [of "job_output H a" POSE_HASH_BYTES] length_output_label length_output_labels [of "c_m a" H]
  by (simp add: job_output_def chunk_bytes_def)

lemma label_chunk_ok:
  assumes "job_fits outs scratch a"
  defines "buf \<equiv> drop (c_out a) (outs ! c_buf a)"
  shows "\<exists>out s. label_chunk H a buf (scratch ! c_scratch a) = Some (0, out, s)
    \<and> rd out 0 (chunk_bytes a) = Some (concat (job_output H a)) \<and> agree_off (cells_of 0 (chunk_bytes a)) buf out
    \<and> length s = length (scratch ! c_scratch a)"
proof (cases "c_inplace a")
  case True
  then show ?thesis
    using do_label_inplace_ok [of "c_m a" buf "scratch ! c_scratch a" "c_seed a" "c_algo a"] assms
    by (auto simp: label_chunk_def job_fits_def job_output_def chunk_bytes_def)
next
  case False
  then show ?thesis
    using do_label_ok [of "c_m a" buf "scratch ! c_scratch a" "c_seed a" "c_algo a"] assms
    by (auto simp: label_chunk_def job_fits_def job_output_def chunk_bytes_def)
qed

lemma chunk_thread_ok:
  assumes i: "i < length (w_args w)" and fits: "job_fits (w_outs w) (w_scratch w) (w_args w ! i)"
  shows "\<exists>w'. chunk_thread_fn H i w = Some w' \<and> job_done H i w w'"
proof -
  define a buf where "a = w_args w ! i" and "buf = w_outs w ! c_buf a"
  have f: "c_m a \<noteq> 0" "c_buf a < length (w_outs w)" "c_scratch a < length (w_scratch w)" "c_out a \<le> length buf"
    "wt_sink a \<noteq> None \<Longrightarrow> c_out a + wt_len a \<le> length buf"
    using fits by (auto simp: job_fits_def a_def buf_def)
  obtain out s where o: "label_chunk H a (drop (c_out a) buf) (w_scratch w ! c_scratch a) = Some (0, out, s)"
    "rd out 0 (chunk_bytes a) = Some (concat (job_output H a))"
    "agree_off (cells_of 0 (chunk_bytes a)) (drop (c_out a) buf) out" "length s = length (w_scratch w ! c_scratch a)"
    using label_chunk_ok [OF fits] unfolding a_def [symmetric] buf_def [symmetric] by blast
  let ?b = "take (c_out a) buf @ out" and ?r = "job_sink H (w_outs w) a (w_ctx w)"
  have len: "length out = length buf - c_out a" using o(3) by (simp add: agree_off_def)
  have "out = concat (job_output H a) @ drop (c_out a + chunk_bytes a) buf"
  proof -
    have "chunk_bytes a \<le> length out" "take (chunk_bytes a) out = concat (job_output H a)"
      using o(2) by (auto simp: rd_def split: if_splits)
    moreover have "drop (chunk_bytes a) out = drop (c_out a + chunk_bytes a) buf"
      using o(3) len by (intro nth_equalityI) (auto simp: agree_off_def add.commute add.left_commute)
    ultimately show ?thesis by (metis append_take_drop_id)
  qed
  then have pay: "wt_sink a \<noteq> None \<Longrightarrow> rd out 0 (wt_len a) = Some (payload H (w_outs w) a)"
    using f(5) len by (simp add: rd_def payload_def buf_def [symmetric])
  have "chunk_thread_fn H i w = Some (w\<lparr>w_args := (w_args w)[i := a\<lparr>c_rc := fst ?r\<rparr>],
      w_outs := (w_outs w)[c_buf a := ?b], w_scratch := (w_scratch w)[c_scratch a := s], w_ctx := snd ?r\<rparr>)" (is "_ = Some ?w")
    using i f o(1) pay
    by (auto simp: chunk_thread_fn_def ld_def a_def [symmetric] buf_def [symmetric] job_sink_def split: option.splits prod.splits)
  moreover have "same_shape w ?w"
    using f o(4) len by (auto simp: same_shape_def buf_def nth_list_update intro!: nth_equalityI)
  moreover have "holds H (w_outs ?w) a" using o(2) f by (simp add: holds_def rd_after)
  moreover have "outs_off (c_buf a) (foot a) (w_outs w) (w_outs ?w)"
    using agree_off_mono [OF agree_off_after [OF o(3) f(4)] foot_bytes] f(2) by (simp add: outs_off_def buf_def)
  ultimately show ?thesis by (intro exI [of _ ?w]) (simp add: job_done_def a_def [symmetric] Let_def)
qed

end

subsection \<open>The jobs of a batch, in any order\<close>

text \<open>The sink calls of a batch, in the order of its jobs.\<close>

fun run_sinks :: "('c \<Rightarrow> int \<times> 'c) list \<Rightarrow> 'c \<Rightarrow> int list \<times> 'c" where
  "run_sinks [] c = ([], c)"
| "run_sinks (f # fs) c = (let (r, c1) = f c; (rs, c2) = run_sinks fs c1 in (r # rs, c2))"

definition sinks :: "labeler \<Rightarrow> nat list \<Rightarrow> 'c work \<Rightarrow> int list \<times> 'c" where
  "sinks H is w = run_sinks (map (\<lambda>i. job_sink H (w_outs w) (w_args w ! i)) is) (w_ctx w)"

definition touched :: "'c chunk_arg list \<Rightarrow> nat list \<Rightarrow> nat \<Rightarrow> nat set" where
  "touched args is k = \<Union> (foot ` {a. \<exists>i\<in>set is. a = args ! i \<and> c_buf a = k})"

definition batch_done :: "labeler \<Rightarrow> nat list \<Rightarrow> 'c work \<Rightarrow> 'c work \<Rightarrow> bool" where
  "batch_done H is w w' \<longleftrightarrow> same_shape w w' \<and> (\<forall>i\<in>set is. holds H (w_outs w') (w_args w ! i))
     \<and> (\<forall>k<length (w_outs w). agree_off (touched (w_args w) is k) (w_outs w ! k) (w_outs w' ! k))
     \<and> length (w_args w') = length (w_args w) \<and> (\<forall>j. j \<notin> set is \<longrightarrow> w_args w' ! j = w_args w ! j)
     \<and> map (\<lambda>i. c_rc (w_args w' ! i)) is = fst (sinks H is w) \<and> w_ctx w' = snd (sinks H is w)"

text \<open>A batch that can run: the jobs fit and do not overlap.\<close>

definition batch_fits :: "'c work \<Rightarrow> bool" where
  "batch_fits w \<longleftrightarrow> (\<forall>i<length (w_args w). job_fits (w_outs w) (w_scratch w) (w_args w ! i))
     \<and> (\<forall>i<length (w_args w). \<forall>j<length (w_args w). i \<noteq> j \<longrightarrow> apart (w_args w ! i) (w_args w ! j))"

lemma batch_fitsD:
  assumes "batch_fits w"
  shows "i < length (w_args w) \<Longrightarrow> job_fits (w_outs w) (w_scratch w) (w_args w ! i)"
    and "i < length (w_args w) \<Longrightarrow> j < length (w_args w) \<Longrightarrow> i \<noteq> j \<Longrightarrow> apart (w_args w ! i) (w_args w ! j)"
  using assms unfolding batch_fits_def by blast+

lemma batch_fits_step:
  assumes "batch_fits w" "job_done H i w w1"
  shows "batch_fits w1"
proof -
  obtain r where r: "w_args w1 = (w_args w)[i := (w_args w ! i)\<lparr>c_rc := r\<rparr>]" and sh: "same_shape w w1"
    using assms(2) by (auto simp: job_done_def Let_def)
  have same: "w_args w1 ! j = w_args w ! j \<or> w_args w1 ! j = (w_args w ! j)\<lparr>c_rc := r\<rparr>" if "j < length (w_args w)" for j
    using that by (cases "i = j") (simp_all add: r)
  have "job_fits (w_outs w1) (w_scratch w1) (w_args w1 ! j)" if "j < length (w_args w)" for j
    using same [OF that] batch_fitsD(1) [OF assms(1) that] that job_fits_shape [OF sh] by (metis rc_irrelevant(1))
  moreover have "apart (w_args w1 ! j) (w_args w1 ! k)" if "j < length (w_args w)" "k < length (w_args w)" "j \<noteq> k" for j k
    using batch_fitsD(2) [OF assms(1) that] same [OF that(1)] same [OF that(2)] by (metis rc_irrelevant(3,4))
  ultimately show ?thesis by (simp add: batch_fits_def r)
qed

lemma touched_Cons: "touched args (i # is) k = (if c_buf (args ! i) = k then foot (args ! i) else {}) \<union> touched args is k"
  by (auto simp: touched_def)

lemma job_off: "job_done H i w w1 \<Longrightarrow> outs_off (c_buf (w_args w ! i)) (foot (w_args w ! i)) (w_outs w) (w_outs w1)"
  by (simp add: job_done_def Let_def)

lemma apartD: "apart a b \<Longrightarrow> c_buf b \<noteq> c_buf a \<or> foot b \<inter> foot a = {}"
  by (auto simp: apart_def)

lemma same_shape_outs: "same_shape w w' \<Longrightarrow> length (w_outs w') = length (w_outs w)"
  using map_length_nth [of "w_outs w'" "w_outs w"] by (simp add: same_shape_def)

context node_hash begin

text \<open>A job leaves the others' sink calls as they were.\<close>

lemma sinks_step:
  assumes "batch_fits w" "job_done H i w w1" "i < length (w_args w)" "i \<notin> set is" "\<forall>j\<in>set is. j < length (w_args w)"
  shows "sinks H is w1 = run_sinks (map (\<lambda>j. job_sink H (w_outs w) (w_args w ! j)) is) (w_ctx w1)"
proof -
  have "job_sink H (w_outs w1) (w_args w1 ! j) = job_sink H (w_outs w) (w_args w ! j)" if j: "j \<in> set is" for j
  proof -
    have ne: "i \<noteq> j" "j < length (w_args w)" using assms(4,5) j by auto
    have a: "w_args w1 ! j = w_args w ! j" using assms(2) ne by (simp add: job_done_def Let_def)
    note f = batch_fitsD(1) [OF assms(1) ne(2)]
    then have g: "c_buf (w_args w ! j) < length (w_outs w)" "c_m (w_args w ! j) \<noteq> 0" by (auto simp: job_fits_def)
    note p = payload_frame [OF job_off [OF assms(2)] g(1) apartD [OF batch_fitsD(2) [OF assms(1) assms(3) ne(2) ne(1)]]
        _ length_job_output [OF g(2)]]
    show ?thesis unfolding a job_sink_def using p by (auto split: option.split)
  qed
  then show ?thesis unfolding sinks_def by (simp cong: map_cong)
qed

lemma run_jobs_ok:
  assumes "batch_fits w" "distinct is" "\<forall>i\<in>set is. i < length (w_args w)"
  shows "\<exists>w'. run_jobs H is w = Some w' \<and> batch_done H is w w'"
  using assms
proof (induction "is" arbitrary: w)
  case Nil
  then show ?case by (auto simp: batch_done_def same_shape_def sinks_def)
next
  case (Cons i "is")
  have i: "i < length (w_args w)" "i \<notin> set is" and js: "\<forall>j\<in>set is. j < length (w_args w)" using Cons.prems by auto
  obtain w1 where w1: "chunk_thread_fn H i w = Some w1" "job_done H i w w1"
    using chunk_thread_ok [OF i(1) batch_fitsD(1) [OF Cons.prems(1) i(1)]] by blast
  define r where "r = job_sink H (w_outs w) (w_args w ! i) (w_ctx w)"
  have d: "same_shape w w1" "w_args w1 = (w_args w)[i := (w_args w ! i)\<lparr>c_rc := fst r\<rparr>]" "w_ctx w1 = snd r"
    "holds H (w_outs w1) (w_args w ! i)"
    using w1(2) by (auto simp: job_done_def Let_def r_def)
  have len: "length (w_args w1) = length (w_args w)" by (simp add: d(2))
  have "batch_fits w1" "distinct is" "\<forall>j\<in>set is. j < length (w_args w1)"
    using batch_fits_step [OF Cons.prems(1) w1(2)] Cons.prems(2) js len by auto
  from Cons.IH [OF this] obtain w2 where w2: "run_jobs H is w1 = Some w2" "batch_done H is w1 w2" by blast
  note b = w2(2) [unfolded batch_done_def]
  have same: "w_args w1 ! j = w_args w ! j" if "j \<in> set is" for j using d(2) i(2) that by (cases "i = j") auto
  have tch: "touched (w_args w1) is k = touched (w_args w) is k" for k
    using same unfolding touched_def by (metis (mono_tags, lifting))
  have o1: "length (w_outs w1) = length (w_outs w)" using same_shape_outs [OF d(1)] .
  have ci: "c_buf (w_args w ! i) < length (w_outs w)" using batch_fitsD(1) [OF Cons.prems(1) i(1)] by (simp add: job_fits_def)
  have agree: "agree_off (touched (w_args w) (i # is) k) (w_outs w ! k) (w_outs w2 ! k)" if k: "k < length (w_outs w)" for k
  proof -
    have "agree_off (if c_buf (w_args w ! i) = k then foot (w_args w ! i) else {}) (w_outs w ! k) (w_outs w1 ! k)"
      using job_off [OF w1(2)] k by (auto simp: outs_off_def)
    moreover have "agree_off (touched (w_args w) is k) (w_outs w1 ! k) (w_outs w2 ! k)"
      using b k o1 by (simp add: tch)
    ultimately show ?thesis
      unfolding touched_Cons by (meson agree_off_mono agree_off_trans sup_ge1 sup_ge2)
  qed
  have "holds H (w_outs w2) (w_args w ! i)"
  proof -
    have "foot (w_args w ! i) \<inter> touched (w_args w) is (c_buf (w_args w ! i)) = {}"
      using batch_fitsD(2) [OF Cons.prems(1) i(1)] js i(2) unfolding touched_def apart_def by fastforce
    then have "cells_of (c_out (w_args w ! i)) (chunk_bytes (w_args w ! i)) \<inter> touched (w_args w) is (c_buf (w_args w ! i)) = {}"
      using foot_bytes by blast
    moreover have "agree_off (touched (w_args w) is (c_buf (w_args w ! i))) (w_outs w1 ! c_buf (w_args w ! i)) (w_outs w2 ! c_buf (w_args w ! i))"
      using b ci o1 by (simp add: tch)
    ultimately show ?thesis using d(4) rd_frame unfolding holds_def by metis
  qed
  moreover have "holds H (w_outs w2) (w_args w ! j)" if "j \<in> set is" for j
    using b that same [OF that] by metis
  moreover have "map (\<lambda>j. c_rc (w_args w2 ! j)) (i # is) = fst (sinks H (i # is) w)" "w_ctx w2 = snd (sinks H (i # is) w)"
    using b sinks_step [OF Cons.prems(1) w1(2) i js] d(3) d(2) i
    by (auto simp: sinks_def r_def [symmetric] Let_def split: prod.splits)
  moreover have "w_args w2 ! j = w_args w ! j" if "j \<notin> set (i # is)" for j
    using b that d(2) by (cases "i = j") auto
  ultimately have "batch_done H (i # is) w w2"
    using same_shape_trans [OF d(1)] b len agree unfolding batch_done_def by auto
  then show ?case using w1(1) w2(1) by auto
qed

end

end
