(* ===== verification/Region_Label.thy ===== *)
theory Region_Label
  imports Region_Correct
begin

section \<open>The labels of a region\<close>

text \<open>
  The region functions leave in every block of the region the label of that block: a function of the
  session seed, the block's place in the region and the chunk size, and of nothing else. The order
  in which threads finish and the previous contents of the buffers have no influence.
\<close>

subsection \<open>The specification\<close>

text \<open>Block \<open>b\<close> of a region of \<open>tot\<close> blocks: its rank in its chunk's output set.\<close>

definition block_label :: "labeler \<Rightarrow> bytes \<Rightarrow> u64 \<Rightarrow> hash_algo \<Rightarrow> nat \<Rightarrow> nat \<Rightarrow> nat \<Rightarrow> label" where
  "block_label H seed offset algo tot cb b =
     (let start = b div cb * cb
      in output_labels H (chunk_seed H seed (chunk_index offset start cb)) (of_nat (min cb (tot - start))) algo ! (b mod cb))"

definition blocks_labelled :: "labeler \<Rightarrow> bytes \<Rightarrow> u64 \<Rightarrow> hash_algo \<Rightarrow> nat \<Rightarrow> nat \<Rightarrow> nat \<Rightarrow> bytes \<Rightarrow> bool" where
  "blocks_labelled H seed offset algo tot cb n R \<longleftrightarrow>
     (\<forall>b<n. rd R (b * POSE_HASH_BYTES) POSE_HASH_BYTES = Some (block_label H seed offset algo tot cb b))"

subsection \<open>The arguments of a batch\<close>

definition region_arg :: "bool \<Rightarrow> labeler \<Rightarrow> bytes \<Rightarrow> u64 \<Rightarrow> hash_algo \<Rightarrow> nat \<Rightarrow> nat \<Rightarrow> nat \<Rightarrow> nat \<Rightarrow> unit chunk_arg" where
  "region_arg inplace H seed offset algo tot cb b n =
     \<lparr>c_seed = chunk_seed H seed (chunk_index offset b cb), c_m = of_nat (min cb (tot - b)), c_buf = 0,
      c_out = b * POSE_HASH_BYTES, c_scratch = n, c_rc = 0, c_algo = algo, c_inplace = inplace,
      wt_sink = None, wt_off = 0, wt_len = 0\<rparr>"

text \<open>The arguments of consecutive chunks from \<open>block\<close>, and the block they end at.\<close>

definition chunk_args ::
  "bool \<Rightarrow> labeler \<Rightarrow> bytes \<Rightarrow> u64 \<Rightarrow> hash_algo \<Rightarrow> nat \<Rightarrow> nat \<Rightarrow> nat \<Rightarrow> nat \<Rightarrow> unit chunk_arg list \<Rightarrow> nat \<Rightarrow> bool" where
  "chunk_args inplace H seed offset algo tot cb block n as block' \<longleftrightarrow>
     n + length as \<le> POSE_REGION_THREADS \<and> block' = min tot (block + length as * cb)
     \<and> (\<forall>i<length as. block + i * cb < tot \<and> as ! i = region_arg inplace H seed offset algo tot cb (block + i * cb) (n + i))"

lemma chunk_args_Cons:
  assumes "chunk_args ip H seed offset algo tot cb (min tot (block + cb)) (n + 1) as block'" "block < tot"
    and "n < POSE_REGION_THREADS"
  shows "chunk_args ip H seed offset algo tot cb block n (region_arg ip H seed offset algo tot cb block n # as) block'"
proof -
  note c = assms(1) [unfolded chunk_args_def]
  have "block + i * cb < tot \<and> (region_arg ip H seed offset algo tot cb block n # as) ! i
      = region_arg ip H seed offset algo tot cb (block + i * cb) (n + i)" if "i < length (region_arg ip H seed offset algo tot cb block n # as)" for i
  proof (cases i)
    case (Suc k)
    then have k: "k < length as" using that by simp
    then have "min tot (block + cb) + k * cb < tot" "as ! k = region_arg ip H seed offset algo tot cb (min tot (block + cb) + k * cb) (n + 1 + k)"
      using c by auto
    moreover then have "min tot (block + cb) = block + cb" by linarith
    ultimately show ?thesis using Suc by (simp add: algebra_simps)
  qed (use assms(2) in simp)
  moreover have "block' = min tot (block + (length as + 1) * cb)"
    using c by (simp add: algebra_simps min_def)
  ultimately show ?thesis using c assms(3) by (simp add: chunk_args_def)
qed

lemma fill_args_chunks:
  assumes "block \<le> tot" "n \<le> POSE_REGION_THREADS"
  shows "case fill_args H seed offset algo tot cb block n of (as, block') \<Rightarrow>
    chunk_args False H seed offset algo tot cb block n as block' \<and> (n < POSE_REGION_THREADS \<and> block < tot \<longrightarrow> as \<noteq> [])"
  using assms
proof (induction H seed offset algo tot cb block n rule: fill_args.induct)
  case (1 H seed offset algo tot cb block n)
  show ?case
  proof (cases "n < POSE_REGION_THREADS \<and> block < tot")
    case True
    define tb where "tb = (if tot - block > cb then cb else tot - block)"
    have tb: "tb = min cb (tot - block)" "block + tb = min tot (block + cb)" using True by (auto simp: tb_def)
    obtain as block' where f: "fill_args H seed offset algo tot cb (block + tb) (n + 1) = (as, block')" by fastforce
    have "chunk_args False H seed offset algo tot cb (block + tb) (n + 1) as block'"
      using "1.IH" [OF True tb_def refl] True f by (simp add: tb(2))
    then show ?thesis
      using chunk_args_Cons [of False H seed offset algo tot cb block n as block'] True f tb
      by (subst fill_args.simps) (simp add: tb_def [symmetric] region_arg_def Let_def)
  next
    case False
    then show ?thesis using "1.prems" by (subst fill_args.simps) (auto simp: chunk_args_def)
  qed
qed

lemma super_index_block: "cb dvd block \<Longrightarrow> super_index offset (of_nat (block div cb)) cb = chunk_index offset block cb"
  by (simp add: super_index_def chunk_index_def flip: of_nat_mult)

lemma fill_inplace_chunks:
  assumes "block \<le> tot" "n \<le> POSE_REGION_THREADS" "cb dvd block" "0 < cb"
  shows "case fill_inplace H seed offset algo tot cb block n of (as, block') \<Rightarrow>
    chunk_args True H seed offset algo tot cb block n as block' \<and> block' = block + length as * cb
      \<and> (n < POSE_REGION_THREADS \<and> block + cb \<le> tot \<and> 0 < cb \<longrightarrow> as \<noteq> [])"
  using assms
proof (induction H seed offset algo tot cb block n rule: fill_inplace.induct)
  case (1 H seed offset algo tot cb block n)
  show ?case
  proof (cases "n < POSE_REGION_THREADS \<and> block + cb \<le> tot")
    case True
    obtain as block' where f: "fill_inplace H seed offset algo tot cb (block + cb) (n + 1) = (as, block')" by fastforce
    have ih: "chunk_args True H seed offset algo tot cb (block + cb) (n + 1) as block'" "block' = block + cb + length as * cb"
      using "1.IH" [OF True refl refl] True "1.prems" f by auto
    have "block < tot" "min tot (block + cb) = block + cb" "min cb (tot - block) = cb" using True "1.prems" by auto
    then show ?thesis
      using chunk_args_Cons [of True H seed offset algo tot cb block n as block'] True f ih "1.prems"
      by (subst fill_inplace.simps) (simp add: region_arg_def super_index_block)
  next
    case False
    then show ?thesis using "1.prems" by (subst fill_inplace.simps) (auto simp: chunk_args_def)
  qed
qed

subsection \<open>The buffers\<close>

lemma parameter_n_mono:
  assumes "unat m' \<le> unat m" "m' \<noteq> 0"
  shows "pose_graph_parameter_n m' \<le> pose_graph_parameter_n m"
proof (cases "2 \<le> unat m'")
  case True
  then have "2 ^ pose_graph_parameter_n m' < (2 :: nat) ^ (pose_graph_parameter_n m + 1)"
    using parameter_n_bounds(1) [OF True] parameter_n_bounds(2) [of m] assms(1) by linarith
  then have "pose_graph_parameter_n m' < pose_graph_parameter_n m + 1"
    by (rule power_less_imp_less_exp [rotated]) simp
  then show ?thesis by simp
next
  case False
  then have "m' \<le> 1" by (simp add: word_le_nat_alt)
  then show ?thesis by (simp add: parameter_n_small)
qed

text \<open>Scratch buffers that are large enough for a full chunk.\<close>

definition scratch_fit :: "bool \<Rightarrow> nat \<Rightarrow> bytes list \<Rightarrow> bool" where
  "scratch_fit inplace cb scratch \<longleftrightarrow> POSE_REGION_THREADS \<le> length scratch
     \<and> (\<forall>s\<in>set (take POSE_REGION_THREADS scratch).
          (let n = pose_graph_parameter_n (of_nat cb)
           in (if inplace then (4 + POSE_ARENA_FACTOR) * 2 ^ n * POSE_HASH_BYTES
               else 2 * scount (n + 1) * POSE_HASH_BYTES + (4 + 2 * POSE_ARENA_FACTOR) * 2 ^ n * 8) \<le> length s))"

lemma scratch_fit_shape: "map length s' = map length s \<Longrightarrow> scratch_fit ip cb s' = scratch_fit ip cb s"
proof -
  assume m: "map length s' = map length s"
  then have "length s' = length s" by (metis length_map)
  moreover have "length ` set (take k s') = length ` set (take k s)" for k
    using m by (metis set_map take_map)
  ultimately show ?thesis unfolding scratch_fit_def Let_def by (smt (verit) imageE image_eqI)
qed

lemma unat_chunk: "0 < k \<Longrightarrow> k \<le> 2 ^ 20 \<Longrightarrow> unat (of_nat k :: u64) = k \<and> (of_nat k :: u64) \<noteq> 0
    \<and> (of_nat k :: u64) \<le> POSE_GRAPH_MAX_M"
proof -
  assume k: "0 < k" "k \<le> 2 ^ 20"
  then have "unat (of_nat k :: u64) = k" by (intro unat_of_nat_u64) simp
  then show ?thesis using k by (auto simp: word_le_nat_alt POSE_GRAPH_MAX_M_def)
qed

lemma label_fit_chunk:
  assumes "0 < k" "k \<le> cb" "cb \<le> 2 ^ 20" "scratch_fit ip cb scratch" "s < POSE_REGION_THREADS" "k * POSE_HASH_BYTES \<le> length out"
  shows "(if ip then inplace_buffers_fit else label_buffers_fit) (of_nat k) out (scratch ! s)"
proof -
  let ?n = "pose_graph_parameter_n (of_nat k)" and ?N = "pose_graph_parameter_n (of_nat cb)"
  have u: "unat (of_nat k :: u64) = k" "unat (of_nat cb :: u64) = cb" "(of_nat k :: u64) \<noteq> 0"
    using unat_chunk [of k] unat_chunk [of cb] assms by auto
  then have n: "?n \<le> ?N" using assms(2) by (intro parameter_n_mono) auto
  then have "(2 :: nat) ^ ?n \<le> 2 ^ ?N" "scount (?n + 1) \<le> scount (?N + 1)"
    using power_increasing [OF n, of "2 :: nat"] scount_mono [of "?n + 1" "?N + 1"] by (simp_all del: scount.simps power_increasing_iff)
  moreover have "scratch ! s \<in> set (take POSE_REGION_THREADS scratch)"
    using assms(4,5) by (auto simp: scratch_fit_def in_set_conv_nth intro!: exI [of _ s])
  moreover then have "(if ip then (4 + POSE_ARENA_FACTOR) * 2 ^ ?N * POSE_HASH_BYTES
      else 2 * scount (?N + 1) * POSE_HASH_BYTES + (4 + 2 * POSE_ARENA_FACTOR) * 2 ^ ?N * 8) \<le> length (scratch ! s)"
    using assms(4) unfolding scratch_fit_def Let_def by blast
  ultimately show ?thesis
    using assms(6) u(1) by (cases ip) (simp_all add: label_buffers_fit_def inplace_buffers_fit_def Let_def
        POSE_ARENA_FACTOR_def POSE_HASH_BYTES_def del: scount.simps power_increasing_iff)
qed

subsection \<open>One batch\<close>

text \<open>The arguments of a batch fit and are apart, whatever the state of the memory.\<close>

lemma chunk_args_fit:
  assumes ca: "chunk_args ip H seed offset algo tot cb block 0 as block'" and cb: "0 < cb" "cb \<le> 2 ^ 20"
    and w: "w_outs w = [R]" "tot * POSE_HASH_BYTES \<le> length R" "scratch_fit ip cb (w_scratch w)"
  shows "batch_fits (w\<lparr>w_args := as\<rparr>)"
proof -
  note c = ca [unfolded chunk_args_def]
  have "job_fits [R] (w_scratch w) (as ! i)" if i: "i < length as" for i
  proof -
    let ?b = "block + i * cb"
    let ?k = "min cb (tot - ?b)"
    have b: "?b < tot" "as ! i = region_arg ip H seed offset algo tot cb ?b i" "i < POSE_REGION_THREADS" using c i by auto
    then have k: "0 < ?k" "?k \<le> cb" "?k \<le> 2 ^ 20" using cb by auto
    have "?b + ?k \<le> tot" using b(1) by simp
    then have "(?b + ?k) * POSE_HASH_BYTES \<le> length R" using w(2) mult_le_mono1 order_trans by blast
    then have out: "?k * POSE_HASH_BYTES \<le> length (drop (?b * POSE_HASH_BYTES) R)" "?b * POSE_HASH_BYTES \<le> length R"
      by (simp_all add: add_mult_distrib)
    have "i < length (w_scratch w)" using w(3) b(3) by (simp add: scratch_fit_def)
    then show ?thesis
      using label_fit_chunk [OF k(1,2) cb(2) w(3) b(3) out(1)] unat_chunk [OF k(1,3)] out(2)
      by (simp add: job_fits_def b(2) region_arg_def)
  qed
  moreover have "apart (as ! i) (as ! j)" if "i < length as" "j < length as" "i \<noteq> j" for i j
  proof -
    let ?b = "\<lambda>i. block + i * cb"
    have k: "as ! i = region_arg ip H seed offset algo tot cb (?b i) i" "?b i < tot" if "i < length as" for i
      using c that by auto
    have cbytes: "chunk_bytes (as ! i) \<le> cb * POSE_HASH_BYTES" if "i < length as" for i
    proof -
      have "unat (of_nat (min cb (tot - ?b i)) :: u64) = min cb (tot - ?b i)"
        using unat_chunk [of "min cb (tot - ?b i)"] k(2) [OF that] cb by auto
      then show ?thesis using k(1) [OF that] by (simp add: chunk_bytes_def region_arg_def)
    qed
    have sep: "foot (as ! i) \<inter> foot (as ! j) = {}" if "i < length as" "j < length as" "i < j" for i j
    proof -
      have "?b i + cb \<le> ?b j" using mult_le_mono1 [of "Suc i" j cb] that(3) by simp
      then have "?b i * POSE_HASH_BYTES + cb * POSE_HASH_BYTES \<le> ?b j * POSE_HASH_BYTES"
        by (metis add_mult_distrib mult_le_mono1)
      then show ?thesis using cbytes [OF that(1)] k(1) [OF that(1)] k(1) [OF that(2)]
        by (auto simp: foot_def region_arg_def)
    qed
    then show ?thesis using that k(1) sep [of i j] sep [of j i]
      by (cases i j rule: linorder_cases) (auto simp: apart_def region_arg_def)
  qed
  ultimately show ?thesis by (simp add: batch_fits_def w(1))
qed

lemma blocks_labelled_frame:
  assumes "blocks_labelled H seed offset algo tot cb n R" "agree_off A R R'" "A \<inter> {..<n * POSE_HASH_BYTES} = {}"
  shows "blocks_labelled H seed offset algo tot cb n R'"
proof -
  have "cells_of (b * POSE_HASH_BYTES) POSE_HASH_BYTES \<inter> A = {}" if "b < n" for b
  proof -
    have "b * POSE_HASH_BYTES + POSE_HASH_BYTES \<le> n * POSE_HASH_BYTES"
      using mult_le_mono1 [of "Suc b" n POSE_HASH_BYTES] that by (simp add: add.commute)
    then show ?thesis using assms(3) by (auto simp: disjoint_iff)
  qed
  then show ?thesis using assms(1) rd_frame [OF assms(2)] by (simp add: blocks_labelled_def)
qed

context node_hash begin

text \<open>Block \<open>j\<close> of the chunk that starts at \<open>b\<close>, when its job is done.\<close>

lemma holds_block:
  assumes "holds H [R] (region_arg ip H seed offset algo tot cb b n)" "cb dvd b" "j < min cb (tot - b)" "cb \<le> 2 ^ 20"
  shows "rd R ((b + j) * POSE_HASH_BYTES) POSE_HASH_BYTES = Some (block_label H seed offset algo tot cb (b + j))"
proof -
  let ?a = "region_arg ip H seed offset algo tot cb b n" and ?k = "min cb (tot - b)"
  have k: "0 < ?k" "?k \<le> 2 ^ 20" using assms(3,4) by auto
  note u = unat_chunk [OF k]
  let ?L = "job_output H ?a"
  have L: "length ?L = ?k" "\<forall>l\<in>set ?L. length l = POSE_HASH_BYTES"
    using length_output_labels [of "of_nat ?k" H] u length_output_label by (simp_all add: job_output_def region_arg_def)
  have "rd R (b * POSE_HASH_BYTES) (?k * POSE_HASH_BYTES) = Some (concat ?L)"
    using assms(1) u by (simp add: holds_def chunk_bytes_def region_arg_def)
  then have "rd (drop (b * POSE_HASH_BYTES) R) 0 (length ?L * POSE_HASH_BYTES) = Some (concat ?L)"
    "b * POSE_HASH_BYTES \<le> length R" using L(1) by (auto simp: rd_def split: if_splits)
  from rd_concat_nth [OF this(1) L(2), of j] this(2)
  have "rd R (b * POSE_HASH_BYTES + j * POSE_HASH_BYTES) POSE_HASH_BYTES = Some (?L ! j)"
    using assms(3) L(1) by (simp add: rd_def split: if_splits) (simp add: add.commute)
  moreover have "(b + j) div cb * cb = b" "(b + j) mod cb = j" using assms(2,3) by auto
  ultimately show ?thesis by (simp add: block_label_def Let_def job_output_def region_arg_def add_mult_distrib)
qed

text \<open>A batch of chunks writes only blocks from \<open>block\<close> on, whichever of its jobs ran.\<close>

lemma batch_frame:
  assumes ca: "chunk_args ip H seed offset algo tot cb block 0 as block'" and cb: "0 < cb" "cb \<le> 2 ^ 20"
    and w: "w_outs w = [R]" and bd: "batch_done H is (w\<lparr>w_args := as\<rparr>) w'" "set is \<subseteq> {..<length as}"
  shows "\<exists>R'. w_outs w' = [R'] \<and> agree_off {block * POSE_HASH_BYTES..<tot * POSE_HASH_BYTES} R R'"
proof -
  note c = ca [unfolded chunk_args_def] and d = bd(1) [unfolded batch_done_def]
  have "length (w_outs w') = 1" using d same_shape_outs [of "w\<lparr>w_args := as\<rparr>" w'] w(1) by simp
  then obtain R' where R': "w_outs w' = [R']" by (metis One_nat_def length_0_conv length_Suc_conv)
  have ai: "as ! i = region_arg ip H seed offset algo tot cb (block + i * cb) i" "block + i * cb < tot" if "i < length as" for i
    using c that by auto
  have foot: "foot (as ! i) \<subseteq> {block * POSE_HASH_BYTES..<tot * POSE_HASH_BYTES}" if "i < length as" for i
  proof -
    let ?b = "block + i * cb" and ?k = "min cb (tot - (block + i * cb))"
    have "unat (of_nat ?k :: u64) = ?k" using unat_chunk [of ?k] ai(2) [OF that] cb by auto
    moreover have "(?b + ?k) * POSE_HASH_BYTES \<le> tot * POSE_HASH_BYTES" using ai(2) [OF that] by (intro mult_le_mono1) simp
    moreover have "block * POSE_HASH_BYTES \<le> ?b * POSE_HASH_BYTES" by (intro mult_le_mono1) simp
    ultimately show ?thesis using ai(1) [OF that]
      by (auto simp: foot_def region_arg_def chunk_bytes_def add_mult_distrib)
  qed
  have "touched as is 0 \<subseteq> {block * POSE_HASH_BYTES..<tot * POSE_HASH_BYTES}"
    using foot bd(2) by (fastforce simp: touched_def)
  moreover have "agree_off (touched as is 0) R R'" using d w(1) R' by auto
  ultimately show ?thesis using R' by (metis agree_off_mono)
qed

text \<open>A batch that is done labels its blocks and leaves the earlier ones.\<close>

lemma batch_labels:
  assumes ca: "chunk_args ip H seed offset algo tot cb block 0 as block'" and cb: "0 < cb" "cb \<le> 2 ^ 20" "cb dvd block"
    and R': "w_outs w' = [R']" "agree_off {block * POSE_HASH_BYTES..<tot * POSE_HASH_BYTES} R R'"
    and bd: "batch_done H is (w\<lparr>w_args := as\<rparr>) w'" "set is = {..<length as}"
    and before: "blocks_labelled H seed offset algo tot cb block R"
  shows "blocks_labelled H seed offset algo tot cb block' R'"
proof -
  note c = ca [unfolded chunk_args_def] and d = bd(1) [unfolded batch_done_def]
  have ai: "as ! i = region_arg ip H seed offset algo tot cb (block + i * cb) i" if "i < length as" for i
    using c that by auto
  have "blocks_labelled H seed offset algo tot cb block R'"
    by (rule blocks_labelled_frame [OF before R'(2)]) auto
  moreover have "rd R' (x * POSE_HASH_BYTES) POSE_HASH_BYTES = Some (block_label H seed offset algo tot cb x)"
    if x: "block \<le> x" "x < block'" for x
  proof -
    define i where "i = (x - block) div cb"
    have xb: "x - block < length as * cb" "x < tot" using x c by auto
    then have i: "i < length as" unfolding i_def by (simp add: less_mult_imp_div_less)
    have xsp: "x = block + i * cb + (x - block) mod cb" using x(1) by (simp add: i_def)
    have "holds H [R'] (as ! i)" using d i bd(2) R' by auto
    moreover have "cb dvd block + i * cb" using cb(3) by simp
    moreover have "(x - block) mod cb < min cb (tot - (block + i * cb))"
      using xsp xb(2) cb(1) by (simp add: less_diff_conv add.commute)
    ultimately show ?thesis using holds_block [of R' ip seed offset algo tot cb "block + i * cb" i] ai [OF i] xsp cb(2) by metis
  qed
  ultimately show ?thesis unfolding blocks_labelled_def by (metis not_less)
qed

end

subsection \<open>The loops\<close>

lemma first_rc_zero: "first_rc as = 0 \<longleftrightarrow> (\<forall>a\<in>set as. c_rc a = 0)"
  by (induction "as") auto

lemma batch_done_rcs:
  assumes "batch_done H is w w'" "set is = {..<length (w_args w)}"
  shows "first_rc (w_args w') = 0 \<longleftrightarrow> (\<forall>r\<in>set (fst (sinks H is w)). r = 0)"
proof -
  have "set (w_args w') = (\<lambda>i. w_args w' ! i) ` set is"
    using assms by (auto simp: batch_done_def in_set_conv_nth)
  moreover have "set (fst (sinks H is w)) = (\<lambda>i. c_rc (w_args w' ! i)) ` set is"
    using assms(1) unfolding batch_done_def by (metis set_map)
  ultimately show ?thesis by (auto simp: first_rc_zero)
qed

lemma sinks_none:
  assumes "\<forall>i\<in>set is. wt_sink (w_args w ! i) = None"
  shows "sinks H is w = (replicate (length is) 0, w_ctx w)"
proof -
  have "run_sinks (map (\<lambda>i. job_sink H (w_outs w) (w_args w ! i)) is) c = (replicate (length is) 0, c)" for c
    using assms by (induction "is") (simp_all add: job_sink_def)
  then show ?thesis by (simp add: sinks_def)
qed

text \<open>
  What the outer loop needs of a batch: that it runs distinct jobs only, that a return code of 0 means it
  ran them all, and when (\<open>reliable\<close>) it does return 0. A pool and a thread per job both provide it.
\<close>

locale batch_runner = node_hash +
  fixes run :: "nat \<Rightarrow> unit work \<Rightarrow> (int \<times> unit work) option" and reliable :: bool
  assumes runs: "batch_fits w \<Longrightarrow> w_args w \<noteq> [] \<Longrightarrow> \<forall>a\<in>set (w_args w). wt_sink a = None \<Longrightarrow>
    \<exists>rc w' is. run b w = Some (rc, w') \<and> set is \<subseteq> {..<length (w_args w)} \<and> batch_done H is w w'
      \<and> (rc = 0 \<longrightarrow> set is = {..<length (w_args w)}) \<and> rc \<in> {0, -1} \<and> (reliable \<longrightarrow> rc = 0)"
begin

lemma chunk_batch:
  assumes ca: "chunk_args ip H seed offset al tot cb block 0 as block'" "as \<noteq> []"
    and cb: "0 < cb" "cb \<le> 2 ^ 20" "cb dvd block"
    and w: "w_outs w = [R]" "tot * POSE_HASH_BYTES \<le> length R" "scratch_fit ip cb (w_scratch w)"
    and "blocks_labelled H seed offset al tot cb block R"
  shows "\<exists>rc w' R'. run b (w\<lparr>w_args := as\<rparr>) = Some (rc, w') \<and> w_outs w' = [R']
    \<and> (rc = 0 \<longrightarrow> blocks_labelled H seed offset al tot cb block' R') \<and> agree_off {..<tot * POSE_HASH_BYTES} R R'
    \<and> scratch_fit ip cb (w_scratch w') \<and> rc \<in> {0, -1} \<and> (reliable \<longrightarrow> rc = 0)"
proof -
  have none: "\<forall>a\<in>set as. wt_sink a = None"
    using ca(1) by (auto simp: chunk_args_def in_set_conv_nth region_arg_def)
  obtain rc w' "is" where r: "run b (w\<lparr>w_args := as\<rparr>) = Some (rc, w')" "set is \<subseteq> {..<length as}"
    "batch_done H is (w\<lparr>w_args := as\<rparr>) w'" "rc = 0 \<longrightarrow> set is = {..<length as}" "rc \<in> {0, -1}" "reliable \<longrightarrow> rc = 0"
    using runs [OF chunk_args_fit [OF ca(1) cb(1,2) w], of b] ca(2) none by auto
  have "map length (w_scratch w') = map length (w_scratch w)"
    using r(3) by (simp add: batch_done_def same_shape_def)
  then have sf: "scratch_fit ip cb (w_scratch w')" using w(3) scratch_fit_shape by blast
  obtain R' where R': "w_outs w' = [R']" "agree_off {block * POSE_HASH_BYTES..<tot * POSE_HASH_BYTES} R R'"
    using batch_frame [OF ca(1) cb(1,2) w(1) r(3,2)] by blast
  then have "agree_off {..<tot * POSE_HASH_BYTES} R R'" by (auto intro: agree_off_mono)
  then show ?thesis
    using batch_labels [OF ca(1) cb R' r(3) _ assms(9)] r(1,4-6) sf R'(1) by blast
qed

lemma region_loop_ok:
  assumes "w_outs w = [R]" "tot * POSE_HASH_BYTES \<le> length R" "scratch_fit False cb (w_scratch w)"
    and "0 < cb" "cb \<le> 2 ^ 20" "block \<le> tot" "cb dvd block \<or> block = tot"
    and "blocks_labelled H seed offset al tot cb block R"
  shows "\<exists>rc w' R'. region_loop run H seed offset al tot cb block w = Some (rc, w') \<and> w_outs w' = [R']
    \<and> (rc = 0 \<longrightarrow> blocks_labelled H seed offset al tot cb tot R') \<and> agree_off {..<tot * POSE_HASH_BYTES} R R'
    \<and> rc \<in> {0, -1} \<and> (reliable \<longrightarrow> rc = 0)"
  using assms
proof (induction "tot - block" arbitrary: block w R rule: less_induct)
  case less
  show ?case
  proof (cases "block < tot")
    case True
    then have dv: "cb dvd block" using less.prems(7) by simp
    obtain as block' where f: "fill_args H seed offset al tot cb block 0 = (as, block')" by fastforce
    have ca: "chunk_args False H seed offset al tot cb block 0 as block'" "as \<noteq> []"
      using fill_args_chunks [of block tot 0 H seed offset al cb] f True by (auto simp: POSE_REGION_THREADS_def)
    obtain rc w' R' where b: "run block (w\<lparr>w_args := as\<rparr>) = Some (rc, w')" "w_outs w' = [R']"
      "rc = 0 \<longrightarrow> blocks_labelled H seed offset al tot cb block' R'" "agree_off {..<tot * POSE_HASH_BYTES} R R'"
      "scratch_fit False cb (w_scratch w')" "rc \<in> {0, -1}" "reliable \<longrightarrow> rc = 0"
      using chunk_batch [OF ca less.prems(4,5) dv less.prems(1-3,8)] by metis
    have bl: "block < block'" "block' \<le> tot" "cb dvd block' \<or> block' = tot"
      using ca less.prems(4) True dv by (auto simp: chunk_args_def min_def)
    have lt: "tot - block' < tot - block" "tot * POSE_HASH_BYTES \<le> length R'"
      using bl less.prems(2) agree_off_length [OF b(4)] by auto
    show ?thesis
    proof (cases "rc = 0")
      case rc: True
      from less.hyps [OF lt(1) b(2) lt(2) b(5) less.prems(4,5) bl(2,3)] b(3) rc
      show ?thesis using True f b(1) less.prems(4) agree_off_trans [OF b(4)]
        by (subst region_loop.simps) auto
    next
      case False
      then show ?thesis using True f b less.prems(4) by (subst region_loop.simps) auto
    qed
  next
    case False
    then show ?thesis using less.prems by (subst region_loop.simps) auto
  qed
qed

end

lemma run_pooled_runs:
  assumes "node_hash H" "env_ok E"
  shows "batch_runner H (run_pooled H E) True"
proof (rule batch_runner.intro [OF assms(1) batch_runner_axioms.intro])
  fix w :: "unit work" and b
  assume w: "batch_fits w" "\<forall>a\<in>set (w_args w). wt_sink a = None"
  let ?o = "finish_order E b [0..<length (w_args w)]"
  have o: "distinct ?o" "set ?o = {..<length (w_args w)}" using assms(2) by (auto simp: env_ok_def)
  obtain w' where r: "run_jobs H ?o w = Some w'" "batch_done H ?o w w'"
    using node_hash.run_jobs_ok [OF assms(1) w(1) o(1)] o(2) by auto
  have "first_rc (w_args w') = 0"
    using batch_done_rcs [OF r(2) o(2)] sinks_none [of ?o w H] o(2) w(2) by simp
  then show "\<exists>rc w' is. run_pooled H E b w = Some (rc, w') \<and> set is \<subseteq> {..<length (w_args w)} \<and> batch_done H is w w'
      \<and> (rc = 0 \<longrightarrow> set is = {..<length (w_args w)}) \<and> rc \<in> {0, -1} \<and> (True \<longrightarrow> rc = 0)"
    using r o(2) by (auto simp: run_pooled_def)
qed

text \<open>The jobs of a spawned batch: all of them, or the ones started before a failure.\<close>

lemma takeWhile_upt: "length (takeWhile P [0..<n]) = n \<Longrightarrow> takeWhile P [0..<n] = [0..<n]"
  by (metis length_upt diff_zero takeWhile_eq_take take_all order_refl)

lemma run_spawned_runs:
  assumes "node_hash H" "env_ok E"
  shows "batch_runner H (run_spawned H E) (\<forall>b i. spawn E b i)"
proof (rule batch_runner.intro [OF assms(1) batch_runner_axioms.intro])
  fix w :: "unit work" and b
  assume w: "batch_fits w" "w_args w \<noteq> []" "\<forall>a\<in>set (w_args w). wt_sink a = None"
  let ?n = "length (w_args w)"
  define l where "l = takeWhile (spawn E b) [0..<?n - 1]"
  define rc where "rc = (if length l < ?n - 1 then -1 else 0 :: int)"
  define js where "js = (if rc = 0 then l @ [?n - 1] else l)"
  let ?o = "finish_order E b js"
  have n: "0 < ?n" "insert (?n - 1) {..<?n - 1} = {..<?n}" using w(2) by auto
  have sub: "set l \<subseteq> {..<?n - 1}" using set_takeWhileD unfolding l_def by fastforce
  have dl: "distinct l" unfolding l_def by (rule distinct_takeWhile) simp
  have full: "rc = 0 \<Longrightarrow> l = [0..<?n - 1]"
    using takeWhile_upt [of "spawn E b" "?n - 1"] length_takeWhile_le [of "spawn E b" "[0..<?n - 1]"]
    by (simp add: l_def rc_def split: if_splits)
  have js: "distinct js" "set js \<subseteq> {..<?n}" using sub dl n by (auto simp: js_def)
  have all: "rc = 0 \<Longrightarrow> set js = {..<?n}"
    using full n(2) by (simp add: js_def atLeast0LessThan)
  have o: "distinct ?o" "set ?o = set js" using assms(2) js(1) unfolding env_ok_def by blast+
  obtain w' where r: "run_jobs H ?o w = Some w'" "batch_done H ?o w w'"
    using node_hash.run_jobs_ok [OF assms(1) w(1) o(1)] o(2) js(2) by blast
  have "\<forall>i\<in>set ?o. wt_sink (w_args w ! i) = None" using o(2) js(2) w(3) by auto
  note none = sinks_none [OF this, of H]
  have rcs: "first_rc (w_args w') = 0" if "rc = 0"
    using batch_done_rcs [OF r(2)] none o(2) all [OF that] by simp
  have reliable: "rc = 0" if sp: "\<forall>b i. spawn E b i"
  proof -
    have "l = [0..<?n - 1]" unfolding l_def using sp by (intro iffD2 [OF takeWhile_eq_all_conv]) blast
    then show ?thesis unfolding rc_def by simp
  qed
  have "run_spawned H E b w = Some (rc, w')"
    using r(1) rcs unfolding run_spawned_def Let_def l_def [symmetric] rc_def [symmetric] js_def [symmetric] by simp
  moreover have "rc \<in> {0, -1}" by (simp add: rc_def)
  ultimately show "\<exists>rc w' is. run_spawned H E b w = Some (rc, w') \<and> set is \<subseteq> {..<?n} \<and> batch_done H is w w'
      \<and> (rc = 0 \<longrightarrow> set is = {..<?n}) \<and> rc \<in> {0, -1} \<and> ((\<forall>b i. spawn E b i) \<longrightarrow> rc = 0)"
    using r(2) o(2) js(2) all reliable by (intro exI [of _ rc] exI [of _ w'] exI [of _ ?o]) blast
qed

subsection \<open>The region functions\<close>

lemma region_result:
  assumes "batch_runner H run reliable" "region_len \<noteq> 0" "region_len mod of_nat POSE_HASH_BYTES = 0"
    and "unat region_len \<le> length R" "resolve_chunk_blocks cb \<le> ucast POSE_GRAPH_MAX_M"
    and "scratch_fit False (unat (resolve_chunk_blocks cb)) scratch"
  defines "tot \<equiv> unat (region_len div of_nat POSE_HASH_BYTES)"
  shows "\<exists>rc R'. label_region_with run H seed (Some R) region_len offset scratch al cb = Some (rc, Some R')
    \<and> (rc = 0 \<longrightarrow> blocks_labelled H seed offset al tot (unat (resolve_chunk_blocks cb)) tot R')
    \<and> agree_off {..<unat region_len} R R' \<and> rc \<in> {0, -1} \<and> (reliable \<longrightarrow> rc = 0)"
proof -
  let ?cb = "unat (resolve_chunk_blocks cb)"
  have c: "0 < ?cb" "?cb \<le> 2 ^ 20"
    using assms(5) by (auto simp: resolve_chunk_blocks_def POSE_CHUNK_BLOCKS_def POSE_GRAPH_MAX_M_def word_le_nat_alt unat_gt_0)
  have "unat (region_len mod 32) = 0" using assms(3) by (simp add: POSE_HASH_BYTES_def)
  then have "unat region_len mod 32 = 0" unfolding unat_mod by simp
  moreover have "tot = unat region_len div 32" by (simp add: tot_def POSE_HASH_BYTES_def unat_div)
  ultimately have t: "tot * POSE_HASH_BYTES = unat region_len" by (simp add: POSE_HASH_BYTES_def mod_0_imp_dvd)
  obtain rc w' R' where "region_loop run H seed offset al tot ?cb 0 \<lparr>w_args = [], w_outs = [R], w_scratch = scratch, w_ctx = ()\<rparr>
      = Some (rc, w')" "w_outs w' = [R']" "rc = 0 \<longrightarrow> blocks_labelled H seed offset al tot ?cb tot R'"
      "agree_off {..<tot * POSE_HASH_BYTES} R R'" "rc \<in> {0, -1}" "reliable \<longrightarrow> rc = 0"
    using batch_runner.region_loop_ok [OF assms(1), of "\<lparr>w_args = [], w_outs = [R], w_scratch = scratch, w_ctx = ()\<rparr>" R tot ?cb 0
        seed offset al] c t assms(4,6) by (auto simp: blocks_labelled_def)
  then show ?thesis
    using assms(2,3) t by (simp add: label_region_with_def region_args_bad_def tot_def [symmetric])
qed

text \<open>The in-place region: the full chunks are labelled, a rest shorter than a chunk is left alone.\<close>

lemma inplace_loop_ok:
  assumes "node_hash H" "env_ok E"
    and "w_outs w = [R]" "tot * POSE_HASH_BYTES \<le> length R" "scratch_fit True cb (w_scratch w)"
    and "0 < cb" "cb \<le> 2 ^ 20" "block \<le> tot" "cb dvd block" "blocks_labelled H seed offset al tot cb block R"
  shows "\<exists>w' R'. inplace_loop H E seed offset al tot cb block w = Some (0, w') \<and> w_outs w' = [R']
    \<and> blocks_labelled H seed offset al tot cb (tot div cb * cb) R' \<and> agree_off {..<tot * POSE_HASH_BYTES} R R'"
  using assms(3-)
proof (induction "tot - block" arbitrary: block w R rule: less_induct)
  case less
  show ?case
  proof (cases "block + cb \<le> tot")
    case True
    obtain as block' where f: "fill_inplace H seed offset al tot cb block 0 = (as, block')" by fastforce
    have ca: "chunk_args True H seed offset al tot cb block 0 as block'" "as \<noteq> []" "block' = block + length as * cb"
      using fill_inplace_chunks [of block tot 0 cb H seed offset al] f True less.prems by (auto simp: POSE_REGION_THREADS_def)
    obtain w' R' where b: "run_pooled H E block (w\<lparr>w_args := as\<rparr>) = Some (0, w')" "w_outs w' = [R']"
      "blocks_labelled H seed offset al tot cb block' R'" "agree_off {..<tot * POSE_HASH_BYTES} R R'"
      "scratch_fit True cb (w_scratch w')"
      using batch_runner.chunk_batch [OF run_pooled_runs [OF assms(1,2)] ca(1,2) less.prems(4,5,7,1-3,8)] by metis
    have "block' = min tot (block + length as * cb)" using ca(1) by (simp add: chunk_args_def)
    then have bl: "block < block'" "block' \<le> tot" "cb dvd block'"
      using ca(2,3) less.prems(4,7) by auto
    have "tot - block' < tot - block" "tot * POSE_HASH_BYTES \<le> length R'"
      using bl less.prems(2) agree_off_length [OF b(4)] by auto
    from less.hyps [OF this(1) b(2) this(2) b(5) less.prems(4,5) bl(2,3) b(3)]
    show ?thesis using True f b(1) less.prems(4) agree_off_trans [OF b(4)]
      by (subst inplace_loop.simps) auto
  next
    case False
    then have "tot div cb * cb = block"
      using less.prems(4,6,7) by (metis add.commute div_nat_eqI dvd_def mult.commute mult_Suc_right not_le)
    then show ?thesis using False less.prems by (subst inplace_loop.simps) auto
  qed
qed

text \<open>A rest shorter than a chunk plays no part, so the loop on the full chunks alone is the same.\<close>

lemma full_chunk: "0 < cb \<Longrightarrow> cb dvd block \<Longrightarrow> block + cb \<le> tot div cb * cb \<longleftrightarrow> block + cb \<le> tot" for cb block tot :: nat
proof -
  assume a: "0 < cb" "cb dvd block"
  then obtain k where "block = k * cb" by (metis dvd_def mult.commute)
  then have "block + cb = (k + 1) * cb" by simp
  then show ?thesis using a(1) by (metis div_le_mono div_mult_self_is_m le_trans mult_le_mono1 div_times_less_eq_dividend)
qed

lemma fill_inplace_full:
  "0 < cb \<Longrightarrow> cb dvd block \<Longrightarrow>
    fill_inplace H seed offset algo (tot div cb * cb) cb block n = fill_inplace H seed offset algo tot cb block n"
proof (induction H seed offset algo tot cb block n rule: fill_inplace.induct)
  case (1 H seed offset algo tot cb block n)
  note f = full_chunk [OF 1(2,3), of tot]
  show ?case using "1.IH" [OF _ refl refl 1(2)] 1(3)
    by (subst (1 2) fill_inplace.simps) (simp add: f Let_def)
qed

lemma inplace_loop_full:
  "0 < cb \<Longrightarrow> cb dvd block \<Longrightarrow>
    inplace_loop H E seed offset algo (tot div cb * cb) cb block w = inplace_loop H E seed offset algo tot cb block w"
proof (induction "tot - block" arbitrary: block w rule: less_induct)
  case less
  note f = full_chunk [OF less.prems, of tot]
  obtain as block' where a: "fill_inplace H seed offset algo tot cb block 0 = (as, block')" by fastforce
  have "inplace_loop H E seed offset algo (tot div cb * cb) cb block' w' = inplace_loop H E seed offset algo tot cb block' w'"
    if "block + cb \<le> tot" for w'
  proof -
    have "block' = block + length as * cb" "as \<noteq> []"
      using fill_inplace_chunks [of block tot 0 cb H seed offset algo] a that less.prems by (auto simp: POSE_REGION_THREADS_def)
    moreover from this have "0 < length as * cb" using less.prems(1) by simp
    ultimately have "tot - block' < tot - block" "cb dvd block'" using that less.prems by (linarith, simp)
    then show ?thesis using less.hyps less.prems(1) by blast
  qed
  then show ?case
    using a fill_inplace_full [OF less.prems, of H seed offset algo tot 0] less.prems(1)
    by (subst (1 2) inplace_loop.simps) (auto simp: f cong: if_cong)
qed

lemma block_label_full:
  assumes "b < tot div cb * cb"
  shows "block_label H seed offset algo (tot div cb * cb) cb b = block_label H seed offset algo tot cb b"
proof -
  have "0 < cb" using assms by (cases cb) auto
  moreover from this have "b div cb * cb + cb \<le> tot div cb * cb"
    using assms by (metis add.commute less_mult_imp_div_less mult_Suc mult_le_mono1 Suc_leI)
  ultimately have "min cb (tot div cb * cb - b div cb * cb) = min cb (tot - b div cb * cb)"
    using div_times_less_eq_dividend [of tot cb] by linarith
  then show ?thesis by (simp add: block_label_def)
qed

lemma inplace_region_result:
  assumes "node_hash H" "env_ok E" "region_len \<noteq> 0" "region_len mod of_nat POSE_HASH_BYTES = 0"
    and "unat region_len \<le> length R" "resolve_chunk_blocks cb \<le> ucast POSE_GRAPH_MAX_M"
    and "scratch_fit True (unat (resolve_chunk_blocks cb)) scratch"
  defines "tot \<equiv> unat (region_len div of_nat POSE_HASH_BYTES)" and "c \<equiv> unat (resolve_chunk_blocks cb)"
  shows "\<exists>R'. pose_graph_label_region_pooled_inplace H E seed (Some R) region_len offset scratch al cb = Some (0, Some R')
    \<and> blocks_labelled H seed offset al tot c (tot div c * c) R' \<and> agree_off {..<tot div c * c * POSE_HASH_BYTES} R R'"
proof -
  have c: "0 < c" "c \<le> 2 ^ 20"
    using assms(6) by (auto simp: c_def resolve_chunk_blocks_def POSE_CHUNK_BLOCKS_def POSE_GRAPH_MAX_M_def word_le_nat_alt unat_gt_0)
  have "unat (region_len mod 32) = 0" using assms(4) by (simp add: POSE_HASH_BYTES_def)
  then have "unat region_len mod 32 = 0" unfolding unat_mod by simp
  moreover have "tot = unat region_len div 32" by (simp add: tot_def POSE_HASH_BYTES_def unat_div)
  ultimately have t: "tot * POSE_HASH_BYTES = unat region_len" by (simp add: POSE_HASH_BYTES_def mod_0_imp_dvd)
  show ?thesis
  proof (cases "unat region_len < c * POSE_HASH_BYTES")
    case True
    then have "tot div c = 0" using t by (simp add: POSE_HASH_BYTES_def)
    then show ?thesis using True assms(3,4)
      by (auto simp: pose_graph_label_region_pooled_inplace_def region_args_bad_def c_def [symmetric] blocks_labelled_def)
  next
    case False
    let ?f = "tot div c * c"
    have fl: "?f * POSE_HASH_BYTES \<le> length R"
      using mult_le_mono1 [OF div_times_less_eq_dividend [of tot c], of POSE_HASH_BYTES] t assms(5) by simp
    obtain w' R' where r: "inplace_loop H E seed offset al ?f c 0 \<lparr>w_args = [], w_outs = [R], w_scratch = scratch, w_ctx = ()\<rparr>
        = Some (0, w')" "w_outs w' = [R']" "blocks_labelled H seed offset al ?f c (?f div c * c) R'"
        "agree_off {..<?f * POSE_HASH_BYTES} R R'"
      using inplace_loop_ok [OF assms(1,2), of "\<lparr>w_args = [], w_outs = [R], w_scratch = scratch, w_ctx = ()\<rparr>" R ?f c 0
          seed offset al] c fl assms(7) by (auto simp: blocks_labelled_def c_def)
    have "blocks_labelled H seed offset al tot c ?f R'"
      using r(3) c(1) block_label_full [of _ tot c H seed offset al] by (simp add: blocks_labelled_def)
    then show ?thesis
      using False assms(3,4) t r inplace_loop_full [OF c(1), of 0 H E seed offset al tot]
      by (simp add: pose_graph_label_region_pooled_inplace_def region_args_bad_def tot_def [symmetric] c_def [symmetric])
  qed
qed

end
