(* ===== verification/Disk_Wave.thy ===== *)
theory Disk_Wave
  imports Region_Label
begin

section \<open>One wave of super-chunks to a sink\<close>

text \<open>
  \<open>pose_graph_label_disk_wave\<close> labels one super-chunk per slot and each worker hands its slot to the
  sink. The theorem: every slot holds the labels of its super-chunk, the sink is called exactly once per
  slot with those labels and the super-chunk's own offset, in the order the workers finish, and the wave
  returns 0 exactly when every call did.
\<close>

text \<open>The labels of slot \<open>i\<close> and the call of its worker.\<close>

definition wave_labels :: "labeler \<Rightarrow> bytes \<Rightarrow> hash_algo \<Rightarrow> nat \<Rightarrow> u64 \<Rightarrow> u64 \<Rightarrow> nat \<Rightarrow> label list" where
  "wave_labels H seed algo cb base offset i =
     output_labels H (chunk_seed H seed (super_index offset (base + of_nat i) cb)) (of_nat cb) algo"

definition wave_call ::
  "labeler \<Rightarrow> bytes \<Rightarrow> hash_algo \<Rightarrow> nat \<Rightarrow> u64 \<Rightarrow> u64 \<Rightarrow> u64 \<Rightarrow> nat \<Rightarrow> 'c sink \<Rightarrow> bytes list \<Rightarrow> nat \<Rightarrow> 'c \<Rightarrow> int \<times> 'c" where
  "wave_call H seed algo cb base offset byte_start write_len sink slots i c =
     sink c (take write_len (concat (wave_labels H seed algo cb base offset i) @ drop (cb * POSE_HASH_BYTES) (slots ! i)))
       (byte_start + (base + of_nat i) * of_nat write_len)"

text \<open>The slots and scratch buffers the caller provides.\<close>

definition wave_fit :: "nat \<Rightarrow> nat \<Rightarrow> nat \<Rightarrow> bytes list \<Rightarrow> bytes list \<Rightarrow> bool" where
  "wave_fit cb write_len n slots scratch \<longleftrightarrow> n \<le> length slots \<and> scratch_fit True cb scratch
     \<and> (\<forall>i<n. cb * POSE_HASH_BYTES \<le> length (slots ! i) \<and> write_len \<le> length (slots ! i))"

lemma wave_batch_fits:
  assumes "0 < cb" "cb \<le> 2 ^ 20" "n \<le> POSE_REGION_THREADS" "wave_fit cb write_len n slots scratch"
    and "w_args w = map (wave_arg H seed algo cb base offset byte_start write_len sink) [0..<n]"
    and "w_outs w = slots" "w_scratch w = scratch"
  shows "batch_fits w"
proof -
  note u = unat_chunk [OF assms(1,2)]
  have "job_fits slots scratch (wave_arg H seed algo cb base offset byte_start write_len sink i)" if i: "i < n" for i
  proof -
    have s: "scratch_fit True cb scratch" "i < POSE_REGION_THREADS" "cb * POSE_HASH_BYTES \<le> length (slots ! i)"
      "i < length slots" "write_len \<le> length (slots ! i)"
      using assms(3,4) i by (auto simp: wave_fit_def)
    then have "i < length scratch" by (simp add: scratch_fit_def)
    then show ?thesis
      using label_fit_chunk [OF assms(1) order_refl assms(2) s(1-3)] u s
      by (simp add: job_fits_def wave_arg_def Let_def)
  qed
  then show ?thesis
    using assms(5-7) by (auto simp: batch_fits_def apart_def wave_arg_def Let_def)
qed

lemma disk_wave_result:
  assumes "node_hash H" "env_ok E" "resolve_chunk_blocks chunk_blocks \<le> ucast POSE_GRAPH_MAX_M"
    and "1 \<le> n_this" "n_this \<le> int POSE_REGION_THREADS"
  defines "cb \<equiv> unat (resolve_chunk_blocks chunk_blocks)" and "n \<equiv> nat n_this"
  assumes "wave_fit cb write_len n slots scratch"
  shows "\<exists>rc slots' ctx' js.
    pose_graph_label_disk_wave H E seed slots scratch algo chunk_blocks n_this base offset byte_start write_len (Some sink) ctx
      = Some (rc, slots', ctx')
    \<and> (\<forall>i<n. rd (slots' ! i) 0 (cb * POSE_HASH_BYTES) = Some (concat (wave_labels H seed algo cb base offset i)))
    \<and> distinct js \<and> set js = {..<n}
    \<and> ctx' = snd (run_sinks (map (wave_call H seed algo cb base offset byte_start write_len sink slots) js) ctx)
    \<and> (rc = 0 \<longleftrightarrow> (\<forall>r\<in>set (fst (run_sinks (map (wave_call H seed algo cb base offset byte_start write_len sink slots) js) ctx)).
          r = 0))"
proof -
  have c: "0 < cb" "cb \<le> 2 ^ 20"
    using assms(3) by (auto simp: cb_def resolve_chunk_blocks_def POSE_CHUNK_BLOCKS_def POSE_GRAPH_MAX_M_def word_le_nat_alt unat_gt_0)
  note u = unat_chunk [OF c]
  have n: "n \<le> POSE_REGION_THREADS" "0 < n" using assms(4,5) by (auto simp: n_def)
  let ?arg = "wave_arg H seed algo cb base offset byte_start write_len sink"
  let ?w = "\<lparr>w_args = map ?arg [0..<n], w_outs = slots, w_scratch = scratch, w_ctx = ctx\<rparr>"
  let ?o = "finish_order E 0 [0..<n]"
  have o: "distinct ?o" "set ?o = {..<n}" using assms(2) by (auto simp: env_ok_def)
  have fits: "batch_fits ?w" by (rule wave_batch_fits [OF c n(1) assms(8), where H = H and seed = seed and algo = algo and base = base
        and offset = offset and byte_start = byte_start and sink = sink]) simp_all
  obtain w' where r: "run_jobs H ?o ?w = Some w'" "batch_done H ?o ?w w'"
    using node_hash.run_jobs_ok [OF assms(1) fits o(1)] o(2) by auto
  have out: "job_output H (?arg i) = wave_labels H seed algo cb base offset i" "chunk_bytes (?arg i) = cb * POSE_HASH_BYTES"
    "c_buf (?arg i) = i" "c_out (?arg i) = 0" "wt_sink (?arg i) = Some sink" "wt_len (?arg i) = write_len"
    "wt_off (?arg i) = byte_start + (base + of_nat i) * of_nat write_len" for i
    using u by (simp_all add: job_output_def wave_arg_def wave_labels_def chunk_bytes_def Let_def)
  have "map (\<lambda>i. job_sink H slots (map ?arg [0..<n] ! i)) ?o
      = map (wave_call H seed algo cb base offset byte_start write_len sink slots) ?o"
    using o(2) by (intro map_cong refl) (simp add: job_sink_def payload_def wave_call_def out fun_eq_iff)
  then have s: "sinks H ?o ?w = run_sinks (map (wave_call H seed algo cb base offset byte_start write_len sink slots) ?o) ctx"
    unfolding sinks_def work.select_convs by (simp only:)
  have "rd (w_outs w' ! i) 0 (cb * POSE_HASH_BYTES) = Some (concat (wave_labels H seed algo cb base offset i))" if "i < n" for i
  proof -
    have "holds H (w_outs w') (?arg i)" using r(2) o(2) that by (simp add: batch_done_def)
    then show ?thesis by (simp add: holds_def out)
  qed
  moreover have "first_rc (w_args w') = 0 \<longleftrightarrow> (\<forall>r\<in>set (fst (sinks H ?o ?w)). r = 0)"
    by (rule batch_done_rcs [OF r(2)]) (simp add: o(2))
  moreover have "w_ctx w' = snd (sinks H ?o ?w)" using r(2) by (simp add: batch_done_def)
  ultimately show ?thesis
    unfolding s using r(1) o assms(4,5)
    by (intro exI [of _ "first_rc (w_args w')"] exI [of _ "w_outs w'"] exI [of _ "w_ctx w'"] exI [of _ ?o])
      (simp add: pose_graph_label_disk_wave_def run_pooled_def cb_def [symmetric] n_def [symmetric])
qed

end
