(* ===== verification/Region_Pose.thy ===== *)
theory Region_Pose
  imports Hash Edge_Labels Disk_Wave
begin

section \<open>Regions labelled by the labels of \<open>hash.c\<close>\<close>

text \<open>
  The batch contract of theory \<open>Region_Label\<close> discharged for the labeler of \<open>hash.c\<close>, on a pool and
  with a thread per job, and the verifier's side: the challenge of a block, recomputed from the chunk's
  seed alone, returns the block that the region holds.
\<close>

text \<open>The simplest behaviour of the system: every thread is created and the jobs finish in order.\<close>

definition in_order :: env where
  "in_order = \<lparr>spawn = (\<lambda>b i. True), finish_order = (\<lambda>b js. js)\<rparr>"

lemma in_order_ok [simp]: "env_ok in_order" "spawn in_order b i"
  by (simp_all add: env_ok_def in_order_def)

text \<open>The last job first: the calling thread is done before the threads it started.\<close>

definition caller_first :: env where
  "caller_first = \<lparr>spawn = (\<lambda>b i. True), finish_order = (\<lambda>b js. rev js)\<rparr>"

lemma caller_first_ok [simp]: "env_ok caller_first" "spawn caller_first b i"
  by (simp_all add: env_ok_def caller_first_def)

interpretation arm_pool: batch_runner "pose_labeler (arm_hw S A)" "run_pooled (pose_labeler (arm_hw S A)) in_order" True for S A
  by (rule run_pooled_runs [OF pose_labeler_hash]) simp_all

interpretation arm_spawned: batch_runner "pose_labeler (arm_hw S A)" "run_spawned (pose_labeler (arm_hw S A)) caller_first"
  "\<forall>b i. spawn caller_first b i" for S A
  by (rule run_spawned_runs [OF pose_labeler_hash]) simp_all

subsection \<open>The scratch buffers of \<open>pose_graph_label_region\<close>\<close>

lemma resolve_idem [simp]: "resolve_chunk_blocks (resolve_chunk_blocks c) = resolve_chunk_blocks c"
  by (simp add: resolve_chunk_blocks_def POSE_CHUNK_BLOCKS_def)

lemma those_map: "those (map f xs) = (if \<forall>x\<in>set xs. f x \<noteq> None then Some (map (the \<circ> f) xs) else None)"
  by (induction xs) (auto split: option.splits)

lemma unat_u32_u64: "unat (ucast (x :: u32) :: u64) = unat x"
  using unsigned_less [of x, where ?'a = nat]
  by (simp add: unsigned_ucast_eq take_bit_nat_eq_self_iff)

lemma malloc_scratch_fit:
  assumes "malloc_ok malloc" "\<forall>i<POSE_REGION_THREADS. malloc i (pose_graph_scratch_bytes c) \<noteq> None"
    and "resolve_chunk_blocks c \<le> ucast POSE_GRAPH_MAX_M"
  shows "scratch_fit False (unat (resolve_chunk_blocks c)) (map (the \<circ> (\<lambda>i. malloc i (pose_graph_scratch_bytes c))) [0..<POSE_REGION_THREADS])"
proof -
  define m :: u64 where "m = ucast (resolve_chunk_blocks c)"
  have um: "unat m = unat (resolve_chunk_blocks c)" by (simp add: m_def unat_u32_u64)
  then have e: "of_nat (unat (resolve_chunk_blocks c)) = m" by (simp add: um [symmetric])
  have m: "m \<noteq> 0" "m \<le> POSE_GRAPH_MAX_M"
    using assms(3) um by (auto simp: resolve_chunk_blocks_def POSE_CHUNK_BLOCKS_def POSE_GRAPH_MAX_M_def word_le_nat_alt unat_eq_zero
        split: if_splits)
  have sz: "length (the (malloc i (pose_graph_scratch_bytes c))) = unat (label_scratch_bytes m)" if "i < POSE_REGION_THREADS" for i
    using assms(1,2) that unfolding malloc_ok_def pose_graph_scratch_bytes_eq m_def [symmetric] by (metis option.collapse)
  show ?thesis
    using scratch_size_exact [OF m] sz by (auto simp: scratch_fit_def e m_def [symmetric] Let_def simp del: scount.simps)
qed

lemma label_region_result:
  assumes "node_hash H" "env_ok E" "malloc_ok malloc" "region_len \<noteq> 0" "region_len mod of_nat POSE_HASH_BYTES = 0"
    and "unat region_len \<le> length R" "resolve_chunk_blocks c \<le> ucast POSE_GRAPH_MAX_M"
  defines "mem \<equiv> \<forall>i<POSE_REGION_THREADS. malloc i (pose_graph_scratch_bytes c) \<noteq> None"
  shows "\<exists>rc R'. pose_graph_label_region H E malloc seed (Some R) region_len offset al c = Some (rc, Some R')
    \<and> (rc = 0 \<longrightarrow> blocks_labelled H seed offset al (unat (region_len div of_nat POSE_HASH_BYTES)) (unat (resolve_chunk_blocks c))
          (unat (region_len div of_nat POSE_HASH_BYTES)) R')
    \<and> agree_off {..<unat region_len} R R' \<and> rc \<in> {0, -1} \<and> (mem \<and> (\<forall>b i. spawn E b i) \<longrightarrow> rc = 0)
    \<and> (\<not> mem \<longrightarrow> rc = -1 \<and> R' = R)"
proof (cases mem)
  case True
  note sf = malloc_scratch_fit [OF assms(3) True [unfolded mem_def] assms(7)]
  have sb: "pose_graph_scratch_bytes (resolve_chunk_blocks c) = pose_graph_scratch_bytes c"
    by (simp add: pose_graph_scratch_bytes_eq)
  have "those (map (\<lambda>i. malloc i (pose_graph_scratch_bytes c)) [0..<POSE_REGION_THREADS])
      = Some (map (the \<circ> (\<lambda>i. malloc i (pose_graph_scratch_bytes c))) [0..<POSE_REGION_THREADS])"
    using True unfolding mem_def those_map by simp
  then show ?thesis
    using region_result [OF run_spawned_runs [OF assms(1,2)] assms(4-7) sf, of seed offset al] assms(4,5) True
    by (simp add: pose_graph_label_region_def pose_graph_label_region_ex_def region_args_bad_def sb)
next
  case False
  have sb: "pose_graph_scratch_bytes (resolve_chunk_blocks c) = pose_graph_scratch_bytes c"
    by (simp add: pose_graph_scratch_bytes_eq)
  have "those (map (\<lambda>i. malloc i (pose_graph_scratch_bytes c)) [0..<POSE_REGION_THREADS]) = None"
    using False unfolding mem_def those_map by (simp add: atLeast0LessThan) blast
  then show ?thesis using False assms(4,5)
    by (simp add: pose_graph_label_region_def region_args_bad_def sb)
qed

subsection \<open>The verifier\<close>

lemma challenge_answers_region:
  assumes "node_hash H" "malloc_ok malloc" "\<forall>i s. malloc i s \<noteq> None" "POSE_HASH_BYTES \<le> length out"
    and "blocks_labelled H seed offset al tot cb n R" "b < n" "b < tot" "0 < cb" "cb \<le> 2 ^ 20"
  shows "\<exists>out'. pose_graph_challenge H malloc (chunk_seed H seed (chunk_index offset (b div cb * cb) cb))
      (of_nat (min cb (tot - b div cb * cb))) (of_nat (b mod cb)) out al = Some (0, out')
    \<and> rd R (b * POSE_HASH_BYTES) POSE_HASH_BYTES = Some (take POSE_HASH_BYTES out')"
proof -
  let ?start = "b div cb * cb"
  let ?m = "min cb (tot - ?start)"
  have b: "?start + b mod cb = b" by simp
  have m: "b mod cb < ?m" using b assms(7) mod_less_divisor [OF assms(8), of b] by linarith
  have m1: "0 < ?m" "?m \<le> 2 ^ 20" using m assms(9) by linarith+
  note u = unat_chunk [OF m1]
  have r: "unat (of_nat (b mod cb) :: u64) = b mod cb"
    using less_le_trans [OF m m1(2)] by (intro unat_of_nat_u64) simp
  have "(of_nat (b mod cb) :: u64) < of_nat ?m" using u r m by (simp add: word_less_nat_alt)
  from node_hash.pose_graph_challenge_ok [OF assms(1,2) _ _ _ this assms(4), of "chunk_seed H seed (chunk_index offset ?start cb)" al]
  obtain out' where "pose_graph_challenge H malloc (chunk_seed H seed (chunk_index offset ?start cb)) (of_nat ?m)
      (of_nat (b mod cb)) out al = Some (0, out')"
    "take POSE_HASH_BYTES out' = output_labels H (chunk_seed H seed (chunk_index offset ?start cb)) (of_nat ?m) al ! (b mod cb)"
    using assms(3) u unfolding r by metis
  then show ?thesis using assms(5,6) by (auto simp: blocks_labelled_def block_label_def Let_def)
qed

text \<open>Regions that the in-place and the pooled function label alike.\<close>

lemma blocks_labelled_unique:
  assumes "blocks_labelled H seed offset al tot cb n R" "blocks_labelled H seed offset al tot cb n R'" "b < n"
  shows "rd R (b * POSE_HASH_BYTES) POSE_HASH_BYTES = rd R' (b * POSE_HASH_BYTES) POSE_HASH_BYTES"
  using assms by (simp add: blocks_labelled_def)

lemma blocks_labelled_eq:
  assumes "blocks_labelled H seed offset al tot cb n R" "blocks_labelled H seed offset al tot cb n R'"
    and "length R = n * POSE_HASH_BYTES" "length R' = n * POSE_HASH_BYTES"
  shows "R = R'"
proof (rule nth_equalityI)
  show "length R = length R'" using assms(3,4) by simp
  fix i assume i: "i < length R"
  let ?b = "i div POSE_HASH_BYTES"
  have h: "0 < POSE_HASH_BYTES" by (simp add: POSE_HASH_BYTES_def)
  have "?b < n" using i assms(3) by (simp add: less_mult_imp_div_less)
  then have "rd R (?b * POSE_HASH_BYTES) POSE_HASH_BYTES = rd R' (?b * POSE_HASH_BYTES) POSE_HASH_BYTES"
    "?b * POSE_HASH_BYTES + POSE_HASH_BYTES \<le> n * POSE_HASH_BYTES"
    using blocks_labelled_unique [OF assms(1,2)] mult_le_mono1 [of "?b + 1" n POSE_HASH_BYTES] by simp_all
  then have t: "take POSE_HASH_BYTES (drop (?b * POSE_HASH_BYTES) R) = take POSE_HASH_BYTES (drop (?b * POSE_HASH_BYTES) R')"
    "?b * POSE_HASH_BYTES + POSE_HASH_BYTES \<le> length R" using assms(3,4) by (simp_all add: rd_def)
  have "X ! i = take POSE_HASH_BYTES (drop (?b * POSE_HASH_BYTES) X) ! (i mod POSE_HASH_BYTES)"
    if "length X = n * POSE_HASH_BYTES" for X :: bytes
  proof -
    have "?b * POSE_HASH_BYTES \<le> length X" using that t(2) assms(3) by linarith
    then have "drop (?b * POSE_HASH_BYTES) X ! (i mod POSE_HASH_BYTES) = X ! (?b * POSE_HASH_BYTES + i mod POSE_HASH_BYTES)"
      by (rule nth_drop)
    then show ?thesis using mod_less_divisor [OF h, of i] by simp
  qed
  then show "R ! i = R' ! i" using t(1) assms(3,4) by metis
qed

lemma blocks_labelled_mono: "blocks_labelled H seed offset al tot cb n R \<Longrightarrow> k \<le> n \<Longrightarrow> blocks_labelled H seed offset al tot cb k R"
  by (simp add: blocks_labelled_def)

subsection \<open>The arguments that are refused\<close>

lemma region_args_refused:
  assumes "region_args_bad region region_len"
  shows "pose_graph_label_region H E malloc seed region region_len offset al cb = Some (-1, region)"
    "pose_graph_label_region_ex H E seed region region_len offset scratch al cb = Some (-1, region)"
    "pose_graph_label_region_pooled H E seed region region_len offset scratch al cb = Some (-1, region)"
    "pose_graph_label_region_pooled_inplace H E seed region region_len offset scratch al cb = Some (-1, region)"
  using assms
  by (simp_all add: pose_graph_label_region_def pose_graph_label_region_ex_def pose_graph_label_region_pooled_def
      pose_graph_label_region_pooled_inplace_def label_region_with_def Let_def)

end
