(* ===== verification/Pool.thy ===== *)
theory Pool
  imports Region_Label
begin

section \<open>The worker pool\<close>

text \<open>
  \<open>pose_graph_pool_t\<close> and the threads that share it, as a transition system: one step is one critical
  section under the mutex (a wait on a condition variable ends it), or one job run outside the mutex.
  A thread in \<open>pthread_cond_wait\<close> goes on after a broadcast or signal, or for no reason at all.
  Theory \<open>Pool_Correct\<close> proves that nobody sleeps through its work, that a batch ends with every job
  run once, which is what \<open>run_pooled\<close> says, and that no worker outlives the pool.
\<close>

subsection \<open>The state\<close>

text \<open>Where a worker is: about to lock the mutex, in \<open>pthread_cond_wait\<close>, with a job, with a job behind it.\<close>

datatype worker_pc = Absent | Locking | Waiting | Running nat | Ran | Exited

text \<open>
  Where the owner of the pool is: creating worker \<open>k\<close>, between operations, running the last job of a
  batch itself, before the check of \<open>n_done\<close>, in \<open>pthread_cond_wait\<close>, joining the workers, done.
\<close>

datatype caller_pc = Creating nat | Ready | Own | Joining | JoinWait | Stopping | Stopped

text \<open>
  The fields of \<open>pose_graph_pool\<close> (a job is its index in \<open>args\<close>), the program counters and the memory;
  \<open>p_start\<close> and \<open>p_log\<close> record the memory at the start of the batch and the jobs that have run.
\<close>

record 'c pool =
  p_jobs :: "nat option list"
  p_done :: int
  p_expected :: int
  p_shutdown :: bool
  p_workers :: "worker_pc list"
  p_caller :: caller_pc
  p_mem :: "'c work"
  p_start :: "'c work"
  p_log :: "nat list"

definition set_worker :: "nat \<Rightarrow> worker_pc \<Rightarrow> 'c pool \<Rightarrow> 'c pool" where
  "set_worker i pc p = p\<lparr>p_workers := (p_workers p)[i := pc]\<rparr>"

definition wake :: "worker_pc \<Rightarrow> worker_pc" where
  "wake pc = (if pc = Waiting then Locking else pc)"

definition broadcast_work :: "'c pool \<Rightarrow> 'c pool" where
  "broadcast_work p = p\<lparr>p_workers := map wake (p_workers p)\<rparr>"

definition signal_done :: "'c pool \<Rightarrow> 'c pool" where
  "signal_done p = (if p_caller p = JoinWait then p\<lparr>p_caller := Joining\<rparr> else p)"

subsection \<open>The operations\<close>

text \<open>\<open>calloc\<close>, before the first worker is created.\<close>

definition pool_new :: "'c work \<Rightarrow> 'c pool" where
  "pool_new w = \<lparr>p_jobs = replicate (POSE_REGION_THREADS - 1) None, p_done = 0, p_expected = 0, p_shutdown = False,
     p_workers = replicate (POSE_REGION_THREADS - 1) Absent, p_caller = Creating 0, p_mem = w\<lparr>w_args := []\<rparr>,
     p_start = w\<lparr>w_args := []\<rparr>, p_log = []\<rparr>"

text \<open>One round of the creation loop; \<open>ok\<close> is whether \<open>create_worker_thread\<close> succeeds.\<close>

definition pool_create_step :: "nat \<Rightarrow> bool \<Rightarrow> 'c pool \<Rightarrow> 'c pool" where
  "pool_create_step k ok p =
     (if ok then (set_worker k Locking p)\<lparr>p_caller := if k + 1 < POSE_REGION_THREADS - 1 then Creating (k + 1) else Ready\<rparr>
      else (broadcast_work (p\<lparr>p_shutdown := True\<rparr>))\<lparr>p_caller := Stopping\<rparr>)"

text \<open>The worker with the mutex: the loop test, then leave, wait, or take the job and unlock.\<close>

definition worker_loop :: "nat \<Rightarrow> 'c pool \<Rightarrow> 'c pool" where
  "worker_loop i p =
     (if p_shutdown p then set_worker i Exited p
      else (case p_jobs p ! i of
          None \<Rightarrow> set_worker i Waiting p
        | Some job \<Rightarrow> set_worker i (Running job) (p\<lparr>p_jobs := (p_jobs p)[i := None]\<rparr>)))"

text \<open>\<open>if (++pool->n_done >= pool->n_expected) signal\<close>, with the mutex.\<close>

definition worker_report :: "'c pool \<Rightarrow> 'c pool" where
  "worker_report p =
     (let p' = p\<lparr>p_done := p_done p + 1\<rparr>
      in if p_done p' \<ge> p_expected p' then signal_done p' else p')"

text \<open>The caller hands out a batch: jobs \<open>0..n-2\<close> to the workers when there is more than one.\<close>

definition submit_jobs :: "'c work \<Rightarrow> 'c pool \<Rightarrow> 'c pool" where
  "submit_jobs w p =
     (let n = length (w_args w);
          p' = p\<lparr>p_mem := w, p_start := w, p_log := [], p_caller := Own\<rparr>
      in if n > 1
         then broadcast_work (p'\<lparr>p_done := 0, p_expected := int n - 1,
                p_jobs := map Some [0..<n - 1] @ drop (n - 1) (p_jobs p)\<rparr>)
         else p')"

text \<open>The loop test of the caller, with the mutex.\<close>

definition caller_join :: "'c pool \<Rightarrow> 'c pool" where
  "caller_join p = p\<lparr>p_caller := if p_done p < p_expected p then JoinWait else Ready\<rparr>"

definition pool_shutdown :: "'c pool \<Rightarrow> 'c pool" where
  "pool_shutdown p = (broadcast_work (p\<lparr>p_shutdown := True\<rparr>))\<lparr>p_caller := Stopping\<rparr>"

text \<open>Every \<open>pthread_join\<close> returned.\<close>

definition joined :: "'c pool \<Rightarrow> bool" where
  "joined p \<longleftrightarrow> (\<forall>pc\<in>set (p_workers p). pc = Exited \<or> pc = Absent)"

definition run_job :: "labeler \<Rightarrow> nat \<Rightarrow> 'c pool \<Rightarrow> 'c pool option" where
  "run_job H j p = map_option (\<lambda>m. p\<lparr>p_mem := m, p_log := p_log p @ [j]\<rparr>) (chunk_thread_fn H j (p_mem p))"

subsection \<open>The steps\<close>

text \<open>The steps that the threads make on their own.\<close>

inductive pool_step :: "labeler \<Rightarrow> 'c pool \<Rightarrow> 'c pool \<Rightarrow> bool" for H where
  create: "p_caller p = Creating k \<Longrightarrow> pool_step H p (pool_create_step k ok p)"
| lock: "i < length (p_workers p) \<Longrightarrow> p_workers p ! i = Locking \<Longrightarrow> pool_step H p (worker_loop i p)"
| work: "i < length (p_workers p) \<Longrightarrow> p_workers p ! i = Running j \<Longrightarrow> run_job H j p = Some p'
    \<Longrightarrow> pool_step H p (set_worker i Ran p')"
| report: "i < length (p_workers p) \<Longrightarrow> p_workers p ! i = Ran \<Longrightarrow> pool_step H p (worker_loop i (worker_report p))"
| own: "p_caller p = Own \<Longrightarrow> run_job H (length (w_args (p_start p)) - 1) p = Some p'
    \<Longrightarrow> pool_step H p (p'\<lparr>p_caller := if length (w_args (p_start p)) > 1 then Joining else Ready\<rparr>)"
| join: "p_caller p = Joining \<Longrightarrow> pool_step H p (caller_join p)"
| free: "p_caller p = Stopping \<Longrightarrow> joined p \<Longrightarrow> pool_step H p (p\<lparr>p_caller := Stopped\<rparr>)"

text \<open>What the owner of the pool may start between two operations, and the wake-ups without a cause.\<close>

inductive pool_call :: "'c pool \<Rightarrow> 'c pool \<Rightarrow> bool" where
  batch: "p_caller p = Ready \<Longrightarrow> w_args w \<noteq> [] \<Longrightarrow> length (w_args w) \<le> POSE_REGION_THREADS \<Longrightarrow> pool_call p (submit_jobs w p)"
| destroy: "p_caller p = Ready \<Longrightarrow> pool_call p (pool_shutdown p)"

inductive spurious :: "'c pool \<Rightarrow> 'c pool \<Rightarrow> bool" where
  worker: "i < length (p_workers p) \<Longrightarrow> p_workers p ! i = Waiting \<Longrightarrow> spurious p (set_worker i Locking p)"
| caller: "p_caller p = JoinWait \<Longrightarrow> spurious p (p\<lparr>p_caller := Joining\<rparr>)"

inductive pool_reach :: "labeler \<Rightarrow> 'c pool \<Rightarrow> bool" for H where
  new: "pool_reach H (pool_new w)"
| step: "pool_reach H p \<Longrightarrow> pool_step H p p' \<Longrightarrow> pool_reach H p'"
| call: "pool_reach H p \<Longrightarrow> pool_call p p' \<Longrightarrow> pool_reach H p'"
| spur: "pool_reach H p \<Longrightarrow> spurious p p' \<Longrightarrow> pool_reach H p'"

inductive_cases pool_stepE: "pool_step H p p'"
inductive_cases pool_callE: "pool_call p p'"
inductive_cases spuriousE: "spurious p p'"

end
