(* ===== verification/Pool_Correct.thy ===== *)
theory Pool_Correct
  imports Pool
begin

section \<open>The worker pool is correct\<close>

text \<open>
  The invariant of the pool, its preservation by every step, and what follows: when a batch is over
  every job has run exactly once; some thread can move as long as the batch is not over; the
  moves cannot go on forever; a freed pool has no worker left.
\<close>

subsection \<open>The invariant\<close>

abbreviation batch_size :: "'c pool \<Rightarrow> nat" where "batch_size p \<equiv> length (w_args (p_start p))"

definition in_batch :: "'c pool \<Rightarrow> bool" where
  "in_batch p \<longleftrightarrow> p_caller p \<in> {Own, Joining, JoinWait}"

text \<open>A slot of \<open>jobs\<close> and its worker: where job \<open>i\<close> of the batch is.\<close>

fun slot_ok :: "nat \<Rightarrow> nat set \<Rightarrow> bool \<Rightarrow> bool \<Rightarrow> nat \<Rightarrow> nat option \<Rightarrow> worker_pc \<Rightarrow> bool" where
  "slot_ok n log b sh i job Absent \<longleftrightarrow> job = None \<and> n = 0"
| "slot_ok n log b sh i job Waiting \<longleftrightarrow> job = None \<and> \<not> sh \<and> (i < n - 1 \<longrightarrow> i \<in> log)"
| "slot_ok n log b sh i job Locking \<longleftrightarrow>
     (job = Some i \<and> i < n - 1 \<and> i \<notin> log \<and> b) \<or> (job = None \<and> (i < n - 1 \<longrightarrow> i \<in> log))"
| "slot_ok n log b sh i job (Running j) \<longleftrightarrow> j = i \<and> job = None \<and> i < n - 1 \<and> i \<notin> log \<and> b"
| "slot_ok n log b sh i job Ran \<longleftrightarrow> job = None \<and> i < n - 1 \<and> i \<in> log \<and> b"
| "slot_ok n log b sh i job Exited \<longleftrightarrow> job = None \<and> sh \<and> (i < n - 1 \<longrightarrow> i \<in> log)"

definition busy :: "nat option \<Rightarrow> worker_pc \<Rightarrow> bool" where
  "busy job pc \<longleftrightarrow> job \<noteq> None \<or> (case pc of Running j \<Rightarrow> True | Ran \<Rightarrow> True | _ \<Rightarrow> False)"

definition busy_slots :: "'c pool \<Rightarrow> nat set" where
  "busy_slots p = {i. i < POSE_REGION_THREADS - 1 \<and> busy (p_jobs p ! i) (p_workers p ! i)}"

definition counted :: "'c pool \<Rightarrow> bool" where
  "counted p \<longleftrightarrow> (batch_size p > 1 \<longrightarrow>
     p_expected p = int (batch_size p) - 1 \<and> p_done p + int (card (busy_slots p)) = int (batch_size p) - 1)"

fun caller_ok :: "'c pool \<Rightarrow> caller_pc \<Rightarrow> bool" where
  "caller_ok p (Creating k) \<longleftrightarrow> k < POSE_REGION_THREADS - 1 \<and> batch_size p = 0 \<and> \<not> p_shutdown p
     \<and> (\<forall>i<POSE_REGION_THREADS - 1. p_workers p ! i = Absent \<longleftrightarrow> k \<le> i)"
| "caller_ok p Ready \<longleftrightarrow> \<not> p_shutdown p \<and> Absent \<notin> set (p_workers p) \<and> set (p_log p) = {..<batch_size p}"
| "caller_ok p Own \<longleftrightarrow> \<not> p_shutdown p \<and> 0 < batch_size p \<and> batch_size p - 1 \<notin> set (p_log p) \<and> counted p"
| "caller_ok p Joining \<longleftrightarrow> \<not> p_shutdown p \<and> 1 < batch_size p \<and> batch_size p - 1 \<in> set (p_log p) \<and> counted p"
| "caller_ok p JoinWait \<longleftrightarrow> \<not> p_shutdown p \<and> 1 < batch_size p \<and> batch_size p - 1 \<in> set (p_log p) \<and> counted p
     \<and> p_done p < p_expected p"
| "caller_ok p Stopping \<longleftrightarrow> p_shutdown p \<and> set (p_log p) = {..<batch_size p}"
| "caller_ok p Stopped \<longleftrightarrow> p_shutdown p \<and> set (p_log p) = {..<batch_size p} \<and> joined p"

text \<open>The slots, as a predicate of the fields it reads.\<close>

definition slots_ok :: "nat \<Rightarrow> nat set \<Rightarrow> bool \<Rightarrow> bool \<Rightarrow> nat option list \<Rightarrow> worker_pc list \<Rightarrow> bool" where
  "slots_ok n log b sh js ws \<longleftrightarrow> length js = POSE_REGION_THREADS - 1 \<and> length ws = POSE_REGION_THREADS - 1
     \<and> (\<forall>i<POSE_REGION_THREADS - 1. slot_ok n log b sh i (js ! i) (ws ! i))"

definition pool_inv :: "labeler \<Rightarrow> 'c pool \<Rightarrow> bool" where
  "pool_inv H p \<longleftrightarrow> batch_size p \<le> POSE_REGION_THREADS
     \<and> slots_ok (batch_size p) (set (p_log p)) (in_batch p) (p_shutdown p) (p_jobs p) (p_workers p)
     \<and> distinct (p_log p) \<and> set (p_log p) \<subseteq> {..<batch_size p}
     \<and> run_jobs H (p_log p) (p_start p) = Some (p_mem p) \<and> caller_ok p (p_caller p)"

subsection \<open>Frames\<close>

lemma slots_okD:
  "slots_ok n log b sh js ws \<Longrightarrow> i < length ws \<Longrightarrow> slot_ok n log b sh i (js ! i) (ws ! i) \<and> i < length js"
  by (simp add: slots_ok_def)

lemma slots_upd:
  "slots_ok n log b sh js ws \<Longrightarrow> slot_ok n log b sh i job pc \<Longrightarrow> slots_ok n log b sh (js[i := job]) (ws[i := pc])"
  by (simp add: slots_ok_def) (metis nth_list_update_eq nth_list_update_neq)

lemma slots_upd_worker:
  "slots_ok n log b sh js ws \<Longrightarrow> slot_ok n log b sh i (js ! i) pc \<Longrightarrow> slots_ok n log b sh js (ws[i := pc])"
  by (simp add: slots_ok_def) (metis nth_list_update_eq nth_list_update_neq)

text \<open>A job that has run is not one of the others.\<close>

lemma slot_ok_log: "slot_ok n log b sh i job pc \<Longrightarrow> i \<noteq> j \<or> \<not> i < n - 1 \<Longrightarrow> slot_ok n (insert j log) b sh i job pc"
  by (cases pc) auto

text \<open>A slot that is not busy does not depend on the batch being under way.\<close>

lemma slot_ok_idle: "slot_ok n log b sh i job pc \<Longrightarrow> \<not> busy job pc \<Longrightarrow> slot_ok n log b' sh i job pc \<and> (i < n - 1 \<longrightarrow> i \<in> log)"
  by (cases pc) (auto simp: busy_def)

lemma slot_ok_busy: "slot_ok n log b sh i job pc \<Longrightarrow> busy job pc \<Longrightarrow> b \<and> i < n - 1"
  by (cases pc) (auto simp: busy_def)

lemma busy_slots_worker:
  "i < length (p_workers p) \<Longrightarrow> length (p_workers p) = POSE_REGION_THREADS - 1 \<Longrightarrow>
    busy_slots (set_worker i pc p) = (if busy (p_jobs p ! i) pc then insert i (busy_slots p) else busy_slots p - {i})"
  by (auto simp: busy_slots_def set_worker_def nth_list_update)

lemma finite_busy_slots [simp]: "finite (busy_slots p)"
  by (simp add: busy_slots_def)

lemma in_batch_cases: "in_batch p \<longleftrightarrow> p_caller p = Own \<or> p_caller p = Joining \<or> p_caller p = JoinWait"
  by (auto simp: in_batch_def)

lemma run_jobs_snoc: "run_jobs H (is @ [j]) w = do { w' \<leftarrow> run_jobs H is w; chunk_thread_fn H j w' }"
proof (induction "is" arbitrary: w)
  case Nil
  then show ?case by (cases "chunk_thread_fn H j w") auto
next
  case (Cons i "is")
  then show ?case by (cases "chunk_thread_fn H i w") auto
qed

lemma run_job_Some:
  "run_job H j p = Some p' \<longleftrightarrow> (\<exists>m. chunk_thread_fn H j (p_mem p) = Some m \<and> p' = p\<lparr>p_mem := m, p_log := p_log p @ [j]\<rparr>)"
  by (auto simp: run_job_def)

text \<open>The caller's part of the invariant when a worker moves without finishing a job.\<close>

lemma caller_ok_worker:
  assumes "i < length (p_workers p)" "length (p_workers p) = POSE_REGION_THREADS - 1" "p_workers p ! i \<noteq> Absent" "pc \<noteq> Absent"
    and "busy_slots (set_worker i pc p) = busy_slots p" "joined p \<longrightarrow> joined (set_worker i pc p)" "caller_ok p c"
  shows "caller_ok (set_worker i pc p) c"
proof -
  have a: "Absent \<notin> set (p_workers p) \<Longrightarrow> Absent \<notin> set (p_workers (set_worker i pc p))"
    using assms(4) set_update_subset_insert [of "p_workers p" i pc] by (auto simp: set_worker_def)
  have b: "p_workers (set_worker i pc p) ! k = Absent \<longleftrightarrow> p_workers p ! k = Absent" if "k < POSE_REGION_THREADS - 1" for k
    using assms(1-4) that by (auto simp: set_worker_def nth_list_update)
  have c: "counted (set_worker i pc p) = counted p" unfolding counted_def assms(5) by (simp add: set_worker_def)
  have f: "p_shutdown (set_worker i pc p) = p_shutdown p" "p_start (set_worker i pc p) = p_start p" "p_log (set_worker i pc p) = p_log p"
    "p_done (set_worker i pc p) = p_done p" "p_expected (set_worker i pc p) = p_expected p"
    by (simp_all add: set_worker_def)
  show ?thesis using assms(6,7) a b c by (cases c) (simp_all add: f)
qed

subsection \<open>Every step preserves the invariant\<close>

lemma worker_loop_inv:
  assumes inv: "pool_inv H p" and i: "i < length (p_workers p)" "p_workers p ! i = Locking"
  shows "pool_inv H (worker_loop i p)"
proof -
  note d = inv [unfolded pool_inv_def]
  have s: "slots_ok (batch_size p) (set (p_log p)) (in_batch p) (p_shutdown p) (p_jobs p) (p_workers p)" using d by blast
  then have len: "length (p_workers p) = POSE_REGION_THREADS - 1" "length (p_jobs p) = POSE_REGION_THREADS - 1"
    by (auto simp: slots_ok_def)
  note so = slots_okD [OF s i(1), unfolded i(2)]
  have nj: "\<not> joined p" using i nth_mem by (fastforce simp: joined_def)
  have sh: "p_shutdown p \<Longrightarrow> \<not> in_batch p" using d by (auto simp: in_batch_cases)
  show ?thesis
  proof (cases "p_shutdown p \<or> p_jobs p ! i = None")
    case True
    let ?pc = "if p_shutdown p then Exited else Waiting"
    have jn: "p_jobs p ! i = None" using so sh True by auto
    have b: "busy_slots (set_worker i ?pc p) = busy_slots p"
      using i busy_slots_worker [OF i(1) len(1), of ?pc] by (auto simp: jn busy_def busy_slots_def)
    have c: "caller_ok (set_worker i ?pc p) (p_caller p)"
      using caller_ok_worker [OF i(1) len(1) _ _ b] i(2) nj d by auto
    have "slots_ok (batch_size p) (set (p_log p)) (in_batch p) (p_shutdown p) (p_jobs p) ((p_workers p)[i := ?pc])"
      by (rule slots_upd_worker [OF s]) (use so jn in auto)
    then have "pool_inv H (set_worker i ?pc p)"
      using d c by (simp add: pool_inv_def set_worker_def in_batch_def)
    moreover have "worker_loop i p = set_worker i ?pc p" using jn by (simp add: worker_loop_def)
    ultimately show ?thesis by simp
  next
    case False
    then have job: "p_jobs p ! i = Some i" "i < batch_size p - 1" "i \<notin> set (p_log p)" "in_batch p" using so by auto
    define q where "q = p\<lparr>p_jobs := (p_jobs p)[i := None]\<rparr>"
    let ?p' = "set_worker i (Running i) q"
    have b: "busy_slots ?p' = busy_slots p"
      using i len job(1) by (auto simp: busy_slots_def q_def set_worker_def nth_list_update busy_def)
    have c: "caller_ok ?p' (p_caller p)"
      using job(4) d b by (auto simp: in_batch_cases counted_def q_def set_worker_def)
    have "slots_ok (batch_size p) (set (p_log p)) (in_batch p) (p_shutdown p) ((p_jobs p)[i := None]) ((p_workers p)[i := Running i])"
      by (rule slots_upd [OF s]) (use job in simp)
    then have "pool_inv H ?p'" using d c by (simp add: pool_inv_def set_worker_def q_def in_batch_def)
    then show ?thesis using False job(1) by (simp add: worker_loop_def q_def)
  qed
qed

lemma worker_report_inv:
  assumes inv: "pool_inv H p" and i: "i < length (p_workers p)" "p_workers p ! i = Ran"
  shows "pool_inv H (set_worker i Locking (worker_report p))"
proof -
  note d = inv [unfolded pool_inv_def]
  have s: "slots_ok (batch_size p) (set (p_log p)) (in_batch p) (p_shutdown p) (p_jobs p) (p_workers p)" using d by blast
  then have len: "length (p_workers p) = POSE_REGION_THREADS - 1" by (auto simp: slots_ok_def)
  note so = slots_okD [OF s i(1), unfolded i(2)]
  then have job: "p_jobs p ! i = None" "i < batch_size p - 1" "i \<in> set (p_log p)" "in_batch p" by auto
  have n: "batch_size p > 1" using job(2) by simp
  let ?q = "set_worker i Locking (worker_report p)"
  have f: "p_shutdown ?q = p_shutdown p" "p_start ?q = p_start p" "p_log ?q = p_log p" "p_jobs ?q = p_jobs p" "p_mem ?q = p_mem p"
    "p_done ?q = p_done p + 1" "p_expected ?q = p_expected p" "p_workers ?q = (p_workers p)[i := Locking]"
    "p_caller ?q = (if p_done p + 1 \<ge> p_expected p \<and> p_caller p = JoinWait then Joining else p_caller p)"
    by (simp_all add: set_worker_def worker_report_def signal_done_def Let_def)
  have "i \<in> busy_slots p" using i len by (simp add: busy_slots_def busy_def)
  moreover have "busy_slots ?q = busy_slots p - {i}"
    using i len job(1) by (auto simp: busy_slots_def f nth_list_update busy_def)
  ultimately have "card (busy_slots p) = card (busy_slots ?q) + 1"
    by (metis card.remove finite_busy_slots Suc_eq_plus1)
  then have c: "counted p \<Longrightarrow> counted ?q" by (simp add: counted_def f n)
  have ib: "in_batch ?q" using job(4) by (simp add: in_batch_cases f)
  have "slots_ok (batch_size p) (set (p_log p)) (in_batch p) (p_shutdown p) (p_jobs p) ((p_workers p)[i := Locking])"
    by (rule slots_upd_worker [OF s]) (use job in simp)
  moreover have "caller_ok ?q (p_caller ?q)"
    using d job(4) c by (auto simp: f in_batch_cases)
  ultimately show ?thesis using d ib job(4) by (simp add: pool_inv_def f)
qed

lemma worker_loop_over: "worker_loop i (set_worker i pc p) = worker_loop i p"
  by (simp add: worker_loop_def set_worker_def split: option.split)

lemma work_inv:
  assumes inv: "pool_inv H p" and i: "i < length (p_workers p)" "p_workers p ! i = Running j" and r: "run_job H j p = Some p'"
  shows "pool_inv H (set_worker i Ran p')"
proof -
  note d = inv [unfolded pool_inv_def]
  have s: "slots_ok (batch_size p) (set (p_log p)) (in_batch p) (p_shutdown p) (p_jobs p) (p_workers p)" using d by blast
  then have len: "length (p_workers p) = POSE_REGION_THREADS - 1" by (auto simp: slots_ok_def)
  note so = slots_okD [OF s i(1), unfolded i(2)]
  then have job: "j = i" "p_jobs p ! i = None" "i < batch_size p - 1" "i \<notin> set (p_log p)" "in_batch p" by auto
  obtain m where m: "chunk_thread_fn H i (p_mem p) = Some m" "p' = p\<lparr>p_mem := m, p_log := p_log p @ [i]\<rparr>"
    using r by (auto simp: run_job_Some job(1))
  let ?q = "set_worker i Ran p'"
  have f: "p_shutdown ?q = p_shutdown p" "p_start ?q = p_start p" "p_log ?q = p_log p @ [i]" "p_jobs ?q = p_jobs p" "p_mem ?q = m"
    "p_done ?q = p_done p" "p_expected ?q = p_expected p" "p_workers ?q = (p_workers p)[i := Ran]" "p_caller ?q = p_caller p"
    by (simp_all add: set_worker_def m(2))
  have "busy_slots ?q = busy_slots p" using i len by (auto simp: busy_slots_def f nth_list_update busy_def)
  then have c: "counted ?q = counted p" by (simp add: counted_def f)
  have "slot_ok (batch_size p) (set (p_log ?q)) (in_batch p) (p_shutdown p) k (p_jobs ?q ! k) (p_workers ?q ! k)"
    if k: "k < POSE_REGION_THREADS - 1" for k
  proof (cases "k = i")
    case True
    then show ?thesis using job i by (simp add: f)
  next
    case False
    then show ?thesis using slot_ok_log [of _ _ _ _ k _ _ i] slots_okD [OF s, of k] k len by (simp add: f)
  qed
  then have "slots_ok (batch_size p) (set (p_log ?q)) (in_batch p) (p_shutdown p) (p_jobs ?q) (p_workers ?q)"
    using s by (simp add: slots_ok_def f)
  moreover have "caller_ok ?q (p_caller ?q)" using d job c by (auto simp: f in_batch_cases)
  moreover have "run_jobs H (p_log ?q) (p_start ?q) = Some (p_mem ?q)" using d m(1) by (simp add: f run_jobs_snoc)
  moreover have "in_batch ?q = in_batch p" by (simp add: in_batch_def f)
  ultimately show ?thesis using d job(3,4) by (simp add: pool_inv_def f)
qed

text \<open>The workers that are not busy when the caller's own job is the last one.\<close>

lemma slots_idle:
  assumes "slots_ok n log b sh js ws" "\<forall>i<POSE_REGION_THREADS - 1. \<not> busy (js ! i) (ws ! i)"
  shows "slots_ok n log b' sh js ws" "i < n - 1 \<Longrightarrow> n \<le> POSE_REGION_THREADS \<Longrightarrow> i \<in> log"
proof -
  show "slots_ok n log b' sh js ws" using assms slot_ok_idle unfolding slots_ok_def by blast
  assume "i < n - 1" "n \<le> POSE_REGION_THREADS"
  then show "i \<in> log" using assms slot_ok_idle [of n log b sh i "js ! i" "ws ! i"] by (simp add: slots_ok_def)
qed

lemma no_absent: "slots_ok n log b sh js ws \<Longrightarrow> 0 < n \<Longrightarrow> Absent \<notin> set ws"
  unfolding slots_ok_def by (metis in_set_conv_nth slot_ok.simps(1) less_irrefl)

lemma own_inv:
  assumes inv: "pool_inv H p" and o: "p_caller p = Own" and r: "run_job H (batch_size p - 1) p = Some p'"
  shows "pool_inv H (p'\<lparr>p_caller := if batch_size p > 1 then Joining else Ready\<rparr>)"
proof -
  note d = inv [unfolded pool_inv_def]
  let ?n = "batch_size p"
  have ib: "in_batch p = True" using o by (simp add: in_batch_cases)
  have s: "slots_ok ?n (set (p_log p)) True (p_shutdown p) (p_jobs p) (p_workers p)" using d unfolding ib by blast
  obtain m where m: "chunk_thread_fn H (?n - 1) (p_mem p) = Some m" "p' = p\<lparr>p_mem := m, p_log := p_log p @ [?n - 1]\<rparr>"
    using r by (auto simp: run_job_Some)
  have n: "0 < ?n" "?n - 1 \<notin> set (p_log p)" "counted p" "\<not> p_shutdown p" using d o by auto
  have s': "slots_ok ?n (insert (?n - 1) (set (p_log p))) True (p_shutdown p) (p_jobs p) (p_workers p)"
    using s slot_ok_log [of ?n "set (p_log p)" True "p_shutdown p" _ _ _ "?n - 1"] by (auto simp: slots_ok_def)
  have rj: "run_jobs H (p_log p @ [?n - 1]) (p_start p) = Some m" using d m(1) by (simp add: run_jobs_snoc)
  have lg: "distinct (p_log p @ [?n - 1])" "set (p_log p @ [?n - 1]) \<subseteq> {..<?n}" using d n by auto
  show ?thesis
  proof (cases "?n > 1")
    case True
    let ?q = "p'\<lparr>p_caller := Joining\<rparr>"
    have "counted ?q" using n(3) by (simp add: counted_def busy_slots_def m(2))
    then show ?thesis using True d s' rj lg n by (simp add: pool_inv_def m(2) in_batch_cases)
  next
    case False
    then have n1: "?n = 1" using n(1) by linarith
    have "\<forall>i<POSE_REGION_THREADS - 1. \<not> busy (p_jobs p ! i) (p_workers p ! i)"
      using slot_ok_busy s n1 unfolding slots_ok_def by (metis diff_self_eq_0 not_less_zero)
    from slots_idle(1) [OF s', of False] this
    have "slots_ok ?n (insert (?n - 1) (set (p_log p))) False (p_shutdown p) (p_jobs p) (p_workers p)" by blast
    moreover have "set (p_log p @ [?n - 1]) = {..<?n}" using lg(2) n1 by auto
    ultimately show ?thesis using False d rj lg n no_absent [OF s n(1)] by (simp add: pool_inv_def m(2) in_batch_cases)
  qed
qed

lemma join_inv:
  assumes inv: "pool_inv H p" and j: "p_caller p = Joining"
  shows "pool_inv H (caller_join p)"
proof -
  note d = inv [unfolded pool_inv_def]
  let ?n = "batch_size p"
  have ib: "in_batch p = True" using j by (simp add: in_batch_cases)
  have s: "slots_ok ?n (set (p_log p)) True (p_shutdown p) (p_jobs p) (p_workers p)" using d unfolding ib by blast
  have n: "1 < ?n" "?n - 1 \<in> set (p_log p)" "counted p" "\<not> p_shutdown p" using d j by auto
  show ?thesis
  proof (cases "p_done p < p_expected p")
    case True
    then show ?thesis using d s n by (simp add: pool_inv_def caller_join_def in_batch_cases counted_def busy_slots_def)
  next
    case False
    then have "card (busy_slots p) = 0" using n(1,3) unfolding counted_def by linarith
    then have "busy_slots p = {}" by simp
    then have idle: "\<forall>i<POSE_REGION_THREADS - 1. \<not> busy (p_jobs p ! i) (p_workers p ! i)" by (auto simp: busy_slots_def)
    have "set (p_log p) = {..<?n}"
    proof -
      have "i \<in> set (p_log p)" if "i < ?n" for i
        using slots_idle(2) [OF s idle, of i] n(1,2) d that by (cases "i = ?n - 1") auto
      then show ?thesis using d by blast
    qed
    moreover have "Absent \<notin> set (p_workers p)" by (rule no_absent [OF s]) (use n(1) in linarith)
    ultimately show ?thesis using False d n slots_idle(1) [OF s idle, of False]
      by (simp add: pool_inv_def caller_join_def in_batch_cases)
  qed
qed

text \<open>A broadcast: a waiting worker looks again.\<close>

lemma slot_ok_wake: "slot_ok n log b sh i job pc \<Longrightarrow> slot_ok n log b sh' i job (wake pc) \<or> pc = Exited"
  by (cases pc) (auto simp: wake_def)

lemma slots_wake:
  "slots_ok n log b False js ws \<Longrightarrow> slots_ok n log b sh' js (map wake ws)"
  unfolding slots_ok_def using slot_ok_wake by fastforce

lemma Absent_wake: "wake pc = Absent \<longleftrightarrow> pc = Absent"
  by (simp add: wake_def)

lemma busy_wake [simp]: "busy job (wake pc) = busy job pc"
  by (cases pc) (simp_all add: busy_def wake_def)

lemma create_inv:
  assumes inv: "pool_inv H p" and c: "p_caller p = Creating k"
  shows "pool_inv H (pool_create_step k ok p)"
proof -
  note d = inv [unfolded pool_inv_def]
  have n: "batch_size p = 0" "\<not> p_shutdown p" "k < POSE_REGION_THREADS - 1" and
    ab: "\<forall>i<POSE_REGION_THREADS - 1. p_workers p ! i = Absent \<longleftrightarrow> k \<le> i" using d c by auto
  have ib: "in_batch p = False" and sh: "p_shutdown p = False" using c n by (simp_all add: in_batch_cases)
  have s: "slots_ok 0 (set (p_log p)) False False (p_jobs p) (p_workers p)" using d unfolding ib n(1) sh by blast
  then have len: "length (p_workers p) = POSE_REGION_THREADS - 1" by (simp add: slots_ok_def)
  have lg: "p_log p = []" using d n(1) by simp
  show ?thesis
  proof (cases ok)
    case True
    have wk: "p_workers p ! k = Absent" using ab n(3) by simp
    have "slot_ok 0 (set (p_log p)) False False k (p_jobs p ! k) Locking"
      using slots_okD [OF s, of k] n(3) len wk by simp
    then have s': "slots_ok 0 (set (p_log p)) False False (p_jobs p) ((p_workers p)[k := Locking])"
      by (rule slots_upd_worker [OF s])
    have "(p_workers p)[k := Locking] ! i = Absent \<longleftrightarrow> k + 1 \<le> i" if "i < POSE_REGION_THREADS - 1" for i
      using ab that n(3) len by (cases "i = k") auto
    moreover from this have "\<not> k + 1 < POSE_REGION_THREADS - 1 \<Longrightarrow> Absent \<notin> set ((p_workers p)[k := Locking])"
      using len by (auto simp: in_set_conv_nth)
    ultimately show ?thesis
      using d True s' n lg by (auto simp: pool_inv_def pool_create_step_def set_worker_def in_batch_cases)
  next
    case False
    then show ?thesis
      using d n lg slots_wake [OF s, of True]
      by (simp add: pool_inv_def pool_create_step_def broadcast_work_def in_batch_cases)
  qed
qed

lemma pool_shutdown_inv:
  assumes inv: "pool_inv H p" and c: "p_caller p = Ready"
  shows "pool_inv H (pool_shutdown p)"
proof -
  note d = inv [unfolded pool_inv_def]
  have ib: "in_batch p = False" and sh: "p_shutdown p = False" using d c by (simp_all add: in_batch_cases)
  have s: "slots_ok (batch_size p) (set (p_log p)) False False (p_jobs p) (p_workers p)" using d unfolding ib sh by blast
  show ?thesis using d c slots_wake [OF s, of True]
    by (simp add: pool_inv_def pool_shutdown_def broadcast_work_def in_batch_cases)
qed

lemma spurious_inv:
  assumes inv: "pool_inv H p" and sp: "spurious p p'"
  shows "pool_inv H p'"
  using sp
proof (cases rule: spurious.cases)
  case (worker i)
  note d = inv [unfolded pool_inv_def]
  have s: "slots_ok (batch_size p) (set (p_log p)) (in_batch p) (p_shutdown p) (p_jobs p) (p_workers p)" using d by blast
  then have len: "length (p_workers p) = POSE_REGION_THREADS - 1" by (simp add: slots_ok_def)
  note so = slots_okD [OF s worker(2), unfolded worker(3)]
  have "busy_slots (set_worker i Locking p) = busy_slots p"
    using busy_slots_worker [OF worker(2) len, of Locking] so by (auto simp: busy_slots_def busy_def worker(3))
  moreover have "joined p \<longrightarrow> joined (set_worker i Locking p)" using worker nth_mem by (fastforce simp: joined_def)
  ultimately have "caller_ok (set_worker i Locking p) (p_caller p)"
    using caller_ok_worker [OF worker(2) len, of Locking] worker(3) d by simp
  moreover have "slots_ok (batch_size p) (set (p_log p)) (in_batch p) (p_shutdown p) (p_jobs p) ((p_workers p)[i := Locking])"
    by (rule slots_upd_worker [OF s]) (use so in simp)
  ultimately show ?thesis using d unfolding worker(1) by (simp add: pool_inv_def set_worker_def in_batch_def)
next
  case caller
  note d = inv [unfolded pool_inv_def]
  have "in_batch p = in_batch (p\<lparr>p_caller := Joining\<rparr>)" using caller(2) by (simp add: in_batch_cases)
  then show ?thesis using d unfolding caller(1) by (auto simp: caller(2) pool_inv_def counted_def busy_slots_def)
qed

lemma submit_inv:
  assumes inv: "pool_inv H p" and c: "p_caller p = Ready" and w: "w_args w \<noteq> []" "length (w_args w) \<le> POSE_REGION_THREADS"
  shows "pool_inv H (submit_jobs w p)"
proof -
  note d = inv [unfolded pool_inv_def]
  let ?n = "length (w_args w)"
  let ?js = "map Some [0..<?n - 1] @ drop (?n - 1) (p_jobs p)"
  have ib: "in_batch p = False" and sh: "p_shutdown p = False" using d c by (simp_all add: in_batch_cases)
  have s: "slots_ok (batch_size p) (set (p_log p)) False False (p_jobs p) (p_workers p)" using d unfolding ib sh by blast
  have na: "Absent \<notin> set (p_workers p)" using d c by simp
  have idle: "p_jobs p ! i = None \<and> (p_workers p ! i = Locking \<or> p_workers p ! i = Waiting)" if "i < POSE_REGION_THREADS - 1" for i
  proof -
    have "p_workers p ! i \<noteq> Absent" using na s that nth_mem unfolding slots_ok_def by metis
    then show ?thesis using s that by (cases "p_workers p ! i") (auto simp: slots_ok_def)
  qed
  have len: "length (p_jobs p) = POSE_REGION_THREADS - 1" "length (p_workers p) = POSE_REGION_THREADS - 1"
    using s by (simp_all add: slots_ok_def)
  show ?thesis
  proof (cases "?n > 1")
    case True
    let ?q = "submit_jobs w p"
    have f: "p_jobs ?q = ?js" "p_workers ?q = map wake (p_workers p)" "p_done ?q = 0" "p_expected ?q = int ?n - 1" "p_start ?q = w"
      "p_log ?q = []" "p_mem ?q = w" "p_caller ?q = Own" "p_shutdown ?q = p_shutdown p"
      using True by (simp_all add: submit_jobs_def broadcast_work_def Let_def)
    have lj: "length ?js = POSE_REGION_THREADS - 1" using w(2) len by (simp add: POSE_REGION_THREADS_def)
    have js: "?js ! i = (if i < ?n - 1 then Some i else p_jobs p ! i)" if "i < POSE_REGION_THREADS - 1" for i
      using that w(2) len by (auto simp: nth_append)
    have sl: "slot_ok ?n {} True False i (?js ! i) (wake (p_workers p ! i))" if "i < POSE_REGION_THREADS - 1" for i
      using idle [OF that] js [OF that] by (auto simp: wake_def)
    have "slots_ok ?n {} True False ?js (map wake (p_workers p))"
      unfolding slots_ok_def using lj len sl by simp
    moreover have bz: "busy (?js ! i) (wake (p_workers p ! i)) \<longleftrightarrow> i < ?n - 1" if "i < POSE_REGION_THREADS - 1" for i
      using idle [OF that] js [OF that] by (auto simp: busy_def wake_def)
    then have "busy_slots ?q = {..<?n - 1}"
      using w(2) len bz by (auto simp: busy_slots_def f simp del: busy_wake)
    ultimately show ?thesis using w sh True d
      by (simp add: pool_inv_def in_batch_cases f counted_def)
  next
    case False
    then have n1: "?n = 1" using w(1) by (metis length_0_conv less_one nat_neq_iff)
    have "slot_ok 1 {} True False i (p_jobs p ! i) (p_workers p ! i)" if "i < POSE_REGION_THREADS - 1" for i
      using idle [OF that] by auto
    then have "slots_ok 1 {} True False (p_jobs p) (p_workers p)" using len by (simp add: slots_ok_def)
    then show ?thesis using w sh n1 by (simp add: pool_inv_def in_batch_cases submit_jobs_def counted_def Let_def)
  qed
qed

lemma pool_step_inv: "pool_step H p p' \<Longrightarrow> pool_inv H p \<Longrightarrow> pool_inv H p'"
proof (induction rule: pool_step.induct)
  case (report i p)
  have len: "length (p_workers (worker_report p)) = length (p_workers p)"
    by (simp add: worker_report_def signal_done_def Let_def)
  show ?case
    using worker_loop_inv [OF worker_report_inv [OF report(3,1,2)], of i] report(1) len
    by (simp add: worker_loop_over) (simp add: set_worker_def)
next
  case (free p)
  note d = free(3) [unfolded pool_inv_def]
  have ib: "in_batch p = False" using free(1) by (simp add: in_batch_cases)
  have "slots_ok (batch_size p) (set (p_log p)) False (p_shutdown p) (p_jobs p) (p_workers p)" using d unfolding ib by blast
  then show ?case using d free(1,2) by (simp add: pool_inv_def in_batch_cases joined_def)
next
  case (own p p')
  show ?case by (rule own_inv [OF own(3,1,2)])
qed (auto intro: create_inv worker_loop_inv work_inv join_inv)

lemma pool_call_inv: "pool_call p p' \<Longrightarrow> pool_inv H p \<Longrightarrow> pool_inv H p'"
  by (induction rule: pool_call.induct) (auto intro: submit_inv pool_shutdown_inv)

lemma pool_new_inv: "pool_inv H (pool_new w)"
  by (auto simp: pool_inv_def pool_new_def slots_ok_def in_batch_cases POSE_REGION_THREADS_def)

lemma pool_reach_inv: "pool_reach H p \<Longrightarrow> pool_inv H p"
  by (induction rule: pool_reach.induct) (auto intro: pool_new_inv pool_step_inv pool_call_inv spurious_inv)

subsection \<open>Some thread can move\<close>

lemma job_runs:
  assumes "node_hash H" "pool_inv H p" "batch_fits (p_start p)" "j < batch_size p" "j \<notin> set (p_log p)"
  shows "\<exists>p'. run_job H j p = Some p'"
proof -
  note d = assms(2) [unfolded pool_inv_def]
  have "distinct (p_log p @ [j])" "\<forall>i\<in>set (p_log p @ [j]). i < batch_size p" using d assms(4,5) by auto
  from node_hash.run_jobs_ok [OF assms(1,3) this] obtain m where "run_jobs H (p_log p @ [j]) (p_start p) = Some m" by blast
  then show ?thesis using d by (auto simp: run_jobs_snoc run_job_Some)
qed

lemma pool_progress:
  assumes "node_hash H" "pool_inv H p" "batch_fits (p_start p)" "p_caller p \<noteq> Ready" "p_caller p \<noteq> Stopped"
  shows "\<exists>p'. pool_step H p p'"
proof -
  note d = assms(2) [unfolded pool_inv_def]
  have s: "slots_ok (batch_size p) (set (p_log p)) (in_batch p) (p_shutdown p) (p_jobs p) (p_workers p)" using d by blast
  then have len: "length (p_workers p) = POSE_REGION_THREADS - 1" by (simp add: slots_ok_def)
  have move: "\<exists>p'. pool_step H p p'" if i: "i < length (p_workers p)" "busy (p_jobs p ! i) (p_workers p ! i)" for i
  proof (cases "p_workers p ! i")
    case (Running j)
    then have j: "j = i" "i < batch_size p - 1" "i \<notin> set (p_log p)" using slots_okD [OF s i(1)] by auto
    have "i < batch_size p" using j(2) by linarith
    then obtain p' where "run_job H i p = Some p'" using job_runs [OF assms(1-3)] j(3) by blast
    then show ?thesis using pool_step.work [OF i(1) Running] j(1) by blast
  next
    case Locking
    then show ?thesis using pool_step.lock [OF i(1)] by blast
  next
    case Ran
    then show ?thesis using pool_step.report [OF i(1)] by blast
  qed (use slots_okD [OF s i(1)] i in \<open>auto simp: busy_def\<close>)
  show ?thesis
  proof (cases "p_caller p")
    case (Creating k)
    then show ?thesis using pool_step.create by blast
  next
    case Own
    then have "0 < batch_size p" "batch_size p - 1 \<notin> set (p_log p)" using d by auto
    then show ?thesis using job_runs [OF assms(1-3), of "batch_size p - 1"] pool_step.own [OF Own] by (meson diff_less zero_less_one)
  next
    case Joining
    then show ?thesis using pool_step.join by blast
  next
    case JoinWait
    then have c: "1 < batch_size p" "counted p" "p_done p < p_expected p" using d by auto
    then have "0 < int (card (busy_slots p))" unfolding counted_def by linarith
    then have "busy_slots p \<noteq> {}" by auto
    then show ?thesis using move len by (auto simp: busy_slots_def)
  next
    case Stopping
    show ?thesis
    proof (cases "joined p")
      case True
      then show ?thesis using pool_step.free [OF Stopping] by blast
    next
      case False
      then obtain i where i: "i < length (p_workers p)" "p_workers p ! i \<noteq> Exited" "p_workers p ! i \<noteq> Absent"
        by (auto simp: joined_def in_set_conv_nth)
      have "in_batch p = False" "p_shutdown p" using Stopping d by (auto simp: in_batch_cases)
      then have "p_workers p ! i = Locking" using slots_okD [OF s i(1)] i(2,3) by (cases "p_workers p ! i") auto
      then show ?thesis using pool_step.lock [OF i(1)] by blast
    qed
  qed (use assms(4,5) in auto)
qed

subsection \<open>They cannot move forever\<close>

definition slot_weight :: "nat option \<Rightarrow> worker_pc \<Rightarrow> nat" where
  "slot_weight job pc = (if job = None then 0 else 4) + (case pc of Running j \<Rightarrow> 3 | Ran \<Rightarrow> 2 | Locking \<Rightarrow> 1 | _ \<Rightarrow> 0)"

fun caller_weight :: "caller_pc \<Rightarrow> nat" where
  "caller_weight (Creating k) = 20 - 5 * k"
| "caller_weight Own = 3"
| "caller_weight Joining = 1"
| "caller_weight Stopping = 1"
| "caller_weight _ = 0"

definition slots_weight :: "nat option list \<Rightarrow> worker_pc list \<Rightarrow> nat" where
  "slots_weight js ws = (\<Sum>i<POSE_REGION_THREADS - 1. slot_weight (js ! i) (ws ! i))"

definition pool_measure :: "'c pool \<Rightarrow> nat" where
  "pool_measure p = slots_weight (p_jobs p) (p_workers p) + caller_weight (p_caller p)"

lemma sum_except:
  fixes f g :: "nat \<Rightarrow> nat"
  assumes "i < n" "\<And>k. k \<noteq> i \<Longrightarrow> f k = g k"
  shows "(\<Sum>k<n. f k) + g i = (\<Sum>k<n. g k) + f i"
proof -
  have "(\<Sum>k\<in>{..<n} - {i}. f k) = (\<Sum>k\<in>{..<n} - {i}. g k)" using assms(2) by (intro sum.cong) auto
  then show ?thesis using sum.remove [of "{..<n}" i f] sum.remove [of "{..<n}" i g] assms(1) by simp
qed

lemma slots_weight_upd:
  assumes "i < POSE_REGION_THREADS - 1" "length js = POSE_REGION_THREADS - 1" "length ws = POSE_REGION_THREADS - 1"
  shows "slots_weight (js[i := job]) (ws[i := pc]) + slot_weight (js ! i) (ws ! i) = slots_weight js ws + slot_weight job pc"
  unfolding slots_weight_def
  using sum_except [OF assms(1), of "\<lambda>k. slot_weight (js[i := job] ! k) (ws[i := pc] ! k)" "\<lambda>k. slot_weight (js ! k) (ws ! k)"] assms
  by simp

lemma slots_weight_wake: "length ws = POSE_REGION_THREADS - 1 \<Longrightarrow> slots_weight js (map wake ws) \<le> slots_weight js ws + (POSE_REGION_THREADS - 1)"
proof -
  assume l: "length ws = POSE_REGION_THREADS - 1"
  have "slot_weight job (wake pc) \<le> slot_weight job pc + 1" for job pc by (cases pc) (simp_all add: slot_weight_def wake_def)
  then have "(\<Sum>i<POSE_REGION_THREADS - 1. slot_weight (js ! i) (map wake ws ! i))
      \<le> (\<Sum>i<POSE_REGION_THREADS - 1. slot_weight (js ! i) (ws ! i) + 1)"
    using l by (intro sum_mono) simp
  then show ?thesis unfolding slots_weight_def sum.distrib by simp
qed

lemma worker_loop_weight:
  assumes "pool_inv H p" "i < length (p_workers p)" "p_workers p ! i = Locking"
  shows "pool_measure (worker_loop i p) < pool_measure p"
proof -
  note d = assms(1) [unfolded pool_inv_def]
  then have len: "length (p_workers p) = POSE_REGION_THREADS - 1" "length (p_jobs p) = POSE_REGION_THREADS - 1"
    by (auto simp: slots_ok_def)
  have i: "i < POSE_REGION_THREADS - 1" using assms(2) len by simp
  note u = slots_weight_upd [OF i len(2,1)]
  have a: "slots_weight (p_jobs p) ((p_workers p)[i := pc]) + 1 = slots_weight (p_jobs p) (p_workers p)"
    if "pc = Exited \<or> pc = Waiting" for pc
    using u [of "p_jobs p ! i" pc] that assms(3) by (auto simp: slot_weight_def split: if_splits)
  have b: "slots_weight ((p_jobs p)[i := None]) ((p_workers p)[i := Running j]) < slots_weight (p_jobs p) (p_workers p)"
    if "p_jobs p ! i = Some k" for j k
    using u [of None "Running j"] that assms(3) by (simp add: slot_weight_def)
  show ?thesis
    using a [of Exited] a [of Waiting] b
    by (auto simp: worker_loop_def set_worker_def pool_measure_def split: option.splits)
qed

lemma pool_step_decreases:
  assumes "pool_step H p p'" "pool_inv H p"
  shows "pool_measure p' < pool_measure p"
proof -
  note d = assms(2) [unfolded pool_inv_def]
  have s: "slots_ok (batch_size p) (set (p_log p)) (in_batch p) (p_shutdown p) (p_jobs p) (p_workers p)" using d by blast
  then have len: "length (p_workers p) = POSE_REGION_THREADS - 1" "length (p_jobs p) = POSE_REGION_THREADS - 1"
    by (simp_all add: slots_ok_def)
  have upd: "slots_weight (p_jobs p) ((p_workers p)[i := pc]) + slot_weight (p_jobs p ! i) (p_workers p ! i)
      = slots_weight (p_jobs p) (p_workers p) + slot_weight (p_jobs p ! i) pc" if "i < length (p_workers p)" for i pc
    using slots_weight_upd [of i "p_jobs p" "p_workers p" "p_jobs p ! i" pc] that len by simp
  show ?thesis using assms(1)
  proof (cases rule: pool_step.cases)
    case (create k ok)
    then have k: "k < POSE_REGION_THREADS - 1" "p_workers p ! k = Absent" using d by auto
    have "k \<le> 2" using k(1) by (simp add: POSE_REGION_THREADS_def)
    show ?thesis
    proof (cases ok)
      case True
      then show ?thesis using create upd [of k Locking] k len \<open>k \<le> 2\<close>
        by (auto simp: pool_measure_def pool_create_step_def set_worker_def slot_weight_def)
    next
      case False
      have "slots_weight (p_jobs p) (map wake (p_workers p)) \<le> slots_weight (p_jobs p) (p_workers p) + 3"
        using slots_weight_wake [OF len(1), of "p_jobs p"] by (simp add: POSE_REGION_THREADS_def)
      then show ?thesis using False create \<open>k \<le> 2\<close>
        by (simp add: pool_measure_def pool_create_step_def broadcast_work_def)
    qed
  next
    case (lock i)
    then show ?thesis using worker_loop_weight [OF assms(2)] by simp
  next
    case (work i j p1)
    then obtain m where "p1 = p\<lparr>p_mem := m, p_log := p_log p @ [j]\<rparr>" by (auto simp: run_job_Some)
    then show ?thesis using work upd [of i Ran] by (simp add: pool_measure_def set_worker_def slot_weight_def)
  next
    case (report i)
    let ?q = "set_worker i Locking (worker_report p)"
    have f: "p_jobs ?q = p_jobs p" "p_workers ?q = (p_workers p)[i := Locking]"
      "p_caller ?q = (if p_done p + 1 \<ge> p_expected p \<and> p_caller p = JoinWait then Joining else p_caller p)"
      by (simp_all add: set_worker_def worker_report_def signal_done_def Let_def)
    have "pool_measure (worker_loop i ?q) < pool_measure ?q"
      using worker_loop_weight [OF worker_report_inv [OF assms(2) report(2,3)]] report(2) f(2) by simp
    moreover have "pool_measure ?q \<le> pool_measure p"
      using upd [OF report(2), of Locking] report(3) by (simp add: pool_measure_def f slot_weight_def)
    ultimately show ?thesis using report(1) by (simp add: worker_loop_over)
  next
    case (own p1)
    then obtain m where "p1 = p\<lparr>p_mem := m, p_log := p_log p @ [batch_size p - 1]\<rparr>" by (auto simp: run_job_Some)
    then show ?thesis using own by (simp add: pool_measure_def)
  qed (simp_all add: pool_measure_def caller_join_def)
qed

subsection \<open>A batch ends, with every job run once\<close>

lemma pool_step_start: "pool_step H p p' \<Longrightarrow> p_start p' = p_start p"
  by (induction rule: pool_step.induct)
    (auto simp: pool_create_step_def set_worker_def broadcast_work_def worker_loop_def worker_report_def signal_done_def
      caller_join_def run_job_Some Let_def split: option.split)

lemma worker_loop_caller [simp]: "p_caller (worker_loop i p) = p_caller p"
  by (simp add: worker_loop_def set_worker_def split: option.split)

lemma pool_step_caller: "pool_step H p p' \<Longrightarrow> in_batch p \<or> p_caller p = Ready \<Longrightarrow> in_batch p' \<or> p_caller p' = Ready"
  by (induction rule: pool_step.induct)
    (auto simp: in_batch_cases set_worker_def worker_report_def signal_done_def caller_join_def run_job_Some Let_def)

lemma pool_steps_measure: "(pool_step H ^^ k) p p' \<Longrightarrow> pool_inv H p \<Longrightarrow> k + pool_measure p' \<le> pool_measure p"
proof (induction k arbitrary: p')
  case (Suc k)
  then obtain q where q: "(pool_step H ^^ k) p q" "pool_step H q p'" by auto
  have "pool_inv H q" using q(1) Suc.prems(2)
  proof (induction k arbitrary: q)
    case (Suc k)
    then show ?case using pool_step_inv by (auto elim!: relcomppE)
  qed auto
  then show ?case using Suc.IH [OF q(1) Suc.prems(2)] pool_step_decreases [OF q(2)] by simp
qed auto

lemma pool_steps_inv:
  "(pool_step H)\<^sup>*\<^sup>* p p' \<Longrightarrow> pool_inv H p \<Longrightarrow> in_batch p \<or> p_caller p = Ready \<Longrightarrow>
    pool_inv H p' \<and> (in_batch p' \<or> p_caller p' = Ready) \<and> p_start p' = p_start p"
  by (induction rule: rtranclp_induct) (auto dest: pool_step_inv pool_step_caller pool_step_start)

lemma batch_outcome:
  assumes "node_hash H" "pool_inv H p" "in_batch p" "batch_fits (p_start p)" "(pool_step H)\<^sup>*\<^sup>* p p'" "\<not> (\<exists>q. pool_step H p' q)"
  shows "p_caller p' = Ready \<and> distinct (p_log p') \<and> set (p_log p') = {..<batch_size p}
    \<and> run_jobs H (p_log p') (p_start p) = Some (p_mem p')"
proof -
  have i: "pool_inv H p'" "in_batch p' \<or> p_caller p' = Ready" "p_start p' = p_start p"
    using pool_steps_inv [OF assms(5,2)] assms(3) by auto
  have "p_caller p' = Ready"
    using pool_progress [OF assms(1) i(1)] i(2,3) assms(4,6) by (auto simp: in_batch_cases)
  then show ?thesis using i by (auto simp: pool_inv_def)
qed

text \<open>What a finished batch has computed is what \<open>run_pooled\<close> computes for some order of the jobs.\<close>

lemma pool_refines_run_pooled:
  assumes "pool_inv H p" "p_caller p = Ready"
  shows "\<exists>E. env_ok E \<and> run_pooled H E b (p_start p) = Some (first_rc (w_args (p_mem p)), p_mem p)"
proof -
  have d: "distinct (p_log p)" "set (p_log p) = {..<batch_size p}" "run_jobs H (p_log p) (p_start p) = Some (p_mem p)"
    using assms by (auto simp: pool_inv_def)
  define E where "E = \<lparr>spawn = (\<lambda>b i. True), finish_order = (\<lambda>b js. if js = [0..<batch_size p] then p_log p else js)\<rparr>"
  have f: "finish_order E b js = (if js = [0..<batch_size p] then p_log p else js)" for b js by (simp add: E_def)
  have "set (p_log p) = set [0..<batch_size p]" using d(2) by (simp add: atLeast0LessThan)
  then have "env_ok E" unfolding env_ok_def f using d(1) by auto
  moreover have "run_pooled H E b (p_start p) = Some (first_rc (w_args (p_mem p)), p_mem p)"
    unfolding run_pooled_def f using d(3) by simp
  ultimately show ?thesis by blast
qed

text \<open>A pool that has been freed has no thread that could touch it.\<close>

lemma freed_pool_dead:
  assumes "pool_inv H p" "p_caller p = Stopped"
  shows "\<not> pool_step H p p'" "\<not> spurious p p'" "\<not> pool_call p p'"
proof -
  have j: "joined p" using assms by (auto simp: pool_inv_def)
  then have w: "p_workers p ! i \<notin> {Locking, Waiting, Ran} \<and> (\<forall>j. p_workers p ! i \<noteq> Running j)"
    if "i < length (p_workers p)" for i
  proof -
    have "p_workers p ! i = Exited \<or> p_workers p ! i = Absent" using j nth_mem [OF that] unfolding joined_def by blast
    then show ?thesis by auto
  qed
  show "\<not> pool_step H p p'"
  proof
    assume "pool_step H p p'"
    then show False by (cases rule: pool_step.cases) (auto simp: assms(2) dest: w)
  qed
  show "\<not> spurious p p'"
  proof
    assume "spurious p p'"
    then show False by (cases rule: spurious.cases) (auto simp: assms(2) dest: w)
  qed
  show "\<not> pool_call p p'" using assms(2) by (auto elim!: pool_callE)
qed

end
