(* ===== verification/Levels.thy ===== *)
theory Levels
  imports Edge_Labels
begin

section \<open>Dependency levels and the counting sort\<close>

text \<open>
  \<open>pose_graph_slot_map\<close> and the GPU driver schedule the nodes of the exported graph by dependency
  level: a source is on level 0, any other node one above its highest predecessor. This theory has the
  level pass, the pass that finds the last level on which a label is read, and the counting sort that
  lists the node ids level by level.
\<close>

subsection \<open>The code\<close>

text \<open>A cell of an array that is not initialised is \<open>None\<close>; reading it is undefined behaviour.\<close>

definition ldi :: "'v option list \<Rightarrow> nat \<Rightarrow> 'v option" where
  "ldi m i = do { x \<leftarrow> ld m i; x }"

lemma ldi_Some [simp]: "ldi m i = Some v \<longleftrightarrow> i < length m \<and> m ! i = Some v"
  by (auto simp: ldi_def ld_def split: option.splits)

text \<open>The level of one node; \<open>level\<close> holds the cells the pass has written so far.\<close>

definition node_level :: "nat list \<Rightarrow> pose_node \<Rightarrow> nat option" where
  "node_level level nd =
     (if num_preds nd = 0 then Some 0
      else if num_preds nd = 1 then do { a \<leftarrow> ld level (unat (pred0 nd)); Some (a + 1) }
      else do {
        a \<leftarrow> ld level (unat (pred0 nd));
        b \<leftarrow> ld level (unat (pred1 nd));
        Some ((if a > b then a else b) + 1) })"

fun level_pass :: "pose_node list \<Rightarrow> nat list \<Rightarrow> nat \<Rightarrow> (nat list \<times> nat) option" where
  "level_pass [] level maxlevel = Some (level, maxlevel)"
| "level_pass (nd # N) level maxlevel = do {
     lv \<leftarrow> node_level level nd;
     level_pass N (level @ [lv]) (if lv > maxlevel then lv else maxlevel) }"

text \<open>\<open>for (k = 0; k < np; k++) if (last_use[pred[k]] < lv) last_use[pred[k]] = lv\<close>.\<close>

fun raise_uses :: "nat \<Rightarrow> nat list \<Rightarrow> nat list \<Rightarrow> nat list option" where
  "raise_uses lv [] lu = Some lu"
| "raise_uses lv (p # ps) lu = do {
     x \<leftarrow> ld lu p;
     raise_uses lv ps (if x < lv then lu[p := lv] else lu) }"

fun last_use_pass :: "pose_node list \<Rightarrow> nat list \<Rightarrow> nat list \<Rightarrow> nat list option" where
  "last_use_pass (nd # N) (lv # level) lu = do { lu' \<leftarrow> raise_uses lv (pred_ids nd) lu; last_use_pass N level lu' }"
| "last_use_pass N level lu = Some lu"

text \<open>\<open>for (id ...) start[key[id] + 1]++\<close>.\<close>

fun count_keys :: "nat list \<Rightarrow> nat list \<Rightarrow> nat list option" where
  "count_keys [] start = Some start"
| "count_keys (k # keys) start = do {
     x \<leftarrow> ld start (k + 1);
     count_keys keys (start[k + 1 := x + 1]) }"

text \<open>\<open>for (i = 0; i < Ln; i++) start[i + 1] += start[i]\<close>, the last \<open>n\<close> rounds from \<open>i\<close>.\<close>

fun prefix_sums :: "nat \<Rightarrow> nat \<Rightarrow> nat list \<Rightarrow> nat list option" where
  "prefix_sums i 0 start = Some start"
| "prefix_sums i (Suc n) start = do {
     x \<leftarrow> ld start i;
     y \<leftarrow> ld start (i + 1);
     prefix_sums (i + 1) n (start[i + 1 := y + x]) }"

text \<open>\<open>for (id ...) order[cur[key[id]]++] = id\<close>.\<close>

fun place :: "nat list \<Rightarrow> nat \<Rightarrow> nat list \<Rightarrow> nat option list \<Rightarrow> nat option list option" where
  "place [] x cur order = Some order"
| "place (k # keys) x cur order = do {
     c \<leftarrow> ld cur k;
     order' \<leftarrow> st order c (Some x);
     place keys (x + 1) (cur[k := c + 1]) order' }"

definition counting_sort :: "nat list \<Rightarrow> nat \<Rightarrow> (nat list \<times> nat option list) option" where
  "counting_sort keys Ln = do {
     start \<leftarrow> count_keys keys (replicate (Ln + 1) 0);
     start' \<leftarrow> prefix_sums 0 Ln start;
     order \<leftarrow> place keys 0 (take Ln start') (replicate (length keys) None);
     Some (start', order) }"

text \<open>\<open>for (i = start; i < start + n; i++) { id = order[i]; body }\<close>.\<close>

fun for_order :: "(nat \<Rightarrow> 's \<Rightarrow> 's option) \<Rightarrow> nat option list \<Rightarrow> nat \<Rightarrow> nat \<Rightarrow> 's \<Rightarrow> 's option" where
  "for_order body order i 0 s = Some s"
| "for_order body order i (Suc n) s = do {
     x \<leftarrow> ldi order i;
     s' \<leftarrow> body x s;
     for_order body order (i + 1) n s' }"

text \<open>The same body on a list of ids.\<close>

fun for_ids :: "(nat \<Rightarrow> 's \<Rightarrow> 's option) \<Rightarrow> nat list \<Rightarrow> 's \<Rightarrow> 's option" where
  "for_ids body [] s = Some s"
| "for_ids body (x # xs) s = do { s' \<leftarrow> body x s; for_ids body xs s' }"

lemma for_ids_append: "for_ids body (xs @ ys) s = do { s' \<leftarrow> for_ids body xs s; for_ids body ys s' }"
proof (induction xs arbitrary: s)
  case (Cons x xs)
  then show ?case by (cases "body x s") simp_all
qed simp

lemma for_order_ids:
  "\<forall>q<length order. order ! q \<noteq> None \<Longrightarrow> i + n \<le> length order \<Longrightarrow>
    for_order body order i n s = for_ids body (map (\<lambda>q. the (order ! q)) [i..<i + n]) s"
proof (induction n arbitrary: i s)
  case (Suc n)
  have i: "i < length order" "Suc i + n \<le> length order" using Suc.prems(2) by simp_all
  obtain v where v: "order ! i = Some v" using Suc.prems(1) i(1) by blast
  have "for_order body order (Suc i) n = for_ids body (map (\<lambda>q. the (order ! q)) [Suc i..<Suc i + n])"
    using Suc.IH [OF Suc.prems(1) i(2)] by (rule ext)
  then show ?case unfolding upt_add_Suc using i(1) v by (simp add: ldi_def ld_def del: upt_Suc)
qed simp

subsection \<open>Levels\<close>

lemma node_level_ok:
  assumes "\<forall>p\<in>set (pred_ids nd). p < length level"
  shows "\<exists>lv. node_level level nd = Some lv \<and> (\<forall>p\<in>set (pred_ids nd). level ! p < lv)"
proof -
  consider "num_preds nd = 0" | "num_preds nd = 1" | n where "num_preds nd = Suc (Suc n)"
    by (metis One_nat_def not0_implies_Suc)
  then show ?thesis using assms
    by cases (auto simp: node_level_def pred_ids_def ld_def)
qed

definition levels_ok :: "pose_node list \<Rightarrow> nat list \<Rightarrow> bool" where
  "levels_ok N level \<longleftrightarrow> length level = length N
     \<and> (\<forall>i<length N. \<forall>p\<in>set (pred_ids (N ! i)). p < length N \<and> level ! p < level ! i)"

lemma level_pass_ok:
  assumes "edges_ordered (M @ N)" "levels_ok M level" "\<forall>x\<in>set level. x \<le> mx"
  shows "\<exists>level' mx'. level_pass N level mx = Some (level', mx') \<and> levels_ok (M @ N) level' \<and> (\<forall>x\<in>set level'. x \<le> mx')"
  using assms
proof (induction N arbitrary: M level mx)
  case Nil
  then show ?case by simp
next
  case (Cons nd N)
  have l: "length level = length M" using Cons.prems(2) by (simp add: levels_ok_def)
  have "\<forall>p\<in>set (pred_ids nd). p < length M"
    using Cons.prems(1) by (auto simp: edges_ordered_def nth_append dest!: spec [of _ "length M"])
  then obtain lv where lv: "node_level level nd = Some lv" "\<forall>p\<in>set (pred_ids nd). p < length M \<and> level ! p < lv"
    using node_level_ok [of nd level] l by auto
  have "levels_ok (M @ [nd]) (level @ [lv])"
    using Cons.prems(2) lv(2) l by (fastforce simp: levels_ok_def nth_append less_Suc_eq)
  moreover have "\<forall>x\<in>set (level @ [lv]). x \<le> (if lv > mx then lv else mx)" using Cons.prems(3) by auto
  ultimately show ?case
    using Cons.IH [of "M @ [nd]" "level @ [lv]" "if lv > mx then lv else mx"] Cons.prems(1) lv(1) by auto
qed

lemma level_pass_result:
  assumes "edges_ordered N"
  shows "\<exists>level mx. level_pass N [] 0 = Some (level, mx) \<and> levels_ok N level \<and> (\<forall>x\<in>set level. x \<le> mx)"
  using level_pass_ok [of "[]" N "[]" 0] assms by (auto simp: levels_ok_def)

subsection \<open>Last uses\<close>

lemma raise_uses_ok:
  assumes "\<forall>p\<in>set ps. p < length lu"
  shows "\<exists>lu'. raise_uses lv ps lu = Some lu' \<and> length lu' = length lu
    \<and> (\<forall>i<length lu. lu ! i \<le> lu' ! i \<and> (lu' ! i = lu ! i \<or> lu' ! i = lv)) \<and> (\<forall>p\<in>set ps. lv \<le> lu' ! p)"
  using assms
proof (induction ps arbitrary: lu)
  case (Cons p ps)
  have p: "p < length lu" using Cons.prems by simp
  define lu1 where "lu1 = (if lu ! p < lv then lu[p := lv] else lu)"
  have l1: "length lu1 = length lu" by (simp add: lu1_def)
  obtain lu' where u: "raise_uses lv ps lu1 = Some lu'" "length lu' = length lu1"
    "\<forall>i<length lu1. lu1 ! i \<le> lu' ! i \<and> (lu' ! i = lu1 ! i \<or> lu' ! i = lv)" "\<forall>p\<in>set ps. lv \<le> lu' ! p"
    using Cons.IH [of lu1] Cons.prems l1 by auto
  have "lu ! i \<le> lu1 ! i \<and> (lu1 ! i = lu ! i \<or> lu1 ! i = lv)" for i
    by (cases "i = p") (auto simp: p lu1_def)
  then have "\<forall>i<length lu. lu ! i \<le> lu' ! i \<and> (lu' ! i = lu ! i \<or> lu' ! i = lv)"
    using u(3) l1 by (metis le_trans)
  moreover have "lv \<le> lu1 ! p" using p by (simp add: lu1_def)
  then have "lv \<le> lu' ! p" using u(3) p l1 by (metis le_trans)
  ultimately show ?case using u p l1 by (auto simp: ld_def lu1_def)
qed simp

lemma last_use_pass_ok:
  assumes "length level = length N" "\<forall>nd\<in>set N. \<forall>p\<in>set (pred_ids nd). p < length lu"
    and "\<forall>x\<in>set level. x \<le> mx" "\<forall>x\<in>set lu. x \<le> mx"
  shows "\<exists>lu'. last_use_pass N level lu = Some lu' \<and> length lu' = length lu \<and> (\<forall>i<length lu. lu ! i \<le> lu' ! i)
    \<and> (\<forall>x\<in>set lu'. x \<le> mx) \<and> (\<forall>j<length N. \<forall>p\<in>set (pred_ids (N ! j)). level ! j \<le> lu' ! p)"
  using assms
proof (induction N level lu rule: last_use_pass.induct)
  case (1 nd N lv level lu)
  obtain lu1 where u: "raise_uses lv (pred_ids nd) lu = Some lu1" "length lu1 = length lu"
    "\<forall>i<length lu. lu ! i \<le> lu1 ! i \<and> (lu1 ! i = lu ! i \<or> lu1 ! i = lv)" "\<forall>p\<in>set (pred_ids nd). lv \<le> lu1 ! p"
    using raise_uses_ok [of "pred_ids nd" lu lv] "1.prems"(2) by auto
  have "\<forall>x\<in>set lu1. x \<le> mx" using u(2,3) "1.prems"(3,4) by (fastforce simp: in_set_conv_nth)
  then obtain lu' where l: "last_use_pass N level lu1 = Some lu'" "length lu' = length lu1" "\<forall>i<length lu1. lu1 ! i \<le> lu' ! i"
    "\<forall>x\<in>set lu'. x \<le> mx" "\<forall>j<length N. \<forall>p\<in>set (pred_ids (N ! j)). level ! j \<le> lu' ! p"
    using "1.IH" [OF u(1)] "1.prems" u(2) by auto
  have "\<forall>j<length (nd # N). \<forall>p\<in>set (pred_ids ((nd # N) ! j)). (lv # level) ! j \<le> lu' ! p"
  proof (intro allI impI ballI)
    fix j p assume j: "j < length (nd # N)" "p \<in> set (pred_ids ((nd # N) ! j))"
    show "(lv # level) ! j \<le> lu' ! p"
    proof (cases j)
      case 0
      then have "lv \<le> lu1 ! p" "p < length lu" using j(2) u(4) "1.prems"(2) by auto
      then show ?thesis using 0 l(3) u(2) by (metis le_trans nth_Cons_0)
    qed (use j l(5) in auto)
  qed
  moreover have "\<forall>i<length lu. lu ! i \<le> lu' ! i" using u(2,3) l(3) by (metis le_trans)
  ultimately show ?case using u l by auto
qed auto

subsection \<open>The counting sort\<close>

text \<open>The keys below \<open>l\<close>, and the position the sort gives to id \<open>i\<close>.\<close>

definition offs :: "nat list \<Rightarrow> nat \<Rightarrow> nat" where
  "offs keys l = length (filter (\<lambda>k. k < l) keys)"

definition sort_pos :: "nat list \<Rightarrow> nat \<Rightarrow> nat" where
  "sort_pos keys i = offs keys (keys ! i) + count_list (take i keys) (keys ! i)"

lemma offs_Suc: "offs keys (Suc l) = offs keys l + count_list keys l"
  by (induction keys) (auto simp: offs_def less_Suc_eq)

lemma offs_0 [simp]: "offs keys 0 = 0"
  by (simp add: offs_def)

lemma offs_mono: "l \<le> l' \<Longrightarrow> offs keys l \<le> offs keys l'"
  unfolding offs_def by (induction keys) auto

lemma offs_all: "\<forall>k\<in>set keys. k < Ln \<Longrightarrow> offs keys Ln = length keys"
  by (simp add: offs_def filter_id_conv)

lemma count_take: "i < length keys \<Longrightarrow> count_list (take (Suc i) keys) l = count_list (take i keys) l + (if keys ! i = l then 1 else 0)"
  by (simp add: take_Suc_conv_app_nth)

lemma count_take_mono: "i \<le> j \<Longrightarrow> count_list (take i keys) l \<le> count_list (take j keys) l"
proof -
  assume "i \<le> j"
  then have "take j keys = take i keys @ take (j - i) (drop i keys)" by (metis le_add_diff_inverse take_add)
  then show ?thesis by simp
qed

lemma count_take_less: "i < length keys \<Longrightarrow> count_list (take i keys) (keys ! i) < count_list keys (keys ! i)"
  using count_take [of i keys "keys ! i"] count_take_mono [of "Suc i" "length keys" keys "keys ! i"] by simp

lemma sort_pos_range: "i < length keys \<Longrightarrow> offs keys (keys ! i) \<le> sort_pos keys i \<and> sort_pos keys i < offs keys (Suc (keys ! i))"
  using count_take_less by (simp add: sort_pos_def offs_Suc)

lemma sort_pos_key: "i < length keys \<Longrightarrow> offs keys l \<le> sort_pos keys i \<Longrightarrow> sort_pos keys i < offs keys (Suc l) \<Longrightarrow> keys ! i = l"
  using sort_pos_range [of i keys] offs_mono [of "Suc l" "keys ! i" keys] offs_mono [of "Suc (keys ! i)" l keys]
  by (meson Suc_leI leD le_less_trans less_le_trans linorder_neqE_nat)

lemma inj_sort_pos: "inj_on (sort_pos keys) {..<length keys}"
proof (rule linorder_inj_onI)
  fix i j assume ij: "i < j" "i \<in> {..<length keys}" "j \<in> {..<length keys}"
  show "sort_pos keys i \<noteq> sort_pos keys j"
  proof (cases "keys ! i = keys ! j")
    case True
    then have "count_list (take i keys) (keys ! j) < count_list (take j keys) (keys ! j)"
      using count_take [of i keys "keys ! j"] count_take_mono [of "Suc i" j keys "keys ! j"] ij by simp
    then show ?thesis using True by (simp add: sort_pos_def)
  next
    case False
    then show ?thesis using sort_pos_key [of i keys "keys ! j"] sort_pos_range [of j keys] ij by auto
  qed
qed auto

lemma sort_pos_less: "\<forall>k\<in>set keys. k < Ln \<Longrightarrow> i < length keys \<Longrightarrow> sort_pos keys i < length keys"
  using sort_pos_range [of i keys] offs_mono [of "Suc (keys ! i)" Ln keys] offs_all [of keys Ln]
  by (metis Suc_leI less_le_trans nth_mem)

lemma count_keys_ok:
  assumes "\<forall>k\<in>set keys. k + 1 < length start"
  shows "\<exists>start'. count_keys keys start = Some start' \<and> length start' = length start \<and> start' ! 0 = start ! 0
    \<and> (\<forall>l. l + 1 < length start \<longrightarrow> start' ! (l + 1) = start ! (l + 1) + count_list keys l)"
  using assms
proof (induction keys arbitrary: start)
  case (Cons k keys)
  let ?s = "start[k + 1 := start ! (k + 1) + 1]"
  obtain s' where s': "count_keys keys ?s = Some s'" "length s' = length ?s" "s' ! 0 = ?s ! 0"
    "\<forall>l. l + 1 < length ?s \<longrightarrow> s' ! (l + 1) = ?s ! (l + 1) + count_list keys l"
    using Cons.IH [of ?s] Cons.prems by auto
  then show ?case using Cons.prems by (auto simp: ld_def nth_list_update)
qed simp

lemma prefix_sums_ok:
  assumes "i + n < length start"
  shows "\<exists>start'. prefix_sums i n start = Some start' \<and> length start' = length start
    \<and> (\<forall>j\<le>i. start' ! j = start ! j) \<and> (\<forall>j<n. start' ! (i + j + 1) = start' ! (i + j) + start ! (i + j + 1))"
  using assms
proof (induction n arbitrary: i start)
  case (Suc n)
  let ?s = "start[i + 1 := start ! (i + 1) + start ! i]"
  obtain s' where s': "prefix_sums (i + 1) n ?s = Some s'" "length s' = length ?s" "\<forall>j\<le>i + 1. s' ! j = ?s ! j"
    "\<forall>j<n. s' ! (i + 1 + j + 1) = s' ! (i + 1 + j) + ?s ! (i + 1 + j + 1)"
    using Suc.IH [of "i + 1" ?s] Suc.prems by auto
  have "s' ! (i + j + 1) = s' ! (i + j) + start ! (i + j + 1)" if "j < Suc n" for j
  proof (cases j)
    case 0
    then show ?thesis using s'(3) Suc.prems by simp
  next
    case (Suc k)
    then have "s' ! (i + 1 + k + 1) = s' ! (i + 1 + k) + ?s ! (i + 1 + k + 1)" using s'(4) that by auto
    then show ?thesis using Suc by simp
  qed
  then show ?case using s'(1-3) Suc.prems by (auto simp: ld_def)
qed simp

lemma place_ok:
  assumes "\<forall>k\<in>set keys. k < Ln" "x \<le> length keys" "length cur = Ln" "length order = length keys"
    and "\<forall>l<Ln. cur ! l = offs keys l + count_list (take x keys) l" "\<forall>i<x. order ! sort_pos keys i = Some i"
  shows "\<exists>order'. place (drop x keys) x cur order = Some order' \<and> length order' = length keys
    \<and> (\<forall>i<length keys. order' ! sort_pos keys i = Some i)"
  using assms(2-)
proof (induction "length keys - x" arbitrary: x cur order)
  case (Suc n)
  then have x: "x < length keys" by simp
  let ?k = "keys ! x"
  have k: "?k < Ln" using assms(1) x by simp
  have c: "cur ! ?k = sort_pos keys x" using Suc.prems(4) k by (simp add: sort_pos_def)
  have p: "sort_pos keys x < length keys" by (rule sort_pos_less [OF assms(1) x])
  let ?order = "order[sort_pos keys x := Some x]" and ?cur = "cur[?k := sort_pos keys x + 1]"
  have o: "\<forall>i<Suc x. ?order ! sort_pos keys i = Some i"
  proof (intro allI impI)
    fix i assume i: "i < Suc x"
    show "?order ! sort_pos keys i = Some i"
    proof (cases "i = x")
      case False
      then have "sort_pos keys i \<noteq> sort_pos keys x"
        using inj_onD [OF inj_sort_pos, of keys i x] i x by auto
      then show ?thesis using Suc.prems(5) i False by simp
    qed (use p Suc.prems(3) in simp)
  qed
  have cu: "\<forall>l<Ln. ?cur ! l = offs keys l + count_list (take (Suc x) keys) l"
    using k Suc.prems(2,4) count_take [OF x] by (auto simp: nth_list_update sort_pos_def)
  have len: "n = length keys - Suc x" "Suc x \<le> length keys" "length ?cur = Ln" "length ?order = length keys"
    using Suc.hyps(2) x Suc.prems(2,3) by simp_all
  from Suc.hyps(1) [OF len cu o]
  obtain order' where "place (drop (Suc x) keys) (Suc x) ?cur ?order = Some order'" "length order' = length keys"
    "\<forall>i<length keys. order' ! sort_pos keys i = Some i" by blast
  then show ?case using Cons_nth_drop_Suc [OF x, symmetric] k c p Suc.prems(2,3) by (simp add: ld_def st_def)
qed auto

text \<open>Where the ids of one key are.\<close>

definition slice :: "nat list \<Rightarrow> nat option list \<Rightarrow> nat \<Rightarrow> nat list" where
  "slice start order l = map (\<lambda>q. the (order ! q)) [start ! l..<start ! (l + 1)]"

definition sorted_ids :: "nat list \<Rightarrow> nat \<Rightarrow> nat list \<Rightarrow> nat option list \<Rightarrow> bool" where
  "sorted_ids keys Ln start order \<longleftrightarrow> length start = Ln + 1 \<and> length order = length keys
     \<and> (\<forall>l<Ln. start ! l \<le> start ! (l + 1)) \<and> start ! 0 = 0 \<and> start ! Ln = length keys
     \<and> (\<forall>q<length keys. order ! q \<noteq> None)
     \<and> (\<forall>l<Ln. distinct (slice start order l) \<and> set (slice start order l) = {i. i < length keys \<and> keys ! i = l})"

text \<open>Filling the slots from the offsets of the keys; the two users compute the offsets differently.\<close>

lemma place_sorted:
  assumes "\<forall>k\<in>set keys. k < Ln" "length t = Ln + 1" "\<And>l. l \<le> Ln \<Longrightarrow> t ! l = offs keys l"
  shows "\<exists>order. place keys 0 (take Ln t) (replicate (length keys) None) = Some order \<and> sorted_ids keys Ln t order"
proof -
  note tl = assms(3)
  obtain order where o: "place keys 0 (take Ln t) (replicate (length keys) None) = Some order" "length order = length keys"
    "\<forall>i<length keys. order ! sort_pos keys i = Some i"
    using place_ok [OF assms(1), of 0 "take Ln t" "replicate (length keys) None"] assms(2) tl by auto
  have surj: "\<exists>i<length keys. q = sort_pos keys i" if "q < length keys" for q
  proof -
    have "sort_pos keys ` {..<length keys} = {..<length keys}"
      using sort_pos_less [OF assms(1)] by (intro endo_inj_surj inj_sort_pos) auto
    then show ?thesis using that by (metis imageE lessThan_iff)
  qed
  have sl: "distinct (slice t order l) \<and> set (slice t order l) = {i. i < length keys \<and> keys ! i = l}" if l: "l < Ln" for l
  proof
    have b: "t ! (l + 1) \<le> length keys" using tl [of "l + 1"] offs_mono [of "l + 1" Ln keys] offs_all [OF assms(1)] l by simp
    have inv: "the (order ! q) < length keys \<and> sort_pos keys (the (order ! q)) = q" if "q < length keys" for q
      using surj [OF that] o(3) by auto
    show "distinct (slice t order l)"
      unfolding slice_def distinct_map using inv b by (auto intro!: inj_onI) (metis less_le_trans)
    show "set (slice t order l) = {i. i < length keys \<and> keys ! i = l}" (is "?S = ?T")
    proof (intro equalityI subsetI)
      fix i assume "i \<in> ?S"
      then obtain q where q: "t ! l \<le> q" "q < t ! (l + 1)" "i = the (order ! q)" by (auto simp: slice_def)
      then have "i < length keys" "sort_pos keys i = q" using inv [of q] b by auto
      then show "i \<in> ?T" using sort_pos_key [of i keys l] q(1,2) tl [of l] tl [of "l + 1"] l by auto
    next
      fix i assume "i \<in> ?T"
      then have i: "i < length keys" "keys ! i = l" by auto
      then have "sort_pos keys i \<in> {t ! l..<t ! (l + 1)}" using sort_pos_range [OF i(1)] tl [of l] tl [of "l + 1"] l by simp
      moreover have "the (order ! sort_pos keys i) = i" using o(3) i(1) by simp
      ultimately show "i \<in> ?S" unfolding slice_def by (force simp: image_iff)
    qed
  qed
  have "t ! l \<le> t ! (l + 1)" if "l < Ln" for l using tl that offs_mono [of l "l + 1" keys] by simp
  moreover have "order ! q \<noteq> None" if "q < length keys" for q using surj [OF that] o(3) by auto
  ultimately have "sorted_ids keys Ln t order"
    using assms(2) tl [of 0] o(2) sl tl [of Ln] offs_all [OF assms(1)] by (simp add: sorted_ids_def)
  then show ?thesis using o(1) by blast
qed

lemma counting_sort_ok:
  assumes "\<forall>k\<in>set keys. k < Ln"
  shows "\<exists>start order. counting_sort keys Ln = Some (start, order) \<and> sorted_ids keys Ln start order"
proof -
  obtain s where s: "count_keys keys (replicate (Ln + 1) 0) = Some s" "length s = Ln + 1" "s ! 0 = 0"
    "\<forall>l<Ln. s ! (l + 1) = count_list keys l"
    using count_keys_ok [of keys "replicate (Ln + 1) 0"] assms by auto
  obtain t where t: "prefix_sums 0 Ln s = Some t" "length t = Ln + 1" "t ! 0 = 0" "\<forall>j<Ln. t ! (j + 1) = t ! j + s ! (j + 1)"
    using prefix_sums_ok [of 0 Ln s] s(2,3) by auto
  have tl: "t ! l = offs keys l" if "l \<le> Ln" for l
    using that by (induction l) (use t(3,4) s(4) in \<open>auto simp: offs_Suc\<close>)
  show ?thesis using place_sorted [OF assms t(2) tl] s(1) t(1) by (auto simp: counting_sort_def)
qed

text \<open>The loop over one key's slice.\<close>

lemma for_slice:
  assumes "sorted_ids keys Ln start order" "l < Ln"
  shows "for_order body order (start ! l) (start ! (l + 1) - start ! l) s = for_ids body (slice start order l) s"
    "ld start l = Some (start ! l)" "ld start (l + 1) = Some (start ! (l + 1))"
proof -
  have st: "start ! l \<le> start ! (l + 1)" "start ! (l + 1) \<le> length order" "l + 1 < length start"
  proof -
    have "start ! k \<le> start ! Ln" if "k \<le> Ln" for k
      using that by (induction rule: inc_induct) (use assms(1) in \<open>auto simp: sorted_ids_def intro: le_trans\<close>)
    then show "start ! (l + 1) \<le> length order" using assms by (simp add: sorted_ids_def)
  qed (use assms in \<open>auto simp: sorted_ids_def\<close>)
  have all: "\<forall>q<length order. order ! q \<noteq> None" using assms(1) by (simp add: sorted_ids_def)
  have "start ! l + (start ! (l + 1) - start ! l) = start ! (l + 1)" using st(1) by simp
  then show "for_order body order (start ! l) (start ! (l + 1) - start ! l) s = for_ids body (slice start order l) s"
    using for_order_ids [OF all, of "start ! l" "start ! (l + 1) - start ! l" body s] st by (simp add: slice_def)
  show "ld start l = Some (start ! l)" "ld start (l + 1) = Some (start ! (l + 1))" using st(3) by (simp_all add: ld_def)
qed

end
