(* ===== verification/Slot_Map.thy ===== *)
theory Slot_Map
  imports Levels
begin

section \<open>Recycling the slots of dead labels (\<open>pose_graph_slot_map\<close>)\<close>

text \<open>
  The per-chunk GPU kernels keep a label only from the level that computes it to the last level that
  reads it. \<open>pose_graph_slot_map\<close> gives every node a slot of a small pool so that no two nodes alive at
  the same time share one. The pool is as small as any such assignment can be.
\<close>

subsection \<open>The code\<close>

text \<open>\<open>slot_out\<close>, the filled part of \<open>free_stack\<close> and \<open>next_new\<close>.\<close>

record slots =
  s_slot :: "nat list"
  s_free :: "nat list"
  s_next :: nat

text \<open>\<open>slot_out[id] = (free_top > 0) ? free_stack[--free_top] : next_new++\<close>.\<close>

definition alloc_slot :: "nat \<Rightarrow> slots \<Rightarrow> slots option" where
  "alloc_slot x s =
     (if s_free s \<noteq> []
      then map_option (\<lambda>sl. s\<lparr>s_slot := sl, s_free := butlast (s_free s)\<rparr>) (st (s_slot s) x (last (s_free s)))
      else map_option (\<lambda>sl. s\<lparr>s_slot := sl, s_next := s_next s + 1\<rparr>) (st (s_slot s) x (s_next s)))"

text \<open>\<open>free_stack[free_top++] = slot_out[id]\<close>, in a stack of \<open>cap\<close> cells.\<close>

definition free_slot :: "nat \<Rightarrow> nat \<Rightarrow> slots \<Rightarrow> slots option" where
  "free_slot cap x s = do {
     v \<leftarrow> ld (s_slot s) x;
     (if length (s_free s) < cap then Some (s\<lparr>s_free := s_free s @ [v]\<rparr>) else None) }"

text \<open>The last \<open>n\<close> levels from \<open>lv\<close>: allocations first, then frees.\<close>

fun slot_levels ::
  "nat list \<Rightarrow> nat option list \<Rightarrow> nat list \<Rightarrow> nat option list \<Rightarrow> nat \<Rightarrow> nat \<Rightarrow> nat \<Rightarrow> slots \<Rightarrow> slots option" where
  "slot_levels lvl_start lvl_order fre_start fre_order cap lv 0 s = Some s"
| "slot_levels lvl_start lvl_order fre_start fre_order cap lv (Suc n) s = do {
     a \<leftarrow> ld lvl_start lv;
     b \<leftarrow> ld lvl_start (lv + 1);
     s1 \<leftarrow> for_order alloc_slot lvl_order a (b - a) s;
     c \<leftarrow> ld fre_start lv;
     d \<leftarrow> ld fre_start (lv + 1);
     s2 \<leftarrow> for_order (free_slot cap) fre_order c (d - c) s1;
     slot_levels lvl_start lvl_order fre_start fre_order cap (lv + 1) n s2 }"

text \<open>From the exported nodes: \<open>slot_out\<close> and \<open>next_new\<close>. \<open>slot_out\<close> is the caller's array.\<close>

definition slot_assign :: "pose_node list \<Rightarrow> nat list \<Rightarrow> (nat list \<times> nat) option" where
  "slot_assign N slot_out = do {
     (level, maxlevel) \<leftarrow> level_pass N [] 0;
     last_use \<leftarrow> last_use_pass N level level;
     (let Ln = maxlevel + 1 in do {
       (lvl_start, lvl_order) \<leftarrow> counting_sort level Ln;
       (fre_start, fre_order) \<leftarrow> counting_sort last_use Ln;
       s \<leftarrow> slot_levels lvl_start lvl_order fre_start fre_order (length N) 0 Ln
              \<lparr>s_slot = slot_out, s_free = [], s_next = 0\<rparr>;
       Some (s_slot s, s_next s) }) }"

text \<open>
  \<open>slot_out\<close> and \<open>pool_size_out\<close> may be null; \<open>malloc\<close> is asked for the edges first, then for the ten
  arrays. The counters are 32-bit in the code and stay below \<open>count\<close>, which has been checked to fit.
  The outcome is the return code, \<open>slot_out\<close> and \<open>*pool_size_out\<close> when it is written. The model is the
  build with \<open>NDEBUG\<close>, without the final assertion on \<open>next_new\<close>.
\<close>

definition pose_graph_slot_map ::
  "labeler \<Rightarrow> (nat \<Rightarrow> u64 \<Rightarrow> bytes option) \<Rightarrow> u32 \<Rightarrow> nat list option \<Rightarrow> bool \<Rightarrow> (int \<times> nat list option \<times> nat option) option" where
  "pose_graph_slot_map H malloc chunk_blocks slot_out pool_out =
     (let cb = resolve_chunk_blocks chunk_blocks
      in if slot_out = None \<or> \<not> pool_out \<or> cb = 0 \<or> ucast cb > POSE_GRAPH_MAX_M then Some (-1, slot_out, None)
         else do {
           (rc, r) \<leftarrow> pose_graph_edges H malloc (ucast cb);
           (case (rc = 0, r) of
              (True, Some (N, count)) \<Rightarrow>
                if count = 0 \<or> count > 0xFFFFFFFF then Some (-1, slot_out, None)
                else if malloc 4 (count * 4) = None \<or> malloc 5 (count * 4) = None then Some (-1, slot_out, None)
                else do {
                  (level, maxlevel) \<leftarrow> level_pass N [] 0;
                  (let Ln = of_nat maxlevel + 1
                   in if malloc 6 ((Ln + 1) * 4) = None \<or> malloc 7 (count * 4) = None \<or> malloc 8 ((Ln + 1) * 4) = None
                          \<or> malloc 9 (count * 4) = None \<or> malloc 10 (Ln * 4) = None \<or> malloc 11 (count * 4) = None
                      then Some (-1, slot_out, None)
                      else do {
                        (slot, pool) \<leftarrow> slot_assign N (the slot_out);
                        Some (0, Some slot, Some pool) }) }
            | _ \<Rightarrow> Some (-1, slot_out, None)) })"

subsection \<open>The invariant of the pool\<close>

definition live :: "nat list \<Rightarrow> nat list \<Rightarrow> nat \<Rightarrow> nat set" where
  "live level last_use lv = {i. i < length level \<and> level ! i \<le> lv \<and> lv \<le> last_use ! i}"

text \<open>
  \<open>A\<close> are the nodes that have a slot, \<open>F\<close> those that have given it back: the other slots are
  distinct, with the free ones they are exactly the first \<open>s_next\<close>, and no two nodes alive together share one.
\<close>

definition slots_inv :: "nat list \<Rightarrow> nat list \<Rightarrow> nat set \<Rightarrow> nat set \<Rightarrow> slots \<Rightarrow> bool" where
  "slots_inv level last_use A F s \<longleftrightarrow> A \<subseteq> {..<length level} \<and> F \<subseteq> A \<and> length (s_slot s) \<ge> length level
     \<and> distinct (s_free s) \<and> set (s_free s) \<inter> (!) (s_slot s) ` (A - F) = {}
     \<and> set (s_free s) \<union> (!) (s_slot s) ` (A - F) = {..<s_next s} \<and> inj_on ((!) (s_slot s)) (A - F)
     \<and> (\<forall>p\<in>A. s_slot s ! p < s_next s) \<and> s_next s \<le> card A
     \<and> (\<forall>p\<in>A. \<forall>k\<in>A. p \<noteq> k \<and> level ! p \<le> level ! k \<and> level ! k \<le> last_use ! p \<longrightarrow> s_slot s ! p \<noteq> s_slot s ! k)"

text \<open>The nodes of \<open>A\<close> at the start of an allocation on level \<open>lv\<close>.\<close>

definition at_level :: "nat list \<Rightarrow> nat list \<Rightarrow> nat \<Rightarrow> nat set \<Rightarrow> nat set \<Rightarrow> bool" where
  "at_level level last_use lv A F \<longleftrightarrow> (\<forall>i\<in>A. level ! i \<le> lv) \<and> (\<forall>i\<in>A - F. lv \<le> last_use ! i)
     \<and> (\<forall>i\<in>F. last_use ! i < lv)"

lemma slots_invD:
  assumes "slots_inv level lu A F s"
  shows "A \<subseteq> {..<length level}" "F \<subseteq> A" "length level \<le> length (s_slot s)" "distinct (s_free s)"
    "set (s_free s) \<inter> (!) (s_slot s) ` (A - F) = {}" "set (s_free s) \<union> (!) (s_slot s) ` (A - F) = {..<s_next s}"
    "inj_on ((!) (s_slot s)) (A - F)" "p \<in> A \<Longrightarrow> s_slot s ! p < s_next s" "s_next s \<le> card A" "finite A"
    "p \<in> A \<Longrightarrow> k \<in> A \<Longrightarrow> p \<noteq> k \<Longrightarrow> level ! p \<le> level ! k \<Longrightarrow> level ! k \<le> lu ! p \<Longrightarrow> s_slot s ! p \<noteq> s_slot s ! k"
proof -
  note i = assms [unfolded slots_inv_def]
  show A: "A \<subseteq> {..<length level}" and "F \<subseteq> A" "length level \<le> length (s_slot s)" "distinct (s_free s)"
    "set (s_free s) \<inter> (!) (s_slot s) ` (A - F) = {}" "set (s_free s) \<union> (!) (s_slot s) ` (A - F) = {..<s_next s}"
    "inj_on ((!) (s_slot s)) (A - F)" "s_next s \<le> card A"
    by (insert i, (elim conjE, assumption)+)
  show "finite A" by (rule finite_subset [OF A]) simp
  show "s_slot s ! p < s_next s" if "p \<in> A" by (insert i that, elim conjE) (erule bspec)
  show "s_slot s ! p \<noteq> s_slot s ! k" if "p \<in> A" "k \<in> A" "p \<noteq> k" "level ! p \<le> level ! k" "level ! k \<le> lu ! p"
    by (insert i that, elim conjE) metis
qed

text \<open>Giving node \<open>x\<close> a slot \<open>v\<close> that no node alive has.\<close>

lemma slots_inv_assign:
  assumes inv: "slots_inv level lu A F s" and at: "at_level level lu lv A F"
    and x: "x < length level" "x \<notin> A" "level ! x = lv" and self: "\<forall>i<length level. level ! i \<le> lu ! i"
    and s': "s_slot s' = (s_slot s)[x := v]" "s_next s \<le> s_next s'" "v < s_next s'" "s_next s' \<le> card A + 1"
    and fr: "distinct (s_free s')" "set (s_free s') \<union> {v} = {..<s_next s'} - (!) (s_slot s) ` (A - F)" "v \<notin> set (s_free s')"
  shows "slots_inv level lu (insert x A) F s'"
proof -
  note i = slots_invD [OF inv]
  have xl: "x < length (s_slot s)" "x \<notin> F" using i(2,3) x(1,2) by auto
  have eA: "insert x A - F = insert x (A - F)" using xl(2) by auto
  have same: "s_slot s' ! p = s_slot s ! p" if "p \<in> A" for p using that x(2) s'(1) by (metis nth_list_update_neq)
  have new: "s_slot s' ! x = v" using xl(1) by (simp add: s'(1))
  have img: "(!) (s_slot s') ` (A - F) = (!) (s_slot s) ` (A - F)" using same by (intro image_cong) auto
  have vfresh: "v \<notin> (!) (s_slot s) ` (A - F)" using fr(2) by blast
  have vp: "s_slot s' ! p \<noteq> v" if "p \<in> A" "p \<notin> F" for p using vfresh same that by auto
  have old: "(!) (s_slot s) ` (A - F) \<subseteq> {..<s_next s'}" using i(8) s'(2) by (auto intro: less_le_trans)
  have "inj_on ((!) (s_slot s')) (A - F)" using i(7) same by (simp add: inj_on_def)
  moreover have "v \<notin> (!) (s_slot s') ` (A - F)" unfolding img by (rule vfresh)
  ultimately have inj: "inj_on ((!) (s_slot s')) (insert x A - F)" unfolding eA inj_on_insert new by blast
  have part: "set (s_free s') \<inter> (!) (s_slot s') ` (insert x A - F) = {}"
    "set (s_free s') \<union> (!) (s_slot s') ` (insert x A - F) = {..<s_next s'}"
    unfolding eA image_insert img new using fr old by blast+
  have dis: "s_slot s' ! p \<noteq> s_slot s' ! k"
    if d: "p \<in> insert x A" "k \<in> insert x A" "p \<noteq> k" "level ! p \<le> level ! k" "level ! k \<le> lu ! p" for p k
  proof -
    consider "p \<in> A" "k \<in> A" | "p \<in> A" "k = x" | "p = x" "k \<in> A" using d(1-3) by blast
    then show ?thesis
    proof cases
      case 1
      then show ?thesis using i(11) d(3-5) same by simp
    next
      case 2
      then have "lv \<le> lu ! p" using d(5) x(3) by simp
      then have "p \<notin> F" using at unfolding at_level_def by (metis not_le)
      then show ?thesis using 2 vp new by auto
    next
      case 3
      then have "level ! k = lv" using d(4) at x(3) unfolding at_level_def by (metis le_antisym)
      moreover have "k < length level" using 3 i(1) by auto
      ultimately have "lv \<le> lu ! k" using self by metis
      then have "k \<notin> F" using at unfolding at_level_def by (metis not_le)
      then show ?thesis using 3 vp new by metis
    qed
  qed
  have "\<forall>p\<in>insert x A. s_slot s' ! p < s_next s'"
  proof
    fix p assume "p \<in> insert x A"
    then consider "p = x" | "p \<in> A" by blast
    then show "s_slot s' ! p < s_next s'"
    proof cases
      case 2
      then show ?thesis using same [OF 2] s'(2) i(8) [OF 2] by simp
    qed (use new s'(3) in simp)
  qed
  moreover have "s_next s' \<le> card (insert x A)" using s'(4) i(10) x(2) by simp
  moreover have "insert x A \<subseteq> {..<length level}" "F \<subseteq> insert x A" "length level \<le> length (s_slot s')"
    using i(1-3) x(1) by (auto simp: s'(1))
  moreover have "\<forall>p\<in>insert x A. \<forall>k\<in>insert x A. p \<noteq> k \<and> level ! p \<le> level ! k \<and> level ! k \<le> lu ! p \<longrightarrow> s_slot s' ! p \<noteq> s_slot s' ! k"
    using dis by simp
  ultimately show ?thesis
    unfolding slots_inv_def by (intro conjI inj part fr(1))
qed

lemma alloc_slot_ok:
  assumes inv: "slots_inv level lu A F s" and at: "at_level level lu lv A F"
    and x: "x < length level" "x \<notin> A" "level ! x = lv" and self: "\<forall>i<length level. level ! i \<le> lu ! i"
    and B: "s_next s \<le> B" "card (live level lu lv) \<le> B"
  shows "\<exists>s'. alloc_slot x s = Some s' \<and> slots_inv level lu (insert x A) F s' \<and> s_next s \<le> s_next s' \<and> s_next s' \<le> B
    \<and> length (s_slot s') = length (s_slot s)"
proof (cases "s_free s" rule: rev_cases)
  case Nil
  note i = slots_invD [OF inv]
  let ?s = "s\<lparr>s_slot := (s_slot s)[x := s_next s], s_next := s_next s + 1\<rparr>"
  have xl: "x < length (s_slot s)" using i(3) x(1) by simp
  have im: "(!) (s_slot s) ` (A - F) = {..<s_next s}" using i(6) Nil by simp
  have "slots_inv level lu (insert x A) F ?s"
    by (rule slots_inv_assign [OF inv at x self, where v = "s_next s"]) (use Nil im i(9) in \<open>auto simp: lessThan_Suc\<close>)
  moreover have "s_next s + 1 \<le> B"
  proof -
    have sub: "insert x (A - F) \<subseteq> live level lu lv"
      using x(1,3) self at i(1) by (auto simp: live_def at_level_def)
    have "s_next s \<le> card (A - F)" using card_image_le [of "A - F" "(!) (s_slot s)"] im i(10) by simp
    then have "s_next s + 1 \<le> card (insert x (A - F))" using x(2) i(10) by simp
    also have "\<dots> \<le> card (live level lu lv)" by (rule card_mono [OF _ sub]) (simp add: live_def)
    finally show ?thesis using B(2) by simp
  qed
  ultimately show ?thesis using Nil xl by (simp add: alloc_slot_def st_def)
next
  case (snoc fr v)
  note i = slots_invD [OF inv]
  let ?s = "s\<lparr>s_slot := (s_slot s)[x := v], s_free := fr\<rparr>"
  have xl: "x < length (s_slot s)" using i(3) x(1) by simp
  have v: "v < s_next s" "distinct fr" "v \<notin> set fr" using i(4,6) snoc by auto
  have "slots_inv level lu (insert x A) F ?s"
    by (rule slots_inv_assign [OF inv at x self, where v = v]) (use v snoc i(5,6,9) in auto)
  then show ?thesis using snoc xl B(1) by (simp add: alloc_slot_def st_def)
qed

lemma free_slot_ok:
  assumes inv: "slots_inv level lu A F s" and x: "x \<in> A" "x \<notin> F" and cap: "length level \<le> cap"
  shows "\<exists>s'. free_slot cap x s = Some s' \<and> slots_inv level lu A (insert x F) s' \<and> s_next s' = s_next s
    \<and> s_slot s' = s_slot s"
proof -
  note i = slots_invD [OF inv]
  let ?s = "s\<lparr>s_free := s_free s @ [s_slot s ! x]\<rparr>"
  have xl: "x < length (s_slot s)" using i(1,3) x(1) by auto
  have e: "A - F = insert x (A - insert x F)" using x by auto
  have fresh: "s_slot s ! x \<notin> set (s_free s)" using i(5) x by auto
  have xo: "s_slot s ! x \<notin> (!) (s_slot s) ` (A - insert x F)"
    using i(7) x by (auto dest: inj_onD)
  have "set (s_free s) \<union> {s_slot s ! x} \<subseteq> {..<s_next s}" using i(6) x by auto
  then have "card (set (s_free s) \<union> {s_slot s ! x}) \<le> s_next s" by (metis card_lessThan card_mono finite_lessThan)
  then have "length (s_free s) + 1 \<le> s_next s" using fresh i(4) by (simp add: distinct_card)
  also have "s_next s \<le> length level" using i(9) card_mono [OF _ i(1)] by simp
  finally have "length (s_free s) < cap" using cap by simp
  moreover have "slots_inv level lu A (insert x F) ?s"
  proof -
    have a: "inj_on ((!) (s_slot s)) (A - insert x F)" using i(7) by (rule inj_on_subset) auto
    have b: "set (s_free s) \<inter> (!) (s_slot s) ` (A - insert x F) = {}" using i(5) by auto
    have c: "set (s_free s) \<union> {s_slot s ! x} \<union> (!) (s_slot s) ` (A - insert x F) = {..<s_next s}"
      using i(6) unfolding e image_insert by auto
    show ?thesis
      unfolding slots_inv_def using i(1-4,8,9,11) x a b c xo fresh by auto
  qed
  ultimately show ?thesis using xl by (simp add: free_slot_def ld_def)
qed

text \<open>The allocations of one level, then its frees.\<close>

lemma alloc_ids:
  assumes "slots_inv level lu A F s" "at_level level lu lv A F" "distinct ids" "set ids \<inter> A = {}"
    and "\<forall>x\<in>set ids. x < length level \<and> level ! x = lv" and self: "\<forall>i<length level. level ! i \<le> lu ! i"
    and B: "s_next s \<le> B" "card (live level lu lv) \<le> B"
  shows "\<exists>s'. for_ids alloc_slot ids s = Some s' \<and> slots_inv level lu (A \<union> set ids) F s' \<and> s_next s \<le> s_next s'
    \<and> s_next s' \<le> B \<and> length (s_slot s') = length (s_slot s)"
  using assms(1-5) B(1)
proof (induction ids arbitrary: s A)
  case (Cons x ids)
  have x: "x < length level" "x \<notin> A" "level ! x = lv" using Cons.prems(4,5) by auto
  obtain s1 where s1: "alloc_slot x s = Some s1" "slots_inv level lu (insert x A) F s1" "s_next s \<le> s_next s1" "s_next s1 \<le> B"
    "length (s_slot s1) = length (s_slot s)"
    using alloc_slot_ok [OF Cons.prems(1,2) x self Cons.prems(6) B(2)] by blast
  have "at_level level lu lv (insert x A) F" using Cons.prems(2) x self by (auto simp: at_level_def)
  moreover have "distinct ids" "set ids \<inter> insert x A = {}" "\<forall>x\<in>set ids. x < length level \<and> level ! x = lv"
    using Cons.prems(3-5) by auto
  ultimately obtain s' where "for_ids alloc_slot ids s1 = Some s'" "slots_inv level lu (insert x A \<union> set ids) F s'"
    "s_next s1 \<le> s_next s'" "s_next s' \<le> B" "length (s_slot s') = length (s_slot s1)"
    using Cons.IH [OF s1(2)] s1(4) by blast
  then show ?case using s1 by auto
qed simp

lemma free_ids:
  assumes "slots_inv level lu A F s" "distinct ids" "set ids \<subseteq> A - F" "length level \<le> cap"
  shows "\<exists>s'. for_ids (free_slot cap) ids s = Some s' \<and> slots_inv level lu A (F \<union> set ids) s' \<and> s_next s' = s_next s
    \<and> s_slot s' = s_slot s"
  using assms(1-3)
proof (induction ids arbitrary: s F)
  case (Cons x ids)
  obtain s1 where s1: "free_slot cap x s = Some s1" "slots_inv level lu A (insert x F) s1" "s_next s1 = s_next s" "s_slot s1 = s_slot s"
    using free_slot_ok [OF Cons.prems(1) _ _ assms(4), of x] Cons.prems(3) by auto
  have "distinct ids" "set ids \<subseteq> A - insert x F" using Cons.prems(2,3) by auto
  then show ?case using Cons.IH [OF s1(2)] s1 by auto
qed simp

subsection \<open>The result\<close>

definition level_set :: "nat list \<Rightarrow> nat \<Rightarrow> nat set" where
  "level_set key l = {i. i < length key \<and> key ! i < l}"

lemma slot_levels_ok:
  assumes sort: "sorted_ids level Ln ls lo" "sorted_ids lu Ln fs fo"
    and len: "length lu = length level" and self: "\<forall>i<length level. level ! i \<le> lu ! i"
    and B: "\<forall>l<Ln. card (live level lu l) \<le> B"
    and "lv + n = Ln" "slots_inv level lu (level_set level lv) (level_set lu lv) s" "s_next s \<le> B"
  shows "\<exists>s'. slot_levels ls lo fs fo (length level) lv n s = Some s' \<and> slots_inv level lu (level_set level Ln) (level_set lu Ln) s'
    \<and> s_next s \<le> s_next s' \<and> s_next s' \<le> B \<and> (\<forall>l. lv \<le> l \<and> l < Ln \<longrightarrow> card (live level lu l) \<le> s_next s')
    \<and> length (s_slot s') = length (s_slot s)"
  using assms(6-)
proof (induction n arbitrary: lv s)
  case (Suc n)
  have lv: "lv < Ln" using Suc.prems(1) by simp
  note A = for_slice [OF sort(1) lv] and F = for_slice [OF sort(2) lv]
  have sa: "distinct (slice ls lo lv)" "set (slice ls lo lv) = {i. i < length level \<and> level ! i = lv}"
    and sf: "distinct (slice fs fo lv)" "set (slice fs fo lv) = {i. i < length level \<and> lu ! i = lv}"
    using sort lv len by (simp_all add: sorted_ids_def)
  have at: "at_level level lu lv (level_set level lv) (level_set lu lv)"
    using len by (auto simp: at_level_def level_set_def not_less)
  have un: "level_set level lv \<union> set (slice ls lo lv) = level_set level (lv + 1)"
    "level_set lu lv \<union> set (slice fs fo lv) = level_set lu (lv + 1)"
    unfolding sa(2) sf(2) using len by (auto simp: level_set_def)
  obtain s1 where s1: "for_ids alloc_slot (slice ls lo lv) s = Some s1"
    "slots_inv level lu (level_set level (lv + 1)) (level_set lu lv) s1" "s_next s \<le> s_next s1" "s_next s1 \<le> B"
    "length (s_slot s1) = length (s_slot s)"
  proof -
    have "set (slice ls lo lv) \<inter> level_set level lv = {}" "\<forall>x\<in>set (slice ls lo lv). x < length level \<and> level ! x = lv"
      unfolding sa(2) by (auto simp: level_set_def)
    from alloc_ids [OF Suc.prems(2) at sa(1) this self Suc.prems(3)] B lv that
    show ?thesis unfolding un(1) by blast
  qed
  have "set (slice fs fo lv) \<subseteq> level_set level (lv + 1) - level_set lu lv"
    unfolding sf(2) using self by (auto simp: level_set_def less_Suc_eq_le)
  from free_ids [OF s1(2) sf(1) this order_refl]
  obtain s2 where s2: "for_ids (free_slot (length level)) (slice fs fo lv) s1 = Some s2"
    "slots_inv level lu (level_set level (lv + 1)) (level_set lu (lv + 1)) s2" "s_next s2 = s_next s1" "s_slot s2 = s_slot s1"
    unfolding un(2) by blast
  have "live level lu lv = level_set level (lv + 1) - level_set lu lv"
    using len by (auto simp: live_def level_set_def not_less)
  moreover have "card (level_set level (lv + 1) - level_set lu lv) \<le> s_next s1"
    using card_inj_on_le [OF slots_invD(7) [OF s1(2)], of "{..<s_next s1}"] slots_invD(8) [OF s1(2)] by auto
  ultimately have lvl: "card (live level lu lv) \<le> s_next s2" using s2(3) by simp
  obtain s' where s': "slot_levels ls lo fs fo (length level) (lv + 1) n s2 = Some s'"
    "slots_inv level lu (level_set level Ln) (level_set lu Ln) s'" "s_next s2 \<le> s_next s'" "s_next s' \<le> B"
    "\<forall>l. lv + 1 \<le> l \<and> l < Ln \<longrightarrow> card (live level lu l) \<le> s_next s'" "length (s_slot s') = length (s_slot s2)"
    using Suc.IH [of "lv + 1" s2] Suc.prems(1) s1(4) s2(2,3) by auto
  have "card (live level lu l) \<le> s_next s'" if "lv \<le> l" "l < Ln" for l
    using s'(5) le_trans [OF lvl s'(3)] that by (cases "l = lv") auto
  moreover have "s_next s \<le> s_next s'" using s1(3) s2(3) s'(3) by simp
  moreover have "slot_levels ls lo fs fo (length level) lv (Suc n) s = Some s'"
    using A(2,3) F(2,3) s1(1) [folded A(1)] s2(1) [folded F(1)] s'(1) by simp
  moreover have "length (s_slot s') = length (s_slot s)" using s1(5) s2(4) s'(6) by simp
  ultimately show ?case using s'(2,4) by blast
qed simp

text \<open>
  The slots are those of a pool, two nodes that are alive together have different ones, and the size
  of the pool is the largest number of nodes alive on one level.
\<close>

definition slots_ok :: "nat list \<Rightarrow> nat list \<Rightarrow> nat \<Rightarrow> nat list \<Rightarrow> nat \<Rightarrow> bool" where
  "slots_ok level last_use Ln slot pool \<longleftrightarrow> (\<forall>i<length level. slot ! i < pool)
     \<and> (\<forall>p<length level. \<forall>k<length level. p \<noteq> k \<and> level ! p \<le> level ! k \<and> level ! k \<le> last_use ! p \<longrightarrow> slot ! p \<noteq> slot ! k)
     \<and> pool = Max ((\<lambda>l. card (live level last_use l)) ` {..<Ln})"

definition uses_ok :: "pose_node list \<Rightarrow> nat list \<Rightarrow> nat list \<Rightarrow> bool" where
  "uses_ok N level last_use \<longleftrightarrow> length last_use = length N
     \<and> (\<forall>j<length N. level ! j \<le> last_use ! j \<and> (\<forall>p\<in>set (pred_ids (N ! j)). level ! j \<le> last_use ! p))"

lemma slot_assign_ok:
  assumes "edges_ordered N" "length N \<le> length slot_out" "N \<noteq> []"
  shows "\<exists>level mx last_use slot pool. level_pass N [] 0 = Some (level, mx) \<and> slot_assign N slot_out = Some (slot, pool)
    \<and> levels_ok N level \<and> uses_ok N level last_use \<and> slots_ok level last_use (mx + 1) slot pool
    \<and> length slot = length slot_out"
proof -
  obtain level mx where lp: "level_pass N [] 0 = Some (level, mx)" "levels_ok N level" "\<forall>x\<in>set level. x \<le> mx"
    using level_pass_result [OF assms(1)] by blast
  have ll: "length level = length N" using lp(2) by (simp add: levels_ok_def)
  have "\<forall>nd\<in>set N. \<forall>p\<in>set (pred_ids nd). p < length level"
    using lp(2) unfolding levels_ok_def by (metis in_set_conv_nth)
  from last_use_pass_ok [OF ll this lp(3) lp(3)]
  obtain lu where lu: "last_use_pass N level level = Some lu" "length lu = length level" "\<forall>i<length level. level ! i \<le> lu ! i"
    "\<forall>x\<in>set lu. x \<le> mx" "\<forall>j<length N. \<forall>p\<in>set (pred_ids (N ! j)). level ! j \<le> lu ! p" by blast
  have keys: "\<forall>k\<in>set level. k < mx + 1" "\<forall>k\<in>set lu. k < mx + 1" using lp(3) lu(4) by auto
  obtain ls lo where s1: "counting_sort level (mx + 1) = Some (ls, lo)" "sorted_ids level (mx + 1) ls lo"
    using counting_sort_ok [OF keys(1)] by blast
  obtain fs fo where s2: "counting_sort lu (mx + 1) = Some (fs, fo)" "sorted_ids lu (mx + 1) fs fo"
    using counting_sort_ok [OF keys(2)] by blast
  let ?c = "\<lambda>l. card (live level lu l)"
  let ?B = "Max (?c ` {..<mx + 1})"
  have B: "\<forall>l<mx + 1. ?c l \<le> ?B" by (auto intro: Max_ge)
  have e: "level_set level 0 = {}" "level_set lu 0 = {}" by (auto simp: level_set_def)
  have all: "level_set level (mx + 1) = {..<length level}" using keys(1) by (auto simp: level_set_def)
  have inv0: "slots_inv level lu (level_set level 0) (level_set lu 0) \<lparr>s_slot = slot_out, s_free = [], s_next = 0\<rparr>"
    unfolding e using assms(2) ll by (auto simp: slots_inv_def)
  from slot_levels_ok [OF s1(2) s2(2) lu(2,3) B, of 0 "mx + 1", OF _ inv0]
  obtain s where s: "slot_levels ls lo fs fo (length level) 0 (mx + 1) \<lparr>s_slot = slot_out, s_free = [], s_next = 0\<rparr> = Some s"
    "slots_inv level lu (level_set level (mx + 1)) (level_set lu (mx + 1)) s" "s_next s \<le> ?B"
    "\<forall>l<mx + 1. ?c l \<le> s_next s" "length (s_slot s) = length slot_out" by auto
  have "?B \<le> s_next s" using s(4) by (intro Max.boundedI) auto
  then have "s_next s = ?B" using s(3) by simp
  then have "slots_ok level lu (mx + 1) (s_slot s) (s_next s)"
    using slots_invD(8,11) [OF s(2)] unfolding slots_ok_def all by auto
  moreover have "slot_assign N slot_out = Some (s_slot s, s_next s)"
    using lp(1) lu(1) s1(1) s2(1) s(1) ll by (simp add: slot_assign_def del: slot_levels.simps)
  moreover have "uses_ok N level lu" using lu ll by (simp add: uses_ok_def)
  ultimately show ?thesis using lp(1,2) s(5) by blast
qed

text \<open>No assignment that keeps the labels alive together apart uses fewer slots.\<close>

definition apart_while_live :: "nat list \<Rightarrow> nat list \<Rightarrow> (nat \<Rightarrow> 's) \<Rightarrow> bool" where
  "apart_while_live level last_use f \<longleftrightarrow> (\<forall>p<length level. \<forall>k<length level.
     p \<noteq> k \<and> level ! p \<le> level ! k \<and> level ! k \<le> last_use ! p \<longrightarrow> f p \<noteq> f k)"

lemma slots_minimal:
  assumes "slots_ok level lu Ln slot pool" "0 < Ln" "apart_while_live level lu f"
  shows "pool \<le> card (f ` {..<length level})"
proof -
  have "pool \<in> (\<lambda>l. card (live level lu l)) ` {..<Ln}"
    using assms(1,2) unfolding slots_ok_def by (metis Max_in finite_imageI finite_lessThan image_is_empty lessThan_empty_iff neq0_conv)
  then obtain l where l: "pool = card (live level lu l)" by blast
  have "f p \<noteq> f k" if "p \<in> live level lu l" "k \<in> live level lu l" "p \<noteq> k" for p k
  proof (cases "level ! p \<le> level ! k")
    case True
    then show ?thesis using assms(3) that unfolding apart_while_live_def live_def by (metis (no_types, lifting) le_trans mem_Collect_eq)
  next
    case False
    then have "level ! k \<le> level ! p" by simp
    then show ?thesis using assms(3) that unfolding apart_while_live_def live_def by (metis (no_types, lifting) le_trans mem_Collect_eq)
  qed
  then have "inj_on f (live level lu l)" by (meson inj_onI)
  moreover have "live level lu l \<subseteq> {..<length level}" by (auto simp: live_def)
  ultimately show ?thesis unfolding l by (metis card_image card_mono finite_imageI finite_lessThan image_mono)
qed

text \<open>The largest graph has fewer than \<open>2^31\<close> nodes.\<close>

lemma count_fits:
  assumes "m \<noteq> 0" "m \<le> POSE_GRAPH_MAX_M"
  shows "unat (scratch_node_count m) < 2 ^ 31" "scratch_node_count m \<noteq> 0" "\<not> scratch_node_count m > 0xFFFFFFFF"
proof -
  let ?n = "pose_graph_parameter_n m"
  have n: "?n + 1 \<le> 20" using parameter_n_range(1) [OF assms] by simp
  have "2 * (scount 20 + 1) + 2 ^ 20 * 20 = 2 ^ 20 * (4 + 20 * 20)" by (rule scount_closed)
  then have "2 * scount 20 < 2 ^ 31" by simp
  then have s: "2 * scount (?n + 1) < 2 ^ 31" using scount_mono [OF n] by (metis le_less_trans mult_le_mono2)
  note c = parameter_word_facts(3) [OF assms]
  show l: "unat (scratch_node_count m) < 2 ^ 31" using s by (simp only: c)
  show "scratch_node_count m \<noteq> 0" using c scount_pos [of "?n + 1"] by (metis mult_eq_0_iff neq0_conv unat_0 zero_neq_numeral)
  show "\<not> scratch_node_count m > 0xFFFFFFFF" using l by (simp add: word_less_nat_alt)
qed

context node_hash begin

lemma pose_graph_slot_map_ok:
  assumes "malloc_ok malloc" "\<forall>i s. malloc i s \<noteq> None" "resolve_chunk_blocks cb \<le> ucast POSE_GRAPH_MAX_M"
    and "unat (scratch_node_count (ucast (resolve_chunk_blocks cb))) \<le> length slot_out"
  shows "\<exists>N level mx last_use slot pool. pose_graph_edges H malloc (ucast (resolve_chunk_blocks cb))
        = Some (0, Some (N, scratch_node_count (ucast (resolve_chunk_blocks cb))))
    \<and> pose_graph_slot_map H malloc cb (Some slot_out) True = Some (0, Some slot, Some pool)
    \<and> edges_spec (pose_graph_parameter_n (ucast (resolve_chunk_blocks cb))) (unat (ucast (resolve_chunk_blocks cb) :: u64)) N
    \<and> level_pass N [] 0 = Some (level, mx) \<and> levels_ok N level \<and> uses_ok N level last_use
    \<and> slots_ok level last_use (mx + 1) slot pool \<and> length slot = length slot_out"
proof -
  define m :: u64 where "m = ucast (resolve_chunk_blocks cb)"
  have r: "resolve_chunk_blocks cb \<noteq> 0" by (simp add: resolve_chunk_blocks_def POSE_CHUNK_BLOCKS_def)
  have u: "unat m = unat (resolve_chunk_blocks cb)"
    unfolding m_def using unsigned_less [of "resolve_chunk_blocks cb", where ?'a = nat]
    by (simp add: unsigned_ucast_eq take_bit_nat_eq_self_iff)
  have m: "m \<noteq> 0" "m \<le> POSE_GRAPH_MAX_M"
    using assms(3) r u by (auto simp: POSE_GRAPH_MAX_M_def word_le_nat_alt unat_eq_zero)
  obtain N where N: "pose_graph_edges H malloc m = Some (0, Some (N, scratch_node_count m))"
    "edges_spec (pose_graph_parameter_n m) (unat m) N"
    using pose_graph_edges_ok [OF m assms(1,2)] by blast
  have ln: "length N = unat (scratch_node_count m)"
    using N(2) parameter_word_facts(3) [OF m] by (simp add: edges_spec_def)
  then have "N \<noteq> []" using count_fits(2) [OF m] by (auto simp: unat_eq_zero)
  from slot_assign_ok [OF edges_spec_ordered [OF N(2)] _ this, of slot_out] parameter_n_range [OF m] ln assms(4)
  obtain level mx last_use slot pool where s: "level_pass N [] 0 = Some (level, mx)" "slot_assign N slot_out = Some (slot, pool)"
    "levels_ok N level" "uses_ok N level last_use" "slots_ok level last_use (mx + 1) slot pool" "length slot = length slot_out"
    unfolding m_def by auto
  have "pose_graph_slot_map H malloc cb (Some slot_out) True = Some (0, Some slot, Some pool)"
    using r m N(1) s(1,2) count_fits(2,3) [OF m] assms(2)
    by (simp add: pose_graph_slot_map_def Let_def m_def [symmetric])
  then show ?thesis using N s unfolding m_def by blast
qed

end

end
