(* ===== verification/Gpu_Node.thy ===== *)
theory Gpu_Node
  imports Hash
begin

section \<open>The node label on the GPU (\<open>blake3_node.cuh\<close>)\<close>

text \<open>
  The CUDA kernels compute a node label with a compression function of their own, which permutes the
  message words between rounds where the portable code indexes a table, assembles the three blocks as
  words without a byte buffer, and loads and stores labels 16 bytes at a time where the pointer is
  aligned. The theorem: it is the BLAKE3 label of \<open>hash.c\<close>, on either path of every load and store.
\<close>

subsection \<open>The code\<close>

definition kIV :: "u32 list" where
  "kIV = [0x6A09E667, 0xBB67AE85, 0x3C6EF372, 0xA54FF53A] @ [0x510E527F, 0x9B05688C, 0x1F83D9AB, 0x5BE0CD19]"

definition kMsgPermutation :: "nat list" where
  "kMsgPermutation = [2, 6, 3, 10, 7, 0, 4, 13, 1, 11, 12, 5, 9, 14, 15, 8]"

definition FLAG_CHUNK_START :: u32 where "FLAG_CHUNK_START = push_bit 0 1"
definition FLAG_CHUNK_END :: u32 where "FLAG_CHUNK_END = push_bit 1 1"
definition FLAG_ROOT :: u32 where "FLAG_ROOT = push_bit 3 1"
definition FLAG_KEYED_HASH :: u32 where "FLAG_KEYED_HASH = push_bit 4 1"

definition gpu_rotr32 :: "u32 \<Rightarrow> nat \<Rightarrow> u32" where
  "gpu_rotr32 v s = drop_bit s v OR push_bit (32 - s) v"

definition mix :: "u32 list \<Rightarrow> nat \<Rightarrow> nat \<Rightarrow> nat \<Rightarrow> nat \<Rightarrow> u32 \<Rightarrow> u32 \<Rightarrow> u32 list" where
  "mix s a b c d mx my =
     (let s = s[a := s ! a + s ! b + mx];
          s = s[d := gpu_rotr32 (s ! d XOR s ! a) 16];
          s = s[c := s ! c + s ! d];
          s = s[b := gpu_rotr32 (s ! b XOR s ! c) 12];
          s = s[a := s ! a + s ! b + my];
          s = s[d := gpu_rotr32 (s ! d XOR s ! a) 8];
          s = s[c := s ! c + s ! d];
          s = s[b := gpu_rotr32 (s ! b XOR s ! c) 7]
      in s)"

definition gpu_round_fn :: "u32 list \<Rightarrow> u32 list \<Rightarrow> u32 list" where
  "gpu_round_fn s m =
     (let s = mix s 0 4 8 12 (m ! 0) (m ! 1);
          s = mix s 1 5 9 13 (m ! 2) (m ! 3);
          s = mix s 2 6 10 14 (m ! 4) (m ! 5);
          s = mix s 3 7 11 15 (m ! 6) (m ! 7);
          s = mix s 0 5 10 15 (m ! 8) (m ! 9);
          s = mix s 1 6 11 12 (m ! 10) (m ! 11);
          s = mix s 2 7 8 13 (m ! 12) (m ! 13);
          s = mix s 3 4 9 14 (m ! 14) (m ! 15)
      in s)"

definition permute_words :: "u32 list \<Rightarrow> u32 list" where
  "permute_words m = map (\<lambda>i. m ! (kMsgPermutation ! i)) [0..<16]"

definition gpu_compress :: "u32 list \<Rightarrow> u32 list \<Rightarrow> u32 \<Rightarrow> u32 \<Rightarrow> u32 list" where
  "gpu_compress cv block block_len flags =
     (let s = map ((!) cv) [0..<8] @ map ((!) kIV) [0..<8];
          s = s[12 := 0, 13 := 0, 14 := block_len, 15 := flags];
          m = map ((!) block) [0..<16];
          s = gpu_round_fn s m; m = permute_words m;
          s = gpu_round_fn s m; m = permute_words m;
          s = gpu_round_fn s m; m = permute_words m;
          s = gpu_round_fn s m; m = permute_words m;
          s = gpu_round_fn s m; m = permute_words m;
          s = gpu_round_fn s m; m = permute_words m;
          s = gpu_round_fn s m
      in map (\<lambda>i. s ! i XOR s ! (i + 8)) [0..<8])"

definition load_le32 :: "bytes \<Rightarrow> nat \<Rightarrow> u32" where
  "load_le32 p i = ucast (p ! i) OR push_bit 8 (ucast (p ! (i + 1)))
     OR push_bit 16 (ucast (p ! (i + 2))) OR push_bit 24 (ucast (p ! (i + 3)))"

text \<open>A 32-bit load and store of the GPU, which is little-endian; a \<open>uint4\<close> is four of them.\<close>

definition native_load :: "bytes \<Rightarrow> nat \<Rightarrow> u32" where
  "native_load p i = word_cat (word_cat (p ! (i + 3)) (p ! (i + 2)) :: 16 word) (word_cat (p ! (i + 1)) (p ! i) :: 16 word)"

definition native_store :: "u32 \<Rightarrow> bytes" where
  "native_store w = (let hi = ucast (drop_bit 16 w) :: 16 word; lo = ucast w :: 16 word
                     in [ucast lo, ucast (drop_bit 8 lo), ucast hi, ucast (drop_bit 8 hi)])"

definition load_label_words :: "bool \<Rightarrow> bytes \<Rightarrow> u32 list" where
  "load_label_words aligned p =
     (if aligned
      then map (native_load p) [0, 4, 8, 12] @ map (\<lambda>i. native_load p (16 + i)) [0, 4, 8, 12]
      else map (\<lambda>i. load_le32 p (i * 4)) [0..<8])"

definition store_label_words :: "bool \<Rightarrow> u32 list \<Rightarrow> bytes" where
  "store_label_words aligned w =
     (if aligned
      then concat (map (\<lambda>i. native_store (w ! i)) [0..<4]) @ concat (map (\<lambda>i. native_store (w ! (4 + i))) [0..<4])
      else concat (map (\<lambda>i. [ucast (w ! i), ucast (drop_bit 8 (w ! i)), ucast (drop_bit 16 (w ! i)), ucast (drop_bit 24 (w ! i))])
             [0..<8]))"

text \<open>\<open>__byte_perm(x, y, s)\<close>: byte \<open>k\<close> of the result is byte \<open>s[4k..4k+2]\<close> of \<open>y:x\<close>.\<close>

definition byte_perm :: "u32 \<Rightarrow> u32 \<Rightarrow> nat list \<Rightarrow> u32" where
  "byte_perm x y sel =
     (let b = native_store x @ native_store y
      in foldr (\<lambda>k acc. push_bit (8 * k) (ucast (b ! (sel ! k))) OR acc) [0..<4] 0)"

text \<open>The selector \<open>0x0123\<close>, lowest digit first.\<close>

definition bswap32 :: "u32 \<Rightarrow> u32" where
  "bswap32 v = byte_perm v 0 [3, 2, 1, 0]"

text \<open>
  \<open>al\<close> says which pointers are 16-byte aligned: \<open>pred0\<close>, \<open>pred1\<close>, \<open>seed\<close>, \<open>descriptor\<close>, \<open>out\<close>. An
  absent predecessor is \<open>None\<close>.
\<close>

definition gpu_label_node ::
  "(nat \<Rightarrow> bool) \<Rightarrow> u32 list \<Rightarrow> u64 \<Rightarrow> label option \<Rightarrow> label option \<Rightarrow> bytes \<Rightarrow> bytes \<Rightarrow> label" where
  "gpu_label_node al key node_index pred0 pred1 seed descriptor =
     (let cv = map ((!) key) [0..<8];
          words = [bswap32 (ucast (drop_bit 32 node_index)), bswap32 (ucast node_index)] @ replicate 14 0;
          cv = gpu_compress cv words 64 (FLAG_KEYED_HASH OR FLAG_CHUNK_START);
          words = (case pred0 of Some p \<Rightarrow> load_label_words (al 0) p | None \<Rightarrow> replicate 8 0)
                @ (case pred1 of Some p \<Rightarrow> load_label_words (al 1) p | None \<Rightarrow> replicate 8 0);
          cv = gpu_compress cv words 64 FLAG_KEYED_HASH;
          words = load_label_words (al 2) seed @ load_label_words (al 3) descriptor;
          cv = gpu_compress cv words 64 (FLAG_KEYED_HASH OR FLAG_CHUNK_END OR FLAG_ROOT)
      in store_label_words (al 4) cv)"

text \<open>\<open>copy_label\<close>, sixteen bytes at a time or byte by byte.\<close>

definition copy_label :: "bool \<Rightarrow> label \<Rightarrow> bytes" where
  "copy_label aligned src =
     (if aligned then take 16 src @ take 16 (drop 16 src) else map ((!) src) [0..<32])"

subsection \<open>The self-test entry point (\<open>blake3_node.cu\<close>)\<close>

text \<open>
  What the CUDA runtime answers, by the number of the call within one function: a device allocation
  with the bytes it happens to hold, whether a copy takes place, whether a synchronisation succeeds.
\<close>

record cuda =
  cu_malloc :: "nat \<Rightarrow> nat \<Rightarrow> bytes option"
  cu_memcpy :: "nat \<Rightarrow> bool"
  cu_sync :: "nat \<Rightarrow> bool"

text \<open>\<open>cudaMemcpy\<close> to a device buffer of which the result is not looked at.\<close>

definition upload :: "bool \<Rightarrow> 'a \<Rightarrow> 'a \<Rightarrow> 'a" where
  "upload succeeded held src = (if succeeded then src else held)"

definition k_label_single ::
  "(nat \<Rightarrow> bool) \<Rightarrow> bool \<Rightarrow> u64 \<Rightarrow> label option \<Rightarrow> label option \<Rightarrow> bytes \<Rightarrow> bytes \<Rightarrow> u32 list \<Rightarrow> u32 list \<Rightarrow> label" where
  "k_label_single al is_source node_index pred0 pred1 seed descriptor key_src key_int =
     (let key = (if is_source then key_src else key_int)
      in gpu_label_node al key node_index (if is_source then None else pred0) (if is_source then None else pred1) seed descriptor)"

text \<open>The result is the return code and, when it is 0, the 32 bytes of \<open>out\<close>.\<close>

definition pose_gpu_label_node_single ::
  "cuda \<Rightarrow> (nat \<Rightarrow> bool) \<Rightarrow> bool \<Rightarrow> u64 \<Rightarrow> label option \<Rightarrow> label option \<Rightarrow> bytes \<Rightarrow> bytes \<Rightarrow> u32 list \<Rightarrow> u32 list
     \<Rightarrow> int \<times> label option" where
  "pose_gpu_label_node_single C al is_source node_index pred0 pred1 seed descriptor key_src key_int =
     (if \<not> list_all (\<lambda>k. cu_malloc C k 32 \<noteq> None) [0..<5]
         \<or> pred0 \<noteq> None \<and> cu_malloc C 5 32 = None \<or> pred1 \<noteq> None \<and> cu_malloc C 6 32 = None
      then (-1, None)
      else
       (let held = (\<lambda>k. the (cu_malloc C k 32));
            words = (\<lambda>k. map (\<lambda>i. native_load (held k) (4 * i)) [0..<8]);
            d_seed = upload (cu_memcpy C 0) (held 1) seed;
            d_desc = upload (cu_memcpy C 1) (held 2) descriptor;
            d_ksrc = upload (cu_memcpy C 2) (words 3) key_src;
            d_kint = upload (cu_memcpy C 3) (words 4) key_int;
            d_p0 = map_option (upload (cu_memcpy C 4) (held 5)) pred0;
            d_p1 = map_option (upload (cu_memcpy C 5) (held 6)) pred1;
            d_out = k_label_single al is_source node_index d_p0 d_p1 d_seed d_desc d_ksrc d_kint
        in if \<not> cu_sync C 0 then (-1, None)
           else if \<not> cu_memcpy C 6 then (-1, None)
           else (0, Some d_out)))"

subsection \<open>Rounds\<close>

lemma mix_g: "mix s a b c d mx my = b3_g s a b c d mx my"
  unfolding mix_def b3_g_def gpu_rotr32_def rotr32_def by (rule refl)

definition scheduled :: "u32 list \<Rightarrow> nat \<Rightarrow> u32 list" where
  "scheduled m r = map (\<lambda>i. m ! (MSG_SCHEDULE ! r ! i)) [0..<16]"

lemma scheduled_nth: "i < 16 \<Longrightarrow> scheduled m r ! i = m ! (MSG_SCHEDULE ! r ! i)"
  by (simp add: scheduled_def)

lemma gpu_round: "gpu_round_fn s (scheduled m r) = round_fn s m r"
  by (simp add: gpu_round_fn_def round_fn_def mix_g scheduled_nth Let_def)

text \<open>The permutation steps through the rows of the schedule.\<close>

lemma schedule_step: "r < 6 \<Longrightarrow> i < 16 \<Longrightarrow> MSG_SCHEDULE ! Suc r ! i = MSG_SCHEDULE ! r ! (kMsgPermutation ! i) \<and> kMsgPermutation ! i < 16"
proof -
  assume "r < 6" "i < 16"
  moreover have "\<forall>r\<in>set [0..<6]. \<forall>i\<in>set [0..<16]. MSG_SCHEDULE ! Suc r ! i = MSG_SCHEDULE ! r ! (kMsgPermutation ! i)
      \<and> kMsgPermutation ! i < 16"
    by code_simp
  ultimately show ?thesis by simp
qed

lemma permute_scheduled: "r < 6 \<Longrightarrow> permute_words (scheduled m r) = scheduled m (Suc r)"
  unfolding permute_words_def scheduled_def using schedule_step [of r] by (intro map_cong refl) simp

lemma scheduled_0: "map ((!) block) [0..<16] = scheduled block 0"
proof -
  have "\<forall>i\<in>set [0..<16]. MSG_SCHEDULE ! 0 ! i = i" by code_simp
  then show ?thesis unfolding scheduled_def by (intro map_cong refl) simp
qed

text \<open>The compression of a block of which the words are given.\<close>

lemma gpu_compress_eq:
  assumes "block = map (\<lambda>i. load32 (drop (4 * i) bs)) [0..<16]" "flags = ucast fl" "length cv = 8"
  shows "gpu_compress cv block 64 flags = blake3_compress_in_place_portable cv bs 64 0 fl"
proof -
  have s0: "(map ((!) cv) [0..<8] @ map ((!) kIV) [0..<8])[12 := 0, 13 := 0, 14 := 64, 15 := flags]
      = map (\<lambda>i. cv ! i) [0..<8] @ map (\<lambda>i. IV ! i) [0..<4] @ [counter_low 0, counter_high 0, ucast (64 :: byte), ucast fl]"
    using assms(2) by (simp add: upt_rec kIV_def IV_def counter_low_def counter_high_def)
  show ?thesis
    unfolding gpu_compress_def blake3_compress_in_place_portable_def compress_pre_def Let_def s0 scheduled_0
      assms(1) [symmetric]
    by (simp only: permute_scheduled gpu_round flip: Suc_eq_plus1) (simp add: permute_scheduled gpu_round numeral_eq_Suc)
qed

subsection \<open>Words and bytes\<close>

lemma native_load_le32: "native_load p i = load_le32 p i"
proof (rule bit_word_eqI)
  fix n assume "n < LENGTH(32)"
  then show "bit (native_load p i) n = bit (load_le32 p i) n"
    by (auto simp: native_load_def load_le32_def bit_simps bit_word_cat_iff dest: bit_imp_le_length)
qed

lemma native_store_store32: "native_store w = store32 w"
proof -
  have "(ucast (ucast w :: 16 word) :: byte) = ucast w" "(ucast (drop_bit 8 (ucast w :: 16 word)) :: byte) = ucast (drop_bit 8 w)"
    "(ucast (ucast (drop_bit 16 w) :: 16 word) :: byte) = ucast (drop_bit 16 w)"
    "(ucast (drop_bit 8 (ucast (drop_bit 16 w) :: 16 word)) :: byte) = ucast (drop_bit 24 w)"
    by (rule bit_word_eqI; auto simp: bit_simps)+
  then show ?thesis by (simp add: native_store_def store32_def Let_def)
qed

lemma load_le32_load32: "i + 4 \<le> length p \<Longrightarrow> load_le32 p i = load32 (drop i p)"
  by (simp add: load_le32_def load32_def)

lemma load_label_words_eq:
  assumes "length p = 32"
  shows "load_label_words al p = map (\<lambda>i. load32 (drop (4 * i) p)) [0..<8]"
proof -
  have "map (\<lambda>i. load_le32 p (i * 4)) [0..<8] = map (\<lambda>i. load32 (drop (4 * i) p)) [0..<8]"
    using assms by (intro map_cong refl) (simp add: load_le32_load32 mult.commute)
  moreover have "map (native_load p) [0, 4, 8, 12] @ map (\<lambda>i. native_load p (16 + i)) [0, 4, 8, 12]
      = map (\<lambda>i. load_le32 p (i * 4)) [0..<8]"
    by (simp add: native_load_le32 upt_rec)
  ultimately show ?thesis by (simp only: load_label_words_def if_cancel)
qed

lemma store_label_words_eq: "store_label_words al w = store_cv_words w"
proof -
  have u: "[0..<8] = [0..<4] @ map (\<lambda>i. 4 + i) [0..<4]" by code_simp
  have "map (\<lambda>i. store32 (w ! i)) [0..<4] @ map (\<lambda>i. store32 (w ! (4 + i))) [0..<4] = map (\<lambda>i. store32 (w ! i)) [0..<8]"
    by (simp only: u map_append map_map comp_def)
  then have "concat (map (\<lambda>i. store32 (w ! i)) [0..<4]) @ concat (map (\<lambda>i. store32 (w ! (4 + i))) [0..<4])
      = store_cv_words w"
    unfolding store_cv_words_def by (metis concat_append)
  moreover have "store32 x = [ucast x, ucast (drop_bit 8 x), ucast (drop_bit 16 x), ucast (drop_bit 24 x)]" for x
    by (simp add: store32_def)
  ultimately show ?thesis
    unfolding store_label_words_def native_store_store32 by (simp add: store_cv_words_def)
qed

lemma bswap_bytes:
  "bswap32 v = load32 [ucast (drop_bit 24 v), ucast (drop_bit 16 v), ucast (drop_bit 8 v), ucast v]"
  by (simp add: bswap32_def byte_perm_def native_store_store32 store32_def load32_def Let_def upt_rec or.commute or.left_commute)

lemma length_store_label [simp]: "length (store_label_words al w) = 32"
  by (simp add: store_label_words_eq)

lemma copy_label_id: "length src = 32 \<Longrightarrow> copy_label al src = src"
  using map_nth [of src] append_take_drop_id [of 16 src] by (simp add: copy_label_def)

subsection \<open>The label\<close>

lemma block_words_split:
  "length xs = 32 \<Longrightarrow> map (\<lambda>i. load32 (drop (4 * i) (xs @ ys))) [0..<16]
    = map (\<lambda>i. load32 (drop (4 * i) xs)) [0..<8] @ map (\<lambda>i. load32 (drop (4 * i) ys)) [0..<8]"
proof -
  assume l: "length xs = 32"
  have u: "[0..<16] = [0..<8] @ map (\<lambda>i. 8 + i) [0..<8]" by code_simp
  have "load32 (drop (4 * i) (xs @ ys)) = load32 (drop (4 * i) xs)" if "i < 8" for i
    using l that by (simp add: load32_def nth_append)
  moreover have "load32 (drop (4 * (8 + i)) (xs @ ys)) = load32 (drop (4 * i) ys)" for i
    using l by (simp add: drop_append)
  ultimately show ?thesis by (simp only: u map_append map_map comp_def) (simp cong: map_cong)
qed

lemma pred_words:
  assumes "\<And>q. p = Some q \<Longrightarrow> length q = 32"
  shows "(case p of Some q \<Rightarrow> load_label_words al q | None \<Rightarrow> replicate 8 0) = map (\<lambda>i. load32 (drop (4 * i) (pred_bytes p))) [0..<8]"
proof (cases p)
  case None
  have "map (\<lambda>i. load32 (drop (4 * i) (replicate 32 0))) [0..<8] = replicate 8 0" by code_simp
  then show ?thesis using None by (simp add: pred_bytes_def)
next
  case (Some q)
  then show ?thesis using assms [OF Some] load_label_words_eq [of q] by (simp add: pred_bytes_def mem32_id)
qed

lemma index_words:
  "[bswap32 (ucast (drop_bit 32 i)), bswap32 (ucast i)] @ replicate 14 0
    = map (\<lambda>k. load32 (drop (4 * k) (u64_be i @ replicate 56 0))) [0..<16]"
proof -
  have a: "(ucast (ucast (drop_bit j i) :: u32) :: byte) = ucast (drop_bit j i)" for j
    by (rule bit_word_eqI) (auto simp: bit_simps)
  have b: "(ucast (drop_bit k (ucast (drop_bit j i) :: u32)) :: byte) = ucast (drop_bit (k + j) i)" if "k \<le> 24" for k j
    using that by (intro bit_word_eqI) (auto simp: bit_simps ac_simps)
  have "bswap32 (ucast (drop_bit 32 i)) = load32 (u64_be i @ replicate 56 0)"
    using b [of _ 32] by (simp add: bswap_bytes u64_be_def load32_def a)
  moreover have "bswap32 (ucast i) = load32 (drop 4 (u64_be i @ replicate 56 0))"
    using b [of _ 0] a [of 0] by (simp add: bswap_bytes u64_be_def load32_def)
  moreover have "map (\<lambda>k. load32 (drop (4 * k) (u64_be i @ replicate 56 0))) [2..<16] = map (\<lambda>k. 0) [2..<16]"
  proof (intro map_cong refl)
    fix k :: nat assume "k \<in> set [2..<16]"
    then have k: "2 \<le> k" "k < 16" by (simp_all only: set_upt atLeastLessThan_iff)
    then have "(u64_be i @ replicate 56 0) ! (4 * k + j) = 0" if "j < 4" for j
      using that by (simp add: nth_append)
    from this [of 0] this [of 1] this [of 2] this [of 3] k
    show "load32 (drop (4 * k) (u64_be i @ replicate 56 0)) = 0" by (simp add: load32_def)
  qed
  moreover have "map (\<lambda>k. 0 :: u32) [2..<16] = replicate 14 0" by code_simp
  moreover have "[0..<16] = [0, 1] @ [2..<16]" by code_simp
  ultimately show ?thesis by simp
qed

lemma gpu_label_node_eq:
  assumes "length key = 8" "\<And>q. p0 = Some q \<Longrightarrow> length q = 32" "\<And>q. p1 = Some q \<Longrightarrow> length q = 32"
    and "length seed = 32" "length descriptor = 32"
  shows "gpu_label_node al key i p0 p1 seed descriptor
    = hash_one_portable (build_node_msg i p0 p1 seed descriptor) 3 key 0 KEYED_HASH CHUNK_START (CHUNK_END OR ROOT)"
proof -
  let ?b0 = "u64_be i @ replicate 56 0" and ?b1 = "pred_bytes p0 @ pred_bytes p1" and ?b2 = "seed @ descriptor"
  have msg: "build_node_msg i p0 p1 seed descriptor = ?b0 @ ?b1 @ ?b2"
    using assms(4,5) by (simp add: build_node_msg_def mem32_id)
  have len: "length ?b0 = 64" "length ?b1 = 64" "length ?b2 = 64" using assms(4,5)
    by (simp_all add: pred_bytes_def split: option.split)
  have k: "map ((!) key) [0..<8] = key" using assms(1) map_nth [of key] by simp
  have pw: "(case p0 of Some q \<Rightarrow> load_label_words b q | None \<Rightarrow> replicate 8 0) = map (\<lambda>i. load32 (drop (4 * i) (pred_bytes p0))) [0..<8]"
    "(case p1 of Some q \<Rightarrow> load_label_words b q | None \<Rightarrow> replicate 8 0) = map (\<lambda>i. load32 (drop (4 * i) (pred_bytes p1))) [0..<8]"
    for b by (rule pred_words, erule assms(2)) (rule pred_words, erule assms(3))
  have w1: "(case p0 of Some q \<Rightarrow> load_label_words (al 0) q | None \<Rightarrow> replicate 8 0)
      @ (case p1 of Some q \<Rightarrow> load_label_words (al 1) q | None \<Rightarrow> replicate 8 0) = map (\<lambda>i. load32 (drop (4 * i) ?b1)) [0..<16]"
    unfolding pw
    by (rule block_words_split [symmetric]) (simp add: pred_bytes_def split: option.split)
  have w2: "load_label_words (al 2) seed @ load_label_words (al 3) descriptor = map (\<lambda>i. load32 (drop (4 * i) ?b2)) [0..<16]"
    unfolding load_label_words_eq [OF assms(4)] load_label_words_eq [OF assms(5)]
    by (rule block_words_split [symmetric, OF assms(4)])
  have fl: "FLAG_KEYED_HASH OR FLAG_CHUNK_START = ucast (KEYED_HASH OR CHUNK_START)" "FLAG_KEYED_HASH = ucast KEYED_HASH"
    "FLAG_KEYED_HASH OR FLAG_CHUNK_END OR FLAG_ROOT = ucast (KEYED_HASH OR (CHUNK_END OR ROOT))"
    by code_simp+
  define cv1 where "cv1 = blake3_compress_in_place_portable key ?b0 64 0 (KEYED_HASH OR CHUNK_START)"
  define cv2 where "cv2 = blake3_compress_in_place_portable cv1 ?b1 64 0 KEYED_HASH"
  have l1: "length cv1 = 8" "length cv2 = 8" by (simp_all add: cv1_def cv2_def blake3_compress_in_place_portable_def Let_def)
  show ?thesis
    unfolding gpu_label_node_def Let_def k store_label_words_eq gpu_compress_eq [OF index_words fl(1) assms(1)] cv1_def [symmetric]
      gpu_compress_eq [OF w1 fl(2) l1(1)] cv2_def [symmetric] gpu_compress_eq [OF w2 fl(3) l1(2)] msg
    using len by (simp add: hash_one_portable_def BLAKE3_BLOCK_LEN_def numeral_3_eq_3 Let_def cv1_def cv2_def)
qed

text \<open>The label of the CPU, for the key that \<open>pose_label_node_keys\<close> returns.\<close>

lemma k_label_single_ref:
  assumes "\<And>q. p0 = Some q \<Longrightarrow> length q = 32" "\<And>q. p1 = Some q \<Longrightarrow> length q = 32"
    and "length seed = 32" "length descriptor = 32"
  shows "k_label_single al src i p0 p1 seed descriptor (label_key (hw_b3 h) True) (label_key (hw_b3 h) False)
    = ref_label h src i p0 p1 seed descriptor POSE_HASH_BLAKE3"
proof -
  have "gpu_label_node al (if src then label_key (hw_b3 h) True else label_key (hw_b3 h) False) i
      (if src then None else p0) (if src then None else p1) seed descriptor
    = hash_one_portable (build_node_msg i (if src then None else p0) (if src then None else p1) seed descriptor) 3
        (if src then label_key (hw_b3 h) True else label_key (hw_b3 h) False) 0 KEYED_HASH CHUNK_START (CHUNK_END OR ROOT)"
    by (rule gpu_label_node_eq) (use assms in \<open>auto split: if_splits\<close>)
  then show ?thesis by (cases src) (simp_all add: k_label_single_def ref_label_def Let_def)
qed

lemma single_rc:
  "fst (pose_gpu_label_node_single C al src i p0 p1 seed ds ks ki) = 0 \<longleftrightarrow>
     (\<forall>k<5. cu_malloc C k 32 \<noteq> None) \<and> (p0 \<noteq> None \<longrightarrow> cu_malloc C 5 32 \<noteq> None)
     \<and> (p1 \<noteq> None \<longrightarrow> cu_malloc C 6 32 \<noteq> None) \<and> cu_sync C 0 \<and> cu_memcpy C 6"
  by (auto simp: pose_gpu_label_node_single_def Let_def list_all_iff simp del: upt_rec_numeral)

lemma single_label:
  assumes "fst (pose_gpu_label_node_single C al src i p0 p1 seed ds ks ki) = 0" "\<forall>k<6. cu_memcpy C k"
  shows "pose_gpu_label_node_single C al src i p0 p1 seed ds ks ki = (0, Some (k_label_single al src i p0 p1 seed ds ks ki))"
proof -
  have "map_option (\<lambda>x. x) p0 = p0" "map_option (\<lambda>x. x) p1 = p1" by (simp_all add: option.map_ident)
  then show ?thesis using assms
    by (auto simp: pose_gpu_label_node_single_def Let_def upload_def [abs_def] split: if_splits)
qed

end
