(* ===== verification/Gpu_Topo.thy ===== *)
theory Gpu_Topo
  imports Slot_Map Gpu_Node Region_Pose
begin

section \<open>The topology on the device (\<open>label_gpu_common.cu\<close>)\<close>

text \<open>
  \<open>pose_graph_hbm_topo_build\<close> exports the graph once, computes the dependency levels, the schedule sorted
  by level, the node of every challenge rank and, for the strategies that recycle scratch, the slot of
  every node, and copies all of it to the device. The theorem of this file, \<open>topo_build_ok\<close>: a topology
  that it returns is the one of the graph of \<open>chunk_blocks\<close>, and it returns one whenever no allocation and no
  copy fails.
\<close>

subsection \<open>The code\<close>

text \<open>\<open>POSE_GPU_LABEL_STRATEGY\<close>: exactly one of the four is compiled in.\<close>

datatype strategy = LEVEL | BLOCK | THREAD | WARP

definition LABEL_GPU_USES_SLOT_MAP :: "strategy \<Rightarrow> bool" where
  "LABEL_GPU_USES_SLOT_MAP S = (case S of LEVEL \<Rightarrow> False | BLOCK \<Rightarrow> True | THREAD \<Rightarrow> True | WARP \<Rightarrow> True)"

text \<open>\<open>struct pose_hbm_topo\<close>. A cell of a device array that was never written is \<open>None\<close>.\<close>

record topo =
  t_chunk_blocks :: u32
  t_super_bytes :: u64
  t_count :: u64
  t_num_levels :: nat
  t_level_count :: "nat list"
  t_level_start :: "nat list"
  t_pool_size :: nat
  d_np :: "nat list"
  d_desc :: bytes
  d_p0 :: "nat list"
  d_p1 :: "nat list"
  d_order :: "nat option list"
  d_level_start :: "nat list"
  d_out_id :: "nat option list"
  d_ksrc :: "u32 list"
  d_kint :: "u32 list"
  d_slot :: "nat list option"
  d_rank :: "int list option"

text \<open>
  The host arrays that the first loop fills, \<open>level\<close>, \<open>h_np\<close>, \<open>h_p0\<close>, \<open>h_p1\<close> and \<open>h_rank\<close> as far as they are
  filled, and \<open>maxlevel\<close>. \<open>h_rank\<close> is null for the strategy without a slot map.
\<close>

record host_topo =
  h_level :: "nat list"
  h_max :: nat
  h_np :: "nat list"
  h_p0 :: "nat list"
  h_p1 :: "nat list"
  h_out_id :: "nat option list"
  h_rank :: "int list"

definition host_topo0 :: "nat \<Rightarrow> host_topo" where
  "host_topo0 cb = \<lparr>h_level = [], h_max = 0, h_np = [], h_p0 = [], h_p1 = [], h_out_id = replicate cb None, h_rank = []\<rparr>"

definition topo_node :: "pose_node \<Rightarrow> host_topo \<Rightarrow> host_topo option" where
  "topo_node nd t = do {
     lv \<leftarrow> node_level (h_level t) nd;
     out \<leftarrow> (if challenge_rank nd \<ge> 0 then st (h_out_id t) (nat (challenge_rank nd)) (Some (length (h_level t)))
             else Some (h_out_id t));
     Some \<lparr>h_level = h_level t @ [lv],
           h_max = (if lv > h_max t then lv else h_max t),
           h_np = h_np t @ [num_preds nd mod 2 ^ 8],
           h_p0 = h_p0 t @ [unat (ucast (pred0 nd) :: u32)],
           h_p1 = h_p1 t @ [unat (ucast (pred1 nd) :: u32)],
           h_out_id = out,
           h_rank = h_rank t @ [challenge_rank nd]\<rparr> }"

fun topo_nodes :: "pose_node list \<Rightarrow> host_topo \<Rightarrow> host_topo option" where
  "topo_nodes [] t = Some t"
| "topo_nodes (nd # N) t = do { t' \<leftarrow> topo_node nd t; topo_nodes N t' }"

text \<open>\<open>for (id ...) level_count[level[id]]++\<close>.\<close>

fun count_levels :: "nat list \<Rightarrow> nat list \<Rightarrow> nat list option" where
  "count_levels [] cnt = Some cnt"
| "count_levels (k # ks) cnt = do { x \<leftarrow> ld cnt k; count_levels ks (cnt[k := x + 1]) }"

text \<open>\<open>level_start[i + 1] = level_start[i] + level_count[i]\<close>, from \<open>level_start[i] = s\<close>.\<close>

fun start_sums :: "nat list \<Rightarrow> nat \<Rightarrow> nat list" where
  "start_sums [] s = [s]"
| "start_sums (c # cs) s = s # start_sums cs (s + c)"

text \<open>\<open>sizeof(pose_hbm_topo_t)\<close> on a 64-bit target.\<close>

definition POSE_HBM_TOPO_BYTES :: u64 where "POSE_HBM_TOPO_BYTES = 144"

text \<open>The sizes of the host arrays that are allocated before the first loop.\<close>

definition host_sizes :: "strategy \<Rightarrow> u64 \<Rightarrow> u32 \<Rightarrow> u64 list" where
  "host_sizes S count cb = [count * 4, count, count * 4, count * 4, count * 4, ucast cb * 4]
     @ (if LABEL_GPU_USES_SLOT_MAP S then [count * 4] else [])"

text \<open>The sizes of the device arrays, in the order in which they are allocated and copied.\<close>

definition device_sizes :: "strategy \<Rightarrow> nat \<Rightarrow> nat \<Rightarrow> nat \<Rightarrow> nat list" where
  "device_sizes S count L cb = [count, count * 4, count * 4, count * 4, (L + 1) * 4, cb * 4, 32, 32, 32]
     @ (if LABEL_GPU_USES_SLOT_MAP S then [count * 4, count * 4] else [])"

definition device_upload :: "strategy \<Rightarrow> cuda \<Rightarrow> nat \<Rightarrow> nat \<Rightarrow> nat \<Rightarrow> bool" where
  "device_upload S C count L cb =
     (let sizes = device_sizes S count L cb
      in list_all (\<lambda>k. cu_malloc C k (sizes ! k) \<noteq> None) [0..<length sizes] \<and> list_all (cu_memcpy C) [0..<length sizes])"

text \<open>
  The slot map of the strategies that recycle scratch: the outer \<open>None\<close> is undefined behaviour, the inner
  one a failure, otherwise \<open>h_slot\<close> and \<open>pool_size\<close>. \<open>malloc\<close> is asked for the edges first (calls 0 to 3), then
  for the arrays of the driver (4 to 14), for those of \<open>pose_graph_slot_map\<close> (15 to 26), and for the
  handle (27).
\<close>

definition topo_slots ::
  "strategy \<Rightarrow> labeler \<Rightarrow> (nat \<Rightarrow> u64 \<Rightarrow> bytes option) \<Rightarrow> u32 \<Rightarrow> u64 \<Rightarrow> (nat list option \<times> nat) option option" where
  "topo_slots S H malloc cb count =
     (if LABEL_GPU_USES_SLOT_MAP S then
        (case malloc 14 (count * 4) of
           None \<Rightarrow> Some None
         | Some held \<Rightarrow> do {
             (rc, slot, pool) \<leftarrow> pose_graph_slot_map H (\<lambda>i. malloc (15 + i)) cb
                (Some (map (\<lambda>i. unat (native_load held (4 * i))) [0..<unat count])) True;
             (if rc \<noteq> 0 then Some None else do { pool_size \<leftarrow> pool; Some (Some (slot, pool_size)) }) })
      else Some (Some (None, 0)))"

text \<open>
  From the exported nodes on. The result is the handle, or \<open>None\<close> for a null pointer, and the state of the
  key cache; the \<open>goto fail\<close> branches free what was allocated.
\<close>

definition topo_from_edges ::
  "strategy \<Rightarrow> hw \<Rightarrow> hash_state \<Rightarrow> (nat \<Rightarrow> u64 \<Rightarrow> bytes option) \<Rightarrow> cuda \<Rightarrow> u32 \<Rightarrow> pose_node list \<Rightarrow> u64
     \<Rightarrow> (topo option \<times> hash_state) option" where
  "topo_from_edges S h hs malloc C cb N count =
     (let sizes = host_sizes S count cb
      in
      if count = 0 \<or> count > 0xFFFFFFFF then Some (None, hs)
      else if \<not> list_all (\<lambda>k. malloc (4 + k) (sizes ! k) \<noteq> None) [0..<length sizes] then Some (None, hs)
      else do {
        t \<leftarrow> topo_nodes N (host_topo0 (unat cb));
        (let L = h_max t + 1
         in
         if malloc 11 (of_nat L * 4) = None \<or> malloc 12 (of_nat (L + 1) * 4) = None \<or> malloc 13 (of_nat L * 4) = None
         then Some (None, hs)
         else do {
           level_count \<leftarrow> count_levels (h_level t) (replicate L 0);
           (let level_start = start_sums level_count 0
            in do {
              order \<leftarrow> place (h_level t) 0 (take L level_start) (replicate (unat count) None);
              (let h_desc = pose_graph_descriptor (hw_b3 h) (ucast cb) (of_nat (pose_graph_parameter_n (ucast cb)));
                   (ksrc, kint, g) = pose_label_node_keys (hw_b3 h) (keys hs);
                   hs' = hs\<lparr>keys := g\<rparr>
               in do {
                 r \<leftarrow> topo_slots S (pose_labeler h) malloc cb count;
                 (case r of
                    None \<Rightarrow> Some (None, hs')
                  | Some (slot, pool_size) \<Rightarrow>
                      if \<not> device_upload S C (unat count) L (unat cb) \<or> malloc 27 POSE_HBM_TOPO_BYTES = None then Some (None, hs')
                      else Some (Some \<lparr>t_chunk_blocks = cb, t_super_bytes = pose_graph_super_chunk_blocks cb * 32, t_count = count,
                        t_num_levels = L, t_level_count = level_count, t_level_start = level_start, t_pool_size = pool_size,
                        d_np = h_np t, d_desc = h_desc, d_p0 = h_p0 t, d_p1 = h_p1 t, d_order = order,
                        d_level_start = level_start, d_out_id = h_out_id t, d_ksrc = ksrc, d_kint = kint,
                        d_slot = slot, d_rank = (if LABEL_GPU_USES_SLOT_MAP S then Some (h_rank t) else None)\<rparr>, hs')) }) }) }) })"

definition pose_graph_hbm_topo_build ::
  "strategy \<Rightarrow> hw \<Rightarrow> hash_state \<Rightarrow> (nat \<Rightarrow> u64 \<Rightarrow> bytes option) \<Rightarrow> cuda \<Rightarrow> u32 \<Rightarrow> hash_algo \<Rightarrow> (topo option \<times> hash_state) option" where
  "pose_graph_hbm_topo_build S h hs malloc C chunk_blocks algo =
     (if algo \<noteq> POSE_HASH_BLAKE3 then Some (None, hs)
      else
       (let cb = (if chunk_blocks = 0 then POSE_CHUNK_BLOCKS else chunk_blocks);
            super_blocks = pose_graph_super_chunk_blocks cb
        in
        if super_blocks = 0 \<or> super_blocks > 0xFFFFFFFF then Some (None, hs)
        else do {
          (rc, r) \<leftarrow> pose_graph_edges (pose_labeler h) malloc (ucast cb);
          (case (rc = 0, r) of
             (True, Some (N, count)) \<Rightarrow> topo_from_edges S h hs malloc C cb N count
           | _ \<Rightarrow> Some (None, hs)) }))"

subsection \<open>The first loop\<close>

lemma topo_nodes_append: "topo_nodes (M @ N) t = do { t' \<leftarrow> topo_nodes M t; topo_nodes N t' }"
proof (induction M arbitrary: t)
  case (Cons nd M)
  then show ?case by (cases "topo_node nd t") simp_all
qed simp

lemma level_pass_append: "level_pass (M @ N) level mx = do { (level', mx') \<leftarrow> level_pass M level mx; level_pass N level' mx' }"
proof (induction M arbitrary: level mx)
  case (Cons nd M)
  then show ?case by (cases "node_level level nd") (simp_all add: Let_def)
qed simp

lemma level_pass_length: "level_pass N level mx = Some (level', mx') \<Longrightarrow> length level' = length level + length N"
  by (induction N arbitrary: level mx) (auto split: Option.bind_splits)

lemma ranked_snoc: "ranked (N @ [nd]) r = ranked N r @ (if challenge_rank nd = r then [length N] else [])"
proof -
  have "filter (\<lambda>i. challenge_rank ((N @ [nd]) ! i) = r) [0..<length N] = filter (\<lambda>i. challenge_rank (N ! i) = r) [0..<length N]"
    by (rule filter_cong) (simp_all add: nth_append)
  then show ?thesis by (simp add: ranked_def)
qed

text \<open>The loop is the level pass of the slot map, and leaves at each rank the last node that has it.\<close>

lemma topo_nodes_ok:
  assumes "level_pass N [] 0 = Some (level, mx)" "\<forall>nd\<in>set N. challenge_rank nd < int cb"
  shows "\<exists>out. topo_nodes N (host_topo0 cb) = Some \<lparr>h_level = level, h_max = mx, h_np = map (\<lambda>nd. num_preds nd mod 2 ^ 8) N,
      h_p0 = map (\<lambda>nd. unat (ucast (pred0 nd) :: u32)) N, h_p1 = map (\<lambda>nd. unat (ucast (pred1 nd) :: u32)) N,
      h_out_id = out, h_rank = map challenge_rank N\<rparr>
    \<and> length out = cb \<and> (\<forall>r<cb. ranked N (int r) \<noteq> [] \<longrightarrow> out ! r = Some (last (ranked N (int r))))"
  using assms
proof (induction N arbitrary: level mx rule: rev_induct)
  case Nil
  then show ?case by (simp add: host_topo0_def ranked_def)
next
  case (snoc nd N)
  obtain level0 mx0 where l0: "level_pass N [] 0 = Some (level0, mx0)"
    using snoc.prems(1) by (auto simp: level_pass_append split: Option.bind_splits)
  then obtain lv where lv: "node_level level0 nd = Some lv" "level = level0 @ [lv]" "mx = (if lv > mx0 then lv else mx0)"
    using snoc.prems(1) by (auto simp: level_pass_append split: Option.bind_splits)
  have ll: "length level0 = length N" using level_pass_length [OF l0] by simp
  obtain out where out: "topo_nodes N (host_topo0 cb) = Some \<lparr>h_level = level0, h_max = mx0, h_np = map (\<lambda>nd. num_preds nd mod 2 ^ 8) N,
      h_p0 = map (\<lambda>nd. unat (ucast (pred0 nd) :: u32)) N, h_p1 = map (\<lambda>nd. unat (ucast (pred1 nd) :: u32)) N,
      h_out_id = out, h_rank = map challenge_rank N\<rparr>" "length out = cb"
    "\<forall>r<cb. ranked N (int r) \<noteq> [] \<longrightarrow> out ! r = Some (last (ranked N (int r)))"
    using snoc.IH [OF l0] snoc.prems(2) by auto
  show ?case
  proof (cases "challenge_rank nd \<ge> 0")
    case True
    then have "nat (challenge_rank nd) < length out" using snoc.prems(2) out(2) True by (simp add: nat_less_iff)
    then show ?thesis using out lv ll True
      by (auto simp: topo_nodes_append topo_node_def st_def ranked_snoc nth_list_update)
  next
    case False
    then show ?thesis using out lv by (auto simp: topo_nodes_append topo_node_def ranked_snoc)
  qed
qed

subsection \<open>The schedule\<close>

lemma count_levels_ok:
  "\<forall>k\<in>set ks. k < length cnt \<Longrightarrow> \<exists>cnt'. count_levels ks cnt = Some cnt' \<and> length cnt' = length cnt
    \<and> (\<forall>l<length cnt. cnt' ! l = cnt ! l + count_list ks l)"
proof (induction ks arbitrary: cnt)
  case (Cons k ks)
  let ?c = "cnt[k := cnt ! k + 1]"
  have "\<forall>k\<in>set ks. k < length ?c" using Cons.prems by simp
  from Cons.IH [OF this] obtain c where "count_levels ks ?c = Some c" "length c = length ?c"
    "\<forall>l<length ?c. c ! l = ?c ! l + count_list ks l" by blast
  then show ?case using Cons.prems by (auto simp: ld_def nth_list_update)
qed simp

lemma length_start_sums [simp]: "length (start_sums cs s) = length cs + 1"
  by (induction cs arbitrary: s) simp_all

lemma start_sums_nth: "l \<le> length cs \<Longrightarrow> start_sums cs s ! l = s + sum_list (take l cs)"
proof (induction cs arbitrary: s l)
  case (Cons c cs)
  then show ?case by (cases l) simp_all
qed simp

lemma schedule_ok:
  assumes "\<forall>k\<in>set ks. k < L"
  shows "\<exists>cnt order. count_levels ks (replicate L 0) = Some cnt \<and> length cnt = L
    \<and> (\<forall>l<L. cnt ! l = start_sums cnt 0 ! (l + 1) - start_sums cnt 0 ! l)
    \<and> place ks 0 (take L (start_sums cnt 0)) (replicate (length ks) None) = Some order
    \<and> sorted_ids ks L (start_sums cnt 0) order"
proof -
  obtain cnt where cnt: "count_levels ks (replicate L 0) = Some cnt" "length cnt = L" "\<forall>l<L. cnt ! l = count_list ks l"
    using count_levels_ok [of ks "replicate L 0"] assms by auto
  have s: "start_sums cnt 0 ! l = offs ks l" if "l \<le> L" for l
    using that
  proof (induction l)
    case (Suc l)
    then have "take (Suc l) cnt = take l cnt @ [cnt ! l]" using cnt(2) by (simp add: take_Suc_conv_app_nth)
    then show ?case using Suc cnt(2,3) by (simp add: start_sums_nth offs_Suc)
  qed (simp add: start_sums_nth)
  have "start_sums cnt 0 ! (l + 1) = start_sums cnt 0 ! l + cnt ! l" if "l < L" for l
    using that cnt(2) by (simp add: start_sums_nth take_Suc_conv_app_nth)
  then show ?thesis using place_sorted [OF assms, of "start_sums cnt 0"] s cnt(1,2) by auto
qed

subsection \<open>Allocations that fail\<close>

text \<open>The allocator that answers where \<open>malloc\<close> does not.\<close>

definition filled :: "(nat \<Rightarrow> u64 \<Rightarrow> bytes option) \<Rightarrow> nat \<Rightarrow> u64 \<Rightarrow> bytes option" where
  "filled malloc i s = (case malloc i s of None \<Rightarrow> Some (replicate (unat s) 0) | Some b \<Rightarrow> Some b)"

lemma filled_ok: "malloc_ok malloc \<Longrightarrow> malloc_ok (filled malloc)" "filled malloc i s \<noteq> None"
  by (auto simp: filled_def malloc_ok_def split: option.splits)

lemma filled_Some: "malloc i s = Some b \<Longrightarrow> filled malloc i s = Some b"
  by (simp add: filled_def)

lemma edges_filled:
  "pose_graph_edges H malloc m = Some (-1, None) \<or> pose_graph_edges H malloc m = pose_graph_edges H (filled malloc) m"
  by (simp add: pose_graph_edges_def Let_def filled_def split: option.split)

lemma slot_map_filled:
  "pose_graph_slot_map H malloc cb (Some sl) True = Some (-1, Some sl, None)
    \<or> pose_graph_slot_map H malloc cb (Some sl) True = pose_graph_slot_map H (filled malloc) cb (Some sl) True"
proof (cases "pose_graph_edges H malloc (ucast (resolve_chunk_blocks cb)) = Some (-1, None)")
  case True
  then show ?thesis by (simp add: pose_graph_slot_map_def Let_def)
next
  case False
  then have e: "pose_graph_edges H malloc (ucast (resolve_chunk_blocks cb)) = pose_graph_edges H (filled malloc) (ucast (resolve_chunk_blocks cb))"
    using edges_filled by blast
  show ?thesis
    unfolding pose_graph_slot_map_def Let_def e
    by (simp add: filled_def split: option.split bool.split prod.split Option.bind_split)
qed

subsection \<open>What a topology holds\<close>

text \<open>
  The topology of the exported nodes \<open>N\<close> of the graph of \<open>cb\<close> blocks, whose levels are \<open>level\<close>.
\<close>

definition slots_for :: "pose_node list \<Rightarrow> nat list \<Rightarrow> topo \<Rightarrow> bool" where
  "slots_for N level T \<longleftrightarrow> (\<exists>slot last_use. d_slot T = Some slot \<and> d_rank T = Some (map challenge_rank N)
     \<and> length N \<le> length slot \<and> uses_ok N level last_use \<and> (\<forall>i<length N. slot ! i < t_pool_size T)
     \<and> apart_while_live level last_use ((!) slot))"

definition topo_for :: "strategy \<Rightarrow> hw \<Rightarrow> u32 \<Rightarrow> pose_node list \<Rightarrow> nat list \<Rightarrow> topo \<Rightarrow> bool" where
  "topo_for S h cb N level T \<longleftrightarrow>
     (let m = unat cb; n = pose_graph_parameter_n (ucast cb); L = t_num_levels T
      in cb \<noteq> 0 \<and> cb \<le> ucast POSE_GRAPH_MAX_M \<and> edges_spec n m N \<and> levels_ok N level \<and> (\<forall>k\<in>set level. k < L)
       \<and> t_chunk_blocks T = cb \<and> t_super_bytes T = ucast cb * 32 \<and> unat (t_count T) = length N \<and> length N < 2 ^ 31
       \<and> sorted_ids level L (t_level_start T) (d_order T) \<and> d_level_start T = t_level_start T \<and> length (t_level_count T) = L
       \<and> (\<forall>l<L. t_level_count T ! l = t_level_start T ! (l + 1) - t_level_start T ! l)
       \<and> d_np T = map (\<lambda>nd. num_preds nd mod 2 ^ 8) N
       \<and> d_p0 T = map (\<lambda>nd. unat (ucast (pred0 nd) :: u32)) N \<and> d_p1 T = map (\<lambda>nd. unat (ucast (pred1 nd) :: u32)) N
       \<and> length (d_out_id T) = m \<and> (\<forall>r<m. d_out_id T ! r = Some (challenge_nodes n m ! r))
       \<and> d_desc T = graph_descriptor (pose_labeler h) (ucast cb) (of_nat n)
       \<and> d_ksrc T = label_key (hw_b3 h) True \<and> d_kint T = label_key (hw_b3 h) False
       \<and> (LABEL_GPU_USES_SLOT_MAP S \<longrightarrow> slots_for N level T))"

lemma topo_forD:
  assumes "topo_for S h cb N level T"
  shows "cb \<noteq> 0" "cb \<le> ucast POSE_GRAPH_MAX_M" "edges_spec (pose_graph_parameter_n (ucast cb)) (unat cb) N"
    "levels_ok N level" "\<forall>k\<in>set level. k < t_num_levels T" "t_chunk_blocks T = cb" "t_super_bytes T = ucast cb * 32"
    "unat (t_count T) = length N" "length N < 2 ^ 31" "sorted_ids level (t_num_levels T) (t_level_start T) (d_order T)"
    "d_level_start T = t_level_start T" "length (t_level_count T) = t_num_levels T"
    "\<forall>l<t_num_levels T. t_level_count T ! l = t_level_start T ! (l + 1) - t_level_start T ! l"
    "d_np T = map (\<lambda>nd. num_preds nd mod 2 ^ 8) N" "d_p0 T = map (\<lambda>nd. unat (ucast (pred0 nd) :: u32)) N"
    "d_p1 T = map (\<lambda>nd. unat (ucast (pred1 nd) :: u32)) N" "length (d_out_id T) = unat cb"
    "\<forall>r<unat cb. d_out_id T ! r = Some (challenge_nodes (pose_graph_parameter_n (ucast cb)) (unat cb) ! r)"
    "d_desc T = graph_descriptor (pose_labeler h) (ucast cb) (of_nat (pose_graph_parameter_n (ucast cb)))"
    "d_ksrc T = label_key (hw_b3 h) True" "d_kint T = label_key (hw_b3 h) False"
    "LABEL_GPU_USES_SLOT_MAP S \<longrightarrow> slots_for N level T"
  by (insert assms [unfolded topo_for_def Let_def], (elim conjE, assumption)+)

lemma challenge_rank_less:
  assumes "edges_spec n m N" "m \<le> 2 ^ (n + 1)" "2 ^ n \<le> m" "nd \<in> set N" "0 < m"
  shows "challenge_rank nd < int m"
proof -
  obtain i where i: "i < length N" "nd = N ! i" using assms(4) by (auto simp: in_set_conv_nth)
  have lc: "length (challenge_nodes n m) = m" using length_challenge_nodes [of n m] assms(2,3) by simp
  show ?thesis
  proof (cases "i \<in> set (challenge_nodes n m)")
    case True
    then obtain r where "r < m" "challenge_nodes n m ! r = i" using lc by (auto simp: in_set_conv_nth)
    then show ?thesis using assms(1) i(2) by (auto simp: edges_spec_def)
  next
    case False
    then show ?thesis using assms(1,5) i by (simp add: edges_spec_def)
  qed
qed

lemma edges_spec_unique:
  assumes "edges_spec n m N" "edges_spec n m N'" "m \<le> 2 ^ (n + 1)" "2 ^ n \<le> m"
  shows "N = N'"
proof (rule nth_equalityI)
  show "length N = length N'" using assms(1,2) by (simp add: edges_spec_def)
  fix i assume i: "i < length N"
  show "N ! i = N' ! i"
  proof (cases "i \<in> set (challenge_nodes n m)")
    case True
    then obtain r where "r < m" "challenge_nodes n m ! r = i"
      using length_challenge_nodes [of n m] assms(3,4) by (auto simp: in_set_conv_nth)
    then show ?thesis using assms(1,2) unfolding edges_spec_def by metis
  next
    case False
    then show ?thesis using assms(1,2) i by (simp add: edges_spec_def)
  qed
qed

lemma block_count_facts:
  assumes "cb \<noteq> 0" "cb \<le> ucast POSE_GRAPH_MAX_M"
  shows "resolve_chunk_blocks cb = cb" "(ucast cb :: u64) \<noteq> 0" "(ucast cb :: u64) \<le> POSE_GRAPH_MAX_M"
    "unat (ucast cb :: u64) = unat cb" "unat cb \<le> 2 ^ 20" "0 < unat cb"
  using assms unat_u32_u64 [of cb]
  by (auto simp: resolve_chunk_blocks_def POSE_GRAPH_MAX_M_def word_le_nat_alt unat_eq_zero unat_gt_0)

lemma topo_slots_ok:
  assumes "hw_ok h" "malloc_ok malloc" "cb \<noteq> 0" "cb \<le> ucast POSE_GRAPH_MAX_M"
    and "edges_spec (pose_graph_parameter_n (ucast cb)) (unat cb) N" "level_pass N [] 0 = Some (level, mx)"
    and "LABEL_GPU_USES_SLOT_MAP S" "unat (scratch_node_count (ucast cb)) = length N"
  shows "\<exists>r. topo_slots S (pose_labeler h) malloc cb (scratch_node_count (ucast cb)) = Some r
    \<and> (\<forall>slot pool. r = Some (slot, pool) \<longrightarrow> (\<exists>sl lu. slot = Some sl \<and> length N \<le> length sl \<and> uses_ok N level lu
          \<and> (\<forall>i<length N. sl ! i < pool) \<and> apart_while_live level lu ((!) sl)))
    \<and> ((\<forall>i s. malloc i s \<noteq> None) \<longrightarrow> r \<noteq> None)"
proof (cases "malloc 14 (scratch_node_count (ucast cb) * 4)")
  case None
  then show ?thesis using assms(7) by (auto simp: topo_slots_def)
next
  case (Some held)
  note b = block_count_facts [OF assms(3,4)]
  let ?m = "\<lambda>i. malloc (15 + i)" and ?sl = "map (\<lambda>i. unat (native_load held (4 * i))) [0..<length N]"
  let ?map = "\<lambda>m. pose_graph_slot_map (pose_labeler h) m cb (Some ?sl) True"
  have mo: "malloc_ok ?m" using assms(2) by (simp add: malloc_ok_def)
  have fm: "\<forall>i s. filled ?m i s \<noteq> None" by (simp add: filled_ok(2))
  from node_hash.pose_graph_slot_map_ok [OF pose_labeler_hash [OF assms(1)] filled_ok(1) [OF mo] fm, of cb ?sl]
  obtain N' level' mx' lu slot pool where s: "?map (filled ?m) = Some (0, Some slot, Some pool)"
    "edges_spec (pose_graph_parameter_n (ucast cb)) (unat (ucast cb :: u64)) N'" "level_pass N' [] 0 = Some (level', mx')"
    "uses_ok N' level' lu" "slots_ok level' lu (mx' + 1) slot pool" "length slot = length N" "levels_ok N' level'"
    using assms(4,8) b(1) by auto
  have "N' = N" using edges_spec_unique [OF s(2) assms(5)[folded b(4)]] parameter_n_range [OF b(2,3)] by blast
  then have n: "N' = N" "level' = level" using s(3) assms(6) by simp_all
  have "length level = length N" using s(7) n by (simp add: levels_ok_def)
  then have sl: "(\<forall>i<length N. slot ! i < pool) \<and> apart_while_live level lu ((!) slot)"
    using s(5) n unfolding slots_ok_def apart_while_live_def by metis
  have "?map ?m = Some (-1, Some ?sl, None) \<or> ?map ?m = Some (0, Some slot, Some pool)"
    using slot_map_filled [of "pose_labeler h" ?m cb ?sl] s(1) by auto
  moreover have "?map ?m = Some (0, Some slot, Some pool)" if "\<forall>i s. malloc i s \<noteq> None"
  proof -
    have "filled ?m = ?m" using that by (auto simp: filled_def fun_eq_iff split: option.split)
    then show ?thesis using s(1) by simp
  qed
  ultimately show ?thesis
    using Some assms(7,8) sl s(4,6) n by (auto simp: topo_slots_def)
qed

lemma super_chunk_bytes:
  assumes "c \<noteq> 0"
  shows "\<not> (pose_graph_super_chunk_blocks c = 0 \<or> pose_graph_super_chunk_blocks c > 0xFFFFFFFF)"
    "unat (pose_graph_super_chunk_blocks c * 32) = unat c * 32"
proof -
  have c: "unat c < 2 ^ 32" using unsigned_less [of c, where ?'a = nat] by simp
  have r: "resolve_chunk_blocks c = c" using assms by (simp add: resolve_chunk_blocks_def)
  show "\<not> (pose_graph_super_chunk_blocks c = 0 \<or> pose_graph_super_chunk_blocks c > 0xFFFFFFFF)"
    using c assms unat_u32_u64 [of c]
    by (auto simp: pose_graph_super_chunk_blocks_def r word_less_nat_alt unat_eq_zero)
  show "unat (pose_graph_super_chunk_blocks c * 32) = unat c * 32"
    using c unat_u32_u64 [of c] by (simp add: pose_graph_super_chunk_blocks_def r unat_word_ariths)
qed

lemma topo_from_edges_ok:
  assumes "hw_ok h" "state_ok h hs" "malloc_ok malloc" "cb \<noteq> 0" "cb \<le> ucast POSE_GRAPH_MAX_M"
    and "edges_spec (pose_graph_parameter_n (ucast cb)) (unat cb) N"
  shows "\<exists>r hs'. topo_from_edges S h hs malloc C cb N (scratch_node_count (ucast cb)) = Some (r, hs') \<and> state_ok h hs'
    \<and> (\<forall>T. r = Some T \<longrightarrow> (\<exists>level. topo_for S h cb N level T))
    \<and> ((\<forall>i s. malloc i s \<noteq> None) \<and> (\<forall>k n. cu_malloc C k n \<noteq> None) \<and> (\<forall>k. cu_memcpy C k) \<longrightarrow> r \<noteq> None)"
proof -
  note b = block_count_facts [OF assms(4,5)]
  define n where "n = pose_graph_parameter_n (ucast cb)"
  define count where "count = scratch_node_count (ucast cb)"
  note nr = parameter_n_range [OF b(2,3), folded n_def, unfolded b(4)]
  note es = assms(6) [folded n_def]
  have ln: "unat count = length N"
    using es parameter_word_facts(3) [OF b(2,3)] by (simp add: edges_spec_def count_def n_def)
  note cf = count_fits [OF b(2,3), folded count_def]
  obtain level mx where lp: "level_pass N [] 0 = Some (level, mx)" "levels_ok N level" "\<forall>x\<in>set level. x \<le> mx"
    using level_pass_result [OF edges_spec_ordered [OF es nr(1,3,2)]] by blast
  have ll: "length level = length N" using lp(2) by (simp add: levels_ok_def)
  have "\<forall>nd\<in>set N. challenge_rank nd < int (unat cb)"
    using challenge_rank_less [OF es nr(3,2) _ b(6)] by blast
  from topo_nodes_ok [OF lp(1) this]
  obtain out where out: "topo_nodes N (host_topo0 (unat cb)) = Some \<lparr>h_level = level, h_max = mx, h_np = map (\<lambda>nd. num_preds nd mod 2 ^ 8) N,
      h_p0 = map (\<lambda>nd. unat (ucast (pred0 nd) :: u32)) N, h_p1 = map (\<lambda>nd. unat (ucast (pred1 nd) :: u32)) N,
      h_out_id = out, h_rank = map challenge_rank N\<rparr>" "length out = unat cb"
    "\<forall>r<unat cb. ranked N (int r) \<noteq> [] \<longrightarrow> out ! r = Some (last (ranked N (int r)))" by blast
  have ranks: "\<forall>r<unat cb. out ! r = Some (challenge_nodes n (unat cb) ! r)"
    using out(3) edges_spec_ranked [OF es _ nr(3,2)] by simp
  have lt: "\<forall>k\<in>set level. k < mx + 1" using lp(3) by auto
  from schedule_ok [OF lt, unfolded ll]
  obtain cnt order where sch: "count_levels level (replicate (mx + 1) 0) = Some cnt" "length cnt = mx + 1"
    "\<forall>l<mx + 1. cnt ! l = start_sums cnt 0 ! (l + 1) - start_sums cnt 0 ! l"
    "place level 0 (take (mx + 1) (start_sums cnt 0)) (replicate (length N) None) = Some order"
    "sorted_ids level (mx + 1) (start_sums cnt 0) order" by blast
  obtain ks ki g where keys: "pose_label_node_keys (hw_b3 h) (keys hs) = (ks, ki, g)" by (metis prod_cases3)
  have g: "ks = label_key (hw_b3 h) True" "ki = label_key (hw_b3 h) False" "state_ok h (hs\<lparr>keys := g\<rparr>)"
    using keys assms(2) ensure_keys_ok [of "hw_b3 h" "keys hs"] by (auto simp: pose_label_node_keys_def state_ok_def Let_def)
  have sl: "\<exists>r. topo_slots S (pose_labeler h) malloc cb count = Some r
    \<and> (\<forall>slot pool. r = Some (slot, pool) \<longrightarrow> LABEL_GPU_USES_SLOT_MAP S \<longrightarrow> (\<exists>sl lu. slot = Some sl \<and> length N \<le> length sl \<and> uses_ok N level lu
          \<and> (\<forall>i<length N. sl ! i < pool) \<and> apart_while_live level lu ((!) sl)))
    \<and> ((\<forall>i s. malloc i s \<noteq> None) \<longrightarrow> r \<noteq> None)"
  proof (cases "LABEL_GPU_USES_SLOT_MAP S")
    case True
    from topo_slots_ok [OF assms(1,3-6) lp(1) this ln [unfolded count_def]] show ?thesis unfolding count_def by blast
  qed (simp add: topo_slots_def)
  then obtain r where r: "topo_slots S (pose_labeler h) malloc cb count = Some r"
    "\<And>slot pool. r = Some (slot, pool) \<Longrightarrow> LABEL_GPU_USES_SLOT_MAP S \<Longrightarrow> \<exists>sl lu. slot = Some sl \<and> length N \<le> length sl \<and> uses_ok N level lu
          \<and> (\<forall>i<length N. sl ! i < pool) \<and> apart_while_live level lu ((!) sl)"
    "(\<forall>i s. malloc i s \<noteq> None) \<Longrightarrow> r \<noteq> None" by blast
  define handle where "handle slot pool = \<lparr>t_chunk_blocks = cb, t_super_bytes = pose_graph_super_chunk_blocks cb * 32, t_count = count,
    t_num_levels = mx + 1, t_level_count = cnt, t_level_start = start_sums cnt 0, t_pool_size = pool,
    d_np = map (\<lambda>nd. num_preds nd mod 2 ^ 8) N, d_desc = pose_graph_descriptor (hw_b3 h) (ucast cb) (of_nat n),
    d_p0 = map (\<lambda>nd. unat (ucast (pred0 nd) :: u32)) N, d_p1 = map (\<lambda>nd. unat (ucast (pred1 nd) :: u32)) N, d_order = order,
    d_level_start = start_sums cnt 0, d_out_id = out, d_ksrc = ks, d_kint = ki, d_slot = slot,
    d_rank = (if LABEL_GPU_USES_SLOT_MAP S then Some (map challenge_rank N) else None)\<rparr>" for slot pool
  let ?ok = "list_all (\<lambda>k. malloc (4 + k) (host_sizes S count cb ! k) \<noteq> None) [0..<length (host_sizes S count cb)]
    \<and> \<not> (malloc 11 (of_nat (mx + 1) * 4) = None \<or> malloc 12 (of_nat (mx + 1 + 1) * 4) = None \<or> malloc 13 (of_nat (mx + 1) * 4) = None)"
  let ?up = "device_upload S C (length N) (mx + 1) (unat cb) \<and> malloc 27 POSE_HBM_TOPO_BYTES \<noteq> None"
  have eq: "topo_from_edges S h hs malloc C cb N count =
    (if \<not> ?ok then Some (None, hs)
     else case r of None \<Rightarrow> Some (None, hs\<lparr>keys := g\<rparr>)
        | Some (slot, pool) \<Rightarrow> Some (if ?up then Some (handle slot pool) else None, hs\<lparr>keys := g\<rparr>))"
    using cf(2,3) out(1) sch(1,4) keys r(1) ln
    by (auto simp: topo_from_edges_def Let_def handle_def n_def split: option.split)
  have for_h: "topo_for S h cb N level (handle slot pool)" if "r = Some (slot, pool)" for slot pool
  proof -
    have "slots_for N level (handle slot pool)" if "LABEL_GPU_USES_SLOT_MAP S"
      using r(2) [OF \<open>r = Some (slot, pool)\<close> that] that by (auto simp: slots_for_def handle_def)
    moreover have "length N < 2 ^ 31" using cf(1) ln by simp
    ultimately show ?thesis
      using assms(4,5) es lp(2) lt sch(2,3,5) ln out(2) ranks g(1,2) b(1)
      by (simp add: topo_for_def Let_def handle_def n_def pose_graph_super_chunk_blocks_def pose_labeler_def)
  qed
  show ?thesis
    unfolding count_def [symmetric] eq
    using g(3) assms(2) for_h r(3) by (auto simp: device_upload_def Let_def list_all_iff split: option.split)
qed

lemma topo_build_ok:
  assumes "hw_ok h" "state_ok h hs" "malloc_ok malloc"
  shows "\<exists>r hs'. pose_graph_hbm_topo_build S h hs malloc C cb algo = Some (r, hs') \<and> state_ok h hs'
    \<and> (\<forall>T. r = Some T \<longrightarrow> algo = POSE_HASH_BLAKE3 \<and> (\<exists>N level. topo_for S h (resolve_chunk_blocks cb) N level T))
    \<and> (algo = POSE_HASH_BLAKE3 \<and> resolve_chunk_blocks cb \<le> ucast POSE_GRAPH_MAX_M
       \<and> (\<forall>i s. malloc i s \<noteq> None) \<and> (\<forall>k n. cu_malloc C k n \<noteq> None) \<and> (\<forall>k. cu_memcpy C k) \<longrightarrow> r \<noteq> None)"
proof -
  define c where "c = resolve_chunk_blocks cb"
  have c0: "c \<noteq> 0" by (simp add: c_def resolve_chunk_blocks_def POSE_CHUNK_BLOCKS_def)
  have cc: "(if cb = 0 then POSE_CHUNK_BLOCKS else cb) = c" by (simp add: c_def resolve_chunk_blocks_def)
  let ?E = "pose_graph_edges (pose_labeler h) malloc (ucast c)"
  show ?thesis
  proof (cases "algo = POSE_HASH_BLAKE3")
    case al: True
    note sb = super_chunk_bytes(1) [OF c0]
    show ?thesis
    proof (cases "?E = Some (-1, None)")
      case True
      have "\<not> (c \<le> ucast POSE_GRAPH_MAX_M \<and> (\<forall>i s. malloc i s \<noteq> None))"
      proof
        assume f: "c \<le> ucast POSE_GRAPH_MAX_M \<and> (\<forall>i s. malloc i s \<noteq> None)"
        note b = block_count_facts [OF c0 conjunct1 [OF f]]
        show False
          using True node_hash.pose_graph_edges_ok [OF pose_labeler_hash [OF assms(1)] b(2,3) assms(3) conjunct2 [OF f]] by auto
      qed
      then show ?thesis using True al assms(2) sb
        by (simp add: pose_graph_hbm_topo_build_def Let_def cc c_def [symmetric])
    next
      case False
      have le: "c \<le> ucast POSE_GRAPH_MAX_M"
      proof (rule ccontr)
        assume "\<not> c \<le> ucast POSE_GRAPH_MAX_M"
        then have "ucast c > POSE_GRAPH_MAX_M"
          using unat_u32_u64 [of c] by (simp add: POSE_GRAPH_MAX_M_def word_le_nat_alt word_less_nat_alt)
        then show False using False by (simp add: pose_graph_edges_def)
      qed
      have "?E = pose_graph_edges (pose_labeler h) (filled malloc) (ucast c)" using False edges_filled by metis
      then obtain N where N: "?E = Some (0, Some (N, scratch_node_count (ucast c)))"
        "edges_spec (pose_graph_parameter_n (ucast c)) (unat c) N"
        using node_hash.pose_graph_edges_ok [OF pose_labeler_hash [OF assms(1)] block_count_facts(2,3) [OF c0 le] filled_ok(1) [OF assms(3)]]
          filled_ok(2) block_count_facts(4) [OF c0 le] by metis
      have "pose_graph_hbm_topo_build S h hs malloc C cb algo = topo_from_edges S h hs malloc C c N (scratch_node_count (ucast c))"
        using N(1) al sb by (simp add: pose_graph_hbm_topo_build_def Let_def cc)
      then show ?thesis using topo_from_edges_ok [OF assms c0 le N(2), of S C] al unfolding c_def [symmetric] by metis
    qed
  qed (use assms(2) in \<open>simp add: pose_graph_hbm_topo_build_def\<close>)
qed

end
