(* ===== verification/Gpu_Schedule.thy ===== *)
theory Gpu_Schedule
  imports Gpu_Topo "HOL-Library.Multiset"
begin

section \<open>The schedules of the labeling kernels\<close>

text \<open>
  A kernel run is a list of events \<open>(t, q)\<close>: the node at position \<open>q\<close> of the level-sorted schedule is
  labelled in scratch region \<open>t\<close>. What the source fixes is the sequence of every thread and the barriers
  between levels; the order of events of different threads is the hardware's. The theorem of this file: in
  every run of every kernel, each region sees every node exactly once, and no node before one on a
  lower level.
\<close>

subsection \<open>The code\<close>

text \<open>The iterations of one thread: \<open>for (i = tid; i < n; i += step)\<close>.\<close>

function strided :: "nat \<Rightarrow> nat \<Rightarrow> nat \<Rightarrow> nat list" where
  "strided i step n = (if i < n \<and> 0 < step then i # strided (i + step) step n else [])"
  by pat_completeness auto

termination by (relation "measure (\<lambda>(i, step, n). n - i)") auto

declare strided.simps [simp del]

text \<open>
  An interleaving of the iterations of \<open>threads\<close> threads over \<open>0..<n\<close>. Iteration \<open>q\<close> belongs to thread
  \<open>q mod threads\<close>, so the thread's own sequence can be read off the interleaving.
\<close>

definition lanes :: "nat \<Rightarrow> nat \<Rightarrow> nat list \<Rightarrow> bool" where
  "lanes threads n qs \<longleftrightarrow> set qs \<subseteq> {..<n} \<and> (\<forall>tid<threads. filter (\<lambda>q. q mod threads = tid) qs = strided tid threads n)"

text \<open>The positions that region \<open>t\<close> sees.\<close>

definition positions :: "nat \<Rightarrow> (nat \<times> nat) list \<Rightarrow> nat list" where
  "positions t evs = map snd (filter (\<lambda>e. fst e = t) evs)"

text \<open>
  One region labelled by \<open>threads\<close> threads that walk the levels with a barrier after each:
  \<open>__syncthreads\<close> in a block, \<open>__syncwarp\<close> in a warp.
\<close>

definition level_walk :: "nat \<Rightarrow> topo \<Rightarrow> nat list \<Rightarrow> bool" where
  "level_walk threads T ps \<longleftrightarrow> (\<exists>pss. length pss = t_num_levels T
     \<and> (\<forall>lv<t_num_levels T. lanes threads (d_level_start T ! (lv + 1) - d_level_start T ! lv) (pss ! lv))
     \<and> ps = concat (map (\<lambda>lv. map (\<lambda>i. d_level_start T ! lv + i) (pss ! lv)) [0..<t_num_levels T]))"

text \<open>\<open>k_label_chunk_block<<<bc, block>>>\<close>: block \<open>b\<close> labels region \<open>b\<close>.\<close>

definition k_label_chunk_block :: "nat \<Rightarrow> topo \<Rightarrow> nat \<Rightarrow> (nat \<times> nat) list \<Rightarrow> bool" where
  "k_label_chunk_block block T bc evs \<longleftrightarrow> (\<forall>e\<in>set evs. fst e < bc) \<and> (\<forall>b<bc. level_walk block T (positions b evs))"

text \<open>\<open>k_label_chunk_thread<<<grid, block>>>\<close>: thread \<open>t\<close> labels region \<open>t\<close> and returns when \<open>t >= bc\<close>.\<close>

definition k_label_chunk_thread :: "nat \<Rightarrow> nat \<Rightarrow> topo \<Rightarrow> nat \<Rightarrow> (nat \<times> nat) list \<Rightarrow> bool" where
  "k_label_chunk_thread grid block T bc evs \<longleftrightarrow> (\<forall>e\<in>set evs. fst e < grid * block)
     \<and> (\<forall>t<grid * block. positions t evs = (if t \<ge> bc then [] else [0..<unat (t_count T)]))"

text \<open>
  \<open>k_label_chunk_warp<<<grid, kBlockThreads>>>\<close>: warp \<open>w\<close> labels region \<open>w\<close> with its lanes and returns when
  \<open>w >= batch_count\<close>.
\<close>

definition kBlockThreads :: nat where "kBlockThreads = 256"
definition kWarpSize :: nat where "kWarpSize = 32"
definition kWarpsPerBlock :: nat where "kWarpsPerBlock = kBlockThreads div kWarpSize"

definition k_label_chunk_warp :: "nat \<Rightarrow> topo \<Rightarrow> nat \<Rightarrow> (nat \<times> nat) list \<Rightarrow> bool" where
  "k_label_chunk_warp grid T batch_count evs \<longleftrightarrow> (\<forall>e\<in>set evs. fst e < grid * kWarpsPerBlock)
     \<and> (\<forall>w<grid * kWarpsPerBlock. if w \<ge> batch_count then positions w evs = [] else level_walk kWarpSize T (positions w evs))"

text \<open>
  The two kernels of the level strategy: thread \<open>t\<close> of a level with \<open>n\<close> nodes labels local node \<open>t mod n\<close> of
  region \<open>t div n\<close>. \<open>k_label_level\<close> is launched once per level with a thread for every node of every
  region, \<open>k_label_all_levels\<close> once, with \<open>threads\<close> threads that stride and a \<open>grid.sync()\<close> after each level.
\<close>

definition wave_events :: "nat \<Rightarrow> nat \<Rightarrow> nat list \<Rightarrow> (nat \<times> nat) list" where
  "wave_events lstart n ts = map (\<lambda>t. (t div n, lstart + t mod n)) ts"

definition k_label_level :: "nat \<Rightarrow> nat \<Rightarrow> nat \<Rightarrow> nat \<Rightarrow> nat \<Rightarrow> (nat \<times> nat) list \<Rightarrow> bool" where
  "k_label_level grid block lstart n num_super evs \<longleftrightarrow>
     (\<exists>ts. distinct ts \<and> set ts = {t. t < grid * block \<and> \<not> t \<ge> n * num_super} \<and> evs = wave_events lstart n ts)"

definition k_label_all_levels :: "nat \<Rightarrow> topo \<Rightarrow> nat \<Rightarrow> (nat \<times> nat) list \<Rightarrow> bool" where
  "k_label_all_levels threads T w_count evs \<longleftrightarrow> (\<exists>evss. length evss = t_num_levels T
     \<and> (\<forall>lv<t_num_levels T. \<exists>ts. lanes threads ((d_level_start T ! (lv + 1) - d_level_start T ! lv) * w_count) ts
          \<and> evss ! lv = wave_events (d_level_start T ! lv) (d_level_start T ! (lv + 1) - d_level_start T ! lv) ts)
     \<and> evs = concat evss)"

text \<open>One launch of \<open>k_label_level\<close> per level that has a node.\<close>

definition level_launches :: "nat \<Rightarrow> topo \<Rightarrow> nat \<Rightarrow> (nat \<times> nat) list \<Rightarrow> bool" where
  "level_launches block T w_count evs \<longleftrightarrow> (\<exists>evss. length evss = t_num_levels T
     \<and> (\<forall>lv<t_num_levels T.
          if t_level_count T ! lv = 0 then evss ! lv = []
          else k_label_level ((t_level_count T ! lv * w_count + block - 1) div block) block (t_level_start T ! lv)
                 (t_level_count T ! lv) w_count (evss ! lv))
     \<and> evs = concat evss)"

subsection \<open>Interleavings are permutations\<close>

lemma strided_set: "0 < step \<Longrightarrow> set (strided i step n) = {q. i \<le> q \<and> q < n \<and> q mod step = i mod step}"
proof (induction i step n rule: strided.induct)
  case (1 i step n)
  show ?case
  proof (cases "i < n")
    case True
    have "q = i \<or> i + step \<le> q" if "i \<le> q" "q mod step = i mod step" for q
    proof -
      have "step dvd q - i" using that by (metis mod_eq_dvd_iff_nat)
      then show ?thesis using that(1) by (metis dvd_imp_le le_add_diff_inverse nat_add_left_cancel_le diff_is_0_eq le_antisym neq0_conv)
    qed
    then show ?thesis using 1 True by (subst strided.simps) auto
  qed (use 1 in \<open>simp add: strided.simps\<close>)
qed

lemma strided_sorted: "0 < step \<Longrightarrow> sorted_wrt (<) (strided i step n)"
proof (induction i step n rule: strided.induct)
  case (1 i step n)
  then show ?case by (subst strided.simps) (auto simp: strided_set)
qed

lemma strided_filter: "tid < step \<Longrightarrow> strided tid step n = filter (\<lambda>q. q mod step = tid) [0..<n]"
proof (rule sorted_distinct_set_unique)
  assume t: "tid < step"
  then show "sorted (strided tid step n)" "distinct (strided tid step n)"
    using strided_sorted [of step tid n] strict_sorted_iff by auto
  show "sorted (filter (\<lambda>q. q mod step = tid) [0..<n])" using sorted_filter [of id "[0..<n]"] by simp
  show "distinct (filter (\<lambda>q. q mod step = tid) [0..<n])" by simp
  show "set (strided tid step n) = set (filter (\<lambda>q. q mod step = tid) [0..<n])"
    using t mod_less_eq_dividend by (auto simp: strided_set)
qed

lemma lanes_perm:
  assumes "lanes threads n qs" "0 < threads \<or> n = 0"
  shows "distinct qs" "set qs = {..<n}"
proof -
  have "mset qs = mset [0..<n]"
  proof (cases "n = 0")
    case True
    then show ?thesis using assms(1) by (simp add: lanes_def)
  next
    case False
    then have T: "0 < threads" using assms(2) by simp
    show ?thesis
    proof (rule multiset_eqI)
      fix x
      let ?f = "\<lambda>q. q mod threads = x mod threads"
      have "x mod threads < threads" using T by simp
      then have e: "filter ?f qs = filter ?f [0..<n]" using assms(1) strided_filter [of "x mod threads" threads n] by (simp add: lanes_def)
      have "count (mset ys) x = count (mset (filter ?f ys)) x" for ys by simp
      then show "count (mset qs) x = count (mset [0..<n]) x" using e by metis
    qed
  qed
  then show "distinct qs" "set qs = {..<n}"
    using mset_eq_imp_distinct_iff mset_eq_setD by (fastforce, fastforce)
qed

subsection \<open>Every region, in level order\<close>

text \<open>What the memory argument needs: every node once, none before a node of a lower level.\<close>

definition level_sorted :: "nat list \<Rightarrow> nat list \<Rightarrow> bool" where
  "level_sorted level xs \<longleftrightarrow> distinct xs \<and> set xs = {..<length level} \<and> sorted (map ((!) level) xs)"

definition ids_at_positions :: "topo \<Rightarrow> nat list \<Rightarrow> nat list" where
  "ids_at_positions T ps = map (\<lambda>q. the (d_order T ! q)) ps"

text \<open>A walk of which each level visits its positions in any order.\<close>

definition perm_walk :: "topo \<Rightarrow> nat list \<Rightarrow> bool" where
  "perm_walk T ps \<longleftrightarrow> (\<exists>pss. length pss = t_num_levels T
     \<and> (\<forall>lv<t_num_levels T. distinct (pss ! lv) \<and> set (pss ! lv) = {..<d_level_start T ! (lv + 1) - d_level_start T ! lv})
     \<and> ps = concat (map (\<lambda>lv. map (\<lambda>i. d_level_start T ! lv + i) (pss ! lv)) [0..<t_num_levels T]))"

text \<open>The schedule of a wave or batch: the events of the regions below \<open>bc\<close>, each region in level order.\<close>

definition full_run :: "nat list \<Rightarrow> topo \<Rightarrow> nat \<Rightarrow> (nat \<times> nat) list \<Rightarrow> bool" where
  "full_run level T bc evs \<longleftrightarrow> (\<forall>e\<in>set evs. fst e < bc \<and> snd e < length level)
     \<and> (\<forall>t<bc. level_sorted level (ids_at_positions T (positions t evs)))"

lemma level_sorted_preds:
  assumes "levels_ok N level" "level_sorted level ids"
  shows "\<forall>q<length ids. \<forall>p\<in>set (pred_ids (N ! (ids ! q))). \<exists>q'<q. ids ! q' = p"
proof (intro allI impI ballI)
  fix q p assume q: "q < length ids" and p: "p \<in> set (pred_ids (N ! (ids ! q)))"
  have len: "length level = length N" and s: "set ids = {..<length level}" "sorted (map ((!) level) ids)"
    using assms by (simp_all add: levels_ok_def level_sorted_def)
  have "ids ! q < length N" using nth_mem [OF q] s(1) len by simp
  then have pl: "p < length N" "level ! p < level ! (ids ! q)" using assms(1) p by (auto simp: levels_ok_def)
  then obtain q' where q': "q' < length ids" "ids ! q' = p" using s(1) len by (metis in_set_conv_nth lessThan_iff)
  have "q' < q"
  proof (rule ccontr)
    assume "\<not> q' < q"
    then have "level ! (ids ! q) \<le> level ! (ids ! q')" using sorted_nth_mono [OF s(2), of q q'] q'(1) q by simp
    then show False using pl(2) q'(2) by simp
  qed
  then show "\<exists>q'<q. ids ! q' = p" using q'(2) by blast
qed

lemma level_walk_perm: "0 < threads \<Longrightarrow> level_walk threads T ps \<Longrightarrow> perm_walk T ps"
  unfolding level_walk_def perm_walk_def using lanes_perm by (metis (no_types, lifting))

lemma sorted_ids_starts:
  assumes "sorted_ids ks Ln start order" "l \<le> l'" "l' \<le> Ln"
  shows "start ! l \<le> start ! l'"
  using assms(2,3)
  by (induction rule: dec_induct) (use assms(1) in \<open>auto simp: sorted_ids_def intro: le_trans\<close>)

lemma slice_perm:
  assumes "sorted_ids ks Ln start order" "lv < Ln" "distinct ps" "set ps = {..<start ! (lv + 1) - start ! lv}"
  shows "distinct (map (\<lambda>q. the (order ! q)) (map (\<lambda>i. start ! lv + i) ps))"
    "set (map (\<lambda>q. the (order ! q)) (map (\<lambda>i. start ! lv + i) ps)) = {i. i < length ks \<and> ks ! i = lv}"
proof -
  have le: "start ! lv \<le> start ! (lv + 1)" using assms(1,2) by (simp add: sorted_ids_def)
  have "set (map (\<lambda>i. start ! lv + i) ps) = {start ! lv..<start ! (lv + 1)}"
  proof -
    have "(\<lambda>i. start ! lv + i) ` {..<start ! (lv + 1) - start ! lv} = {start ! lv..<start ! (lv + 1)}"
      using le by (simp add: lessThan_atLeast0)
    then show ?thesis unfolding set_map assms(4) .
  qed
  then have s: "set (map (\<lambda>i. start ! lv + i) ps) = set [start ! lv..<start ! (lv + 1)]" by simp
  have sl: "distinct (slice start order lv)" "set (slice start order lv) = {i. i < length ks \<and> ks ! i = lv}"
    using assms(1,2) by (simp_all add: sorted_ids_def)
  show "set (map (\<lambda>q. the (order ! q)) (map (\<lambda>i. start ! lv + i) ps)) = {i. i < length ks \<and> ks ! i = lv}"
    unfolding set_map [of "\<lambda>q. the (order ! q)"] s sl(2) [symmetric] slice_def by simp
  have "inj_on (\<lambda>q. the (order ! q)) (set [start ! lv..<start ! (lv + 1)])"
    using sl(1) by (simp add: slice_def distinct_map)
  then have "inj_on (\<lambda>q. the (order ! q)) (set (map (\<lambda>i. start ! lv + i) ps))" unfolding s .
  moreover have "distinct (map (\<lambda>i. start ! lv + i) ps)" using assms(3) by (simp add: distinct_map inj_on_def)
  ultimately show "distinct (map (\<lambda>q. the (order ! q)) (map (\<lambda>i. start ! lv + i) ps))" unfolding distinct_map by blast
qed

lemma sorted_map_const: "(\<And>x. x \<in> set xs \<Longrightarrow> f x = k) \<Longrightarrow> sorted (map f xs)" for k :: nat
  by (induction xs) auto

lemma perm_walk_sorted:
  assumes "sorted_ids level (t_num_levels T) (d_level_start T) (d_order T)" "\<forall>k\<in>set level. k < t_num_levels T" "perm_walk T ps"
  shows "level_sorted level (ids_at_positions T ps)" "\<forall>q\<in>set ps. q < length level"
proof -
  define start where "start = d_level_start T"
  define L where "L = t_num_levels T"
  note so = assms(1) [folded start_def L_def]
  obtain pss where p: "\<forall>lv<L. distinct (pss ! lv) \<and> set (pss ! lv) = {..<start ! (lv + 1) - start ! lv}"
    "ps = concat (map (\<lambda>lv. map (\<lambda>i. start ! lv + i) (pss ! lv)) [0..<L])"
    using assms(3) unfolding perm_walk_def start_def L_def by blast
  define part where "part lv = map (\<lambda>q. the (d_order T ! q)) (map (\<lambda>i. start ! lv + i) (pss ! lv))" for lv
  have part: "distinct (part lv)" "set (part lv) = {i. i < length level \<and> level ! i = lv}" if "lv < L" for lv
    using slice_perm [OF so that, of "pss ! lv"] p(1) that unfolding part_def by blast+
  have "distinct (concat (map part [0..<k])) \<and> set (concat (map part [0..<k])) = {i. i < length level \<and> level ! i < k}
      \<and> sorted (map ((!) level) (concat (map part [0..<k])))" if "k \<le> L" for k
    using that
  proof (induction k)
    case (Suc k)
    then have IH: "distinct (concat (map part [0..<k]))" "set (concat (map part [0..<k])) = {i. i < length level \<and> level ! i < k}"
      "sorted (map ((!) level) (concat (map part [0..<k])))" by auto
    have k: "k < L" using Suc.prems by simp
    have c: "concat (map part [0..<Suc k]) = concat (map part [0..<k]) @ part k" by simp
    have "set (concat (map part [0..<k])) \<inter> set (part k) = {}" unfolding IH(2) part(2) [OF k] by auto
    moreover have "set (concat (map part [0..<k])) \<union> set (part k) = {i. i < length level \<and> level ! i < Suc k}"
      unfolding IH(2) part(2) [OF k] by auto
    moreover have "sorted (map ((!) level) (part k))"
      by (rule sorted_map_const [where k = k]) (use part(2) [OF k] in simp)
    moreover have "\<forall>x\<in>set (concat (map part [0..<k])). \<forall>y\<in>set (part k). level ! x \<le> level ! y"
      unfolding IH(2) part(2) [OF k] by auto
    ultimately show ?case
      unfolding c distinct_append set_append map_append sorted_append set_map using IH part(1) [OF k] by blast
  qed simp
  from this [of L] show "level_sorted level (ids_at_positions T ps)"
    using assms(2) unfolding level_sorted_def ids_at_positions_def p(2) map_concat map_map comp_def part_def L_def
    by (auto simp: comp_def)
  show "\<forall>q\<in>set ps. q < length level"
  proof
    fix q assume "q \<in> set ps"
    then obtain lv i where q: "lv < L" "i < start ! (lv + 1) - start ! lv" "q = start ! lv + i"
      unfolding p(2) using p(1) by auto
    then have "q < start ! (lv + 1)" by simp
    also have "\<dots> \<le> start ! L" using sorted_ids_starts [OF so] q(1) by simp
    finally show "q < length level" using so by (simp add: sorted_ids_def)
  qed
qed

subsection \<open>The kernels\<close>

text \<open>A topology whose schedule lists the nodes level by level.\<close>

definition scheduled_topo :: "nat list \<Rightarrow> topo \<Rightarrow> bool" where
  "scheduled_topo level T \<longleftrightarrow> sorted_ids level (t_num_levels T) (t_level_start T) (d_order T) \<and> d_level_start T = t_level_start T
     \<and> (\<forall>k\<in>set level. k < t_num_levels T) \<and> unat (t_count T) = length level
     \<and> (\<forall>l<t_num_levels T. t_level_count T ! l = t_level_start T ! (l + 1) - t_level_start T ! l)"

lemma positions_set: "e \<in> set evs \<Longrightarrow> snd e \<in> set (positions (fst e) evs)"
  by (auto simp: positions_def)

lemma walks_full_run:
  assumes "scheduled_topo level T" "\<forall>e\<in>set evs. fst e < bc" "\<forall>t<bc. perm_walk T (positions t evs)"
  shows "full_run level T bc evs"
proof -
  have so: "sorted_ids level (t_num_levels T) (d_level_start T) (d_order T)" "\<forall>k\<in>set level. k < t_num_levels T"
    using assms(1) by (simp_all add: scheduled_topo_def)
  show ?thesis
    unfolding full_run_def using perm_walk_sorted [OF so] assms(2,3) positions_set by blast
qed

lemma block_full_run:
  "scheduled_topo level T \<Longrightarrow> 0 < block \<Longrightarrow> k_label_chunk_block block T bc evs \<Longrightarrow> full_run level T bc evs"
  using walks_full_run level_walk_perm unfolding k_label_chunk_block_def by blast

lemma early_out:
  assumes "\<forall>e\<in>set evs. fst e < n" "\<forall>t<n. bc \<le> t \<longrightarrow> positions t evs = []"
  shows "\<forall>e\<in>set evs. fst e < bc"
  using assms positions_set by (metis empty_iff empty_set not_le)

lemma warp_full_run:
  assumes "scheduled_topo level T" "bc \<le> grid * kWarpsPerBlock" "k_label_chunk_warp grid T bc evs"
  shows "full_run level T bc evs"
proof (rule walks_full_run [OF assms(1)])
  show "\<forall>e\<in>set evs. fst e < bc"
    using early_out [of evs "grid * kWarpsPerBlock" bc] assms(3) unfolding k_label_chunk_warp_def by meson
  show "\<forall>t<bc. perm_walk T (positions t evs)"
  proof (intro allI impI)
    fix t assume t: "t < bc"
    then have "level_walk kWarpSize T (positions t evs)"
      using assms(2,3) unfolding k_label_chunk_warp_def by (meson less_le_trans not_le)
    then show "perm_walk T (positions t evs)" by (rule level_walk_perm [rotated]) (simp add: kWarpSize_def)
  qed
qed

lemma concat_upt_starts:
  "(\<And>l. l < k \<Longrightarrow> (f :: nat \<Rightarrow> nat) l \<le> f (l + 1)) \<Longrightarrow>
    concat (map (\<lambda>lv. map (\<lambda>i. f lv + i) [0..<f (lv + 1) - f lv]) [0..<k]) = [f 0..<f k] \<and> f 0 \<le> f k"
proof (induction k)
  case (Suc k)
  have le: "f k \<le> f (Suc k)" using Suc.prems [of k] by simp
  have IH: "concat (map (\<lambda>lv. map (\<lambda>i. f lv + i) [0..<f (lv + 1) - f lv]) [0..<k]) = [f 0..<f k]" "f 0 \<le> f k"
    using Suc by auto
  have "map (\<lambda>i. f k + i) [0..<f (k + 1) - f k] = [f k..<f (Suc k)]"
    using le by (simp add: map_add_upt add.commute)
  then show ?case using IH le by (simp add: upt_join)
qed simp

lemma lanes_upt: "0 < threads \<Longrightarrow> lanes threads n [0..<n]"
  by (auto simp: lanes_def strided_filter)

text \<open>The positions in order are a walk of any number of threads.\<close>

lemma sequence_level_walk:
  assumes "scheduled_topo level T" "0 < threads"
  shows "level_walk threads T [0..<unat (t_count T)]"
proof -
  define f where "f l = d_level_start T ! l" for l
  have so: "sorted_ids level (t_num_levels T) (d_level_start T) (d_order T)" using assms(1) by (simp add: scheduled_topo_def)
  have "f 0 = 0" "f (t_num_levels T) = unat (t_count T)"
    using so assms(1) by (simp_all add: sorted_ids_def f_def scheduled_topo_def)
  then have "[0..<unat (t_count T)] = concat (map (\<lambda>lv. map (\<lambda>i. f lv + i) [0..<f (lv + 1) - f lv]) [0..<t_num_levels T])"
    using concat_upt_starts [of "t_num_levels T" f] so by (simp add: sorted_ids_def f_def)
  also have "\<dots> = concat (map (\<lambda>lv. map (\<lambda>i. f lv + i) (map (\<lambda>lv. [0..<f (lv + 1) - f lv]) [0..<t_num_levels T] ! lv)) [0..<t_num_levels T])"
    by (intro arg_cong [where f = concat] map_cong refl) simp
  finally show ?thesis
    unfolding level_walk_def f_def using lanes_upt [OF assms(2)]
    by (intro exI [of _ "map (\<lambda>lv. [0..<d_level_start T ! (lv + 1) - d_level_start T ! lv]) [0..<t_num_levels T]"]) simp
qed

lemma sequence_walk: "scheduled_topo level T \<Longrightarrow> perm_walk T [0..<unat (t_count T)]"
  using level_walk_perm sequence_level_walk zero_less_one by blast

lemma thread_full_run:
  assumes "scheduled_topo level T" "bc \<le> grid * block" "k_label_chunk_thread grid block T bc evs"
  shows "full_run level T bc evs"
proof (rule walks_full_run [OF assms(1)])
  show "\<forall>e\<in>set evs. fst e < bc"
    using early_out [of evs "grid * block" bc] assms(3) unfolding k_label_chunk_thread_def by auto
  show "\<forall>t<bc. perm_walk T (positions t evs)"
    using sequence_walk [OF assms(1)] assms(2,3) unfolding k_label_chunk_thread_def by auto
qed

text \<open>The level strategy: a wave is a walk of every region.\<close>

lemma wave_positions:
  assumes "distinct ts" "set ts = {..<n * w}" "j < w"
  shows "\<exists>qs. positions j (wave_events s n ts) = map (\<lambda>i. s + i) qs \<and> distinct qs \<and> set qs = {..<n}"
proof -
  let ?qs = "map (\<lambda>t. t mod n) (filter (\<lambda>t. t div n = j) ts)"
  have "positions j (wave_events s n ts) = map (\<lambda>i. s + i) ?qs"
    by (simp add: positions_def wave_events_def filter_map comp_def)
  moreover have "inj_on (\<lambda>t. t mod n) {t. t div n = j}" by (rule inj_onI) (metis (mono_tags, lifting) mem_Collect_eq mult_div_mod_eq)
  then have "distinct ?qs" using assms(1) by (auto simp: distinct_map intro: inj_on_subset)
  moreover have "set ?qs = {..<n}"
  proof (intro equalityI subsetI)
    fix q assume "q \<in> set ?qs"
    then obtain t where t: "q = t mod n" "t \<in> {..<n * w}" using assms(2) by auto
    then have "0 < n" by (cases n) simp_all
    then show "q \<in> {..<n}" using t(1) by simp
  next
    fix q assume q: "q \<in> {..<n}"
    have "(j + 1) * n \<le> w * n" using assms(3) by (intro mult_le_mono1) simp
    then have "j * n + q < n * w" using q by (simp add: algebra_simps)
    moreover have "(j * n + q) div n = j" "(j * n + q) mod n = q" using q by simp_all
    ultimately show "q \<in> set ?qs" using assms(2) by (force simp: image_iff)
  qed
  ultimately show ?thesis by blast
qed

lemma waves_full_run:
  assumes "scheduled_topo level T" "length evss = t_num_levels T"
    and "\<And>lv. lv < t_num_levels T \<Longrightarrow> \<exists>ts. distinct ts \<and> set ts = {..<(d_level_start T ! (lv + 1) - d_level_start T ! lv) * w}
          \<and> evss ! lv = wave_events (d_level_start T ! lv) (d_level_start T ! (lv + 1) - d_level_start T ! lv) ts"
  shows "full_run level T w (concat evss)"
proof (rule walks_full_run [OF assms(1)])
  let ?n = "\<lambda>lv. d_level_start T ! (lv + 1) - d_level_start T ! lv"
  show "\<forall>e\<in>set (concat evss). fst e < w"
  proof
    fix e assume "e \<in> set (concat evss)"
    then obtain es where "es \<in> set evss" "e \<in> set es" by auto
    then obtain lv where lv: "lv < t_num_levels T" "e \<in> set (evss ! lv)" using assms(2) by (metis in_set_conv_nth)
    then obtain t where "t < ?n lv * w" "fst e = t div ?n lv" using assms(3) [OF lv(1)] by (auto simp: wave_events_def)
    then show "fst e < w" by (simp add: less_mult_imp_div_less mult.commute)
  qed
  show "\<forall>j<w. perm_walk T (positions j (concat evss))"
  proof (intro allI impI)
    fix j assume j: "j < w"
    have "\<exists>qs. positions j (evss ! lv) = map (\<lambda>i. d_level_start T ! lv + i) qs \<and> distinct qs \<and> set qs = {..<?n lv}"
      if "lv < t_num_levels T" for lv
      using assms(3) [OF that] wave_positions [OF _ _ j] by metis
    then obtain qs where qs: "\<And>lv. lv < t_num_levels T \<Longrightarrow> positions j (evss ! lv) = map (\<lambda>i. d_level_start T ! lv + i) (qs lv)
        \<and> distinct (qs lv) \<and> set (qs lv) = {..<?n lv}" by metis
    have "positions j (concat evss) = concat (map (positions j) evss)"
      by (simp add: positions_def [abs_def] filter_concat map_concat comp_def)
    also have "map (positions j) evss = map (\<lambda>lv. map (\<lambda>i. d_level_start T ! lv + i) (map qs [0..<t_num_levels T] ! lv)) [0..<t_num_levels T]"
      using assms(2) qs by (intro nth_equalityI) simp_all
    finally show "perm_walk T (positions j (concat evss))"
      unfolding perm_walk_def using qs by (intro exI [of _ "map qs [0..<t_num_levels T]"]) simp
  qed
qed

lemma all_levels_full_run:
  assumes "scheduled_topo level T" "0 < threads" "k_label_all_levels threads T w evs"
  shows "full_run level T w evs"
  using assms(3) waves_full_run [OF assms(1)] lanes_perm [OF _ disjI1 [OF assms(2)]]
  unfolding k_label_all_levels_def by (metis (no_types, lifting))

lemma level_launches_full_run:
  assumes "scheduled_topo level T" "0 < block" "level_launches block T w evs"
  shows "full_run level T w evs"
proof -
  let ?n = "\<lambda>lv. d_level_start T ! (lv + 1) - d_level_start T ! lv"
  obtain evss where e: "length evss = t_num_levels T" "evs = concat evss"
    "\<forall>lv<t_num_levels T. if t_level_count T ! lv = 0 then evss ! lv = []
          else k_label_level ((t_level_count T ! lv * w + block - 1) div block) block (t_level_start T ! lv)
                 (t_level_count T ! lv) w (evss ! lv)"
    using assms(3) unfolding level_launches_def by blast
  have "\<exists>ts. distinct ts \<and> set ts = {..<?n lv * w} \<and> evss ! lv = wave_events (d_level_start T ! lv) (?n lv) ts"
    if lv: "lv < t_num_levels T" for lv
  proof -
    have c: "t_level_count T ! lv = ?n lv" "t_level_start T ! lv = d_level_start T ! lv"
      using assms(1) lv by (simp_all add: scheduled_topo_def)
    show ?thesis
    proof (cases "?n lv = 0")
      case True
      then show ?thesis using e(3) lv c by (intro exI [of _ "[]"]) (simp add: wave_events_def)
    next
      case False
      have "x \<le> (x + block - 1) div block * block" for x
        using assms(2) div_mult_mod_eq [of "x + block - 1" block] mod_less_divisor [OF assms(2), of "x + block - 1"] by linarith
      from this [of "?n lv * w"]
      have "{t. t < (?n lv * w + block - 1) div block * block \<and> \<not> t \<ge> ?n lv * w} = {..<?n lv * w}" by auto
      then show ?thesis using e(3) lv c False unfolding k_label_level_def by auto
    qed
  qed
  from waves_full_run [OF assms(1) e(1) this] show ?thesis unfolding e(2) .
qed

end
