(* ===== verification/Gpu_Kernels.thy ===== *)
theory Gpu_Kernels
  imports Gpu_Schedule
begin

section \<open>The labeling kernels on device memory\<close>

text \<open>
  The body of the kernels: the label of one node, from its predecessors' slots of the region's scratch into
  its own slot, and for the strategies that recycle slots the copy of an output label to the persisted
  buffer. The theorems: whatever the order of a run, each region computes the labels of its graph,
  because a slot is not reused before its last reader; all accesses are inside the buffers.
\<close>

subsection \<open>The code\<close>

record device =
  dv_work :: bytes
  dv_persist :: bytes

text \<open>
  The body of the node loop up to the label: region \<open>t\<close> starts at \<open>t * stride\<close>, \<open>slot\<close> maps a node to
  its cell in the region (the identity in the level strategy). \<open>al t id\<close> says which of the pointers of the
  node are 16-byte aligned.
\<close>

definition node_step ::
  "(nat \<Rightarrow> nat \<Rightarrow> nat \<Rightarrow> bool) \<Rightarrow> topo \<Rightarrow> bytes \<Rightarrow> nat \<Rightarrow> (nat \<Rightarrow> nat option) \<Rightarrow> nat \<Rightarrow> nat \<Rightarrow> bytes \<Rightarrow> bytes option" where
  "node_step al T seeds stride slot t x work = do {
     np \<leftarrow> ld (d_np T) x;
     p0 \<leftarrow> (if np \<ge> 1 then do { p \<leftarrow> ld (d_p0 T) x; c \<leftarrow> slot p; l \<leftarrow> rd work (t * stride + c * 32) 32; Some (Some l) }
           else Some None);
     p1 \<leftarrow> (if np \<ge> 2 then do { p \<leftarrow> ld (d_p1 T) x; c \<leftarrow> slot p; l \<leftarrow> rd work (t * stride + c * 32) 32; Some (Some l) }
           else Some None);
     seed \<leftarrow> rd seeds (t * 32) 32;
     c \<leftarrow> slot x;
     wr work (t * stride + c * 32)
       (gpu_label_node (al t x) (if np = 0 then d_ksrc T else d_kint T) (of_nat x) p0 p1 seed (d_desc T)) }"

text \<open>One iteration of \<open>k_label_level\<close> and \<open>k_label_all_levels\<close>.\<close>

definition level_event :: "(nat \<Rightarrow> nat \<Rightarrow> nat \<Rightarrow> bool) \<Rightarrow> topo \<Rightarrow> bytes \<Rightarrow> nat \<times> nat \<Rightarrow> device \<Rightarrow> device option" where
  "level_event al T seeds e d = do {
     x \<leftarrow> ldi (d_order T) (snd e);
     w \<leftarrow> node_step al T seeds (unat (t_count T) * 32) Some (fst e) x (dv_work d);
     Some (d\<lparr>dv_work := w\<rparr>) }"

text \<open>One iteration of \<open>k_label_chunk_block\<close>, \<open>k_label_chunk_thread\<close> and \<open>k_label_chunk_warp\<close>.\<close>

definition chunk_event ::
  "(nat \<Rightarrow> nat \<Rightarrow> nat \<Rightarrow> bool) \<Rightarrow> topo \<Rightarrow> nat list \<Rightarrow> int list \<Rightarrow> nat \<Rightarrow> bytes \<Rightarrow> nat \<times> nat \<Rightarrow> device \<Rightarrow> device option" where
  "chunk_event al T slot rank batch_base seeds e d = do {
     x \<leftarrow> ldi (d_order T) (snd e);
     w \<leftarrow> node_step al T seeds (t_pool_size T * 32) (ld slot) (fst e) x (dv_work d);
     r \<leftarrow> ld rank x;
     p \<leftarrow> (if r \<ge> 0 then do {
             c \<leftarrow> ld slot x;
             l \<leftarrow> rd w (fst e * (t_pool_size T * 32) + c * 32) 32;
             wr (dv_persist d) ((batch_base + fst e) * unat (t_super_bytes T) + nat r * 32) (copy_label (al (fst e) x 5) l) }
           else Some (dv_persist d));
     Some \<lparr>dv_work = w, dv_persist = p\<rparr> }"

text \<open>\<open>k_extract_outputs\<close>: thread \<open>t\<close> copies the label of rank \<open>t mod cb\<close> of scaffold \<open>t div cb\<close>.\<close>

definition extract_event :: "topo \<Rightarrow> nat \<Rightarrow> nat \<Rightarrow> device \<Rightarrow> device option" where
  "extract_event T wave_base t d =
     (let cb = unat (t_chunk_blocks T); rank = t mod cb; w = t div cb
      in do {
        x \<leftarrow> ldi (d_out_id T) rank;
        l \<leftarrow> rd (dv_work d) (w * (unat (t_count T) * 32) + x * 32) 32;
        p \<leftarrow> wr (dv_persist d) ((wave_base + w) * unat (t_super_bytes T) + rank * 32) l;
        Some (d\<lparr>dv_persist := p\<rparr>) })"

definition k_extract_outputs :: "nat \<Rightarrow> nat \<Rightarrow> nat \<Rightarrow> nat \<Rightarrow> nat list \<Rightarrow> bool" where
  "k_extract_outputs grid block w_count cb ts \<longleftrightarrow> distinct ts \<and> set ts = {t. t < grid * block \<and> \<not> t \<ge> cb * w_count}"

fun run_events :: "('e \<Rightarrow> 's \<Rightarrow> 's option) \<Rightarrow> 'e list \<Rightarrow> 's \<Rightarrow> 's option" where
  "run_events step [] s = Some s"
| "run_events step (e # es) s = do { s' \<leftarrow> step e s; run_events step es s' }"

subsection \<open>The label of a node\<close>

lemma update_blocks_shape:
  assumes "platform_ok P" "length (cs_cv s) = 8" "length (cs_buf s) = 64"
  shows "length (cs_cv (fst (chunk_update_blocks P s input))) = 8 \<and> length (cs_buf (fst (chunk_update_blocks P s input))) = 64
    \<and> cs_buf_len (fst (chunk_update_blocks P s input)) = cs_buf_len s \<and> length (snd (chunk_update_blocks P s input)) \<le> 64"
  using assms
proof (induction P s input rule: chunk_update_blocks.induct)
  case (1 P s input)
  show ?case
  proof (cases "length input > BLAKE3_BLOCK_LEN")
    case True
    have "length (cs_cv (compress_buffered P s (take BLAKE3_BLOCK_LEN input))) = 8"
      using True "1.prems" by (simp add: compress_buffered_def dispatch_compress_in_place BLAKE3_BLOCK_LEN_def)
    then show ?thesis using True "1.IH" [OF True] "1.prems" by (subst (1 2 3 4) chunk_update_blocks.simps) (simp add: compress_buffered_def)
  qed (use "1.prems" in \<open>simp add: chunk_update_blocks.simps BLAKE3_BLOCK_LEN_def\<close>)
qed

lemma length_chunk_hash:
  assumes "platform_ok P" "length key = 8"
  shows "length (chunk_hash P key fl msg) = 32"
proof -
  obtain s rest where u: "chunk_update_blocks P (chunk_state_init key fl) msg = (s, rest)" by fastforce
  have sh: "length (cs_cv s) = 8" "length (cs_buf s) = 64" "cs_buf_len s = 0" "length rest \<le> 64"
    using update_blocks_shape [OF assms(1), of "chunk_state_init key fl" msg] assms(2) u
    by (simp_all add: chunk_state_init_def BLAKE3_BLOCK_LEN_def)
  have "chunk_state_update P (chunk_state_init key fl) msg = fst (chunk_state_fill_buf s rest)"
    using u by (simp add: chunk_state_update_def chunk_state_init_def)
  then show ?thesis
    using sh assms(1) by (simp add: chunk_hash_def chunk_state_fill_buf_def chunk_state_output_def output_root_bytes_def Let_def
        BLAKE3_OUT_LEN_def BLAKE3_BLOCK_LEN_def dispatch_compress_xof)
qed

lemma length_derive_key [simp]: "length (derive_key P c) = 8"
  by (simp add: derive_key_def blake3_hasher_init_derive_key_def blake3_hasher_init_derive_key_raw_def
      hasher_init_base_def load_key_words_def Let_def)

lemma length_descriptor: "hw_ok h \<Longrightarrow> length (pose_graph_descriptor (hw_b3 h) m n) = 32"
  by (simp add: graph_descriptor_hash hw_ok_def length_chunk_hash)

lemma length_chunk_seed:
  "hw_ok h \<Longrightarrow> length seed + 8 \<le> BLAKE3_CHUNK_LEN \<Longrightarrow> length (chunk_seed (pose_labeler h) seed k) = 32"
  by (simp add: pose_labeler_def chunk_seed_hash hw_ok_def length_chunk_hash)

lemma edges_spec_node:
  assumes "edges_spec n m N" "n \<le> 19" "i < length N" "m \<le> 2 ^ (n + 1)" "2 ^ n \<le> m"
  shows "num_preds (N ! i) = length (pred_ids (N ! i))" "num_preds (N ! i) \<le> 2"
proof -
  have nd: "num_preds (node_of p) \<le> 2" for p by (auto simp: node_of_def blank_node_def split: list.split)
  have "\<exists>p r. N ! i = node_of p \<or> N ! i = (node_of p)\<lparr>challenge_rank := r\<rparr>"
  proof (cases "i \<in> set (challenge_nodes n m)")
    case True
    then obtain r where "r < m" "challenge_nodes n m ! r = i"
      using length_challenge_nodes [of n m] assms(4,5) by (auto simp: in_set_conv_nth)
    then show ?thesis using assms(1) unfolding edges_spec_def by metis
  next
    case False
    then show ?thesis using assms(1,3) unfolding edges_spec_def by metis
  qed
  then show "num_preds (N ! i) \<le> 2" using nd by auto
  then show "num_preds (N ! i) = length (pred_ids (N ! i))" by (simp add: pred_ids_def)
qed

text \<open>What the kernels read of a node.\<close>

lemma topo_node_fields:
  assumes "topo_for S h cb N level T" "x < length N"
  shows "ld (d_np T) x = Some (length (pred_ids (N ! x)))"
    "1 \<le> length (pred_ids (N ! x)) \<Longrightarrow> ld (d_p0 T) x = Some (pred_ids (N ! x) ! 0)"
    "2 \<le> length (pred_ids (N ! x)) \<Longrightarrow> ld (d_p1 T) x = Some (pred_ids (N ! x) ! 1)"
    "length (pred_ids (N ! x)) \<le> 2" "\<forall>p\<in>set (pred_ids (N ! x)). p < length N \<and> level ! p < level ! x"
proof -
  define n where "n = pose_graph_parameter_n (ucast cb)"
  note t = topo_forD(1-4,9,14-16) [OF assms(1), folded n_def]
  note b = block_count_facts [OF t(1,2)]
  note nr = parameter_n_range [OF b(2,3), folded n_def, unfolded b(4)]
  note nd = edges_spec_node [OF t(3) nr(1) assms(2) nr(3,2)]
  show l2: "length (pred_ids (N ! x)) \<le> 2" using nd by simp
  show "ld (d_np T) x = Some (length (pred_ids (N ! x)))" using nd assms(2) by (simp add: ld_def t(6))
  show pr: "\<forall>p\<in>set (pred_ids (N ! x)). p < length N \<and> level ! p < level ! x" using t(4) assms(2) by (simp add: levels_ok_def)
  have small: "unat (ucast w :: u32) = unat w" if "unat w < length N" for w :: u64
    using that t(5) by (simp add: unsigned_ucast_eq take_bit_nat_eq_self_iff)
  have l: "length (pred_ids (N ! x)) = min (num_preds (N ! x)) 2" by (simp add: pred_ids_def)
  show "ld (d_p0 T) x = Some (pred_ids (N ! x) ! 0)" if "1 \<le> length (pred_ids (N ! x))"
  proof -
    have "pred_ids (N ! x) ! 0 = unat (pred0 (N ! x))" using that l by (simp add: pred_ids_def)
    moreover have "pred_ids (N ! x) ! 0 \<in> set (pred_ids (N ! x))" using that by (intro nth_mem) linarith
    then have "pred_ids (N ! x) ! 0 < length N" using pr by blast
    ultimately show ?thesis using small [of "pred0 (N ! x)"] assms(2) by (simp add: ld_def t(7))
  qed
  show "ld (d_p1 T) x = Some (pred_ids (N ! x) ! 1)" if "2 \<le> length (pred_ids (N ! x))"
  proof -
    have "pred_ids (N ! x) ! 1 = unat (pred1 (N ! x))" using that l by (simp add: pred_ids_def nth_Cons')
    moreover have "pred_ids (N ! x) ! 1 \<in> set (pred_ids (N ! x))" using that by (intro nth_mem) linarith
    then have "pred_ids (N ! x) ! 1 < length N" using pr by blast
    ultimately show ?thesis using small [of "pred1 (N ! x)"] assms(2) by (simp add: ld_def t(8))
  qed
qed

text \<open>The device computes \<open>node_label\<close> of the CPU's labeler.\<close>

lemma gpu_node_label:
  assumes "hw_ok h" "length ps \<le> 2" "\<forall>p\<in>set ps. length p = 32" "length seed = 32" "length desc = 32"
  shows "gpu_label_node al (if length ps = 0 then label_key (hw_b3 h) True else label_key (hw_b3 h) False) (of_nat x)
      (if length ps \<ge> 1 then Some (ps ! 0) else None) (if length ps \<ge> 2 then Some (ps ! 1) else None) seed desc
    = node_label (pose_labeler h) seed desc POSE_HASH_BLAKE3 x ps"
proof -
  have g: "gpu_label_node al (if src then label_key (hw_b3 h) True else label_key (hw_b3 h) False) i
      (if src then None else p0) (if src then None else p1) seed desc = label_node (pose_labeler h) src i p0 p1 seed desc POSE_HASH_BLAKE3"
    if "\<And>q. p0 = Some q \<Longrightarrow> length q = 32" "\<And>q. p1 = Some q \<Longrightarrow> length q = 32" for src i p0 p1
    using k_label_single_ref [OF that assms(4,5)] pose_labeler_node [OF assms(1)] by (simp add: k_label_single_def)
  consider "ps = []" | a where "ps = [a]" | a b where "ps = [a, b]"
    using assms(2) by (cases ps; cases "tl ps"; cases "tl (tl ps)") auto
  then show ?thesis
  proof cases
    case 1
    then show ?thesis using g [of None None True] by (simp add: node_label_def)
  next
    case (2 a)
    then show ?thesis using g [of "Some a" None False] assms(3) by (simp add: node_label_def)
  next
    case (3 a b)
    then show ?thesis using g [of "Some a" "Some b" False] assms(3) by (simp add: node_label_def)
  qed
qed

text \<open>The labels of region \<open>t\<close> under its seed.\<close>

definition region_labels :: "hw \<Rightarrow> u32 \<Rightarrow> bytes \<Rightarrow> label list" where
  "region_labels h cb seed =
     (let n = pose_graph_parameter_n (ucast cb)
      in labels_of (node_label (pose_labeler h) seed (graph_descriptor (pose_labeler h) (ucast cb) (of_nat n)) POSE_HASH_BLAKE3)
           (graph_nodes n))"

lemma region_labels_edges:
  assumes "topo_for S h cb N level T"
  shows "labels_edges (pose_labeler h) seed (d_desc T) POSE_HASH_BLAKE3 N (region_labels h cb seed)"
proof -
  define n where "n = pose_graph_parameter_n (ucast cb)"
  note t = topo_forD(1-3,19) [OF assms, folded n_def]
  note b = block_count_facts [OF t(1,2)]
  note nr = parameter_n_range [OF b(2,3), folded n_def, unfolded b(4)]
  show ?thesis
    using edges_spec_labels [OF t(3) nr(1,3,2)] unfolding region_labels_def Let_def n_def [symmetric] t(4) .
qed

text \<open>One node, whose predecessors' labels are in their slots.\<close>

lemma node_step_ok:
  assumes "hw_ok h" "topo_for S h cb N level T" "x < length N"
    and "\<forall>p<length N. slotf p = Some (slot p)" "rd seeds (t * 32) 32 = Some seed"
    and "t * stride + slot x * 32 + 32 \<le> length work"
    and "\<forall>p\<in>set (pred_ids (N ! x)). rd work (t * stride + slot p * 32) 32 = Some (region_labels h cb seed ! p)"
  shows "\<exists>w. node_step al T seeds stride slotf t x work = Some w
    \<and> agree_off (cells_of (t * stride + slot x * 32) 32) work w
    \<and> rd w (t * stride + slot x * 32) 32 = Some (region_labels h cb seed ! x)"
proof -
  let ?L = "region_labels h cb seed" and ?ps = "pred_ids (N ! x)"
  note f = topo_node_fields [OF assms(2,3)]
  have le: "labels_edges (pose_labeler h) seed (d_desc T) POSE_HASH_BLAKE3 N ?L" by (rule region_labels_edges [OF assms(2)])
  note k = topo_forD(20,21) [OF assms(2)]
  have ds: "length (d_desc T) = 32" "length seed = 32"
    using topo_forD(19) [OF assms(2)] rd_length [OF assms(5)] length_descriptor [OF assms(1)] by (simp_all add: pose_labeler_def)
  have p0: "(if length ?ps \<ge> 1 then do { p \<leftarrow> ld (d_p0 T) x; c \<leftarrow> slotf p; l \<leftarrow> rd work (t * stride + c * 32) 32; Some (Some l) } else Some None)
      = Some (if length ?ps \<ge> 1 then Some (map ((!) ?L) ?ps ! 0) else None)"
  proof (cases "length ?ps \<ge> 1")
    case True
    then have "?ps ! 0 \<in> set ?ps" "map ((!) ?L) ?ps ! 0 = ?L ! (?ps ! 0)" by (intro nth_mem, linarith, intro nth_map, linarith)
    then show ?thesis using True f(2) [OF True] f(5) assms(4,7) by simp
  qed simp
  have p1: "(if length ?ps \<ge> 2 then do { p \<leftarrow> ld (d_p1 T) x; c \<leftarrow> slotf p; l \<leftarrow> rd work (t * stride + c * 32) 32; Some (Some l) } else Some None)
      = Some (if length ?ps \<ge> 2 then Some (map ((!) ?L) ?ps ! 1) else None)"
  proof (cases "length ?ps \<ge> 2")
    case True
    then have "?ps ! 1 \<in> set ?ps" "map ((!) ?L) ?ps ! 1 = ?L ! (?ps ! 1)" by (intro nth_mem, linarith, intro nth_map, linarith)
    then show ?thesis using True f(3) [OF True] f(5) assms(4,7) by simp
  qed simp
  have l32: "\<forall>l\<in>set (map ((!) ?L) ?ps). length l = 32" using assms(7) rd_length by fastforce
  let ?l = "gpu_label_node (al t x) (if length ?ps = 0 then d_ksrc T else d_kint T) (of_nat x)
      (if length ?ps \<ge> 1 then Some (map ((!) ?L) ?ps ! 0) else None) (if length ?ps \<ge> 2 then Some (map ((!) ?L) ?ps ! 1) else None) seed (d_desc T)"
  have "?l = node_label (pose_labeler h) seed (d_desc T) POSE_HASH_BLAKE3 x (map ((!) ?L) ?ps)"
    using gpu_node_label [OF assms(1) _ l32 ds(2,1)] f(4) unfolding k by simp
  then have lab: "?l = ?L ! x" using le assms(3) by (simp add: labels_edges_def)
  have "length ?l = 32" by (simp add: gpu_label_node_def Let_def)
  then have w: "t * stride + slot x * 32 + length ?l \<le> length work" "length ?l = 32" using assms(6) by simp_all
  obtain w where w': "wr work (t * stride + slot x * 32) ?l = Some w" using wr_ok [OF w(1)] by blast
  have "node_step al T seeds stride slotf t x work = Some w"
    using w' assms(3,4,5) unfolding node_step_def f(1) bind.bind_lunit p0 p1 by simp
  then show ?thesis using wr_agree [OF w'] rd_wr [OF w'] w(2) lab by simp
qed

subsection \<open>Recycled scratch\<close>

text \<open>
  A slot of 32 bytes for every node inside a region of \<open>stride\<close> bytes, no slot given to another node before
  the last level that reads it.
\<close>

definition plan_ok :: "pose_node list \<Rightarrow> nat list \<Rightarrow> nat list \<Rightarrow> (nat \<Rightarrow> nat) \<Rightarrow> nat \<Rightarrow> bool" where
  "plan_ok N level last_use slot stride \<longleftrightarrow> uses_ok N level last_use \<and> (\<forall>x<length N. slot x * 32 + 32 \<le> stride)
     \<and> apart_while_live level last_use slot"

text \<open>
  Region \<open>t\<close> after the nodes \<open>xs\<close> have been labelled: a label is in its slot unless a node above its last use
  has been labelled since.
\<close>

definition region_inv :: "nat list \<Rightarrow> nat list \<Rightarrow> (nat \<Rightarrow> nat) \<Rightarrow> nat \<Rightarrow> label list \<Rightarrow> nat list \<Rightarrow> nat \<Rightarrow> bytes \<Rightarrow> bool" where
  "region_inv level last_use slot stride L xs t work \<longleftrightarrow>
     (\<forall>p\<in>set xs. (\<forall>k\<in>set xs. level ! k \<le> last_use ! p) \<longrightarrow> rd work (t * stride + slot p * 32) 32 = Some (L ! p))"

text \<open>The nodes region \<open>t\<close> has labelled.\<close>

abbreviation done_ids :: "topo \<Rightarrow> (nat \<times> nat) list \<Rightarrow> nat \<Rightarrow> nat list" where
  "done_ids T evs t \<equiv> ids_at_positions T (positions t evs)"

lemma done_ids_snoc:
  "done_ids T (evs @ [e]) t = done_ids T evs t @ (if fst e = t then [the (d_order T ! snd e)] else [])"
  by (simp add: ids_at_positions_def positions_def)

lemma done_ids_append: "done_ids T (evs @ evs') t = done_ids T evs t @ done_ids T evs' t"
  by (simp add: ids_at_positions_def positions_def)

lemma cells_apart:
  assumes "p * 32 + 32 \<le> stride" "q * 32 + 32 \<le> stride" "t \<noteq> t' \<or> p \<noteq> q"
  shows "cells_of (t * stride + p * 32) 32 \<inter> cells_of (t' * stride + q * 32) 32 = {}"
proof (cases "t = t'")
  case True
  then have "p < q \<or> q < p" using assms(3) by auto
  then show ?thesis using True by auto
next
  case False
  then consider "t + 1 \<le> t'" | "t' + 1 \<le> t" by linarith
  then show ?thesis
  proof cases
    case 1
    then have "t * stride + stride \<le> t' * stride" by (metis add.commute mult_Suc mult_le_mono1 Suc_eq_plus1)
    then show ?thesis using assms(1) by auto
  next
    case 2
    then have "t' * stride + stride \<le> t * stride" by (metis add.commute mult_Suc mult_le_mono1 Suc_eq_plus1)
    then show ?thesis using assms(2) by auto
  qed
qed

lemma region_room: "t < bc \<Longrightarrow> c \<le> stride \<Longrightarrow> bc * stride \<le> n \<Longrightarrow> t * stride + c \<le> n" for t :: nat
proof -
  assume a: "t < bc" "c \<le> stride" "bc * stride \<le> n"
  then have "(t + 1) * stride \<le> bc * stride" by (intro mult_le_mono1) simp
  then show ?thesis using a by simp
qed

text \<open>What every run of a kernel is given.\<close>

definition run_setting ::
  "strategy \<Rightarrow> hw \<Rightarrow> u32 \<Rightarrow> pose_node list \<Rightarrow> nat list \<Rightarrow> topo \<Rightarrow> nat list \<Rightarrow> (nat \<Rightarrow> nat) \<Rightarrow> nat \<Rightarrow> bytes \<Rightarrow> (nat \<Rightarrow> bytes) \<Rightarrow> nat \<Rightarrow> bool" where
  "run_setting S h cb N level T last_use slot stride seeds sd bc \<longleftrightarrow> hw_ok h \<and> topo_for S h cb N level T
     \<and> plan_ok N level last_use slot stride \<and> (\<forall>t<bc. rd seeds (t * 32) 32 = Some (sd t))"

definition regions_inv ::
  "hw \<Rightarrow> u32 \<Rightarrow> nat list \<Rightarrow> topo \<Rightarrow> nat list \<Rightarrow> (nat \<Rightarrow> nat) \<Rightarrow> nat \<Rightarrow> (nat \<Rightarrow> bytes) \<Rightarrow> nat \<Rightarrow> (nat \<times> nat) list \<Rightarrow> bytes \<Rightarrow> bool" where
  "regions_inv h cb level T last_use slot stride sd bc evs work \<longleftrightarrow> bc * stride \<le> length work
     \<and> (\<forall>t<bc. region_inv level last_use slot stride (region_labels h cb (sd t)) (done_ids T evs t) t work)"

lemma level_sorted_split:
  assumes "level_sorted level (xs @ x # ys)"
  shows "x < length level" "x \<notin> set xs" "\<forall>k\<in>set xs. level ! k \<le> level ! x"
    "p < length level \<Longrightarrow> level ! p < level ! x \<Longrightarrow> p \<in> set xs"
proof -
  have l: "distinct (xs @ x # ys)" "set (xs @ x # ys) = {..<length level}" "sorted (map ((!) level) (xs @ x # ys))"
    using assms by (simp_all add: level_sorted_def)
  show "x < length level" using l(2) by auto
  show "x \<notin> set xs" using l(1) by simp
  show "\<forall>k\<in>set xs. level ! k \<le> level ! x" using l(3) by (simp add: sorted_append)
  show "p \<in> set xs" if "p < length level" "level ! p < level ! x"
  proof -
    have "p \<in> set (xs @ x # ys)" using l(2) that(1) by simp
    moreover have "\<forall>k\<in>set ys. level ! x \<le> level ! k" using l(3) by (simp add: sorted_append)
    ultimately show ?thesis using that(2) by (auto simp: not_less [symmetric])
  qed
qed

lemma event_step:
  assumes set: "run_setting S h cb N level T lu slot stride seeds sd bc" and slotf: "\<forall>p<length N. slotf p = Some (slot p)"
    and full: "full_run level T bc (evs @ e # rest)" and inv: "regions_inv h cb level T lu slot stride sd bc evs work"
  shows "\<exists>x w. ldi (d_order T) (snd e) = Some x \<and> x < length N \<and> x = the (d_order T ! snd e) \<and> x \<notin> set (done_ids T evs (fst e))
    \<and> node_step al T seeds stride slotf (fst e) x work = Some w \<and> length w = length work
    \<and> rd w (fst e * stride + slot x * 32) 32 = Some (region_labels h cb (sd (fst e)) ! x)
    \<and> regions_inv h cb level T lu slot stride sd bc (evs @ [e]) w"
proof -
  have s: "hw_ok h" "topo_for S h cb N level T" "plan_ok N level lu slot stride" "\<forall>t<bc. rd seeds (t * 32) 32 = Some (sd t)"
    using set by (simp_all add: run_setting_def)
  have pl: "uses_ok N level lu" "\<forall>x<length N. slot x * 32 + 32 \<le> stride" "apart_while_live level lu slot"
    using s(3) by (simp_all add: plan_ok_def)
  note so = topo_forD(10) [OF s(2)] and lv = topo_forD(4) [OF s(2)]
  have ll: "length level = length N" using lv by (simp add: levels_ok_def)
  let ?t = "fst e" and ?x = "the (d_order T ! snd e)"
  have e: "?t < bc" "snd e < length level" using full by (auto simp: full_run_def)
  have "length (d_order T) = length level \<and> d_order T ! snd e \<noteq> None" using so e(2) unfolding sorted_ids_def by blast
  then have ord: "ldi (d_order T) (snd e) = Some ?x" using e(2) by auto
  have "level_sorted level (done_ids T (evs @ e # rest) ?t)" using full e(1) by (simp add: full_run_def)
  then have ls: "level_sorted level (done_ids T evs ?t @ ?x # done_ids T rest ?t)"
    using done_ids_append [of T ?t evs "e # rest"] done_ids_append [of T ?t "[e]" rest]
    by (simp add: ids_at_positions_def positions_def)
  note sp = level_sorted_split [OF ls]
  have x: "?x < length N" using sp(1) ll by simp
  have room: "bc * stride \<le> length work" and ri: "\<forall>t<bc. region_inv level lu slot stride (region_labels h cb (sd t)) (done_ids T evs t) t work"
    using inv by (simp_all add: regions_inv_def)
  have preds: "\<forall>p\<in>set (pred_ids (N ! ?x)). rd work (?t * stride + slot p * 32) 32 = Some (region_labels h cb (sd ?t) ! p)"
  proof
    fix p assume p: "p \<in> set (pred_ids (N ! ?x))"
    then have "p < length N" "level ! p < level ! ?x" "level ! ?x \<le> lu ! p"
      using lv pl(1) x by (auto simp: levels_ok_def uses_ok_def)
    then have "p \<in> set (done_ids T evs ?t)" "\<forall>k\<in>set (done_ids T evs ?t). level ! k \<le> lu ! p"
      using sp(3,4) ll by (auto intro: le_trans)
    then show "rd work (?t * stride + slot p * 32) 32 = Some (region_labels h cb (sd ?t) ! p)"
      using ri e(1) by (simp add: region_inv_def)
  qed
  have cell: "?t * stride + (slot ?x * 32 + 32) \<le> length work"
    by (rule region_room [OF e(1) _ room]) (use pl(2) x in blast)
  from node_step_ok [OF s(1,2) x slotf, of seeds ?t "sd ?t" stride work al] s(4) e(1) cell preds
  obtain w where w: "node_step al T seeds stride slotf ?t ?x work = Some w"
    "agree_off (cells_of (?t * stride + slot ?x * 32) 32) work w"
    "rd w (?t * stride + slot ?x * 32) 32 = Some (region_labels h cb (sd ?t) ! ?x)"
    by (auto simp: add.assoc)
  have keep: "rd w (t * stride + slot p * 32) 32 = Some l"
    if "rd work (t * stride + slot p * 32) 32 = Some l" "p < length N" "t \<noteq> ?t \<or> slot p \<noteq> slot ?x" for t p l
    using rd_frame [OF w(2) cells_apart that(1)] pl(2) that(2,3) x by blast
  have "region_inv level lu slot stride (region_labels h cb (sd t)) (done_ids T (evs @ [e]) t) t w" if t: "t < bc" for t
    unfolding region_inv_def
  proof (intro ballI impI)
    fix p assume p: "p \<in> set (done_ids T (evs @ [e]) t)" "\<forall>k\<in>set (done_ids T (evs @ [e]) t). level ! k \<le> lu ! p"
    show "rd w (t * stride + slot p * 32) 32 = Some (region_labels h cb (sd t) ! p)"
    proof (cases "t = ?t \<and> p = ?x")
      case False
      then have d: "p \<in> set (done_ids T evs t)" "\<forall>k\<in>set (done_ids T evs t). level ! k \<le> lu ! p"
        using p unfolding done_ids_snoc by (auto split: if_splits)
      then have old: "rd work (t * stride + slot p * 32) 32 = Some (region_labels h cb (sd t) ! p)"
        using ri t by (simp add: region_inv_def)
      have "set (done_ids T evs t) \<subseteq> {..<length level}"
        using full t done_ids_append [of T t evs "e # rest"] unfolding full_run_def level_sorted_def by (metis Un_upper1 set_append)
      then have pN: "p < length N" using d(1) ll by auto
      have "slot p \<noteq> slot ?x" if "t = ?t"
      proof -
        have "level ! ?x \<le> lu ! p" "level ! p \<le> level ! ?x" "p \<noteq> ?x"
          using p(2) that d(1) sp(3) False unfolding done_ids_snoc by auto
        then show ?thesis using pl(3) pN x ll by (simp add: apart_while_live_def)
      qed
      then show ?thesis using keep [OF old pN] by blast
    qed (use w(3) in simp)
  qed
  then have "regions_inv h cb level T lu slot stride sd bc (evs @ [e]) w"
    using room agree_off_length [OF w(2)] by (simp add: regions_inv_def)
  then show ?thesis using ord x sp(2) w(1,3) agree_off_length [OF w(2)] by auto
qed

subsection \<open>Runs\<close>

lemma run_events_inv:
  assumes "\<And>xs e ys s. full = xs @ e # ys \<Longrightarrow> P xs s \<Longrightarrow> \<exists>s'. step e s = Some s' \<and> P (xs @ [e]) s'"
    and "full = done @ evs @ rest" "P done s"
  shows "\<exists>s'. run_events step evs s = Some s' \<and> P (done @ evs) s'"
  using assms(2,3)
proof (induction evs arbitrary: "done" s)
  case (Cons e evs)
  obtain s1 where "step e s = Some s1" "P (done @ [e]) s1" using assms(1) [of "done" e "evs @ rest"] Cons.prems by auto
  then show ?case using Cons.IH [of "done @ [e]" s1] Cons.prems(1) by simp
qed simp

lemma run_prefix:
  assumes "\<And>xs e ys s. evs @ rest = xs @ e # ys \<Longrightarrow> P xs s \<Longrightarrow> \<exists>s'. step e s = Some s' \<and> P (xs @ [e]) s'" "P [] s"
  shows "\<exists>s'. run_events step evs s = Some s' \<and> P evs s'"
  using run_events_inv [of "evs @ rest" P step "[]" evs rest] assms by simp

lemma regions_inv_start: "bc * stride \<le> length work \<Longrightarrow> regions_inv h cb level T lu slot stride sd bc [] work"
  by (simp add: regions_inv_def region_inv_def ids_at_positions_def positions_def)

text \<open>A node with a challenge rank is the challenge node of that rank.\<close>

lemma rank_node:
  assumes "edges_spec n m N" "m \<le> 2 ^ (n + 1)" "2 ^ n \<le> m" "x < length N" "challenge_rank (N ! x) \<ge> 0"
  shows "nat (challenge_rank (N ! x)) < m" "challenge_nodes n m ! nat (challenge_rank (N ! x)) = x"
proof -
  have "x \<in> set (challenge_nodes n m)"
  proof (rule ccontr)
    assume "x \<notin> set (challenge_nodes n m)"
    then show False using assms(1,4,5) by (simp add: edges_spec_def)
  qed
  then obtain r where r: "r < m" "challenge_nodes n m ! r = x"
    using length_challenge_nodes [of n m] assms(2,3) by (auto simp: in_set_conv_nth)
  then have "challenge_rank (N ! x) = int r" using assms(1) by (auto simp: edges_spec_def)
  then show "nat (challenge_rank (N ! x)) < m" "challenge_nodes n m ! nat (challenge_rank (N ! x)) = x" using r by simp_all
qed

text \<open>The output blocks of \<open>bc\<close> chunks from \<open>base\<close>, each under its seed.\<close>

definition outputs_stored :: "hw \<Rightarrow> u32 \<Rightarrow> (nat \<Rightarrow> bytes) \<Rightarrow> nat \<Rightarrow> nat \<Rightarrow> bytes \<Rightarrow> bool" where
  "outputs_stored h cb sd base bc persist \<longleftrightarrow> (\<forall>t<bc. \<forall>r<unat cb. rd persist ((base + t) * (unat cb * 32) + r * 32) 32
     = Some (output_labels (pose_labeler h) (sd t) (ucast cb) POSE_HASH_BLAKE3 ! r))"

lemma output_label_region:
  assumes "cb \<noteq> 0" "cb \<le> ucast POSE_GRAPH_MAX_M" "r < unat cb"
  shows "output_labels (pose_labeler h) seed (ucast cb) POSE_HASH_BLAKE3 ! r
    = region_labels h cb seed ! (challenge_nodes (pose_graph_parameter_n (ucast cb)) (unat cb) ! r)"
proof -
  note b = block_count_facts [OF assms(1,2)]
  have "length (challenge_nodes (pose_graph_parameter_n (ucast cb)) (unat cb)) = unat cb"
    using length_challenge_nodes [OF parameter_n_le parameter_n_ge, of "ucast cb"] b(2,4) by simp
  then show ?thesis using assms(3) b(4) by (simp add: output_labels_def region_labels_def Let_def)
qed

text \<open>The persisted buffer after the events \<open>evs\<close> of a per-chunk kernel.\<close>

definition persist_inv ::
  "hw \<Rightarrow> u32 \<Rightarrow> pose_node list \<Rightarrow> topo \<Rightarrow> nat \<Rightarrow> (nat \<Rightarrow> bytes) \<Rightarrow> nat \<Rightarrow> (nat \<times> nat) list \<Rightarrow> bytes \<Rightarrow> bool" where
  "persist_inv h cb N T base sd bc evs persist \<longleftrightarrow> (\<forall>t<bc. \<forall>p\<in>set (done_ids T evs t). challenge_rank (N ! p) \<ge> 0 \<longrightarrow>
     rd persist ((base + t) * (unat cb * 32) + nat (challenge_rank (N ! p)) * 32) 32 = Some (region_labels h cb (sd t) ! p))"

lemma super_bytes: "topo_for S h cb N level T \<Longrightarrow> unat (t_super_bytes T) = unat cb * 32"
proof -
  assume t: "topo_for S h cb N level T"
  note b = block_count_facts [OF topo_forD(1,2) [OF t]]
  have "unat (ucast cb * 32 :: u64) = unat (ucast cb :: u64) * 32 mod 2 ^ 64" by (simp add: unat_word_ariths)
  then show ?thesis using b(4,5) topo_forD(7) [OF t] by simp
qed

definition batch_state :: "hw \<Rightarrow> u32 \<Rightarrow> pose_node list \<Rightarrow> nat list \<Rightarrow> topo \<Rightarrow> nat list \<Rightarrow> (nat \<Rightarrow> nat) \<Rightarrow> nat \<Rightarrow> (nat \<Rightarrow> bytes) \<Rightarrow> nat
    \<Rightarrow> device \<Rightarrow> (nat \<times> nat) list \<Rightarrow> device \<Rightarrow> bool" where
  "batch_state h cb N level T lu slot base sd bc d0 evs d \<longleftrightarrow> regions_inv h cb level T lu slot (t_pool_size T * 32) sd bc evs (dv_work d)
     \<and> persist_inv h cb N T base sd bc evs (dv_persist d) \<and> length (dv_work d) = length (dv_work d0)
     \<and> agree_off {base * (unat cb * 32)..<(base + bc) * (unat cb * 32)} (dv_persist d0) (dv_persist d)"

lemma chunk_event_ok:
  assumes set: "run_setting S h cb N level T lu ((!) slotl) (t_pool_size T * 32) seeds sd bc" and sl: "length N \<le> length slotl"
    and full: "full_run level T bc (evs @ e # rest)" and room: "(base + bc) * (unat cb * 32) \<le> length (dv_persist d0)"
    and inv: "batch_state h cb N level T lu ((!) slotl) base sd bc d0 evs d"
  shows "\<exists>d'. chunk_event al T slotl (map challenge_rank N) base seeds e d = Some d'
    \<and> batch_state h cb N level T lu ((!) slotl) base sd bc d0 (evs @ [e]) d'"
proof -
  let ?t = "fst e" and ?A = "{base * (unat cb * 32)..<(base + bc) * (unat cb * 32)}"
  have topo: "topo_for S h cb N level T" using set by (simp add: run_setting_def)
  note D = topo_forD [OF topo] and b = block_count_facts [OF topo_forD(1,2) [OF topo]]
  note nr = parameter_n_range [OF b(2,3), unfolded b(4)]
  have inv': "regions_inv h cb level T lu ((!) slotl) (t_pool_size T * 32) sd bc evs (dv_work d)"
    "persist_inv h cb N T base sd bc evs (dv_persist d)" "length (dv_work d) = length (dv_work d0)" "agree_off ?A (dv_persist d0) (dv_persist d)"
    using inv by (simp_all add: batch_state_def)
  have slotf: "\<forall>p<length N. ld slotl p = Some (slotl ! p)" using sl by (simp add: ld_def)
  obtain x w where x: "ldi (d_order T) (snd e) = Some x" "x < length N" "x = the (d_order T ! snd e)" "x \<notin> set (done_ids T evs ?t)"
    and w: "node_step al T seeds (t_pool_size T * 32) (ld slotl) ?t x (dv_work d) = Some w" "length w = length (dv_work d)"
      "rd w (?t * (t_pool_size T * 32) + slotl ! x * 32) 32 = Some (region_labels h cb (sd ?t) ! x)"
      "regions_inv h cb level T lu ((!) slotl) (t_pool_size T * 32) sd bc (evs @ [e]) w"
    using event_step [OF set slotf full inv'(1), of al] by blast
  have t: "?t < bc" using full by (auto simp: full_run_def)
  let ?r = "challenge_rank (N ! x)" and ?l = "region_labels h cb (sd ?t) ! x"
  have l32: "length ?l = 32" using rd_length [OF w(3)] .
  have dn: "\<And>s. done_ids T (evs @ [e]) s = done_ids T evs s @ (if ?t = s then [x] else [])" using x(3) by (simp add: done_ids_snoc)
  show ?thesis
  proof (cases "?r \<ge> 0")
    case False
    have "persist_inv h cb N T base sd bc (evs @ [e]) (dv_persist d)"
      using inv'(2) False unfolding persist_inv_def dn by auto
    then have "batch_state h cb N level T lu ((!) slotl) base sd bc d0 (evs @ [e]) \<lparr>dv_work = w, dv_persist = dv_persist d\<rparr>"
      using w(2,4) inv'(3,4) by (simp add: batch_state_def)
    moreover have "chunk_event al T slotl (map challenge_rank N) base seeds e d = Some \<lparr>dv_work = w, dv_persist = dv_persist d\<rparr>"
      unfolding chunk_event_def x(1) bind.bind_lunit w(1) using x(2) False by (simp add: ld_def)
    ultimately show ?thesis by blast
  next
    case True
    note rk = rank_node [OF D(3) nr(3,2) x(2) True]
    let ?p = "(base + ?t) * (unat cb * 32) + nat ?r * 32"
    have pb: "?p + 32 \<le> (base + bc) * (unat cb * 32)"
      using region_room [of "base + ?t" "base + bc" "nat ?r * 32 + 32" "unat cb * 32" "(base + bc) * (unat cb * 32)"] t rk(1) by simp
    have len: "length (dv_persist d) = length (dv_persist d0)" by (rule agree_off_length [OF inv'(4)])
    obtain p where p: "wr (dv_persist d) ?p ?l = Some p"
      using wr_ok [of ?p ?l "dv_persist d"] pb room len l32 by auto
    have ev: "chunk_event al T slotl (map challenge_rank N) base seeds e d = Some \<lparr>dv_work = w, dv_persist = p\<rparr>"
      unfolding chunk_event_def x(1) bind.bind_lunit w(1)
      using x(2) w(3) True p sl copy_label_id [OF l32] super_bytes [OF topo] by (simp add: ld_def)
    have "persist_inv h cb N T base sd bc (evs @ [e]) p"
      unfolding persist_inv_def
    proof (intro allI ballI impI)
      fix s q assume q: "s < bc" "q \<in> set (done_ids T (evs @ [e]) s)" "challenge_rank (N ! q) \<ge> 0"
      show "rd p ((base + s) * (unat cb * 32) + nat (challenge_rank (N ! q)) * 32) 32 = Some (region_labels h cb (sd s) ! q)"
      proof (cases "s = ?t \<and> q = x")
        case True
        then show ?thesis using rd_wr [OF p] l32 by simp
      next
        case False
        then have old: "q \<in> set (done_ids T evs s)" using q(2) unfolding dn by (auto split: if_splits)
        have "set (done_ids T evs s) \<subseteq> {..<length N}"
        proof -
          have "level_sorted level (done_ids T (evs @ e # rest) s)" using full q(1) by (simp add: full_run_def)
          then show ?thesis using D(4) unfolding done_ids_append level_sorted_def levels_ok_def by auto
        qed
        then have qN: "q < length N" using old by auto
        note rq = rank_node [OF D(3) nr(3,2) qN q(3)]
        have "base + s \<noteq> base + ?t \<or> nat (challenge_rank (N ! q)) \<noteq> nat ?r" using False rq(2) rk(2) by auto
        from cells_apart [OF _ _ this, of "unat cb * 32"] rq(1) rk(1)
        have "cells_of ((base + s) * (unat cb * 32) + nat (challenge_rank (N ! q)) * 32) 32 \<inter> cells_of ?p (length ?l) = {}" using l32 by simp
        moreover have "rd (dv_persist d) ((base + s) * (unat cb * 32) + nat (challenge_rank (N ! q)) * 32) 32 = Some (region_labels h cb (sd s) ! q)"
          using inv'(2) q(1,3) old by (simp add: persist_inv_def)
        ultimately show ?thesis by (rule rd_frame [OF wr_agree [OF p]])
      qed
    qed
    moreover have "base * (unat cb * 32) \<le> ?p" by (simp add: add_mult_distrib)
    then have "cells_of ?p (length ?l) \<subseteq> ?A" using pb l32 by auto
    then have "agree_off ?A (dv_persist d0) p" using agree_off_trans [OF inv'(4) wr_agree [OF p]] by blast
    ultimately show ?thesis using ev w(2,4) inv'(3) by (simp add: batch_state_def)
  qed
qed

text \<open>A run of a per-chunk kernel, complete or cut off by an error.\<close>

lemma chunk_run_ok:
  assumes set: "run_setting S h cb N level T lu ((!) slotl) (t_pool_size T * 32) seeds sd bc" and sl: "length N \<le> length slotl"
    and full: "full_run level T bc (evs @ rest)" and room: "bc * (t_pool_size T * 32) \<le> length (dv_work d)"
      "(base + bc) * (unat cb * 32) \<le> length (dv_persist d)"
  shows "\<exists>d'. run_events (chunk_event al T slotl (map challenge_rank N) base seeds) evs d = Some d'
    \<and> length (dv_work d') = length (dv_work d)
    \<and> agree_off {base * (unat cb * 32)..<(base + bc) * (unat cb * 32)} (dv_persist d) (dv_persist d')
    \<and> (rest = [] \<longrightarrow> outputs_stored h cb sd base bc (dv_persist d'))"
proof -
  let ?P = "batch_state h cb N level T lu ((!) slotl) base sd bc d"
  have topo: "topo_for S h cb N level T" using set by (simp add: run_setting_def)
  note D = topo_forD [OF topo] and b = block_count_facts [OF topo_forD(1,2) [OF topo]]
  note nr = parameter_n_range [OF b(2,3), unfolded b(4)]
  have P0: "?P [] d" using regions_inv_start [OF room(1)]
    by (simp add: batch_state_def persist_inv_def ids_at_positions_def positions_def)
  have step: "\<exists>d2. chunk_event al T slotl (map challenge_rank N) base seeds e d1 = Some d2 \<and> ?P (xs @ [e]) d2"
    if f: "evs @ rest = xs @ e # ys" and P: "?P xs d1" for xs e ys d1
    by (rule chunk_event_ok [OF set sl full [unfolded f] room(2) P])
  have "\<exists>d'. run_events (chunk_event al T slotl (map challenge_rank N) base seeds) evs d = Some d' \<and> ?P evs d'"
    by (rule run_prefix [where P = ?P and rest = rest], erule (1) step, rule P0)
  then obtain d' where d': "run_events (chunk_event al T slotl (map challenge_rank N) base seeds) evs d = Some d'" "?P evs d'" by blast
  have "outputs_stored h cb sd base bc (dv_persist d')" if "rest = []"
    unfolding outputs_stored_def
  proof (intro allI impI)
    fix t r assume t: "t < bc" "r < unat cb"
    let ?n = "pose_graph_parameter_n (ucast cb)"
    let ?x = "challenge_nodes ?n (unat cb) ! r"
    have lc: "length (challenge_nodes ?n (unat cb)) = unat cb" using length_challenge_nodes [of ?n "unat cb"] nr(2,3) by simp
    have x: "?x < length N" using challenge_nodes_less [of ?x ?n "unat cb"] t(2) lc D(3) by (simp add: edges_spec_def)
    have rk: "challenge_rank (N ! ?x) = int r" using D(3) t(2) by (simp add: edges_spec_def)
    have "level_sorted level (done_ids T evs t)" using full that t(1) by (simp add: full_run_def)
    then have "?x \<in> set (done_ids T evs t)" using x D(4) by (simp add: level_sorted_def levels_ok_def)
    moreover have "persist_inv h cb N T base sd bc evs (dv_persist d')" using d'(2) by (simp add: batch_state_def)
    ultimately have "challenge_rank (N ! ?x) \<ge> 0 \<longrightarrow>
        rd (dv_persist d') ((base + t) * (unat cb * 32) + nat (challenge_rank (N ! ?x)) * 32) 32 = Some (region_labels h cb (sd t) ! ?x)"
      using t(1) unfolding persist_inv_def by blast
    then show "rd (dv_persist d') ((base + t) * (unat cb * 32) + r * 32) 32
        = Some (output_labels (pose_labeler h) (sd t) (ucast cb) POSE_HASH_BLAKE3 ! r)"
      using rk output_label_region [OF D(1,2) t(2)] by simp
  qed
  then show ?thesis using d' by (auto simp: batch_state_def)
qed

text \<open>
  The level strategy keeps the whole scaffold: every node has its own cell, and no label is ever
  overwritten.
\<close>

lemma scaffold_plan:
  assumes "topo_for S h cb N level T"
  shows "plan_ok N level (replicate (length N) (t_num_levels T)) (\<lambda>x. x) (unat (t_count T) * 32)"
proof -
  note D = topo_forD [OF assms]
  have ll: "length level = length N" using D(4) by (simp add: levels_ok_def)
  have "level ! x \<le> t_num_levels T" if "x < length N" for x using D(5) ll that by (simp add: less_imp_le)
  then show ?thesis using D(4,8) ll
    by (auto simp: plan_ok_def uses_ok_def levels_ok_def apart_while_live_def)
qed

lemma level_run_ok:
  assumes "hw_ok h" "topo_for S h cb N level T" "\<forall>t<bc. rd seeds (t * 32) 32 = Some (sd t)"
    and full: "full_run level T bc (evs @ rest)" and room: "bc * (unat (t_count T) * 32) \<le> length (dv_work d)"
  shows "\<exists>d'. run_events (level_event al T seeds) evs d = Some d' \<and> length (dv_work d') = length (dv_work d)
    \<and> dv_persist d' = dv_persist d
    \<and> (rest = [] \<longrightarrow> (\<forall>t<bc. \<forall>x<length N. rd (dv_work d') (t * (unat (t_count T) * 32) + x * 32) 32 = Some (region_labels h cb (sd t) ! x)))"
proof -
  note D = topo_forD [OF assms(2)]
  define lu where "lu = replicate (length N) (t_num_levels T)"
  have ll: "length level = length N" using D(4) by (simp add: levels_ok_def)
  have set: "run_setting S h cb N level T lu (\<lambda>x. x) (unat (t_count T) * 32) seeds sd bc"
    using assms(1-3) scaffold_plan [OF assms(2)] by (simp add: run_setting_def lu_def)
  let ?P = "\<lambda>evs d'. regions_inv h cb level T lu (\<lambda>x. x) (unat (t_count T) * 32) sd bc evs (dv_work d')
      \<and> length (dv_work d') = length (dv_work d) \<and> dv_persist d' = dv_persist d"
  have step: "\<exists>d2. level_event al T seeds e d1 = Some d2 \<and> ?P (xs @ [e]) d2"
    if f: "evs @ rest = xs @ e # ys" and P: "?P xs d1" for xs e ys d1
  proof -
    have P1: "regions_inv h cb level T lu (\<lambda>x. x) (unat (t_count T) * 32) sd bc xs (dv_work d1)" using P by blast
    from event_step [OF set _ full [unfolded f] P1, where slotf = Some and al = al]
    obtain x w where w: "ldi (d_order T) (snd e) = Some x" "node_step al T seeds (unat (t_count T) * 32) Some (fst e) x (dv_work d1) = Some w"
      "length w = length (dv_work d1)" "regions_inv h cb level T lu (\<lambda>x. x) (unat (t_count T) * 32) sd bc (xs @ [e]) w" by auto
    have "level_event al T seeds e d1 = Some (d1\<lparr>dv_work := w\<rparr>)"
      unfolding level_event_def w(1) bind.bind_lunit w(2) by simp
    then show ?thesis using w(3,4) P by simp
  qed
  have P0: "?P [] d" using regions_inv_start [OF room] by simp
  have "\<exists>d'. run_events (level_event al T seeds) evs d = Some d' \<and> ?P evs d'"
    by (rule run_prefix [where P = ?P and rest = rest], erule (1) step, rule P0)
  then obtain d' where d': "run_events (level_event al T seeds) evs d = Some d'" "?P evs d'" by blast
  have "rd (dv_work d') (t * (unat (t_count T) * 32) + x * 32) 32 = Some (region_labels h cb (sd t) ! x)"
    if "rest = []" "t < bc" "x < length N" for t x
  proof -
    have "level_sorted level (done_ids T evs t)" using full that(1,2) by (simp add: full_run_def)
    then have "set (done_ids T evs t) = {..<length N}" using ll by (simp add: level_sorted_def)
    moreover have "\<forall>k<length N. level ! k \<le> lu ! x" using that(3) D(5) ll by (simp add: lu_def less_imp_le)
    ultimately show ?thesis using d'(2) that(2,3) by (simp add: regions_inv_def region_inv_def)
  qed
  then show ?thesis using d' by blast
qed

text \<open>The extraction copies the cell of every rank's node, whatever it holds.\<close>

lemma extract_run_ok:
  assumes "topo_for S h cb N level T" "distinct (ts @ rest)" "set (ts @ rest) = {..<unat cb * bc}"
    and room: "bc * (unat (t_count T) * 32) \<le> length (dv_work d)" "(base + bc) * (unat cb * 32) \<le> length (dv_persist d)"
  shows "\<exists>d'. run_events (extract_event T base) ts d = Some d' \<and> dv_work d' = dv_work d
    \<and> agree_off {base * (unat cb * 32)..<(base + bc) * (unat cb * 32)} (dv_persist d) (dv_persist d')
    \<and> (\<forall>t\<in>set ts. rd (dv_persist d') ((base + t div unat cb) * (unat cb * 32) + t mod unat cb * 32) 32
          = rd (dv_work d) (t div unat cb * (unat (t_count T) * 32)
              + challenge_nodes (pose_graph_parameter_n (ucast cb)) (unat cb) ! (t mod unat cb) * 32) 32)"
proof -
  note D = topo_forD [OF assms(1)] and b = block_count_facts [OF topo_forD(1,2) [OF assms(1)]]
  note nr = parameter_n_range [OF b(2,3), unfolded b(4)]
  let ?m = "unat cb" and ?A = "{base * (unat cb * 32)..<(base + bc) * (unat cb * 32)}"
  let ?node = "\<lambda>t. challenge_nodes (pose_graph_parameter_n (ucast cb)) ?m ! (t mod ?m)"
  let ?dst = "\<lambda>t. (base + t div ?m) * (?m * 32) + t mod ?m * 32"
  let ?src = "\<lambda>t. rd (dv_work d) (t div ?m * (unat (t_count T) * 32) + ?node t * 32) 32"
  let ?P = "\<lambda>xs d'. dv_work d' = dv_work d \<and> agree_off ?A (dv_persist d) (dv_persist d') \<and> (\<forall>t\<in>set xs. rd (dv_persist d') (?dst t) 32 = ?src t)"
  have step: "\<exists>d2. extract_event T base t d1 = Some d2 \<and> ?P (xs @ [t]) d2"
    if f: "ts @ rest = xs @ t # ys" and P: "?P xs d1" for xs t ys d1
  proof -
    have t: "t < ?m * bc" "t \<notin> set xs" using assms(2,3) unfolding f by auto
    have w: "t div ?m < bc" using t(1) by (simp add: less_mult_imp_div_less mult.commute)
    have r: "t mod ?m < ?m" using b(6) by simp
    have lc: "length (challenge_nodes (pose_graph_parameter_n (ucast cb)) ?m) = ?m" using length_challenge_nodes [of _ ?m] nr(2,3) by simp
    have x: "?node t < length N" using challenge_nodes_less [of "?node t" _ ?m] r lc D(3) by (simp add: edges_spec_def)
    have "?node t * 32 + 32 \<le> unat (t_count T) * 32" using x D(8) by simp
    from region_room [OF w this room(1)]
    obtain l where l: "?src t = Some l" "length l = 32" by (simp add: rd_def add.assoc)
    have pb: "?dst t + 32 \<le> (base + bc) * (?m * 32)"
      using region_room [of "base + t div ?m" "base + bc" "t mod ?m * 32 + 32" "?m * 32" "(base + bc) * (?m * 32)"] w r by simp
    have len: "length (dv_persist d1) = length (dv_persist d)" using P agree_off_length by blast
    obtain p where p: "wr (dv_persist d1) (?dst t) l = Some p" using wr_ok [of "?dst t" l "dv_persist d1"] pb room(2) len l(2) by auto
    have ev: "extract_event T base t d1 = Some (d1\<lparr>dv_persist := p\<rparr>)"
      using P D(6,17,18) r l(1) p super_bytes [OF assms(1)] by (simp add: extract_event_def Let_def ldi_def ld_def)
    have "rd p (?dst s) 32 = ?src s" if s: "s \<in> set (xs @ [t])" for s
    proof (cases "s = t")
      case True
      then show ?thesis using rd_wr [OF p] l by simp
    next
      case False
      then have sx: "s \<in> set xs" using s by simp
      have sr: "s mod ?m < ?m" using b(6) by simp
      have "base + s div ?m \<noteq> base + t div ?m \<or> s mod ?m \<noteq> t mod ?m" using False by (metis add_left_cancel div_mult_mod_eq)
      from cells_apart [OF _ _ this, of "?m * 32"] r sr
      have c: "cells_of (?dst s) 32 \<inter> cells_of (?dst t) (length l) = {}" using l(2) by simp
      have "rd (dv_persist d1) (?dst s) 32 = ?src s" using P sx by blast
      moreover have "?dst s + 32 \<le> length (dv_persist d1)"
      proof -
        have "s < ?m * bc" using assms(3) sx unfolding f by auto
        then have "s div ?m < bc" by (simp add: less_mult_imp_div_less mult.commute)
        then show ?thesis
          using region_room [of "base + s div ?m" "base + bc" "s mod ?m * 32 + 32" "?m * 32" "(base + bc) * (?m * 32)"] sr room(2) len by simp
      qed
      then obtain l' where "rd (dv_persist d1) (?dst s) 32 = Some l'" by (simp add: rd_def)
      ultimately show ?thesis using rd_frame [OF wr_agree [OF p] c] by metis
    qed
    moreover have "base * (?m * 32) \<le> ?dst t" by (simp add: add_mult_distrib)
    then have "cells_of (?dst t) (length l) \<subseteq> ?A" using pb l(2) by auto
    then have "agree_off ?A (dv_persist d) p" using agree_off_trans [of ?A "dv_persist d" "dv_persist d1", OF _ wr_agree [OF p]] P by blast
    ultimately show ?thesis using ev P by auto
  qed
  have P0: "?P [] d" by simp
  show ?thesis by (rule run_prefix [where P = ?P and rest = rest], erule (1) step, rule P0)
qed

lemma extracted_outputs:
  assumes topo: "topo_for S h cb N level T"
    and lab: "\<forall>t<bc. \<forall>x<length N. rd work (t * (unat (t_count T) * 32) + x * 32) 32 = Some (region_labels h cb (sd t) ! x)"
    and cop: "\<forall>t<unat cb * bc. rd persist ((base + t div unat cb) * (unat cb * 32) + t mod unat cb * 32) 32
          = rd work (t div unat cb * (unat (t_count T) * 32)
              + challenge_nodes (pose_graph_parameter_n (ucast cb)) (unat cb) ! (t mod unat cb) * 32) 32"
  shows "outputs_stored h cb sd base bc persist"
  unfolding outputs_stored_def
proof (intro allI impI)
  note D = topo_forD [OF topo] and b = block_count_facts [OF topo_forD(1,2) [OF topo]]
  note nr = parameter_n_range [OF b(2,3), unfolded b(4)]
  fix j r assume jr: "j < bc" "r < unat cb"
  let ?n = "pose_graph_parameter_n (ucast cb)" and ?t = "j * unat cb + r"
  have "(j + 1) * unat cb \<le> bc * unat cb" using jr(1) by (intro mult_le_mono1) simp
  then have t: "?t < unat cb * bc" "?t div unat cb = j" "?t mod unat cb = r" using jr(2) by (simp_all add: mult.commute)
  have lc: "length (challenge_nodes ?n (unat cb)) = unat cb" using length_challenge_nodes [of ?n "unat cb"] nr(2,3) by simp
  have x: "challenge_nodes ?n (unat cb) ! r < length N"
    using challenge_nodes_less [of "challenge_nodes ?n (unat cb) ! r" ?n "unat cb"] jr(2) lc D(3) by (simp add: edges_spec_def)
  show "rd persist ((base + j) * (unat cb * 32) + r * 32) 32
      = Some (output_labels (pose_labeler h) (sd j) (ucast cb) POSE_HASH_BLAKE3 ! r)"
    using cop [rule_format, OF t(1)] lab [rule_format, OF jr(1) x] output_label_region [OF D(1,2) jr(2)] unfolding t(2,3) by simp
qed

end
