(* ===== verification/Gpu_Run.thy ===== *)
theory Gpu_Run
  imports Gpu_Kernels
begin

section \<open>The GPU labeling driver\<close>

text \<open>
  \<open>label_gpu_run\<close> of the four strategies and the entry points of \<open>label_gpu_common.cu\<close>: the size of the
  scratch, the batches of super-chunks with their seeds, the kernel of each batch, and the zeroing of the
  scratch. The contract of a batch is the locale \<open>batch_kernel\<close>; the loop is proved once inside it and the
  locale is interpreted on both families of kernels.
\<close>

subsection \<open>The code\<close>

text \<open>
  What the CUDA runtime and the device do during a run: free memory, resident blocks, whether the device has
  cooperative launches (\<open>coop_grid\<close>, 0 without), the allocation of the scratch by size with the bytes it
  holds, the other two allocations, and for batch \<open>k\<close> of \<open>bc\<close> super-chunks the results of the copy, the launches and
  the synchronisation and the events that the kernels executed.
\<close>

record gpu_env =
  ge_free :: nat
  ge_sms :: nat
  ge_blocks_per_sm :: nat
  ge_coop_grid :: nat
  ge_scratch :: "nat \<Rightarrow> bytes option"
  ge_d_seeds :: bool
  ge_h_seeds :: bool
  ge_copy :: "nat \<Rightarrow> bool"
  ge_launch :: "nat \<Rightarrow> bool"
  ge_launch_extract :: "nat \<Rightarrow> bool"
  ge_sync :: "nat \<Rightarrow> bool"
  ge_memset :: bool
  ge_events :: "nat \<Rightarrow> nat \<Rightarrow> (nat \<times> nat) list"
  ge_extract :: "nat \<Rightarrow> nat \<Rightarrow> nat list"

text \<open>\<open>const int block = 256\<close>.\<close>

definition block :: nat where "block = 256"

definition POSE_GPU_WAVE_CAP :: nat where "POSE_GPU_WAVE_CAP = 64"

text \<open>How many regions can be resident at once.\<close>

definition resident :: "strategy \<Rightarrow> gpu_env \<Rightarrow> nat" where
  "resident S E =
     (let blocks = ge_sms E * (if ge_blocks_per_sm E > 0 then ge_blocks_per_sm E else 1)
      in case S of LEVEL \<Rightarrow> POSE_GPU_WAVE_CAP | BLOCK \<Rightarrow> blocks | THREAD \<Rightarrow> blocks * block | WARP \<Rightarrow> blocks * kWarpsPerBlock)"

definition choose_pool :: "nat \<Rightarrow> nat \<Rightarrow> nat \<Rightarrow> nat \<Rightarrow> nat" where
  "choose_pool free_b region_bytes cap num_super =
     (let budget = (if free_b > 64 * 2 ^ 20 then free_b - 64 * 2 ^ 20 else 0);
          pool = (if region_bytes \<noteq> 0 then budget div region_bytes else 0);
          pool = (if pool > cap then cap else pool);
          pool = (if pool > num_super then num_super else pool)
      in if pool = 0 then 1 else pool)"

text \<open>Halving until the allocation succeeds.\<close>

function alloc_pool :: "gpu_env \<Rightarrow> nat \<Rightarrow> nat \<Rightarrow> (nat \<times> bytes) option" where
  "alloc_pool E region_bytes pool =
     (if pool \<ge> 1 then
        (case ge_scratch E (pool * region_bytes) of
           Some w \<Rightarrow> Some (pool, w)
         | None \<Rightarrow> if pool = 1 then None else alloc_pool E region_bytes (pool div 2))
      else None)"
  by pat_completeness auto

termination by (relation "measure (\<lambda>(E, r, p). p)") auto

declare alloc_pool.simps [simp del]

text \<open>The seeds of super-chunks \<open>base\<close> to \<open>base + bc - 1\<close>, 32 bytes each.\<close>

definition super_seed :: "labeler \<Rightarrow> bytes \<Rightarrow> u64 \<Rightarrow> nat \<Rightarrow> nat \<Rightarrow> bytes" where
  "super_seed H session_seed offset cb j = chunk_seed H session_seed (super_index offset (of_nat j) cb)"

definition batch_seeds :: "labeler \<Rightarrow> bytes \<Rightarrow> u64 \<Rightarrow> nat \<Rightarrow> nat \<Rightarrow> nat \<Rightarrow> bytes" where
  "batch_seeds H session_seed offset cb base bc = concat (map (\<lambda>t. super_seed H session_seed offset cb (base + t)) [0..<bc])"

text \<open>One batch of the block, thread and warp strategies: whether it succeeded, and the device memory.\<close>

definition chunk_batch ::
  "(nat \<Rightarrow> nat \<Rightarrow> nat \<Rightarrow> bool) \<Rightarrow> topo \<Rightarrow> gpu_env \<Rightarrow> nat \<Rightarrow> nat \<Rightarrow> nat \<Rightarrow> bytes \<Rightarrow> device \<Rightarrow> (bool \<times> device) option" where
  "chunk_batch al T E k base bc seeds d =
     (if \<not> ge_copy E k then Some (False, d)
      else if \<not> ge_launch E k then Some (False, d)
      else do {
        slot \<leftarrow> d_slot T;
        rank \<leftarrow> d_rank T;
        d' \<leftarrow> run_events (chunk_event al T slot rank base seeds) (ge_events E k bc) d;
        Some (ge_sync E k, d') })"

text \<open>
  One wave of the level strategy. Without cooperative launches every level is a launch, of which the grid
  may be too large; the levels launched before have run by the time the scratch is freed.
\<close>

definition grid_too_large :: "topo \<Rightarrow> gpu_env \<Rightarrow> nat \<Rightarrow> bool" where
  "grid_too_large T E w_count \<longleftrightarrow> \<not> ge_coop_grid E > 0
     \<and> list_ex (\<lambda>n. n \<noteq> 0 \<and> (n * w_count + block - 1) div block > 0x7FFFFFFF) (t_level_count T)"

definition level_batch ::
  "(nat \<Rightarrow> nat \<Rightarrow> nat \<Rightarrow> bool) \<Rightarrow> topo \<Rightarrow> gpu_env \<Rightarrow> nat \<Rightarrow> nat \<Rightarrow> nat \<Rightarrow> bytes \<Rightarrow> device \<Rightarrow> (bool \<times> device) option" where
  "level_batch al T E k base w_count seeds d =
     (if \<not> ge_copy E k then Some (False, d)
      else do {
        d1 \<leftarrow> run_events (level_event al T seeds) (ge_events E k w_count) d;
        (if grid_too_large T E w_count then Some (False, d1)
         else if \<not> ge_launch E k then Some (False, d1)
         else if (unat (t_chunk_blocks T) * w_count + block - 1) div block > 0x7FFFFFFF then Some (False, d1)
         else do {
           d2 \<leftarrow> run_events (extract_event T base) (ge_extract E k w_count) d1;
           Some (ge_launch_extract E k \<and> ge_sync E k, d2) }) })"

text \<open>
  \<open>for (base = 0; base < num_super; base += pool)\<close>, batch \<open>k\<close>. A pool of 0 would not end; \<open>choose_pool\<close> is at
  least 1.
\<close>

function run_batches ::
  "(nat \<Rightarrow> nat \<Rightarrow> nat \<Rightarrow> bytes \<Rightarrow> device \<Rightarrow> (bool \<times> device) option) \<Rightarrow> (nat \<Rightarrow> nat \<Rightarrow> bytes) \<Rightarrow> nat \<Rightarrow> nat \<Rightarrow> nat \<Rightarrow> nat \<Rightarrow> device
     \<Rightarrow> (bool \<times> device) option" where
  "run_batches batch seeds pool num_super k base d =
     (if base < num_super then
        (if pool = 0 then None
         else let bc = unat (of_nat (if num_super - base < pool then num_super - base else pool) :: u32)
              in do {
                (ok, d') \<leftarrow> batch k base bc (seeds base bc) d;
                (if ok then run_batches batch seeds pool num_super (k + 1) (base + pool) d' else Some (False, d')) })
      else Some (True, d))"
  by pat_completeness auto

termination by (relation "measure (\<lambda>(b, s, p, n, k, base, d). n - base)") auto

declare run_batches.simps [simp del]

text \<open>
  The return code, the persisted buffer, and the bytes that the scratch held when it was freed, if it was
  allocated.
\<close>

record outcome =
  o_rc :: int
  o_persist :: bytes
  o_freed :: "bytes option"

definition gpu_driver ::
  "gpu_env \<Rightarrow> nat \<Rightarrow> nat \<Rightarrow> (nat \<Rightarrow> nat \<Rightarrow> nat \<Rightarrow> bytes \<Rightarrow> device \<Rightarrow> (bool \<times> device) option) \<Rightarrow> (nat \<Rightarrow> nat \<Rightarrow> bytes) \<Rightarrow> nat \<Rightarrow> bytes
     \<Rightarrow> outcome option" where
  "gpu_driver E region_bytes cap batch seeds num_super persist =
     (case alloc_pool E region_bytes (choose_pool (ge_free E) region_bytes cap num_super) of
        None \<Rightarrow> Some \<lparr>o_rc = -1, o_persist = persist, o_freed = None\<rparr>
      | Some (pool, work) \<Rightarrow>
          if \<not> ge_d_seeds E \<or> \<not> ge_h_seeds E then Some \<lparr>o_rc = -1, o_persist = persist, o_freed = Some work\<rparr>
          else do {
            (ok, d) \<leftarrow> run_batches batch seeds pool num_super 0 0 \<lparr>dv_work = work, dv_persist = persist\<rparr>;
            (if \<not> ok \<or> \<not> ge_memset E then Some \<lparr>o_rc = -1, o_persist = dv_persist d, o_freed = Some (dv_work d)\<rparr>
             else Some \<lparr>o_rc = 0, o_persist = dv_persist d,
                     o_freed = Some (replicate (pool * region_bytes) 0 @ drop (pool * region_bytes) (dv_work d))\<rparr>) })"

text \<open>\<open>label_gpu_run\<close> of each strategy, over \<open>ctx\<close>: the topology, the session and the buffer.\<close>

record gpu_ctx =
  ctx_topo :: topo
  ctx_seed :: bytes
  ctx_offset :: u64
  ctx_num_super :: nat

definition ctx_seeds :: "labeler \<Rightarrow> gpu_ctx \<Rightarrow> nat \<Rightarrow> nat \<Rightarrow> bytes" where
  "ctx_seeds H ctx = batch_seeds H (ctx_seed ctx) (ctx_offset ctx) (unat (t_chunk_blocks (ctx_topo ctx)))"

definition label_gpu_run_level ::
  "(nat \<Rightarrow> nat \<Rightarrow> nat \<Rightarrow> bool) \<Rightarrow> labeler \<Rightarrow> gpu_env \<Rightarrow> gpu_ctx \<Rightarrow> bytes \<Rightarrow> outcome option" where
  "label_gpu_run_level al H E ctx persist =
     gpu_driver E (unat (t_count (ctx_topo ctx)) * 32) (resident LEVEL E) (level_batch al (ctx_topo ctx) E) (ctx_seeds H ctx)
       (ctx_num_super ctx) persist"

definition label_gpu_run_block ::
  "(nat \<Rightarrow> nat \<Rightarrow> nat \<Rightarrow> bool) \<Rightarrow> labeler \<Rightarrow> gpu_env \<Rightarrow> gpu_ctx \<Rightarrow> bytes \<Rightarrow> outcome option" where
  "label_gpu_run_block al H E ctx persist =
     (if t_pool_size (ctx_topo ctx) = 0 then Some \<lparr>o_rc = -1, o_persist = persist, o_freed = None\<rparr>
      else gpu_driver E (t_pool_size (ctx_topo ctx) * 32) (resident BLOCK E) (chunk_batch al (ctx_topo ctx) E) (ctx_seeds H ctx)
             (ctx_num_super ctx) persist)"

definition label_gpu_run_thread ::
  "(nat \<Rightarrow> nat \<Rightarrow> nat \<Rightarrow> bool) \<Rightarrow> labeler \<Rightarrow> gpu_env \<Rightarrow> gpu_ctx \<Rightarrow> bytes \<Rightarrow> outcome option" where
  "label_gpu_run_thread al H E ctx persist =
     (if t_pool_size (ctx_topo ctx) = 0 then Some \<lparr>o_rc = -1, o_persist = persist, o_freed = None\<rparr>
      else gpu_driver E (t_pool_size (ctx_topo ctx) * 32) (resident THREAD E) (chunk_batch al (ctx_topo ctx) E) (ctx_seeds H ctx)
             (ctx_num_super ctx) persist)"

definition label_gpu_run_warp ::
  "(nat \<Rightarrow> nat \<Rightarrow> nat \<Rightarrow> bool) \<Rightarrow> labeler \<Rightarrow> gpu_env \<Rightarrow> gpu_ctx \<Rightarrow> bytes \<Rightarrow> outcome option" where
  "label_gpu_run_warp al H E ctx persist =
     (if t_pool_size (ctx_topo ctx) = 0 then Some \<lparr>o_rc = -1, o_persist = persist, o_freed = None\<rparr>
      else gpu_driver E (t_pool_size (ctx_topo ctx) * 32) (resident WARP E) (chunk_batch al (ctx_topo ctx) E) (ctx_seeds H ctx)
             (ctx_num_super ctx) persist)"

text \<open>The one strategy that is linked.\<close>

definition label_gpu_run ::
  "strategy \<Rightarrow> (nat \<Rightarrow> nat \<Rightarrow> nat \<Rightarrow> bool) \<Rightarrow> labeler \<Rightarrow> gpu_env \<Rightarrow> gpu_ctx \<Rightarrow> bytes \<Rightarrow> outcome option" where
  "label_gpu_run S = (case S of LEVEL \<Rightarrow> label_gpu_run_level | BLOCK \<Rightarrow> label_gpu_run_block
     | THREAD \<Rightarrow> label_gpu_run_thread | WARP \<Rightarrow> label_gpu_run_warp)"

text \<open>A null topology is \<open>None\<close>.\<close>

definition pose_graph_hbm_topo_label ::
  "strategy \<Rightarrow> (nat \<Rightarrow> nat \<Rightarrow> nat \<Rightarrow> bool) \<Rightarrow> labeler \<Rightarrow> gpu_env \<Rightarrow> topo option \<Rightarrow> bytes \<Rightarrow> bytes \<Rightarrow> u64 \<Rightarrow> u64 \<Rightarrow> outcome option" where
  "pose_graph_hbm_topo_label S al H E t session_seed hbm hbm_len region_block_offset =
     (case t of
        None \<Rightarrow> Some \<lparr>o_rc = -1, o_persist = hbm, o_freed = None\<rparr>
      | Some T \<Rightarrow>
         (let num_super = hbm_len div t_super_bytes T
          in if num_super = 0 then Some \<lparr>o_rc = 0, o_persist = hbm, o_freed = None\<rparr>
             else label_gpu_run S al H E
                    \<lparr>ctx_topo = T, ctx_seed = session_seed, ctx_offset = region_block_offset, ctx_num_super = unat num_super\<rparr> hbm))"

definition pose_graph_label_hbm ::
  "strategy \<Rightarrow> (nat \<Rightarrow> nat \<Rightarrow> nat \<Rightarrow> bool) \<Rightarrow> hw \<Rightarrow> hash_state \<Rightarrow> (nat \<Rightarrow> u64 \<Rightarrow> bytes option) \<Rightarrow> cuda \<Rightarrow> gpu_env \<Rightarrow> bytes \<Rightarrow> u32 \<Rightarrow> bytes
     \<Rightarrow> u64 \<Rightarrow> u64 \<Rightarrow> hash_algo \<Rightarrow> (outcome \<times> hash_state) option" where
  "pose_graph_label_hbm S al h hs malloc C E session_seed chunk_blocks hbm hbm_len region_block_offset algo =
     (if algo \<noteq> POSE_HASH_BLAKE3 then Some (\<lparr>o_rc = -1, o_persist = hbm, o_freed = None\<rparr>, hs)
      else
       (let cb = (if chunk_blocks = 0 then POSE_CHUNK_BLOCKS else chunk_blocks);
            super_blocks = pose_graph_super_chunk_blocks cb;
            super_bytes = super_blocks * 32
        in
        if super_blocks = 0 \<or> super_blocks > 0xFFFFFFFF then Some (\<lparr>o_rc = -1, o_persist = hbm, o_freed = None\<rparr>, hs)
        else if hbm_len div super_bytes = 0 then Some (\<lparr>o_rc = 0, o_persist = hbm, o_freed = None\<rparr>, hs)
        else do {
          (t, hs') \<leftarrow> pose_graph_hbm_topo_build S h hs malloc C cb algo;
          (if t = None then Some (\<lparr>o_rc = -1, o_persist = hbm, o_freed = None\<rparr>, hs')
           else do {
             r \<leftarrow> pose_graph_hbm_topo_label S al (pose_labeler h) E t session_seed hbm hbm_len region_block_offset;
             Some (r, hs') }) }))"

subsection \<open>The loop over batches\<close>

text \<open>
  The contract of one batch: within its part of the scratch and of the buffer, it returns, touches nothing
  else of the buffer, and has stored its super-chunks when it reports success. \<open>ready\<close> is what it may
  rely on, \<open>good\<close> that no call of the runtime fails.
\<close>

locale batch_kernel =
  fixes ready good :: bool
    and batch :: "nat \<Rightarrow> nat \<Rightarrow> nat \<Rightarrow> bytes \<Rightarrow> device \<Rightarrow> (bool \<times> device) option"
    and seeds :: "nat \<Rightarrow> nat \<Rightarrow> bytes"
    and region super cap :: nat
    and stored :: "nat \<Rightarrow> nat \<Rightarrow> bytes \<Rightarrow> bool"
  assumes contract: "ready \<Longrightarrow> 0 < bc \<Longrightarrow> bc \<le> max cap 1 \<Longrightarrow> bc * region \<le> length (dv_work d) \<Longrightarrow> (base + bc) * super \<le> length (dv_persist d) \<Longrightarrow>
      \<exists>ok d'. batch k base bc (seeds base bc) d = Some (ok, d') \<and> length (dv_work d') = length (dv_work d)
        \<and> agree_off {base * super..<(base + bc) * super} (dv_persist d) (dv_persist d')
        \<and> (ok \<longrightarrow> stored base bc (dv_persist d')) \<and> (good \<longrightarrow> ok)"
    and frame: "stored base bc p \<Longrightarrow> agree_off {a..<b} p p' \<Longrightarrow> (base + bc) * super \<le> a \<Longrightarrow> stored base bc p'"
    and join: "stored base m p \<Longrightarrow> stored (base + m) n p \<Longrightarrow> stored base (m + n) p"
    and empty: "stored base 0 p"
begin

lemma batches_ok:
  assumes ready and pool: "0 < pool" "pool < 2 ^ 32" "pool \<le> max cap 1"
    and "pool * region \<le> length (dv_work d)" "num * super \<le> length (dv_persist d)" "stored 0 (min base num) (dv_persist d)"
  shows "\<exists>ok d'. run_batches batch seeds pool num k base d = Some (ok, d') \<and> length (dv_work d') = length (dv_work d)
    \<and> agree_off {base * super..<num * super} (dv_persist d) (dv_persist d')
    \<and> (ok \<longrightarrow> stored 0 num (dv_persist d')) \<and> (good \<longrightarrow> ok)"
  using assms(5-)
proof (induction "num - base" arbitrary: k base d rule: less_induct)
  case less
  show ?case
  proof (cases "base < num")
    case False
    then have "min base num = num" by simp
    then have "stored 0 num (dv_persist d)" using less.prems(3) by simp
    then show ?thesis using False by (subst run_batches.simps, intro exI [of _ True] exI [of _ d]) simp
  next
    case True
    define bc where "bc = min pool (num - base)"
    have bc: "0 < bc" "bc \<le> pool" "base + bc \<le> num" using True pool(1) by (auto simp: bc_def)
    have cast: "unat (of_nat (if num - base < pool then num - base else pool) :: u32) = bc"
      using bc(2) pool(2) by (auto simp: bc_def min_def unat_of_nat take_bit_nat_eq_self_iff)
    have m: "bc * region \<le> pool * region" "(base + bc) * super \<le> num * super" by (rule mult_le_mono1 [OF bc(2)], rule mult_le_mono1 [OF bc(3)])
    note room = le_trans [OF m(1) less.prems(1)] le_trans [OF m(2) less.prems(2)] m(2)
    obtain ok d1 where d1: "batch k base bc (seeds base bc) d = Some (ok, d1)" "length (dv_work d1) = length (dv_work d)"
      "agree_off {base * super..<(base + bc) * super} (dv_persist d) (dv_persist d1)"
      "ok \<longrightarrow> stored base bc (dv_persist d1)" "good \<longrightarrow> ok"
      using contract [OF \<open>ready\<close> bc(1) le_trans [OF bc(2) pool(3)] room(1,2)] by blast
    have sub: "{base * super..<(base + bc) * super} \<subseteq> {base * super..<num * super}" using room(3) by auto
    show ?thesis
    proof (cases ok)
      case False
      then show ?thesis using True pool(1) d1 agree_off_mono [OF d1(3) sub]
        by (subst run_batches.simps, intro exI [of _ False] exI [of _ d1]) (simp add: Let_def cast)
    next
      case ok: True
      have "stored 0 base (dv_persist d)" using less.prems(3) True by simp
      then have "stored 0 base (dv_persist d1)" by (rule frame [OF _ d1(3)]) simp
      then have st: "stored 0 (base + bc) (dv_persist d1)" using join [of 0 base] d1(4) ok by simp
      have mb: "min (base + pool) num = base + bc" using True by (auto simp: bc_def)
      have lt: "num - (base + pool) < num - base" using True pool(1) by simp
      have "num * super \<le> length (dv_persist d1)" using less.prems(2) agree_off_length [OF d1(3)] by simp
      from less.hyps [of "base + pool" d1 "k + 1", OF lt _ this] True pool(1) less.prems(1) d1(2) st mb
      obtain ok2 d2 where d2: "run_batches batch seeds pool num (k + 1) (base + pool) d1 = Some (ok2, d2)"
        "length (dv_work d2) = length (dv_work d1)" "agree_off {(base + pool) * super..<num * super} (dv_persist d1) (dv_persist d2)"
        "ok2 \<longrightarrow> stored 0 num (dv_persist d2)" "good \<longrightarrow> ok2" by auto
      have "base * super \<le> (base + pool) * super" by (simp add: mult_le_mono1)
      then have "{(base + pool) * super..<num * super} \<subseteq> {base * super..<num * super}" by auto
      then have "agree_off {base * super..<num * super} (dv_persist d) (dv_persist d2)"
        using agree_off_trans [OF d1(3) d2(3) sub] by blast
      moreover have "run_batches batch seeds pool num k base d = Some (ok2, d2)"
        using True pool(1) d1(1) ok d2(1) by (subst run_batches.simps) (simp add: Let_def cast)
      ultimately show ?thesis using d1(2) d2(2,4,5) by auto
    qed
  qed
qed

end

lemma alloc_pool_range: "alloc_pool E region p = Some (pool, w) \<Longrightarrow> 0 < pool \<and> pool \<le> p \<and> ge_scratch E (pool * region) = Some w"
proof (induction E region p rule: alloc_pool.induct)
  case (1 E region p)
  show ?case
  proof (cases "p \<ge> 1 \<and> ge_scratch E (p * region) = None \<and> p \<noteq> 1")
    case True
    then have "alloc_pool E region (p div 2) = Some (pool, w)" using "1.prems" by (subst (asm) alloc_pool.simps) simp
    then have "0 < pool \<and> pool \<le> p div 2 \<and> ge_scratch E (pool * region) = Some w" using "1.IH" True by simp
    then show ?thesis by auto
  qed (use "1.prems" in \<open>subst (asm) alloc_pool.simps; auto split: if_splits option.splits\<close>)
qed

lemma alloc_pool_total: "0 < p \<Longrightarrow> \<forall>n. ge_scratch E n \<noteq> None \<Longrightarrow> alloc_pool E region p \<noteq> None"
proof -
  assume p: "0 < p" "\<forall>n. ge_scratch E n \<noteq> None"
  then obtain w where "ge_scratch E (p * region) = Some w" by blast
  then show ?thesis using p(1) by (subst alloc_pool.simps) simp
qed

text \<open>The sizes that are tried are the halves of the first; the first that is granted is taken.\<close>

lemma alloc_pool_halves:
  "case alloc_pool E region p of
     None \<Rightarrow> \<forall>i. 0 < p div 2 ^ i \<longrightarrow> ge_scratch E (p div 2 ^ i * region) = None
   | Some (q, w) \<Rightarrow> \<exists>i. q = p div 2 ^ i \<and> 0 < q \<and> ge_scratch E (q * region) = Some w
       \<and> (\<forall>j<i. ge_scratch E (p div 2 ^ j * region) = None)"
proof (induction E region p rule: alloc_pool.induct)
  case (1 E region p)
  have half: "p div 2 div 2 ^ i = p div 2 ^ Suc i" for i by (simp add: div_mult2_eq)
  consider "p = 0" | w where "0 < p" "ge_scratch E (p * region) = Some w" | "p = 1" "ge_scratch E (p * region) = None"
    | "1 < p" "ge_scratch E (p * region) = None"
  proof (cases "ge_scratch E (p * region)")
    case None
    then show ?thesis using that(1,3,4) by (cases "p = 0"; cases "p = 1") simp_all
  next
    case (Some w)
    then show ?thesis using that(1,2) by (cases "p = 0") simp_all
  qed
  then show ?case
  proof cases
    case 2
    then show ?thesis by (subst alloc_pool.simps) (auto intro!: exI [of _ 0])
  next
    case 3
    have "(1 :: nat) div 2 ^ Suc j = 0" for j using one_less_power [of "2 :: nat" "Suc j"] by (intro div_less) simp
    then have "ge_scratch E (1 div 2 ^ i * region) = None" if "0 < (1 :: nat) div 2 ^ i" for i using that 3 by (cases i) simp_all
    then show ?thesis using 3 by (subst alloc_pool.simps) simp
  next
    case 4
    have eq: "alloc_pool E region p = alloc_pool E region (p div 2)" using 4 by (subst alloc_pool.simps) simp
    have IH: "case alloc_pool E region (p div 2) of
       None \<Rightarrow> \<forall>i. 0 < p div 2 ^ Suc i \<longrightarrow> ge_scratch E (p div 2 ^ Suc i * region) = None
     | Some (q, w) \<Rightarrow> \<exists>i. q = p div 2 ^ Suc i \<and> 0 < q \<and> ge_scratch E (q * region) = Some w
         \<and> (\<forall>j<i. ge_scratch E (p div 2 ^ Suc j * region) = None)"
      using 1 4 unfolding half by simp
    show ?thesis
    proof (cases "alloc_pool E region (p div 2)")
      case None
      then have "ge_scratch E (p div 2 ^ i * region) = None" if "0 < p div 2 ^ i" for i
        using IH that 4(2) by (cases i) simp_all
      then show ?thesis using eq None by simp
    next
      case (Some a)
      obtain q w where a: "a = (q, w)" by fastforce
      then obtain i where i: "q = p div 2 ^ Suc i" "0 < q" "ge_scratch E (q * region) = Some w"
        "\<forall>j<i. ge_scratch E (p div 2 ^ Suc j * region) = None" using IH Some by auto
      have "ge_scratch E (p div 2 ^ j * region) = None" if "j < Suc i" for j
        using i(4) 4(2) that by (cases j) simp_all
      then show ?thesis using eq Some a i(1-3) by (auto intro!: exI [of _ "Suc i"])
    qed
  qed (simp add: alloc_pool.simps)
qed

lemma choose_pool_fits:
  fixes f region cap num :: nat
  defines "p \<equiv> choose_pool f region cap num"
  shows "p \<le> max num 1" "1 < p \<Longrightarrow> p * region + 64 * 2 ^ 20 \<le> f"
proof -
  show "p \<le> max num 1" by (auto simp: p_def choose_pool_def Let_def)
  assume "1 < p"
  then have "p \<le> (if region \<noteq> 0 then (if f > 64 * 2 ^ 20 then f - 64 * 2 ^ 20 else 0) div region else 0)"
    by (auto simp: p_def choose_pool_def Let_def split: if_splits)
  then have r: "region \<noteq> 0" "f > 64 * 2 ^ 20" "p \<le> (f - 64 * 2 ^ 20) div region" using \<open>1 < p\<close> by (auto split: if_splits)
  have "p * region \<le> (f - 64 * 2 ^ 20) div region * region" by (rule mult_le_mono1 [OF r(3)])
  also have "\<dots> \<le> f - 64 * 2 ^ 20" by (rule div_times_less_eq_dividend)
  finally show "p * region + 64 * 2 ^ 20 \<le> f" using r(2) by simp
qed

text \<open>A run that returns 0 has seen no failure.\<close>

lemma run_batches_reports:
  assumes "run_batches batch seeds pool num k base d = Some (True, d')"
    and ok: "\<And>k base bc d1 d2. batch k base bc (seeds base bc) d1 = Some (True, d2) \<Longrightarrow> fine k"
  shows "\<forall>j. base + j * pool < num \<longrightarrow> fine (k + j)"
  using assms(1)
proof (induction "num - base" arbitrary: k base d rule: less_induct)
  case less
  show ?case
  proof (intro allI impI)
    fix j assume j: "base + j * pool < num"
    let ?bc = "unat (of_nat (if num - base < pool then num - base else pool) :: u32)"
    obtain d1 where d1: "0 < pool" "batch k base ?bc (seeds base ?bc) d = Some (True, d1)"
      "run_batches batch seeds pool num (k + 1) (base + pool) d1 = Some (True, d')"
      using less.prems j by (subst (asm) run_batches.simps) (auto simp: Let_def split: if_splits Option.bind_splits)
    show "fine (k + j)"
    proof (cases j)
      case 0
      then show ?thesis using ok [OF d1(2)] by simp
    next
      case (Suc i)
      then have "base + pool + i * pool < num" using j by simp
      then have "fine (k + 1 + i)" using less.hyps [OF _ d1(3)] d1(1) by auto
      then show ?thesis using Suc by simp
    qed
  qed
qed

lemma driver_reports:
  assumes "gpu_driver E region cap batch seeds num persist = Some r" "o_rc r = 0"
    and ok: "\<And>k base bc d1 d2. batch k base bc (seeds base bc) d1 = Some (True, d2) \<Longrightarrow> fine k"
  shows "ge_d_seeds E \<and> ge_h_seeds E \<and> ge_memset E \<and> (\<exists>pool w. alloc_pool E region (choose_pool (ge_free E) region cap num) = Some (pool, w)
    \<and> (\<forall>k. k * pool < num \<longrightarrow> fine k))"
proof -
  obtain pool w where a: "alloc_pool E region (choose_pool (ge_free E) region cap num) = Some (pool, w)" "ge_d_seeds E" "ge_h_seeds E"
    using assms(1,2) by (auto simp: gpu_driver_def split: option.splits if_splits)
  then obtain d where d: "run_batches batch seeds pool num 0 0 \<lparr>dv_work = w, dv_persist = persist\<rparr> = Some (True, d)" "ge_memset E"
    using assms(1,2) by (auto simp: gpu_driver_def split: if_splits Option.bind_splits)
  then show ?thesis using a run_batches_reports [OF d(1), of fine, OF ok] by simp
qed

text \<open>The calls of batch \<open>k\<close>.\<close>

definition batch_calls :: "strategy \<Rightarrow> gpu_env \<Rightarrow> nat \<Rightarrow> bool" where
  "batch_calls S E k \<longleftrightarrow> ge_copy E k \<and> ge_launch E k \<and> (S = LEVEL \<longrightarrow> ge_launch_extract E k) \<and> ge_sync E k"

definition region_bytes_of :: "strategy \<Rightarrow> topo \<Rightarrow> nat" where
  "region_bytes_of S T = (if S = LEVEL then unat (t_count T) * 32 else t_pool_size T * 32)"

lemma run_reports:
  assumes "label_gpu_run S al H E ctx persist = Some r" "o_rc r = 0"
  shows "ge_d_seeds E \<and> ge_h_seeds E \<and> ge_memset E
    \<and> (\<exists>pool w. alloc_pool E (region_bytes_of S (ctx_topo ctx))
          (choose_pool (ge_free E) (region_bytes_of S (ctx_topo ctx)) (resident S E) (ctx_num_super ctx)) = Some (pool, w)
       \<and> (\<forall>k. k * pool < ctx_num_super ctx \<longrightarrow> batch_calls S E k))"
proof -
  have chunk: "batch_calls S E k" if "chunk_batch al T E k base bc seeds d1 = Some (True, d2)" "S \<noteq> LEVEL" for T k base bc seeds d1 d2
    using that by (auto simp: chunk_batch_def batch_calls_def split: if_splits Option.bind_splits)
  have level: "batch_calls S E k" if "level_batch al T E k base bc seeds d1 = Some (True, d2)" for T k base bc seeds d1 d2
    using that by (auto simp: level_batch_def batch_calls_def split: if_splits Option.bind_splits)
  show ?thesis
    using assms driver_reports [where fine = "batch_calls S E", OF _ assms(2)] chunk level
    by (cases S)
      (force simp: label_gpu_run_def label_gpu_run_level_def label_gpu_run_block_def label_gpu_run_thread_def label_gpu_run_warp_def
        region_bytes_of_def split: if_splits)+
qed

lemma choose_pool_range: "0 < choose_pool f region cap num" "choose_pool f region cap num \<le> max cap 1"
  by (auto simp: choose_pool_def Let_def)

context batch_kernel begin

text \<open>The whole run. The scratch of a run that returns 0 is freed as zeros.\<close>

lemma driver_ok:
  assumes ready "cap < 2 ^ 32" "\<And>n w. ge_scratch E n = Some w \<Longrightarrow> length w = n" "num * super \<le> length persist"
  shows "\<exists>r. gpu_driver E region cap batch seeds num persist = Some r \<and> o_rc r \<in> {0, -1}
    \<and> agree_off {..<num * super} persist (o_persist r)
    \<and> (o_rc r = 0 \<longrightarrow> stored 0 num (o_persist r) \<and> (\<exists>n. o_freed r = Some (replicate n 0)))
    \<and> (good \<and> (\<forall>n. ge_scratch E n \<noteq> None) \<and> ge_d_seeds E \<and> ge_h_seeds E \<and> ge_memset E \<longrightarrow> o_rc r = 0)"
proof (cases "alloc_pool E region (choose_pool (ge_free E) region cap num)")
  case None
  have "\<not> (\<forall>n. ge_scratch E n \<noteq> None)"
    using None alloc_pool_total [OF choose_pool_range(1) [of "ge_free E" region cap num]] by blast
  then show ?thesis using None by (auto simp: gpu_driver_def)
next
  case (Some a)
  obtain pool w where a: "a = (pool, w)" by fastforce
  have p: "0 < pool" "pool < 2 ^ 32" "pool \<le> max cap 1" "length w = pool * region"
    using alloc_pool_range [OF Some [unfolded a]] choose_pool_range(2) [of "ge_free E" region cap num] assms(2,3)
    by (fastforce simp: max_def split: if_splits)+
  from batches_ok [OF \<open>ready\<close> p(1-3), of "\<lparr>dv_work = w, dv_persist = persist\<rparr>" num 0 0] p(4) assms(4) empty
  obtain ok d where d: "run_batches batch seeds pool num 0 0 \<lparr>dv_work = w, dv_persist = persist\<rparr> = Some (ok, d)"
    "length (dv_work d) = pool * region" "agree_off {..<num * super} persist (dv_persist d)"
    "ok \<longrightarrow> stored 0 num (dv_persist d)" "good \<longrightarrow> ok" by (auto simp: lessThan_atLeast0)
  then show ?thesis using Some a by (auto simp: gpu_driver_def)
qed

end

subsection \<open>What the runtime guarantees\<close>

text \<open>The kernel that a batch of each strategy launches, and its runs.\<close>

definition kernel_events :: "strategy \<Rightarrow> topo \<Rightarrow> gpu_env \<Rightarrow> nat \<Rightarrow> (nat \<times> nat) list \<Rightarrow> bool" where
  "kernel_events S T E bc evs = (case S of
       LEVEL \<Rightarrow> if ge_coop_grid E > 0 then k_label_all_levels (ge_coop_grid E * block) T bc evs else level_launches block T bc evs
     | BLOCK \<Rightarrow> k_label_chunk_block block T bc evs
     | THREAD \<Rightarrow> k_label_chunk_thread ((bc + block - 1) div block) block T bc evs
     | WARP \<Rightarrow> k_label_chunk_warp ((bc + kWarpsPerBlock - 1) div kWarpsPerBlock) T bc evs)"

text \<open>
  A kernel whose launch and synchronisation succeed has run to its end; one that fails may have run in part. An
  allocation has the size it was asked for. The grids of the per-chunk kernels are computed in 32 bits and
  no device has so many resident threads that they wrap.
\<close>

definition gpu_env_ok :: "strategy \<Rightarrow> topo \<Rightarrow> gpu_env \<Rightarrow> bool" where
  "gpu_env_ok S T E \<longleftrightarrow> resident S E < 2 ^ 26 \<and> (\<forall>n w. ge_scratch E n = Some w \<longrightarrow> length w = n)
     \<and> (\<forall>k bc. 0 < bc \<longrightarrow> (\<exists>rest. kernel_events S T E bc (ge_events E k bc @ rest)
          \<and> (ge_launch E k \<and> ge_sync E k \<and> (S = LEVEL \<longrightarrow> \<not> grid_too_large T E bc) \<longrightarrow> rest = [])))
     \<and> (\<forall>k bc. 0 < bc \<longrightarrow> (\<exists>rest. k_extract_outputs ((unat (t_chunk_blocks T) * bc + block - 1) div block) block bc (unat (t_chunk_blocks T))
            (ge_extract E k bc @ rest) \<and> (ge_launch_extract E k \<and> ge_sync E k \<longrightarrow> rest = [])))"

text \<open>No call of the runtime fails.\<close>

definition gpu_calls_succeed :: "gpu_env \<Rightarrow> bool" where
  "gpu_calls_succeed E \<longleftrightarrow> (\<forall>k. ge_copy E k \<and> ge_launch E k \<and> ge_launch_extract E k \<and> ge_sync E k)"

definition gpu_memory :: "gpu_env \<Rightarrow> bool" where
  "gpu_memory E \<longleftrightarrow> (\<forall>n. ge_scratch E n \<noteq> None) \<and> ge_d_seeds E \<and> ge_h_seeds E \<and> ge_memset E"

subsection \<open>The contract holds\<close>

lemma grid_covers: "0 < b \<Longrightarrow> n \<le> (n + b - 1) div b * b" for n b :: nat
  using div_mult_mod_eq [of "n + b - 1" b] mod_less_divisor [of b "n + b - 1"] by linarith

lemma topo_scheduled: "topo_for S h cb N level T \<Longrightarrow> scheduled_topo level T"
  using topo_forD [of S h cb N level T] by (simp add: scheduled_topo_def levels_ok_def)

lemma kernel_full_run:
  assumes "topo_for S h cb N level T" "kernel_events S T E bc evs"
  shows "full_run level T bc evs"
proof -
  note so = topo_scheduled [OF assms(1)]
  have b: "0 < block" "0 < kWarpsPerBlock" by (simp_all add: block_def kWarpsPerBlock_def kBlockThreads_def kWarpSize_def)
  show ?thesis
  proof (cases S)
    case LEVEL
    then show ?thesis
      using assms(2) all_levels_full_run [OF so, of "ge_coop_grid E * block" bc evs] level_launches_full_run [OF so b(1)] b(1)
      by (simp add: kernel_events_def split: if_splits)
  next
    case BLOCK
    then show ?thesis using assms(2) block_full_run [OF so b(1)] by (simp add: kernel_events_def)
  next
    case THREAD
    then show ?thesis using assms(2) thread_full_run [OF so grid_covers [OF b(1)]] by (simp add: kernel_events_def)
  next
    case WARP
    then show ?thesis using assms(2) warp_full_run [OF so grid_covers [OF b(2)]] by (simp add: kernel_events_def)
  qed
qed

lemma rd_concat:
  assumes "\<And>t. t < n \<Longrightarrow> length (f t) = 32" "t < n"
  shows "rd (concat (map f [0..<n])) (t * 32) 32 = Some (f t)"
proof -
  have len: "length (concat (map f [a..<b])) = (b - a) * 32" if "b \<le> n" for a b
  proof -
    have "map (length \<circ> f) [a..<b] = map (\<lambda>x. 32) [a..<b]" using assms(1) that by (intro map_cong) simp_all
    then have "sum_list (map length (map f [a..<b])) = sum_list (map (\<lambda>x. 32) [a..<b])" by (simp only: map_map)
    also have "\<dots> = (b - a) * 32" by (simp add: sum_list_triv)
    finally show ?thesis by (simp only: length_concat)
  qed
  have "[0..<n] = [0..<t] @ t # [Suc t..<n]" using assms(2) by (metis upt_conv_Cons upt_join less_imp_le zero_le)
  then have c: "concat (map f [0..<n]) = concat (map f [0..<t]) @ f t @ concat (map f [Suc t..<n])" by simp
  show ?thesis unfolding c using len [of t 0] len [of n "Suc t"] assms by (simp add: rd_def)
qed

lemma seeds_rd:
  assumes "hw_ok h" "length seed + 8 \<le> BLAKE3_CHUNK_LEN"
  shows "\<forall>t<bc. rd (batch_seeds (pose_labeler h) seed off cb base bc) (t * 32) 32 = Some (super_seed (pose_labeler h) seed off cb (base + t))"
  unfolding batch_seeds_def using length_chunk_seed [OF assms] by (intro allI impI rd_concat) (simp_all add: super_seed_def)

text \<open>The super-chunks of a buffer, each labelled under its own seed.\<close>

definition supers_stored :: "hw \<Rightarrow> u32 \<Rightarrow> bytes \<Rightarrow> u64 \<Rightarrow> nat \<Rightarrow> nat \<Rightarrow> bytes \<Rightarrow> bool" where
  "supers_stored h cb seed off base bc persist \<longleftrightarrow>
     outputs_stored h cb (\<lambda>t. super_seed (pose_labeler h) seed off (unat cb) (base + t)) base bc persist"

lemma supers_stored_frame:
  assumes "supers_stored h cb seed off base bc p" "agree_off {a..<b} p p'" "(base + bc) * (unat cb * 32) \<le> a"
  shows "supers_stored h cb seed off base bc p'"
  unfolding supers_stored_def outputs_stored_def
proof (intro allI impI)
  fix t r assume tr: "t < bc" "r < unat cb"
  have "(base + t) * (unat cb * 32) + (r * 32 + 32) \<le> (base + bc) * (unat cb * 32)"
    using region_room [of "base + t" "base + bc" "r * 32 + 32" "unat cb * 32" "(base + bc) * (unat cb * 32)"] tr by simp
  then have "cells_of ((base + t) * (unat cb * 32) + r * 32) 32 \<inter> {a..<b} = {}" using assms(3) by auto
  from rd_frame [OF assms(2) this]
  show "rd p' ((base + t) * (unat cb * 32) + r * 32) 32 = Some (output_labels (pose_labeler h)
      (super_seed (pose_labeler h) seed off (unat cb) (base + t)) (ucast cb) POSE_HASH_BLAKE3 ! r)"
    using assms(1) tr unfolding supers_stored_def outputs_stored_def by blast
qed

lemma supers_stored_join:
  assumes "supers_stored h cb seed off base m p" "supers_stored h cb seed off (base + m) n p"
  shows "supers_stored h cb seed off base (m + n) p"
  unfolding supers_stored_def outputs_stored_def
proof (intro allI impI)
  fix t r assume tr: "t < m + n" "r < unat cb"
  show "rd p ((base + t) * (unat cb * 32) + r * 32) 32 = Some (output_labels (pose_labeler h)
      (super_seed (pose_labeler h) seed off (unat cb) (base + t)) (ucast cb) POSE_HASH_BLAKE3 ! r)"
  proof (cases "t < m")
    case True
    then show ?thesis using assms(1) tr(2) by (simp add: supers_stored_def outputs_stored_def)
  next
    case False
    then have "t - m < n" "base + m + (t - m) = base + t" using tr(1) by simp_all
    then show ?thesis using assms(2) tr(2) unfolding supers_stored_def outputs_stored_def by metis
  qed
qed

definition batch_ready :: "strategy \<Rightarrow> hw \<Rightarrow> u32 \<Rightarrow> pose_node list \<Rightarrow> nat list \<Rightarrow> topo \<Rightarrow> gpu_env \<Rightarrow> bytes \<Rightarrow> bool" where
  "batch_ready S h cb N level T E seed \<longleftrightarrow> hw_ok h \<and> topo_for S h cb N level T \<and> gpu_env_ok S T E
     \<and> length seed + 8 \<le> BLAKE3_CHUNK_LEN"

text \<open>The per-chunk kernels.\<close>

lemma chunk_batch_ok:
  assumes ready: "batch_ready S h cb N level T E seed" and S: "LABEL_GPU_USES_SLOT_MAP S" and bc: "0 < bc"
    and room: "bc * (t_pool_size T * 32) \<le> length (dv_work d)" "(base + bc) * (unat cb * 32) \<le> length (dv_persist d)"
  shows "\<exists>ok d'. chunk_batch al T E k base bc (batch_seeds (pose_labeler h) seed off (unat cb) base bc) d = Some (ok, d')
    \<and> length (dv_work d') = length (dv_work d)
    \<and> agree_off {base * (unat cb * 32)..<(base + bc) * (unat cb * 32)} (dv_persist d) (dv_persist d')
    \<and> (ok \<longrightarrow> supers_stored h cb seed off base bc (dv_persist d')) \<and> (gpu_calls_succeed E \<longrightarrow> ok)"
proof (cases "ge_copy E k \<and> ge_launch E k")
  case True
  have r: "hw_ok h" "topo_for S h cb N level T" "gpu_env_ok S T E" "length seed + 8 \<le> BLAKE3_CHUNK_LEN"
    using ready by (simp_all add: batch_ready_def)
  note D = topo_forD [OF r(2)]
  obtain slot lu where sl: "d_slot T = Some slot" "d_rank T = Some (map challenge_rank N)" "length N \<le> length slot"
    "uses_ok N level lu" "\<forall>i<length N. slot ! i < t_pool_size T" "apart_while_live level lu ((!) slot)"
    using D(22) S by (auto simp: slots_for_def)
  have plan: "plan_ok N level lu ((!) slot) (t_pool_size T * 32)"
    using sl(4-6) by (fastforce simp: plan_ok_def)
  let ?sd = "\<lambda>t. super_seed (pose_labeler h) seed off (unat cb) (base + t)"
  have set: "run_setting S h cb N level T lu ((!) slot) (t_pool_size T * 32) (batch_seeds (pose_labeler h) seed off (unat cb) base bc) ?sd bc"
    using r(1,2) plan seeds_rd [OF r(1,4)] by (simp add: run_setting_def)
  obtain rest where rest: "kernel_events S T E bc (ge_events E k bc @ rest)"
    "ge_launch E k \<and> ge_sync E k \<and> (S = LEVEL \<longrightarrow> \<not> grid_too_large T E bc) \<longrightarrow> rest = []"
    using r(3) bc unfolding gpu_env_ok_def by blast
  from chunk_run_ok [OF set sl(3) kernel_full_run [OF r(2) rest(1)] room]
  obtain d' where d': "run_events (chunk_event al T slot (map challenge_rank N) base (batch_seeds (pose_labeler h) seed off (unat cb) base bc)) (ge_events E k bc) d = Some d'"
    "length (dv_work d') = length (dv_work d)" "agree_off {base * (unat cb * 32)..<(base + bc) * (unat cb * 32)} (dv_persist d) (dv_persist d')"
    "rest = [] \<longrightarrow> outputs_stored h cb ?sd base bc (dv_persist d')" by blast
  have "chunk_batch al T E k base bc (batch_seeds (pose_labeler h) seed off (unat cb) base bc) d = Some (ge_sync E k, d')"
    using True sl(1,2) d'(1) by (simp add: chunk_batch_def)
  moreover have "rest = []" if "ge_sync E k" using rest(2) True that S by (auto simp: LABEL_GPU_USES_SLOT_MAP_def)
  ultimately show ?thesis using d'(2-4) by (auto simp: supers_stored_def gpu_calls_succeed_def)
next
  case False
  then show ?thesis by (auto simp: chunk_batch_def gpu_calls_succeed_def)
qed

text \<open>The level kernels. No grid is ever too large.\<close>

lemma grids_fit:
  assumes "topo_for S h cb N level T" "w \<le> POSE_GPU_WAVE_CAP"
  shows "\<not> grid_too_large T E w" "\<not> (unat (t_chunk_blocks T) * w + block - 1) div block > 0x7FFFFFFF"
proof -
  note D = topo_forD [OF assms(1)]
  have w: "w \<le> 64" using assms(2) by (simp add: POSE_GPU_WAVE_CAP_def)
  have g: "(n * w + block - 1) div block \<le> 0x7FFFFFFF" if "n < 2 ^ 31" for n
  proof -
    have "n * w \<le> 2 ^ 31 * 64" using that w by (intro mult_le_mono) simp_all
    then have "n * w + block - 1 \<le> 2 ^ 37 + 255" by (simp add: block_def)
    then show ?thesis by (simp add: block_def div_le_mono [of _ "2 ^ 37 + 255" 256, THEN le_trans])
  qed
  have "n < 2 ^ 31" if n: "n \<in> set (t_level_count T)" for n
  proof -
    obtain l where l: "l < t_num_levels T" "n = t_level_start T ! (l + 1) - t_level_start T ! l"
      using n D(12,13) by (auto simp: in_set_conv_nth)
    have "t_level_start T ! (l + 1) \<le> t_level_start T ! t_num_levels T" using sorted_ids_starts [OF D(10)] l(1) by simp
    also have "\<dots> = length level" using D(10) by (simp add: sorted_ids_def)
    finally show ?thesis using l(2) D(4,9) by (simp add: levels_ok_def)
  qed
  then show "\<not> grid_too_large T E w" using g by (force simp: grid_too_large_def list_ex_iff not_less)
  have "unat cb < 2 ^ 31" using block_count_facts(5) [OF D(1,2)] by simp
  then show "\<not> (unat (t_chunk_blocks T) * w + block - 1) div block > 0x7FFFFFFF" using g D(6) by (simp add: not_less)
qed

lemma level_batch_ok:
  assumes ready: "batch_ready LEVEL h cb N level T E seed" and bc: "0 < bc" "bc \<le> POSE_GPU_WAVE_CAP"
    and room: "bc * (unat (t_count T) * 32) \<le> length (dv_work d)" "(base + bc) * (unat cb * 32) \<le> length (dv_persist d)"
  shows "\<exists>ok d'. level_batch al T E k base bc (batch_seeds (pose_labeler h) seed off (unat cb) base bc) d = Some (ok, d')
    \<and> length (dv_work d') = length (dv_work d)
    \<and> agree_off {base * (unat cb * 32)..<(base + bc) * (unat cb * 32)} (dv_persist d) (dv_persist d')
    \<and> (ok \<longrightarrow> supers_stored h cb seed off base bc (dv_persist d')) \<and> (gpu_calls_succeed E \<longrightarrow> ok)"
proof (cases "ge_copy E k")
  case copy: True
  have r: "hw_ok h" "topo_for LEVEL h cb N level T" "gpu_env_ok LEVEL T E" "length seed + 8 \<le> BLAKE3_CHUNK_LEN"
    using ready by (simp_all add: batch_ready_def)
  note D = topo_forD [OF r(2)] and fit = grids_fit [OF r(2) bc(2)]
  let ?seeds = "batch_seeds (pose_labeler h) seed off (unat cb) base bc" and ?A = "{base * (unat cb * 32)..<(base + bc) * (unat cb * 32)}"
  let ?sd = "\<lambda>t. super_seed (pose_labeler h) seed off (unat cb) (base + t)"
  obtain rest where rest: "kernel_events LEVEL T E bc (ge_events E k bc @ rest)" "ge_launch E k \<and> ge_sync E k \<longrightarrow> rest = []"
    using r(3) bc(1) fit(1) unfolding gpu_env_ok_def by blast
  from level_run_ok [OF r(1,2) seeds_rd [OF r(1,4)] kernel_full_run [OF r(2) rest(1)] room(1)]
  obtain d1 where d1: "run_events (level_event al T ?seeds) (ge_events E k bc) d = Some d1" "length (dv_work d1) = length (dv_work d)"
    "dv_persist d1 = dv_persist d"
    "rest = [] \<longrightarrow> (\<forall>t<bc. \<forall>x<length N. rd (dv_work d1) (t * (unat (t_count T) * 32) + x * 32) 32 = Some (region_labels h cb (?sd t) ! x))"
    by blast
  show ?thesis
  proof (cases "ge_launch E k")
    case False
    then show ?thesis using copy fit(1) d1(1-3) by (auto simp: level_batch_def gpu_calls_succeed_def)
  next
    case launch: True
    obtain ers where ers: "k_extract_outputs ((unat (t_chunk_blocks T) * bc + block - 1) div block) block bc (unat (t_chunk_blocks T)) (ge_extract E k bc @ ers)"
      "ge_launch_extract E k \<and> ge_sync E k \<longrightarrow> ers = []"
      using r(3) bc(1) unfolding gpu_env_ok_def by blast
    have "0 < block" by (simp add: block_def)
    then have "unat cb * bc \<le> (unat cb * bc + block - 1) div block * block" by (rule grid_covers)
    then have perm: "distinct (ge_extract E k bc @ ers)" "set (ge_extract E k bc @ ers) = {..<unat cb * bc}"
      using ers(1) D(6) unfolding k_extract_outputs_def by auto
    have rm: "bc * (unat (t_count T) * 32) \<le> length (dv_work d1)" "(base + bc) * (unat cb * 32) \<le> length (dv_persist d1)"
      using room d1(2,3) by simp_all
    from extract_run_ok [OF r(2) perm rm]
    obtain d2 where d2: "run_events (extract_event T base) (ge_extract E k bc) d1 = Some d2" "dv_work d2 = dv_work d1"
      "agree_off ?A (dv_persist d1) (dv_persist d2)"
      "\<forall>t\<in>set (ge_extract E k bc). rd (dv_persist d2) ((base + t div unat cb) * (unat cb * 32) + t mod unat cb * 32) 32
          = rd (dv_work d1) (t div unat cb * (unat (t_count T) * 32)
              + challenge_nodes (pose_graph_parameter_n (ucast cb)) (unat cb) ! (t mod unat cb) * 32) 32" by blast
    have "level_batch al T E k base bc ?seeds d = Some (ge_launch_extract E k \<and> ge_sync E k, d2)"
      using copy launch fit d1(1) d2(1) by (simp add: level_batch_def)
    moreover have "supers_stored h cb seed off base bc (dv_persist d2)" if ok: "ge_launch_extract E k" "ge_sync E k"
    proof -
      have "rest = []" "ers = []" using rest(2) ers(2) launch ok by simp_all
      then have "\<forall>t<bc. \<forall>x<length N. rd (dv_work d1) (t * (unat (t_count T) * 32) + x * 32) 32 = Some (region_labels h cb (?sd t) ! x)"
        "set (ge_extract E k bc) = {..<unat cb * bc}" using d1(4) perm(2) by simp_all
      then show ?thesis unfolding supers_stored_def using extracted_outputs [OF r(2), of bc "dv_work d1" ?sd "dv_persist d2" base] d2(4) by simp
    qed
    ultimately show ?thesis using d1(2,3) d2(2,3) by (auto simp: gpu_calls_succeed_def)
  qed
qed (auto simp: level_batch_def gpu_calls_succeed_def)

subsection \<open>The strategies\<close>

lemma supers_stored_empty: "supers_stored h cb seed off base 0 p"
  by (simp add: supers_stored_def outputs_stored_def)

interpretation level_wave: batch_kernel "batch_ready LEVEL h cb N level T E seed" "gpu_calls_succeed E" "level_batch al T E"
    "batch_seeds (pose_labeler h) seed off (unat cb)" "unat (t_count T) * 32" "unat cb * 32" "resident LEVEL E"
    "supers_stored h cb seed off"
  for h cb N level T E seed al off
proof (unfold_locales, goal_cases)
  case (1 bc d base k)
  then show ?case by (intro level_batch_ok) (simp_all add: resident_def POSE_GPU_WAVE_CAP_def Let_def)
qed (fact supers_stored_frame supers_stored_join supers_stored_empty)+

interpretation chunk_batches: batch_kernel "batch_ready S h cb N level T E seed \<and> LABEL_GPU_USES_SLOT_MAP S" "gpu_calls_succeed E"
    "chunk_batch al T E" "batch_seeds (pose_labeler h) seed off (unat cb)" "t_pool_size T * 32" "unat cb * 32" "resident S E"
    "supers_stored h cb seed off"
  for S h cb N level T E seed al off
proof (unfold_locales, goal_cases)
  case (1 bc d base k)
  then show ?case using chunk_batch_ok [of S h cb N level T E seed bc d base al k off] by simp
qed (fact supers_stored_frame supers_stored_join supers_stored_empty)+

lemma gpu_run_ok:
  fixes off :: u64
  assumes "batch_ready S h cb N level T E seed" "num * (unat cb * 32) \<le> length persist"
  defines "ctx \<equiv> \<lparr>ctx_topo = T, ctx_seed = seed, ctx_offset = off, ctx_num_super = num\<rparr>"
  shows "\<exists>r. label_gpu_run S al (pose_labeler h) E ctx persist = Some r \<and> o_rc r \<in> {0, -1}
    \<and> agree_off {..<num * (unat cb * 32)} persist (o_persist r)
    \<and> (o_rc r = 0 \<longrightarrow> supers_stored h cb seed off 0 num (o_persist r) \<and> (\<exists>n. o_freed r = Some (replicate n 0)))
    \<and> (gpu_calls_succeed E \<and> gpu_memory E \<longrightarrow> o_rc r = 0)"
proof -
  have topo: "topo_for S h cb N level T" and env: "gpu_env_ok S T E" using assms(1) by (simp_all add: batch_ready_def)
  note D = topo_forD [OF topo]
  have cap: "resident S E < 2 ^ 32" and scr: "\<And>n w. ge_scratch E n = Some w \<Longrightarrow> length w = n"
    using env by (auto simp: gpu_env_ok_def)
  have seeds: "ctx_seeds (pose_labeler h) ctx = batch_seeds (pose_labeler h) seed off (unat cb)"
    using D(6) by (simp add: ctx_seeds_def ctx_def)
  have mem: "gpu_calls_succeed E \<and> gpu_memory E \<longleftrightarrow>
      gpu_calls_succeed E \<and> (\<forall>n. ge_scratch E n \<noteq> None) \<and> ge_d_seeds E \<and> ge_h_seeds E \<and> ge_memset E"
    by (simp add: gpu_memory_def)
  show ?thesis
  proof (cases "S = LEVEL")
    case True
    show ?thesis
      using level_wave.driver_ok [where al = al and off = off, OF assms(1) [unfolded True] cap [unfolded True] scr assms(2)] unfolding mem
      by (simp add: True label_gpu_run_def label_gpu_run_level_def seeds) (simp add: ctx_def)
  next
    case False
    then have S: "LABEL_GPU_USES_SLOT_MAP S" by (cases S) (simp_all add: LABEL_GPU_USES_SLOT_MAP_def)
    have "N \<noteq> []"
      using D(3) scount_pos [of "pose_graph_parameter_n (ucast cb)"] by (auto simp: edges_spec_def simp del: scount_pos)
    moreover have "slots_for N level T" using D(22) S by simp
    ultimately have ps: "t_pool_size T \<noteq> 0" by (auto simp: slots_for_def)
    from chunk_batches.driver_ok [where al = al and off = off, OF conjI [OF assms(1) S] cap scr assms(2)] show ?thesis
      using False ps unfolding mem
      by (cases S) (simp_all add: label_gpu_run_def label_gpu_run_block_def label_gpu_run_thread_def label_gpu_run_warp_def seeds, simp_all add: ctx_def)
  qed
qed

subsection \<open>The entry points\<close>

text \<open>The super-chunks of a buffer are the full chunks of a region as the verifier knows it.\<close>

lemma supers_stored_blocks:
  assumes "cb \<noteq> 0" "num * unat cb \<le> tot" "supers_stored h cb seed off 0 num R"
  shows "blocks_labelled (pose_labeler h) seed off POSE_HASH_BLAKE3 tot (unat cb) (num * unat cb) R"
  unfolding blocks_labelled_def
proof (intro allI impI)
  fix b assume b: "b < num * unat cb"
  have cb: "0 < unat cb" using assms(1) by (simp add: unat_gt_0)
  let ?j = "b div unat cb" and ?r = "b mod unat cb"
  have j: "?j < num" "?r < unat cb" using b cb by (simp_all add: less_mult_imp_div_less)
  then have "(?j + 1) * unat cb \<le> num * unat cb" by (intro mult_le_mono1) simp
  then have "unat cb \<le> tot - ?j * unat cb" using assms(2) by simp
  then have m: "min (unat cb) (tot - ?j * unat cb) = unat cb" by simp
  have "chunk_index off (?j * unat cb) (unat cb) = super_index off (of_nat ?j) (unat cb)"
    by (simp add: chunk_index_def super_index_def)
  then have "block_label (pose_labeler h) seed off POSE_HASH_BLAKE3 tot (unat cb) b
      = output_labels (pose_labeler h) (super_seed (pose_labeler h) seed off (unat cb) ?j) (ucast cb) POSE_HASH_BLAKE3 ! ?r"
    by (simp add: block_label_def Let_def m super_seed_def)
  moreover have "b * 32 = ?j * (unat cb * 32) + ?r * 32"
    by (metis add_mult_distrib div_mult_mod_eq mult.assoc)
  ultimately show "rd R (b * POSE_HASH_BYTES) POSE_HASH_BYTES = Some (block_label (pose_labeler h) seed off POSE_HASH_BLAKE3 tot (unat cb) b)"
    using assms(3) j unfolding supers_stored_def outputs_stored_def by (simp add: POSE_HASH_BYTES_def)
qed

lemma topo_label_ok:
  assumes "batch_ready S h cb N level T E seed" "unat hbm_len \<le> length R"
  defines "num \<equiv> unat hbm_len div (unat cb * 32)"
  shows "\<exists>r. pose_graph_hbm_topo_label S al (pose_labeler h) E (Some T) seed R hbm_len off = Some r \<and> o_rc r \<in> {0, -1}
    \<and> agree_off {..<num * (unat cb * 32)} R (o_persist r)
    \<and> (o_rc r = 0 \<longrightarrow> blocks_labelled (pose_labeler h) seed off POSE_HASH_BLAKE3 (unat hbm_len div 32) (unat cb) (num * unat cb) (o_persist r)
          \<and> (\<forall>w. o_freed r = Some w \<longrightarrow> (\<exists>n. w = replicate n 0)))
    \<and> (gpu_calls_succeed E \<and> gpu_memory E \<longrightarrow> o_rc r = 0)"
proof -
  have topo: "topo_for S h cb N level T" using assms(1) by (simp add: batch_ready_def)
  note D = topo_forD [OF topo] and sb = super_bytes [OF topo]
  have n: "unat (hbm_len div t_super_bytes T) = num" using sb by (simp add: num_def unat_div)
  have le: "num * (unat cb * 32) \<le> length R" using assms(2) by (simp add: num_def) (metis div_times_less_eq_dividend le_trans)
  have tot: "num * unat cb \<le> unat hbm_len div 32"
    unfolding num_def mult.commute [of "unat cb"] div_mult2_eq by (rule div_times_less_eq_dividend)
  show ?thesis
  proof (cases "hbm_len div t_super_bytes T = 0")
    case True
    then have "num = 0" using n by simp
    then show ?thesis using True by (simp add: pose_graph_hbm_topo_label_def blocks_labelled_def)
  next
    case False
    from gpu_run_ok [where al = al and off = off, OF assms(1) le] show ?thesis
      using False n supers_stored_blocks [OF D(1) tot]
      by (auto simp: pose_graph_hbm_topo_label_def)
  qed
qed

text \<open>
  Labeling in one call. What the runtime guarantees is asked for the topology that is built, if one is.
\<close>

definition gpu_env_for ::
  "strategy \<Rightarrow> hw \<Rightarrow> hash_state \<Rightarrow> (nat \<Rightarrow> u64 \<Rightarrow> bytes option) \<Rightarrow> cuda \<Rightarrow> u32 \<Rightarrow> hash_algo \<Rightarrow> gpu_env \<Rightarrow> bool" where
  "gpu_env_for S h hs malloc C cb algo E \<longleftrightarrow>
     (\<forall>T hs'. pose_graph_hbm_topo_build S h hs malloc C cb algo = Some (Some T, hs') \<longrightarrow> gpu_env_ok S T E)"

lemma label_hbm_ok:
  assumes "hw_ok h" "state_ok h hs" "malloc_ok malloc" "unat hbm_len \<le> length R" "length seed + 8 \<le> BLAKE3_CHUNK_LEN"
    and env: "gpu_env_for S h hs malloc C cb algo E"
  defines "m \<equiv> unat (resolve_chunk_blocks cb)"
  defines "num \<equiv> unat hbm_len div (m * 32)"
  shows "\<exists>r hs'. pose_graph_label_hbm S al h hs malloc C E seed cb R hbm_len off algo = Some (r, hs') \<and> state_ok h hs' \<and> o_rc r \<in> {0, -1}
    \<and> agree_off {..<num * (m * 32)} R (o_persist r)
    \<and> (o_rc r = 0 \<longrightarrow> algo = POSE_HASH_BLAKE3
          \<and> blocks_labelled (pose_labeler h) seed off POSE_HASH_BLAKE3 (unat hbm_len div 32) m (num * m) (o_persist r)
          \<and> (\<forall>w. o_freed r = Some w \<longrightarrow> (\<exists>n. w = replicate n 0)))
    \<and> (algo = POSE_HASH_BLAKE3 \<and> resolve_chunk_blocks cb \<le> ucast POSE_GRAPH_MAX_M \<and> (\<forall>i s. malloc i s \<noteq> None)
         \<and> (\<forall>k n. cu_malloc C k n \<noteq> None) \<and> (\<forall>k. cu_memcpy C k) \<and> gpu_calls_succeed E \<and> gpu_memory E \<longrightarrow> o_rc r = 0)"
proof (cases "algo = POSE_HASH_BLAKE3")
  case False
  then show ?thesis using assms(2) by (simp add: pose_graph_label_hbm_def)
next
  case al: True
  define c where "c = resolve_chunk_blocks cb"
  have c0: "c \<noteq> 0" by (simp add: c_def resolve_chunk_blocks_def POSE_CHUNK_BLOCKS_def)
  have cc: "(if cb = 0 then POSE_CHUNK_BLOCKS else cb) = c" by (simp add: c_def resolve_chunk_blocks_def)
  note sb = super_chunk_bytes [OF c0]
  have build: "pose_graph_hbm_topo_build S h hs malloc C c algo = pose_graph_hbm_topo_build S h hs malloc C cb algo"
    using c0 cc by (simp add: pose_graph_hbm_topo_build_def)
  note build = build [unfolded al]
  have m: "m = unat c" by (simp add: m_def c_def)
  show ?thesis
  proof (cases "hbm_len div (pose_graph_super_chunk_blocks c * 32) = 0")
    case True
    then have "num = 0" using sb(2) by (simp add: num_def m unat_div unat_eq_zero [symmetric])
    then show ?thesis using True al sb(1) assms(2) by (simp add: pose_graph_label_hbm_def Let_def cc blocks_labelled_def)
  next
    case False
    from topo_build_ok [OF assms(1-3), of S C cb algo] obtain t hs' where t: "pose_graph_hbm_topo_build S h hs malloc C cb algo = Some (t, hs')"
      "state_ok h hs'" "\<And>T. t = Some T \<Longrightarrow> \<exists>N level. topo_for S h c N level T"
      "c \<le> ucast POSE_GRAPH_MAX_M \<and> (\<forall>i s. malloc i s \<noteq> None) \<and> (\<forall>k n. cu_malloc C k n \<noteq> None) \<and> (\<forall>k. cu_memcpy C k) \<longrightarrow> t \<noteq> None"
      using al unfolding c_def by blast
    show ?thesis
    proof (cases t)
      case None
      then show ?thesis using t(1,2,4) al sb(1) False by (auto simp: pose_graph_label_hbm_def Let_def cc build c_def [symmetric])
    next
      case (Some T)
      then obtain N level where "topo_for S h c N level T" using t(3) by blast
      then have "batch_ready S h c N level T E seed"
        using assms(1,5) env t(1) Some by (simp add: batch_ready_def gpu_env_for_def)
      from topo_label_ok [where al = al and off = off, OF this assms(4)] show ?thesis
        using t(1,2) Some al sb(1) False
        by (auto simp: pose_graph_label_hbm_def Let_def cc build m num_def)
    qed
  qed
qed

end
