(* ===== verification/Gpu_Reference.thy ===== *)
theory Gpu_Reference
  imports Gpu_Run
begin

section \<open>A device that runs its threads in order\<close>

text \<open>
  A run of the CUDA runtime on which the hypotheses of the GPU theorems hold: every call succeeds, memory is
  zero, and the kernels label region after region, or level after level, in the order of the schedule.
\<close>

definition in_order_events :: "strategy \<Rightarrow> topo \<Rightarrow> nat \<Rightarrow> (nat \<times> nat) list" where
  "in_order_events S T bc =
     (if S = LEVEL then
        concat (map (\<lambda>lv. wave_events (t_level_start T ! lv) (t_level_count T ! lv) [0..<t_level_count T ! lv * bc]) [0..<t_num_levels T])
      else concat (map (\<lambda>t. map (Pair t) [0..<unat (t_count T)]) [0..<bc]))"

definition in_order_env :: "strategy \<Rightarrow> nat \<Rightarrow> topo \<Rightarrow> gpu_env" where
  "in_order_env S g T = \<lparr>ge_free = 2 ^ 32, ge_sms = 2, ge_blocks_per_sm = 0, ge_coop_grid = g, ge_scratch = (\<lambda>n. Some (replicate n 0)),
     ge_d_seeds = True, ge_h_seeds = True, ge_copy = (\<lambda>k. True), ge_launch = (\<lambda>k. True), ge_launch_extract = (\<lambda>k. True),
     ge_sync = (\<lambda>k. True), ge_memset = True, ge_events = (\<lambda>k. in_order_events S T),
     ge_extract = (\<lambda>k bc. [0..<unat (t_chunk_blocks T) * bc])\<rparr>"

lemma in_order_calls [simp]: "gpu_calls_succeed (in_order_env S g T)" "gpu_memory (in_order_env S g T)"
  by (simp_all add: gpu_calls_succeed_def gpu_memory_def in_order_env_def)

lemma region_positions: "positions b (concat (map (\<lambda>t. map (Pair t) xs) [0..<bc])) = (if b < bc then xs else [])"
  by (induction bc) (auto simp: positions_def filter_map comp_def)

lemma below_grid: "0 < b \<Longrightarrow> {t. t < (n + b - 1) div b * b \<and> \<not> t \<ge> n} = {..<n}" for n b :: nat
  using grid_covers [of b n] by auto

lemma in_order_kernel:
  assumes "scheduled_topo level T" "E = in_order_env S g T"
  shows "kernel_events S T E bc (in_order_events S T bc)"
proof -
  have b: "0 < block" "0 < kWarpsPerBlock" "0 < kWarpSize" by (simp_all add: block_def kWarpsPerBlock_def kBlockThreads_def kWarpSize_def)
  have g: "ge_coop_grid E = g" using assms(2) by (simp add: in_order_env_def)
  have c: "\<And>l. l < t_num_levels T \<Longrightarrow> t_level_count T ! l = t_level_start T ! (l + 1) - t_level_start T ! l" "d_level_start T = t_level_start T"
    using assms(1) by (simp_all add: scheduled_topo_def)
  let ?ev = "\<lambda>lv. wave_events (t_level_start T ! lv) (t_level_count T ! lv) [0..<t_level_count T ! lv * bc]"
  have all: "k_label_all_levels (g * block) T bc (in_order_events LEVEL T bc)" if "0 < g"
    unfolding k_label_all_levels_def in_order_events_def if_P [OF refl]
    using c lanes_upt [of "g * block"] that b(1)
    by (intro exI [of _ "map ?ev [0..<t_num_levels T]"]) (auto simp: nth_map_upt)
  have launches: "level_launches block T bc (in_order_events LEVEL T bc)"
  proof -
    have "k_label_level ((n * bc + block - 1) div block) block s n bc (wave_events s n [0..<n * bc])" for n s
      unfolding k_label_level_def below_grid [OF b(1)] by (intro exI [of _ "[0..<n * bc]"]) (simp add: lessThan_atLeast0)
    then show ?thesis
      unfolding level_launches_def in_order_events_def if_P [OF refl]
      by (intro exI [of _ "map ?ev [0..<t_num_levels T]"]) (simp add: wave_events_def)
  qed
  have e: "S \<noteq> LEVEL \<Longrightarrow> in_order_events S T bc = concat (map (\<lambda>t. map (Pair t) [0..<unat (t_count T)]) [0..<bc])"
    by (simp add: in_order_events_def)
  show ?thesis
  proof (cases S)
    case LEVEL
    then show ?thesis using all launches g by (simp add: kernel_events_def)
  next
    case BLOCK
    then show ?thesis using e sequence_level_walk [OF assms(1) b(1)] region_positions
      by (auto simp: kernel_events_def k_label_chunk_block_def)
  next
    case THREAD
    have "t < (bc + block - 1) div block * block" if "t < bc" for t using grid_covers [OF b(1), of bc] that by simp
    then show ?thesis using THREAD e region_positions
      by (auto simp: kernel_events_def k_label_chunk_thread_def)
  next
    case WARP
    have "t < (bc + kWarpsPerBlock - 1) div kWarpsPerBlock * kWarpsPerBlock" if "t < bc" for t using grid_covers [OF b(2), of bc] that by simp
    then show ?thesis using WARP e sequence_level_walk [OF assms(1) b(3)] region_positions
      by (auto simp: kernel_events_def k_label_chunk_warp_def)
  qed
qed

lemma in_order_env_ok:
  assumes "topo_for S h cb N level T"
  shows "gpu_env_ok S T (in_order_env S g T)"
proof -
  have "resident S (in_order_env S g T) < 2 ^ 26"
    by (cases S) (simp_all add: resident_def in_order_env_def POSE_GPU_WAVE_CAP_def block_def kWarpsPerBlock_def kBlockThreads_def kWarpSize_def Let_def)
  moreover have "k_extract_outputs ((unat (t_chunk_blocks T) * bc + block - 1) div block) block bc (unat (t_chunk_blocks T))
      [0..<unat (t_chunk_blocks T) * bc]" for bc
    unfolding k_extract_outputs_def using below_grid [of block "unat (t_chunk_blocks T) * bc"]
    by (auto simp: block_def lessThan_atLeast0)
  ultimately show ?thesis
    unfolding gpu_env_ok_def
    using in_order_kernel [OF topo_scheduled [OF assms] refl, of S g]
    by (auto simp: in_order_env_def intro!: exI [of _ "[]"])
qed

end
