(* ===== verification/Gpu_Race.thy ===== *)
theory Gpu_Race
  imports Gpu_Run
begin

section \<open>Steps that may overlap\<close>

text \<open>
  The model runs the steps of a kernel one after another, the hardware overlaps those of one level. That is
  the same if no two of them touch the same bytes: a step writes the cell of its node and reads the
  cells of the predecessors. Here: two steps with no barrier between them, of two regions or of two nodes of
  one level, never conflict, in the scratch or in the persisted buffer.
\<close>

definition cell_of :: "strategy \<Rightarrow> topo \<Rightarrow> nat \<Rightarrow> nat" where
  "cell_of S T x = (if S = LEVEL then x else the (d_slot T) ! x)"

definition step_writes :: "strategy \<Rightarrow> topo \<Rightarrow> nat \<Rightarrow> nat \<Rightarrow> nat set" where
  "step_writes S T t x = cells_of (t * region_bytes_of S T + cell_of S T x * 32) 32"

definition step_reads :: "strategy \<Rightarrow> topo \<Rightarrow> nat \<Rightarrow> nat \<Rightarrow> nat set" where
  "step_reads S T t x = (\<Union>p\<in>set (take (d_np T ! x) [d_p0 T ! x, d_p1 T ! x]). cells_of (t * region_bytes_of S T + cell_of S T p * 32) 32)"

text \<open>The cells of the persisted buffer; none for an inner node.\<close>

definition persist_writes :: "topo \<Rightarrow> nat \<Rightarrow> nat \<Rightarrow> nat \<Rightarrow> nat set" where
  "persist_writes T base t x =
     (if the (d_rank T) ! x \<ge> 0 then cells_of ((base + t) * unat (t_super_bytes T) + nat (the (d_rank T) ! x) * 32) 32 else {})"

text \<open>The nodes that one level of the schedule hands to the threads of region \<open>t\<close>.\<close>

definition level_nodes :: "topo \<Rightarrow> nat \<Rightarrow> nat set" where
  "level_nodes T lv = (\<lambda>q. the (d_order T ! q)) ` {d_level_start T ! lv..<d_level_start T ! (lv + 1)}"

lemma level_nodes_level:
  assumes "scheduled_topo level T" "lv < t_num_levels T"
  shows "level_nodes T lv = {x. x < length level \<and> level ! x = lv}"
proof -
  have "set (slice (d_level_start T) (d_order T) lv) = {x. x < length level \<and> level ! x = lv}"
    using assms by (auto simp: scheduled_topo_def sorted_ids_def)
  then show ?thesis by (simp add: level_nodes_def slice_def)
qed

lemma cell_facts:
  assumes "topo_for S h cb N level T" "x < length N"
  shows "cell_of S T x * 32 + 32 \<le> region_bytes_of S T"
    and "\<And>y. y < length N \<Longrightarrow> x \<noteq> y \<Longrightarrow> level ! x = level ! y \<Longrightarrow> cell_of S T x \<noteq> cell_of S T y"
    and "\<And>y p. y < length N \<Longrightarrow> level ! x = level ! y \<Longrightarrow> p \<in> set (pred_ids (N ! y)) \<Longrightarrow> cell_of S T p \<noteq> cell_of S T x"
proof -
  note D = topo_forD [OF assms(1)]
  have lv: "length level = length N" "\<And>y p. y < length N \<Longrightarrow> p \<in> set (pred_ids (N ! y)) \<Longrightarrow> p < length N \<and> level ! p < level ! y"
    using D(4) by (auto simp: levels_ok_def)
  consider "S = LEVEL" | slot lu where "S \<noteq> LEVEL" "d_slot T = Some slot" "uses_ok N level lu" "\<forall>i<length N. slot ! i < t_pool_size T"
    "apart_while_live level lu ((!) slot)"
    using D(22) by (cases S) (auto simp: slots_for_def LABEL_GPU_USES_SLOT_MAP_def)
  note cases = this
  show "cell_of S T x * 32 + 32 \<le> region_bytes_of S T"
    using cases assms(2) D(8) by cases (auto simp: cell_of_def region_bytes_of_def Suc_le_eq)
  show "cell_of S T x \<noteq> cell_of S T y" if "y < length N" "x \<noteq> y" "level ! x = level ! y" for y
    using cases that assms(2) lv(1)
    by cases (auto simp: cell_of_def uses_ok_def apart_while_live_def)
  show "cell_of S T p \<noteq> cell_of S T x" if y: "y < length N" "level ! x = level ! y" "p \<in> set (pred_ids (N ! y))" for y p
    using cases
  proof cases
    case 1
    then show ?thesis using lv(2) [OF y(1,3)] y(2) by (auto simp: cell_of_def)
  next
    case (2 slot lu)
    have "p < length N" "level ! p < level ! x" using lv(2) [OF y(1,3)] y(2) by simp_all
    moreover have "level ! x \<le> lu ! p" using 2(3) y unfolding uses_ok_def by metis
    ultimately have "p < length level" "x < length level" "p \<noteq> x" "level ! p \<le> level ! x" "level ! x \<le> lu ! p"
      using lv(1) assms(2) by auto
    then show ?thesis using 2(1,2,5) by (auto simp: cell_of_def apart_while_live_def)
  qed
qed

lemma step_reads_preds:
  assumes "topo_for S h cb N level T" "x < length N"
  shows "step_reads S T t x = (\<Union>p\<in>set (pred_ids (N ! x)). cells_of (t * region_bytes_of S T + cell_of S T p * 32) 32)"
proof -
  note f = topo_node_fields [OF assms]
  obtain ps where ps: "pred_ids (N ! x) = ps" by simp
  consider "ps = []" | a where "ps = [a]" | a b where "ps = [a, b]"
    using f(4) unfolding ps by (cases ps; cases "tl ps"; cases "tl (tl ps)") auto
  then have "take (d_np T ! x) [d_p0 T ! x, d_p1 T ! x] = ps"
    using f(1-3) unfolding ps by cases (auto simp: ld_def split: if_splits)
  then show ?thesis by (simp add: step_reads_def ps)
qed

lemma steps_apart:
  assumes "topo_for S h cb N level T" "x < length N" "y < length N" "t \<noteq> u \<or> x \<noteq> y \<and> level ! x = level ! y"
  shows "step_writes S T t x \<inter> (step_writes S T u y \<union> step_reads S T u y) = {}"
proof -
  note c = cell_facts [OF assms(1)]
  have "step_writes S T t x \<inter> step_writes S T u y = {}"
    unfolding step_writes_def using c(2) [OF assms(2,3)] assms(4) by (intro cells_apart c(1) assms(2,3)) blast
  moreover have "step_writes S T t x \<inter> cells_of (u * region_bytes_of S T + cell_of S T p * 32) 32 = {}"
    if p: "p \<in> set (pred_ids (N ! y))" for p
  proof -
    have "p < length N" using topo_node_fields(5) [OF assms(1,3)] p by blast
    then show ?thesis
      unfolding step_writes_def using c(3) [OF assms(2,3) _ p] assms(4) by (intro cells_apart c(1) assms(2)) metis+
  qed
  ultimately show ?thesis unfolding step_reads_preds [OF assms(1,3)] by blast
qed

lemma persist_apart:
  assumes "topo_for S h cb N level T" "S \<noteq> LEVEL" "x < length N" "y < length N" "t \<noteq> u \<or> x \<noteq> y"
  shows "persist_writes T base t x \<inter> persist_writes T base u y = {}"
proof -
  define n where "n = pose_graph_parameter_n (ucast cb)"
  note D = topo_forD [OF assms(1), folded n_def]
  note b = block_count_facts [OF D(1,2)]
  note nr = parameter_n_range [OF b(2,3), folded n_def, unfolded b(4)]
  have rk: "d_rank T = Some (map challenge_rank N)"
    using D(22) assms(2) by (cases S) (auto simp: slots_for_def LABEL_GPU_USES_SLOT_MAP_def)
  have lt: "nat (challenge_rank (N ! z)) < unat cb" if "z < length N" "challenge_rank (N ! z) \<ge> 0" for z
    using challenge_rank_less [OF D(3) nr(3,2) nth_mem [OF that(1)] b(6)] that(2) by (simp add: nat_less_iff)
  have ne: "nat (challenge_rank (N ! x)) \<noteq> nat (challenge_rank (N ! y))"
    if r: "challenge_rank (N ! x) \<ge> 0" "challenge_rank (N ! y) \<ge> 0" "x \<noteq> y"
  proof
    assume eq: "nat (challenge_rank (N ! x)) = nat (challenge_rank (N ! y))"
    let ?r = "nat (challenge_rank (N ! x))"
    have "ranked N (int ?r) = [challenge_nodes n (unat cb) ! ?r]"
      by (rule edges_spec_ranked [OF D(3) lt [OF assms(3) r(1)] nr(3,2)])
    moreover have "x \<in> set (ranked N (int ?r))" "y \<in> set (ranked N (int ?r))"
      using r eq assms(3,4) by (auto simp: ranked_def)
    ultimately show False using r(3) by simp
  qed
  have sb: "unat (t_super_bytes T) = unat cb * 32" by (rule super_bytes [OF assms(1)])
  show ?thesis
  proof (cases "challenge_rank (N ! x) \<ge> 0 \<and> challenge_rank (N ! y) \<ge> 0")
    case True
    let ?rx = "nat (challenge_rank (N ! x))" and ?ry = "nat (challenge_rank (N ! y))"
    have "?rx < unat cb" "?ry < unat cb" using lt assms(3,4) True by blast+
    then have "?rx * 32 + 32 \<le> unat cb * 32" "?ry * 32 + 32 \<le> unat cb * 32" by linarith+
    moreover have "base + t \<noteq> base + u \<or> ?rx \<noteq> ?ry" using assms(5) ne True by auto
    ultimately have "cells_of ((base + t) * (unat cb * 32) + ?rx * 32) 32 \<inter> cells_of ((base + u) * (unat cb * 32) + ?ry * 32) 32 = {}"
      by (rule cells_apart)
    then show ?thesis using assms(3,4) rk sb by (simp add: persist_writes_def)
  qed (use assms(3,4) rk in \<open>auto simp: persist_writes_def\<close>)
qed

end
