(* ===== verification/Disk_Io.thy ===== *)
theory Disk_Io
  imports Prelude
begin

section \<open>Reading and writing a block device\<close>

text \<open>
  \<open>pwrite_all\<close> and \<open>pread_all\<close> of \<open>disk_wipe_bench.cu\<close> loop over short transfers. The answers of the kernel to the
  system calls of a thread are a list; a function that runs out of answers, because it is interrupted
  again and again, has not returned and is \<open>None\<close>. A write is recorded as an event, since the threads of a wipe
  write to the devices concurrently. The theorems: the events carry the bytes of the buffer to their places, all
  of them if the result is 0, and as many answers as there are bytes are enough.
\<close>

subsection \<open>The code\<close>

text \<open>
  \<open>n\<close> bytes moved, \<open>EINTR\<close>, or another error. An error may come after some bytes have reached the device.
\<close>

datatype io_answer = Moved nat | Interrupted | Io_Failed nat

text \<open>The offset and the bytes that one system call writes.\<close>

fun pwrite_all :: "io_answer list \<Rightarrow> bytes \<Rightarrow> nat \<Rightarrow> nat \<Rightarrow> (int \<times> (nat \<times> bytes) list \<times> io_answer list) option" where
  "pwrite_all [] buf off d = (if d < length buf then None else Some (0, [], []))"
| "pwrite_all (a # as) buf off d =
     (if d < length buf then
        (case a of
           Interrupted \<Rightarrow> pwrite_all as buf off d
         | Io_Failed n \<Rightarrow> Some (-1, [(off + d, take n (drop d buf))], as)
         | Moved n \<Rightarrow>
             if n = 0 then Some (-1, [], as)
             else do {
               (rc, ws, rest) \<leftarrow> pwrite_all as buf off (d + n);
               Some (rc, (off + d, take n (drop d buf)) # ws, rest) })
      else Some (0, [], a # as))"

text \<open>\<open>len\<close> bytes into \<open>buf\<close>.\<close>

fun pread_all :: "io_answer list \<Rightarrow> bytes \<Rightarrow> bytes \<Rightarrow> nat \<Rightarrow> nat \<Rightarrow> nat \<Rightarrow> (int \<times> bytes \<times> io_answer list) option" where
  "pread_all [] disk buf len off d = (if d < len then None else Some (0, buf, []))"
| "pread_all (a # as) disk buf len off d =
     (if d < len then
        (case a of
           Interrupted \<Rightarrow> pread_all as disk buf len off d
         | Io_Failed n \<Rightarrow> Some (-1, buf, as)
         | Moved n \<Rightarrow>
             if n = 0 then Some (-1, buf, as)
             else do {
               x \<leftarrow> rd disk (off + d) (min n (len - d));
               buf' \<leftarrow> wr buf d x;
               pread_all as disk buf' len off (d + n) })
      else Some (0, buf, a # as))"

text \<open>The effect of a sequence of writes to the devices; \<open>None\<close> beyond the end of one.\<close>

fun run_writes :: "(nat \<times> nat \<times> bytes) list \<Rightarrow> (nat \<Rightarrow> bytes) \<Rightarrow> (nat \<Rightarrow> bytes) option" where
  "run_writes [] D = Some D"
| "run_writes ((fd, off, x) # ws) D = do { m \<leftarrow> wr (D fd) off x; run_writes ws (D(fd := m)) }"

subsection \<open>Answers\<close>

text \<open>The calls that are not interrupted.\<close>

definition served :: "io_answer list \<Rightarrow> nat" where
  "served as = length (filter (\<lambda>a. a \<noteq> Interrupted) as)"

lemma served_simps [simp]:
  "served [] = 0" "served (Interrupted # as) = served as" "served (Moved n # as) = Suc (served as)" "served (Io_Failed n # as) = Suc (served as)"
  by (simp_all add: served_def)

lemma pwrite_all_ok:
  assumes "length buf - d \<le> served as"
  shows "\<exists>rc ws rest. pwrite_all as buf off d = Some (rc, ws, rest) \<and> rc \<in> {0, -1} \<and> served as \<le> served rest + (length buf - d)
    \<and> (\<forall>(o', x)\<in>set ws. \<exists>k\<ge>d. o' = off + k \<and> k + length x \<le> length buf \<and> (\<forall>i<length x. x ! i = buf ! (k + i)))
    \<and> (rc = 0 \<longrightarrow> (\<forall>p. d \<le> p \<and> p < length buf \<longrightarrow> (\<exists>(o', x)\<in>set ws. o' \<le> off + p \<and> off + p < o' + length x)))"
  using assms
proof (induction as arbitrary: d)
  case (Cons a as)
  show ?case
  proof (cases "d < length buf")
    case d: True
    show ?thesis
    proof (cases a)
      case (Moved n)
      show ?thesis
      proof (cases "n = 0")
        case False
        have "length buf - (d + n) \<le> served as" using Cons.prems Moved False by simp
        from Cons.IH [OF this] obtain rc ws rest where r: "pwrite_all as buf off (d + n) = Some (rc, ws, rest)" "rc \<in> {0, -1}"
          "served as \<le> served rest + (length buf - (d + n))"
          "\<forall>(o', x)\<in>set ws. \<exists>k\<ge>d + n. o' = off + k \<and> k + length x \<le> length buf \<and> (\<forall>i<length x. x ! i = buf ! (k + i))"
          "rc = 0 \<longrightarrow> (\<forall>p. d + n \<le> p \<and> p < length buf \<longrightarrow> (\<exists>(o', x)\<in>set ws. o' \<le> off + p \<and> off + p < o' + length x))" by blast
        let ?e = "(off + d, take n (drop d buf))"
        have e: "pwrite_all (a # as) buf off d = Some (rc, ?e # ws, rest)" using d Moved False r(1) by simp
        have "\<exists>(o', x)\<in>set (?e # ws). o' \<le> off + p \<and> off + p < o' + length x" if "rc = 0" "d \<le> p" "p < length buf" for p
        proof (cases "p < d + n")
          case True
          then have "p < d + min (length buf - d) n" using that(2,3) by linarith
          then show ?thesis using that(2) by simp
        next
          case False
          then have "\<exists>(o', x)\<in>set ws. o' \<le> off + p \<and> off + p < o' + length x" using r(5) that by simp
          then show ?thesis by simp
        qed
        moreover have "\<exists>k\<ge>d. o' = off + k \<and> k + length x \<le> length buf \<and> (\<forall>i<length x. x ! i = buf ! (k + i))"
          if w: "(o', x) \<in> set (?e # ws)" for o' x
        proof (cases "(o', x) = ?e")
          case False
          then obtain k where "d + n \<le> k" "o' = off + k \<and> k + length x \<le> length buf \<and> (\<forall>i<length x. x ! i = buf ! (k + i))"
            using w r(4) by auto
          then show ?thesis by (intro exI [of _ k]) simp
        qed (use d in \<open>auto intro!: exI [of _ d]\<close>)
        ultimately show ?thesis unfolding e using r(2,3) Moved False d
          by (intro exI [of _ rc] exI [of _ "?e # ws"] exI [of _ rest]) auto
      qed (use d Moved Cons.prems in auto)
    next
      case Interrupted
      then show ?thesis using Cons.IH [of d] Cons.prems d by simp
    next
      case (Io_Failed n)
      then show ?thesis using d by (auto intro!: exI [of _ d])
    qed
  qed simp
qed simp

lemma pread_all_ok:
  assumes "len - d \<le> served as" "off + len \<le> length disk" "len \<le> length buf" "d \<le> len"
  shows "\<exists>rc buf' rest. pread_all as disk buf len off d = Some (rc, buf', rest) \<and> rc \<in> {0, -1} \<and> served as \<le> served rest + (len - d)
    \<and> length buf' = length buf \<and> (\<forall>p<d. buf' ! p = buf ! p)
    \<and> (rc = 0 \<longrightarrow> (\<forall>p. d \<le> p \<and> p < len \<longrightarrow> buf' ! p = disk ! (off + p)))"
  using assms
proof (induction as arbitrary: d buf)
  case (Cons a as)
  show ?case
  proof (cases "d < len")
    case d: True
    show ?thesis
    proof (cases a)
      case (Moved n)
      show ?thesis
      proof (cases "n = 0")
        case False
        let ?k = "min n (len - d)"
        have "off + d + ?k \<le> length disk" using Cons.prems(2) d by simp
        then obtain x where x: "rd disk (off + d) ?k = Some x" by (auto simp: rd_def)
        have lx: "length x = ?k" by (rule rd_length [OF x])
        have "d + length x \<le> length buf" using lx Cons.prems(3) d by linarith
        then obtain b1 where b1: "wr buf d x = Some b1" using wr_ok by blast
        have a1: "agree_off (cells_of d ?k) buf b1" using wr_agree [OF b1] lx by simp
        have r1: "rd b1 d ?k = Some x" using rd_wr [OF b1] lx by simp
        show ?thesis
        proof (cases "d + n \<le> len")
          case le: True
          have "len - (d + n) \<le> served as" using Cons.prems(1) Moved False by simp
          from Cons.IH [OF this Cons.prems(2) _ le, of b1] obtain rc b2 rest where
            b2: "pread_all as disk b1 len off (d + n) = Some (rc, b2, rest)" "rc \<in> {0, -1}" "served as \<le> served rest + (len - (d + n))"
            "length b2 = length b1" "\<forall>p<d + n. b2 ! p = b1 ! p" "rc = 0 \<longrightarrow> (\<forall>p. d + n \<le> p \<and> p < len \<longrightarrow> b2 ! p = disk ! (off + p))"
            using Cons.prems(3) agree_off_length [OF a1] by auto
          have new: "b1 ! p = disk ! (off + p)" if "d \<le> p" "p < d + n" for p
          proof -
            have "p - d < ?k" using that le by simp
            then show ?thesis using rd_nth [OF x, of "p - d"] rd_nth [OF r1, of "p - d"] that by (simp add: add.assoc)
          qed
          have old: "b1 ! p = buf ! p" if "p < d" for p using a1 that Cons.prems(3) d by (simp add: agree_off_def)
          have "b2 ! p = disk ! (off + p)" if "rc = 0" "d \<le> p" "p < len" for p
            using b2(5,6) new that by (cases "p < d + n") auto
          then show ?thesis using d Moved False x b1 b2(1-5) old agree_off_length [OF a1]
            by (intro exI [of _ rc] exI [of _ b2] exI [of _ rest]) auto
        next
          case False
          then have k: "?k = len - d" by simp
          have f: "pread_all as disk b1 len off (d + n) = Some (0, b1, as)" using False by (cases as) simp_all
          have new: "b1 ! p = disk ! (off + p)" if "d \<le> p" "p < len" for p
          proof -
            have "p - d < ?k" using that k by simp
            then show ?thesis using rd_nth [OF x, of "p - d"] rd_nth [OF r1, of "p - d"] that by (simp add: add.assoc)
          qed
          have old: "b1 ! p = buf ! p" if "p < d" for p using a1 that Cons.prems(3) d by (simp add: agree_off_def)
          show ?thesis using d Moved \<open>n \<noteq> 0\<close> x b1 f new old agree_off_length [OF a1]
            by (intro exI [of _ 0] exI [of _ b1] exI [of _ as]) auto
        qed
      qed (use d Moved in auto)
    next
      case Interrupted
      then show ?thesis using Cons.IH [of d buf] Cons.prems d by simp
    next
      case (Io_Failed n)
      then show ?thesis using d by auto
    qed
  qed auto
qed auto

text \<open>Answers without an error.\<close>

definition io_calm :: "io_answer list \<Rightarrow> bool" where
  "io_calm as \<longleftrightarrow> (\<forall>a\<in>set as. a \<noteq> Moved 0 \<and> (\<forall>n. a \<noteq> Io_Failed n))"

lemma io_calm_simps [simp]: "io_calm []" "io_calm (a # as) \<longleftrightarrow> a \<noteq> Moved 0 \<and> (\<forall>n. a \<noteq> Io_Failed n) \<and> io_calm as"
  by (auto simp: io_calm_def)

lemma pwrite_all_calm: "pwrite_all as buf off d = Some (rc, ws, rest) \<Longrightarrow> io_calm as \<Longrightarrow> rc = 0 \<and> io_calm rest"
  by (induction as arbitrary: d rc ws rest) (auto split: if_splits io_answer.splits bind_splits)

lemma pread_all_calm: "pread_all as disk buf len off d = Some (rc, buf', rest) \<Longrightarrow> io_calm as \<Longrightarrow> rc = 0 \<and> io_calm rest"
  by (induction as arbitrary: d buf rc rest) (auto split: if_splits io_answer.splits bind_splits)

subsection \<open>Writes that agree\<close>

text \<open>
  Writes of which each puts the byte \<open>want fd p\<close> at position \<open>p\<close> of device \<open>fd\<close>, in whatever order: what they reach
  has that byte, the rest is as it was.
\<close>

definition reaches :: "(nat \<times> nat \<times> bytes) list \<Rightarrow> nat \<Rightarrow> nat \<Rightarrow> bool" where
  "reaches ws fd p \<longleftrightarrow> (\<exists>(f, o', x)\<in>set ws. f = fd \<and> o' \<le> p \<and> p < o' + length x)"

definition writes_want :: "(nat \<Rightarrow> nat \<Rightarrow> byte) \<Rightarrow> (nat \<times> nat \<times> bytes) list \<Rightarrow> bool" where
  "writes_want want ws \<longleftrightarrow> (\<forall>(f, o', x)\<in>set ws. \<forall>i<length x. x ! i = want f (o' + i))"

lemma reaches_append: "reaches (ws @ vs) fd p \<longleftrightarrow> reaches ws fd p \<or> reaches vs fd p"
  by (auto simp: reaches_def)

lemma writes_want_append: "writes_want want (ws @ vs) \<longleftrightarrow> writes_want want ws \<and> writes_want want vs"
  by (simp add: writes_want_def ball_Un)

lemma reaches_Nil [simp]: "\<not> reaches [] fd p" and writes_want_Nil [simp]: "writes_want want []"
  by (simp_all add: reaches_def writes_want_def)

lemma run_writes_ok:
  assumes "writes_want want ws" "\<forall>(fd, off, x)\<in>set ws. off + length x \<le> length (D fd)"
  shows "\<exists>D'. run_writes ws D = Some D' \<and> (\<forall>fd. length (D' fd) = length (D fd)
    \<and> (\<forall>p<length (D fd). D' fd ! p = (if reaches ws fd p then want fd p else D fd ! p)))"
  using assms
proof (induction ws arbitrary: D)
  case (Cons w ws)
  obtain fd off x where w: "w = (fd, off, x)" by (cases w) auto
  obtain m where m: "wr (D fd) off x = Some m" using wr_ok [of off x "D fd"] Cons.prems(2) w by auto
  have a: "agree_off (cells_of off (length x)) (D fd) m" "rd m off (length x) = Some x"
    by (rule wr_agree [OF m], rule rd_wr [OF m])
  have len: "length ((D(fd := m)) f) = length (D f)" for f using agree_off_length [OF a(1)] by simp
  have "writes_want want ws" "\<forall>(f, off, x)\<in>set ws. off + length x \<le> length ((D(fd := m)) f)"
    using Cons.prems len by (auto simp: writes_want_def)
  from Cons.IH [OF this] obtain D' where D': "run_writes ws (D(fd := m)) = Some D'"
    "\<And>f. length (D' f) = length (D f)"
    "\<And>f p. p < length (D f) \<Longrightarrow> D' f ! p = (if reaches ws f p then want f p else (D(fd := m)) f ! p)"
    unfolding len by blast
  have new: "(D(fd := m)) f ! p = (if reaches [w] f p then want f p else D f ! p)" if p: "p < length (D f)" for f p
  proof (cases "f = fd \<and> off \<le> p \<and> p < off + length x")
    case True
    then have "p - off < length x" by linarith
    then have "m ! p = x ! (p - off)" using rd_nth [OF a(2), of "p - off"] True by simp
    moreover have "\<forall>i<length x. x ! i = want fd (off + i)" using Cons.prems(1) w by (simp add: writes_want_def)
    then have "x ! (p - off) = want fd p" using True by (metis add_diff_inverse_nat add_less_cancel_left not_less)
    ultimately show ?thesis using True w by (simp add: reaches_def)
  next
    case False
    then show ?thesis using a(1) p w by (auto simp: reaches_def agree_off_def)
  qed
  have "reaches (w # ws) f p \<longleftrightarrow> reaches [w] f p \<or> reaches ws f p" for f p using reaches_append [of "[w]" ws] by simp
  moreover have "run_writes (w # ws) D = Some D'" using w m D'(1) by simp
  ultimately show ?case using D'(2,3) new by (intro exI [of _ D']) auto
qed simp

end
