(* ===== verification/Disk_Names.thy ===== *)
theory Disk_Names
  imports Prelude
begin

section \<open>Device names and the seed argument of the disk wipe\<close>

text \<open>
  The string functions of \<open>disk_wipe_bench.cu\<close>: the name of the whole disk that a device belongs to, the check
  of a target against the mounted file systems, and the session seed on the command line. The theorems: a
  target is refused when it, or a partition of it under the kernel's naming rule, is mounted; the
  hexadecimal form of a seed is read back as that seed.
\<close>

subsection \<open>The code\<close>

definition isdigit :: "char \<Rightarrow> bool" where "isdigit c \<longleftrightarrow> c \<in> set ''0123456789''"

text \<open>\<open>find_last_of('/')\<close> and \<open>substr\<close>.\<close>

definition base_name :: "string \<Rightarrow> string" where
  "base_name p = rev (takeWhile (\<lambda>c. c \<noteq> CHR ''/'') (rev p))"

text \<open>\<open>s.rfind(pat, 0) == 0\<close> and \<open>s.find(pat) != npos\<close>.\<close>

definition starts_with :: "string \<Rightarrow> string \<Rightarrow> bool" where
  "starts_with pat s \<longleftrightarrow> take (length pat) s = pat"

fun contains :: "string \<Rightarrow> string \<Rightarrow> bool" where
  "contains pat [] \<longleftrightarrow> pat = []"
| "contains pat (c # s) \<longleftrightarrow> starts_with pat (c # s) \<or> contains pat s"

definition p_style :: "string \<Rightarrow> bool" where
  "p_style n \<longleftrightarrow> contains ''nvme'' n \<or> contains ''mmcblk'' n \<or> contains ''loop'' n \<or> contains ''nbd'' n
     \<or> starts_with ''md'' n \<or> starts_with ''dm-'' n"

text \<open>The name without its trailing digits; its length is the \<open>i\<close> of the loops.\<close>

definition stem :: "string \<Rightarrow> string" where
  "stem n = rev (dropWhile isdigit (rev n))"

definition parent_disk :: "string \<Rightarrow> string" where
  "parent_disk dev =
     (let n = base_name dev; i = length (stem n)
      in if p_style n then
           (if i < length n \<and> i \<ge> 2 \<and> n ! (i - 1) = CHR ''p'' \<and> isdigit (n ! (i - 2)) then take (i - 1) n else n)
         else if i > 0 then take i n else n)"

text \<open>
  \<open>/proc/mounts\<close> as the list of its sources and mount points, or \<open>None\<close> when it cannot be read. The result is
  empty if the target is safe.
\<close>

fun mount_scan :: "(string \<times> string) list \<Rightarrow> string \<Rightarrow> string" where
  "mount_scan [] tgt_disk = []"
| "mount_scan ((src, mnt) # f) tgt_disk =
     (if \<not> starts_with ''/dev/'' src then mount_scan f tgt_disk
      else if parent_disk src = tgt_disk then ''device (or a partition of it) is mounted: '' @ src @ '' on '' @ mnt
      else mount_scan f tgt_disk)"

definition mounted_reason :: "(string \<times> string) list option \<Rightarrow> string \<Rightarrow> string" where
  "mounted_reason mounts target = (case mounts of None \<Rightarrow> [] | Some f \<Rightarrow> mount_scan f (parent_disk target))"

text \<open>
  \<open>sscanf(s, "%2x", &v)\<close>: leading white space does not count; then at most two characters, a sign included. The
  value of a negative number wraps; only its low byte is used. \<open>0x\<close> without a digit after it does not match.
\<close>

definition isspace :: "char \<Rightarrow> bool" where
  "isspace c \<longleftrightarrow> c \<in> {CHR '' '', CHR 0x09, CHR 0x0A, CHR 0x0B, CHR 0x0C, CHR 0x0D}"

fun index_of :: "char \<Rightarrow> string \<Rightarrow> nat option" where
  "index_of c [] = None"
| "index_of c (d # s) = (if c = d then Some 0 else map_option Suc (index_of c s))"

definition hex_value :: "char \<Rightarrow> nat option" where
  "hex_value c = (case index_of c ''0123456789abcdef'' of Some v \<Rightarrow> Some v
     | None \<Rightarrow> map_option (\<lambda>v. 10 + v) (index_of c ''ABCDEF''))"

definition scan_2x :: "string \<Rightarrow> u32 option" where
  "scan_2x s =
     (case dropWhile isspace s of
        [] \<Rightarrow> None
      | c # r \<Rightarrow>
          if c = CHR ''+'' \<or> c = CHR ''-'' then
            (case r of [] \<Rightarrow> None
             | d # _ \<Rightarrow> map_option (\<lambda>v. if c = CHR ''-'' then - of_nat v else of_nat v) (hex_value d))
          else case hex_value c of None \<Rightarrow> None
             | Some a \<Rightarrow> (case r of [] \<Rightarrow> Some (of_nat a)
                 | d # _ \<Rightarrow> (case hex_value d of Some b \<Rightarrow> Some (of_nat (16 * a + b))
                     | None \<Rightarrow> if c = CHR ''0'' \<and> (d = CHR ''x'' \<or> d = CHR ''X'') then None else Some (of_nat a))))"

definition parse_hex_seed :: "string \<Rightarrow> bytes option" where
  "parse_hex_seed hex =
     (if length hex \<noteq> 32 * 2 then None
      else those (map (\<lambda>i. map_option (\<lambda>v. ucast v) (scan_2x (drop (2 * i) hex))) [0..<32]))"

subsection \<open>Names\<close>

lemma stem_digits: "\<forall>c\<in>set ds. isdigit c \<Longrightarrow> stem (n @ ds) = stem n"
proof -
  assume "\<forall>c\<in>set ds. isdigit c"
  then have "dropWhile isdigit (rev ds @ rev n) = dropWhile isdigit (rev n)" by (intro dropWhile_append2) simp
  then show ?thesis by (simp add: stem_def)
qed

lemma stem_whole: "n \<noteq> [] \<Longrightarrow> \<not> isdigit (last n) \<Longrightarrow> stem n = n"
  by (cases n rule: rev_cases) (simp_all add: stem_def)

lemma stem_prefix: "stem n = take (length (stem n)) n"
proof -
  have "rev n = takeWhile isdigit (rev n) @ dropWhile isdigit (rev n)" by simp
  then have "n = stem n @ rev (takeWhile isdigit (rev n))" unfolding stem_def by (metis rev_append rev_rev_ident)
  then show ?thesis by (metis append_eq_conv_conj)
qed

lemma starts_with_append: "starts_with pat s \<Longrightarrow> starts_with pat (s @ t)"
  unfolding starts_with_def by (metis append_eq_conv_conj append_take_drop_id append.assoc)

lemma contains_append: "contains pat s \<Longrightarrow> contains pat (s @ t)"
proof (induction s)
  case Nil
  then show ?case by (cases t) (simp_all add: starts_with_def)
next
  case (Cons c s)
  then show ?case using starts_with_append [of pat "c # s" t] by auto
qed

lemma p_style_append: "p_style n \<Longrightarrow> p_style (n @ t)"
  unfolding p_style_def using contains_append starts_with_append by blast

lemma base_name_dev: "CHR ''/'' \<notin> set n \<Longrightarrow> base_name (d @ CHR ''/'' # n) = n"
proof -
  assume "CHR ''/'' \<notin> set n"
  then have "takeWhile (\<lambda>c. c \<noteq> CHR ''/'') (rev n @ CHR ''/'' # rev d) = rev n"
    by (subst takeWhile_append2) auto
  then show ?thesis by (simp add: base_name_def)
qed

text \<open>
  The kernel's naming rule: the partitions of a disk are numbered after its name, with a \<open>p\<close> in between when
  the name ends in a digit.
\<close>

definition partition_of :: "string \<Rightarrow> string \<Rightarrow> bool" where
  "partition_of part disk \<longleftrightarrow> (\<exists>ds. ds \<noteq> [] \<and> (\<forall>c\<in>set ds. isdigit c)
     \<and> part = disk @ (if isdigit (last disk) then CHR ''p'' # ds else ds))"

text \<open>
  The names of whole disks that the function is written for: those that end in a digit, and only those, are of a
  kind it knows, and they do not look like a partition themselves.
\<close>

definition known_disk :: "string \<Rightarrow> bool" where
  "known_disk n \<longleftrightarrow> n \<noteq> [] \<and> CHR ''/'' \<notin> set n
     \<and> (if isdigit (last n) then p_style n
          \<and> \<not> (length (stem n) \<ge> 2 \<and> n ! (length (stem n) - 1) = CHR ''p'' \<and> isdigit (n ! (length (stem n) - 2)))
        else \<not> p_style n)"

lemma parent_disk_whole:
  assumes "known_disk n"
  shows "parent_disk (d @ CHR ''/'' # n) = n"
proof -
  have n: "n \<noteq> []" "base_name (d @ CHR ''/'' # n) = n" using assms base_name_dev by (auto simp: known_disk_def)
  show ?thesis
  proof (cases "isdigit (last n)")
    case True
    then show ?thesis using assms n by (auto simp: parent_disk_def known_disk_def Let_def)
  next
    case False
    then have "\<not> p_style n" using assms by (simp add: known_disk_def)
    then show ?thesis using n stem_whole [OF n(1) False] by (simp add: parent_disk_def Let_def)
  qed
qed

lemma parent_disk_partition:
  assumes "known_disk n" "partition_of part n" "isdigit (last n) \<or> \<not> p_style part"
  shows "parent_disk (d @ CHR ''/'' # part) = n"
proof -
  obtain ds where ds: "ds \<noteq> []" "\<forall>c\<in>set ds. isdigit c" "part = n @ (if isdigit (last n) then CHR ''p'' # ds else ds)"
    using assms(2) by (auto simp: partition_of_def)
  have n: "n \<noteq> []" "CHR ''/'' \<notin> set n" using assms(1) by (simp_all add: known_disk_def)
  have "\<not> isdigit (CHR ''/'')" by (simp add: isdigit_def)
  then have b: "base_name (d @ CHR ''/'' # part) = part" using ds n by (intro base_name_dev) auto
  show ?thesis
  proof (cases "isdigit (last n)")
    case True
    have ps: "p_style part" using assms(1) True ds(3) p_style_append [of n] by (simp add: known_disk_def)
    have "stem part = stem ((n @ [CHR ''p'']) @ ds)" using ds(3) True by simp
    also have "\<dots> = n @ [CHR ''p'']" unfolding stem_digits [OF ds(2)] by (rule stem_whole) (simp_all add: isdigit_def)
    finally have st: "length (stem part) = length n + 1" by simp
    have l: "length n \<ge> 1" "part ! length n = CHR ''p''" "isdigit (part ! (length n - 1))"
      using n(1) True ds(3) by (cases n rule: rev_cases; simp add: nth_append)+
    have pl: "length n + 1 < length part" "take (length n) part = n" using ds(1,3) True by simp_all
    show ?thesis unfolding parent_disk_def Let_def b st using ps l pl by simp
  next
    case False
    then have "\<not> p_style part" using assms(3) by simp
    moreover have "stem part = n" using ds(3) False stem_digits [OF ds(2)] stem_whole [OF n(1) False] by simp
    moreover have "take (length n) part = n" using ds(3) False by simp
    ultimately show ?thesis unfolding parent_disk_def Let_def b using n(1) by simp
  qed
qed

lemma mount_scan_hit:
  "(src, mnt) \<in> set f \<Longrightarrow> starts_with ''/dev/'' src \<Longrightarrow> parent_disk src = tgt \<Longrightarrow> mount_scan f tgt \<noteq> []"
  by (induction f tgt rule: mount_scan.induct) auto

lemma mount_scan_safe:
  "mount_scan f tgt = [] \<longleftrightarrow> (\<forall>(src, mnt)\<in>set f. starts_with ''/dev/'' src \<longrightarrow> parent_disk src \<noteq> tgt)"
  by (induction f tgt rule: mount_scan.induct) auto

subsection \<open>The seed\<close>

definition hex_char :: "nat \<Rightarrow> char" where "hex_char v = ''0123456789abcdef'' ! v"

definition hex_of :: "bytes \<Rightarrow> string" where
  "hex_of bs = concat (map (\<lambda>b. [hex_char (unat b div 16), hex_char (unat b mod 16)]) bs)"

lemma hex_chars:
  "list_all (\<lambda>v. hex_value (hex_char v) = Some v \<and> \<not> isspace (hex_char v) \<and> hex_char v \<noteq> CHR ''+'' \<and> hex_char v \<noteq> CHR ''-'') [0..<16]"
  by code_simp

lemma hex_value_char: "v < 16 \<Longrightarrow> hex_value (hex_char v) = Some v \<and> \<not> isspace (hex_char v) \<and> hex_char v \<noteq> CHR ''+'' \<and> hex_char v \<noteq> CHR ''-''"
  using hex_chars unfolding list_all_iff by simp

lemma scan_2x_hex: "a < 16 \<Longrightarrow> b < 16 \<Longrightarrow> scan_2x (hex_char a # hex_char b # r) = Some (of_nat (16 * a + b))"
  using hex_value_char [of a] hex_value_char [of b] by (auto simp: scan_2x_def)

lemma byte_u32: "k < 256 \<Longrightarrow> ucast (of_nat k :: u32) = (of_nat k :: byte)"
proof (rule word_unat_eq_iff [THEN iffD2])
  assume "k < 256"
  then show "unat (ucast (of_nat k :: u32) :: byte) = unat (of_nat k :: byte)"
    by (simp add: unsigned_ucast_eq unsigned_of_nat take_bit_nat_eq_self_iff)
qed

lemma length_hex_of: "length (hex_of bs) = 2 * length bs"
  by (induction bs) (simp_all add: hex_of_def)

lemma drop_hex_of:
  "i < length bs \<Longrightarrow> drop (2 * i) (hex_of bs) = hex_char (unat (bs ! i) div 16) # hex_char (unat (bs ! i) mod 16) # hex_of (drop (Suc i) bs)"
proof (induction bs arbitrary: i)
  case (Cons b bs)
  then show ?case by (cases i) (simp_all add: hex_of_def)
qed simp

lemma parse_hex_of:
  assumes "length bs = 32"
  shows "parse_hex_seed (hex_of bs) = Some bs"
proof -
  have "map_option (\<lambda>v. ucast v) (scan_2x (drop (2 * i) (hex_of bs))) = Some (bs ! i)" if "i < 32" for i
  proof -
    let ?u = "unat (bs ! i)"
    have u: "?u < 256" using unsigned_less [of "bs ! i", where ?'a = nat] by simp
    then have "scan_2x (drop (2 * i) (hex_of bs)) = Some (of_nat (16 * (?u div 16) + ?u mod 16))"
      using that assms drop_hex_of [of i bs] scan_2x_hex [of "?u div 16" "?u mod 16"] by simp
    moreover have "16 * (?u div 16) + ?u mod 16 = ?u" by simp
    moreover have "ucast (of_nat ?u :: u32) = bs ! i" using byte_u32 [OF u] by simp
    ultimately show ?thesis by (simp only: option.map)
  qed
  then have "map (\<lambda>i. map_option (\<lambda>v. ucast v) (scan_2x (drop (2 * i) (hex_of bs)))) [0..<32] = map (\<lambda>i. Some (bs ! i)) [0..<32]"
    by (intro map_cong) simp_all
  also have "\<dots> = map Some (map ((!) bs) [0..<32])" by simp
  also have "map ((!) bs) [0..<32] = bs" using assms by (simp add: map_nth [of bs, unfolded assms])
  finally show ?thesis using assms length_hex_of [of bs] those_map_Some [of bs Some "\<lambda>x. x"] by (simp add: parse_hex_seed_def)
qed

text \<open>What the two checks do not catch: a partition of a disk of another kind whose name ends in a digit, and a sign for a digit.\<close>

lemma other_kind_missed:
  "partition_of ''pmem0p1'' ''pmem0'' \<and> mounted_reason (Some [(''/dev/pmem0p1'', ''/srv'')]) ''/dev/pmem0'' = []"
proof
  show "partition_of ''pmem0p1'' ''pmem0''" unfolding partition_of_def by (rule exI [of _ "''1''"]) (simp add: isdigit_def)
  show "mounted_reason (Some [(''/dev/pmem0p1'', ''/srv'')]) ''/dev/pmem0'' = []" by code_simp
qed

lemma sign_accepted: "scan_2x ''+1'' = Some 1 \<and> scan_2x '' 7'' = Some 7"
  by code_simp

end
