(* ===== verification/Disk_Args.thy ===== *)
theory Disk_Args
  imports Disk_Names Node_Count
begin

section \<open>The command line of the disk wipe\<close>

text \<open>
  The loop over \<open>argv\<close> in \<open>main\<close> of \<open>disk_wipe_bench.cu\<close>. The theorem: only what follows a \<open>--disk\<close> becomes a
  target, and only a \<open>--confirm\<close> allows writes.
\<close>

subsection \<open>Numbers\<close>

text \<open>
  \<open>strtol\<close> and its like in base 10: white space, a sign, digits. Nothing matches without a digit, and then the end
  pointer is the start of the string.
\<close>

definition scan_number :: "string \<Rightarrow> (bool \<times> nat \<times> string) option" where
  "scan_number s =
     (let s = dropWhile isspace s;
          neg = (s \<noteq> [] \<and> hd s = CHR ''-'');
          s = (if s \<noteq> [] \<and> (hd s = CHR ''-'' \<or> hd s = CHR ''+'') then tl s else s);
          digits = takeWhile isdigit s
      in if digits = [] then None
         else Some (neg, foldl (\<lambda>v c. 10 * v + (of_char c - of_char (CHR ''0''))) 0 digits, dropWhile isdigit s))"

definition strtoull :: "string \<Rightarrow> u64" where
  "strtoull s =
     (case scan_number s of None \<Rightarrow> 0
      | Some (neg, v, _) \<Rightarrow> if v \<ge> 2 ^ 64 then - 1 else if neg then - of_nat v else of_nat v)"

definition strtol :: "string \<Rightarrow> int \<times> string" where
  "strtol s =
     (case scan_number s of None \<Rightarrow> (0, s)
      | Some (neg, v, end) \<Rightarrow> (if neg then max (- (2 ^ 63)) (- int v) else min (2 ^ 63 - 1) (int v), end))"

text \<open>\<open>(int)strtol(s, NULL, 10)\<close>.\<close>

definition atoi :: "string \<Rightarrow> int" where
  "atoi s = sint (word_of_int (fst (strtol s)) :: 32 word)"

definition INT_MAX :: int where "INT_MAX = 2 ^ 31 - 1"

subsection \<open>The configuration\<close>

definition MIB :: u64 where "MIB = 1024 * 1024"

record config =
  cf_disks :: "string list"
  cf_gpus :: "int list"
  cf_chunk_blocks :: u32
  cf_per_disk_bytes :: u64
  cf_hbm_window_mib :: u64
  cf_stage_mib :: u64
  cf_dry_run :: bool
  cf_confirm :: bool
  cf_mode :: string
  cf_gpus_per_disk_k :: int
  cf_verify_n :: u64
  cf_verify_only :: bool
  cf_verbose :: bool

definition config0 :: config where
  "config0 = \<lparr>cf_disks = [], cf_gpus = [], cf_chunk_blocks = POSE_CHUNK_BLOCKS, cf_per_disk_bytes = 0, cf_hbm_window_mib = 0,
     cf_stage_mib = 1024, cf_dry_run = False, cf_confirm = False, cf_mode = ''disk-per-gpu'', cf_gpus_per_disk_k = 0, cf_verify_n = 0,
     cf_verify_only = False, cf_verbose = False\<rparr>"

definition g_seed :: bytes where
  "g_seed = [0x44, 0x69, 0x73, 0x6b, 0x57, 0x69, 0x70, 0x65, 0x01, 0x23, 0x45, 0x67, 0x89, 0xab, 0xcd, 0xef,
     0xfe, 0xed, 0xfa, 0xce, 0x0b, 0xad, 0xf0, 0x0d, 0xaa, 0xbb, 0xcc, 0xdd, 0xee, 0xff, 0x00, 0x11]"

subsection \<open>The arguments\<close>

text \<open>The list of \<open>--gpus\<close>; \<open>None\<close> for a bad ordinal or one that is listed twice.\<close>

function parse_gpus :: "int list \<Rightarrow> string \<Rightarrow> int list option" where
  "parse_gpus gpus l =
     (if l = [] then Some gpus
      else let tok = takeWhile (\<lambda>c. c \<noteq> CHR '','') l; rest = dropWhile (\<lambda>c. c \<noteq> CHR '','') l; (v, end) = strtol tok
           in if tok = [] \<or> end \<noteq> [] \<or> v < 0 \<or> v > INT_MAX then None
              else if v \<in> set gpus then None
              else if rest = [] then Some (gpus @ [v])
              else parse_gpus (gpus @ [v]) (tl rest))"
  by pat_completeness auto

termination
proof (relation "measure (\<lambda>(g, l). length l)", simp, goal_cases)
  case (1 gpus l)
  have "length (dropWhile (\<lambda>c. c \<noteq> CHR '','') l) \<le> length l" by (rule length_dropWhile_le)
  then show ?case using 1 by (cases "dropWhile (\<lambda>c. c \<noteq> CHR '','') l") auto
qed

declare parse_gpus.simps [simp del]

text \<open>The options that need a value.\<close>

definition apply_option :: "string \<Rightarrow> string \<Rightarrow> config \<times> bytes \<Rightarrow> (config \<times> bytes) option" where
  "apply_option a v cs =
     (let (cfg, seed) = cs in
      if a = ''--disk'' then Some (cfg\<lparr>cf_disks := cf_disks cfg @ [v]\<rparr>, seed)
      else if a = ''--mode'' then
        (if v \<noteq> ''gpus-per-disk'' \<and> v \<noteq> ''disk-per-gpu'' then None else Some (cfg\<lparr>cf_mode := v\<rparr>, seed))
      else if a = ''--gpus-per-disk'' then Some (cfg\<lparr>cf_gpus_per_disk_k := atoi v\<rparr>, seed)
      else if a = ''--verify'' then Some (cfg\<lparr>cf_verify_n := strtoull v\<rparr>, seed)
      else if a = ''--chunk-blocks'' then Some (cfg\<lparr>cf_chunk_blocks := ucast (strtoull v)\<rparr>, seed)
      else if a = ''--per-disk-mib'' then Some (cfg\<lparr>cf_per_disk_bytes := strtoull v * MIB\<rparr>, seed)
      else if a = ''--hbm-window-mib'' then Some (cfg\<lparr>cf_hbm_window_mib := strtoull v\<rparr>, seed)
      else if a = ''--stage-mib'' then Some (cfg\<lparr>cf_stage_mib := strtoull v\<rparr>, seed)
      else if a = ''--gpus'' then map_option (\<lambda>g. (cfg\<lparr>cf_gpus := g\<rparr>, seed)) (parse_gpus (cf_gpus cfg) v)
      else map_option (Pair cfg) (parse_hex_seed v))"

definition value_options :: "string list" where
  "value_options = [''--disk'', ''--mode'', ''--gpus-per-disk'', ''--verify'', ''--chunk-blocks'', ''--per-disk-mib'', ''--hbm-window-mib'',
     ''--stage-mib'', ''--gpus'', ''--seed-hex'']"

text \<open>The options that stand alone.\<close>

definition set_flag :: "string \<Rightarrow> config \<Rightarrow> config option" where
  "set_flag a cfg =
     (if a = ''--verify-only'' then Some (cfg\<lparr>cf_verify_only := True\<rparr>)
      else if a = ''--verbose'' then Some (cfg\<lparr>cf_verbose := True\<rparr>)
      else if a = ''--dry-run'' then Some (cfg\<lparr>cf_dry_run := True\<rparr>)
      else if a = ''--confirm'' then Some (cfg\<lparr>cf_confirm := True\<rparr>)
      else None)"

text \<open>The configuration and the seed, or the status that the program exits with.\<close>

datatype parsed = Parsed config bytes | Exits int

fun parse_args :: "config \<Rightarrow> bytes \<Rightarrow> string list \<Rightarrow> parsed" where
  "parse_args cfg seed [] = Parsed cfg seed"
| "parse_args cfg seed (a # argv) =
     (case set_flag a cfg of
        Some cfg' \<Rightarrow> parse_args cfg' seed argv
      | None \<Rightarrow>
          if a = ''-h'' \<or> a = ''--help'' then Exits 0
          else if a \<in> set value_options then
            (case argv of [] \<Rightarrow> Exits 2
             | v # argv' \<Rightarrow> (case apply_option a v (cfg, seed) of None \<Rightarrow> Exits 2 | Some (cfg', seed') \<Rightarrow> parse_args cfg' seed' argv'))
          else Exits 2)"

declare parse_args.simps(2) [simp del]

subsection \<open>What the arguments allow\<close>

definition named_disk :: "string list \<Rightarrow> string \<Rightarrow> bool" where
  "named_disk argv d \<longleftrightarrow> (\<exists>xs ys. argv = xs @ ''--disk'' # d # ys)"

lemma named_disk_Cons: "named_disk argv d \<Longrightarrow> named_disk (a # argv) d"
  unfolding named_disk_def by (metis append_Cons)

lemma those_length: "those xs = Some ys \<Longrightarrow> length ys = length xs"
  by (induction xs arbitrary: ys) (auto split: option.splits)

text \<open>What an option may change.\<close>

definition keeps :: "string \<Rightarrow> string \<Rightarrow> config \<times> bytes \<Rightarrow> config \<times> bytes \<Rightarrow> bool" where
  "keeps a v cs cs' \<longleftrightarrow> cf_confirm (fst cs') = cf_confirm (fst cs) \<and> (length (snd cs) = 32 \<longrightarrow> length (snd cs') = 32)
     \<and> (distinct (cf_gpus (fst cs)) \<longrightarrow> distinct (cf_gpus (fst cs')))
     \<and> (cf_disks (fst cs') = cf_disks (fst cs) \<or> a = ''--disk'' \<and> cf_disks (fst cs') = cf_disks (fst cs) @ [v])"

lemma parse_hex_seed_length: "parse_hex_seed v = Some s \<Longrightarrow> length s = 32"
  by (auto simp: parse_hex_seed_def split: if_splits dest: those_length)

lemma parse_gpus_distinct: "parse_gpus gpus l = Some g \<Longrightarrow> distinct gpus \<Longrightarrow> distinct g"
proof (induction "length l" arbitrary: gpus l rule: less_induct)
  case less
  define tok rest where "tok = takeWhile (\<lambda>c. c \<noteq> CHR '','') l" and "rest = dropWhile (\<lambda>c. c \<noteq> CHR '','') l"
  obtain v e where v: "strtol tok = (v, e)" by (cases "strtol tok")
  have step: "parse_gpus gpus l = (if l = [] then Some gpus
      else if tok = [] \<or> e \<noteq> [] \<or> v < 0 \<or> v > INT_MAX then None
      else if v \<in> set gpus then None else if rest = [] then Some (gpus @ [v]) else parse_gpus (gpus @ [v]) (tl rest))"
    by (subst parse_gpus.simps) (simp add: Let_def v flip: tok_def rest_def)
  consider "l = []" "g = gpus" | "g = gpus @ [v]" "v \<notin> set gpus"
    | "v \<notin> set gpus" "rest \<noteq> []" "parse_gpus (gpus @ [v]) (tl rest) = Some g"
    using less.prems(1) unfolding step by (auto split: if_splits)
  then show ?case
  proof cases
    case 3
    have "length rest \<le> length l" unfolding rest_def by (rule length_dropWhile_le)
    then have "length (tl rest) < length l" using 3(2) by (cases rest) auto
    from less.hyps [OF this 3(3)] show ?thesis using less.prems(2) 3(1) by simp
  qed (use less.prems(2) in simp_all)
qed

lemma apply_option_keeps: "apply_option a v cs = Some cs' \<Longrightarrow> keeps a v cs cs'"
  unfolding apply_option_def Let_def
  by (simp add: keeps_def split: prod.splits if_splits; auto dest: parse_hex_seed_length parse_gpus_distinct)

lemma set_flag_keeps: "set_flag a cfg = Some cfg' \<Longrightarrow>
    cf_disks cfg' = cf_disks cfg \<and> cf_gpus cfg' = cf_gpus cfg \<and> (cf_confirm cfg' \<longrightarrow> cf_confirm cfg \<or> a = ''--confirm'')"
  by (auto simp: set_flag_def split: if_splits)

definition allowed :: "config \<Rightarrow> string list \<Rightarrow> config \<Rightarrow> bool" where
  "allowed cfg argv cfg' \<longleftrightarrow> (cf_confirm cfg' \<longrightarrow> cf_confirm cfg \<or> ''--confirm'' \<in> set argv)
     \<and> (\<forall>d\<in>set (cf_disks cfg'). d \<in> set (cf_disks cfg) \<or> named_disk argv d)
     \<and> (distinct (cf_gpus cfg) \<longrightarrow> distinct (cf_gpus cfg'))"

lemma allowed_flag:
  assumes "set_flag a cfg = Some cfg1" "allowed cfg1 argv cfg'"
  shows "allowed cfg (a # argv) cfg'"
  using set_flag_keeps [OF assms(1)] assms(2) named_disk_Cons [of argv _ a] by (auto simp: allowed_def)

lemma allowed_option:
  assumes "keeps a v (cfg, seed) (cfg1, seed1)" "allowed cfg1 argv cfg'"
  shows "allowed cfg (a # v # argv) cfg'"
proof -
  have "named_disk (a # v # argv) v" if "a = ''--disk''"
    unfolding named_disk_def using that by (intro exI [of _ "[]"] exI [of _ argv]) simp
  moreover have "named_disk (a # v # argv) d" if "named_disk argv d" for d using that by (intro named_disk_Cons)
  ultimately show ?thesis using assms by (auto simp: allowed_def keeps_def)
qed

lemma parse_args_allow:
  "parse_args cfg seed argv = Parsed cfg' seed' \<Longrightarrow> allowed cfg argv cfg' \<and> (length seed = 32 \<longrightarrow> length seed' = 32)"
proof (induction cfg seed argv rule: parse_args.induct)
  case (1 cfg seed)
  then show ?case by (simp add: allowed_def)
next
  case (2 cfg seed a argv)
  show ?case
  proof (cases "set_flag a cfg")
    case (Some cfg1)
    then have "parse_args cfg1 seed argv = Parsed cfg' seed'" using "2.prems" by (simp add: parse_args.simps(2))
    then show ?thesis using "2.IH"(2) [OF Some] allowed_flag [OF Some] by blast
  next
    case None
    then obtain v argv' cfg1 seed1 where o: "argv = v # argv'" "apply_option a v (cfg, seed) = Some (cfg1, seed1)"
      "parse_args cfg1 seed1 argv' = Parsed cfg' seed'" "\<not> (a = ''-h'' \<or> a = ''--help'')" "a \<in> set value_options"
      using "2.prems" by (auto simp: parse_args.simps(2) split: if_splits list.splits option.splits simp del: value_options_def)
    note keep = apply_option_keeps [OF o(2)]
    have "allowed cfg1 argv' cfg' \<and> (length seed1 = 32 \<longrightarrow> length seed' = 32)"
      by (rule "2.IH"(1) [OF None o(4,5,1,2) _ o(3)]) simp
    then show ?thesis using allowed_option [OF keep] keep o(1) by (simp add: keeps_def)
  qed
qed

end
