(* ===== verification/Disk_Worker.thy ===== *)
theory Disk_Worker
  imports Gpu_Run Disk_Io Disk_Args
begin

section \<open>The worker of the disk wipe\<close>

text \<open>
  \<open>worker\<close> of \<open>disk_wipe_bench.cu\<close>: one thread per GPU, which builds the topology, labels its ranges of the devices
  window by window in device memory, and copies each window in slices to the host and on to the device. The
  theorem: whatever fails, a worker writes nothing but the labels that belong to the places it writes to, within its
  ranges; if it reports success, it has written all of them, or nothing in a dry run.
\<close>

subsection \<open>The code\<close>

definition floor_to :: "'a \<Rightarrow> 'a \<Rightarrow> 'a :: {zero, times, divide}" where
  "floor_to v m = (if m \<noteq> 0 then (v div m) * m else 0)"

text \<open>One contiguous range of a device.\<close>

record work_item =
  wi_fd :: nat
  wi_disk_off :: u64
  wi_len :: u64

text \<open>\<open>res->err\<close>; \<open>res->ok\<close> is that there is none. The writes are the system calls that reached a device.\<close>

datatype worker_error = Set_Device | Topo_Build | Mem_Info | Malloc_Window | Malloc_Stage | Topo_Label | Memcpy_D2H | Pwrite

record worker_result =
  wr_err :: "worker_error option"
  wr_bytes :: nat
  wr_writes :: "(nat \<times> nat \<times> bytes) list"

text \<open>
  What a worker sees of the runtime: \<open>cudaSetDevice\<close>, the allocations of the topology, the free memory, the
  product \<open>(double)free_b * 0.30\<close>, the device window and the host buffer by size, the \<open>k\<close>-th labeling
  call, the \<open>k\<close>-th copy to the host, the answers to its system calls, and the state of the key cache.
\<close>

record worker_env =
  we_set_device :: bool
  we_malloc :: "nat \<Rightarrow> u64 \<Rightarrow> bytes option"
  we_cuda :: cuda
  we_mem_info :: "u64 option"
  we_third :: "u64 \<Rightarrow> u64"
  we_window :: "nat \<Rightarrow> bytes option"
  we_stage :: "nat \<Rightarrow> bytes option"
  we_run :: "nat \<Rightarrow> gpu_env"
  we_d2h :: "nat \<Rightarrow> bool"
  we_io :: "io_answer list"
  we_keys :: hash_state

definition window_bytes :: "config \<Rightarrow> u64 \<Rightarrow> u64 \<Rightarrow> u64 \<Rightarrow> u64" where
  "window_bytes cfg third max_item super_bytes =
     (let window = (if cf_hbm_window_mib cfg \<noteq> 0 then cf_hbm_window_mib cfg * MIB else min third (16384 * MIB));
          window = (if max_item \<noteq> 0 \<and> window > max_item then max_item else window);
          window = floor_to window super_bytes
      in if window < super_bytes then super_bytes else window)"

definition stage_bytes :: "config \<Rightarrow> u64 \<Rightarrow> u64 \<Rightarrow> u64" where
  "stage_bytes cfg window super_bytes =
     (let stage = floor_to (cf_stage_mib cfg * MIB) super_bytes;
          stage = (if stage < super_bytes then super_bytes else stage)
      in if stage > window then window else stage)"

text \<open>The variables of the loops: the two buffers, the calls made so far, and \<open>res\<close>.\<close>

record wipe =
  wp_buf :: bytes
  wp_stage :: bytes
  wp_labels :: nat
  wp_copies :: nat
  wp_io :: "io_answer list"
  wp_err :: "worker_error option"
  wp_bytes :: nat
  wp_writes :: "(nat \<times> nat \<times> bytes) list"

text \<open>
  \<open>for (s = 0; s < win && res->ok; s += stage)\<close>: the slices of a window whose first byte goes to \<open>base\<close>. The window
  is allocated, so \<open>s + stage\<close> does not wrap; a stage of 0 would not end.
\<close>

function slices :: "worker_env \<Rightarrow> bool \<Rightarrow> nat \<Rightarrow> nat \<Rightarrow> nat \<Rightarrow> nat \<Rightarrow> nat \<Rightarrow> wipe \<Rightarrow> wipe option" where
  "slices W dry fd base win stage s w =
     (if s < win \<and> wp_err w = None then
        (if stage = 0 then None
         else let slice = min stage (win - s); w = w\<lparr>wp_copies := wp_copies w + 1\<rparr>
              in if \<not> we_d2h W (wp_copies w - 1) then Some (w\<lparr>wp_err := Some Memcpy_D2H\<rparr>)
                 else do {
                   x \<leftarrow> rd (wp_buf w) s slice;
                   h_stage \<leftarrow> wr (wp_stage w) 0 x;
                   w \<leftarrow> Some (w\<lparr>wp_stage := h_stage\<rparr>);
                   (if dry then slices W dry fd base win stage (s + stage) (w\<lparr>wp_bytes := wp_bytes w + slice\<rparr>)
                    else do {
                      buf \<leftarrow> rd h_stage 0 slice;
                      (rc, ws, io) \<leftarrow> pwrite_all (wp_io w) buf (base + s) 0;
                      w \<leftarrow> Some (w\<lparr>wp_io := io, wp_writes := wp_writes w @ map (Pair fd) ws\<rparr>);
                      (if rc \<noteq> 0 then Some (w\<lparr>wp_err := Some Pwrite\<rparr>)
                       else slices W dry fd base win stage (s + stage) (w\<lparr>wp_bytes := wp_bytes w + slice\<rparr>)) }) })
      else Some w)"
  by pat_completeness auto

termination by (relation "measure (\<lambda>(W, dry, fd, base, win, stage, s, w). win - s)") auto

declare slices.simps [simp del]

text \<open>
  \<open>while (pos < it.len)\<close>. A failed slice ends the loop over the slices only: the next window is labelled all the same,
  although nothing of it is written.
\<close>

function windows ::
  "strategy \<Rightarrow> (nat \<Rightarrow> nat \<Rightarrow> nat \<Rightarrow> bool) \<Rightarrow> labeler \<Rightarrow> worker_env \<Rightarrow> topo \<Rightarrow> bool \<Rightarrow> bytes \<Rightarrow> nat \<Rightarrow> nat \<Rightarrow> nat \<Rightarrow> work_item \<Rightarrow> nat \<Rightarrow> wipe
     \<Rightarrow> wipe option" where
  "windows S al H W T dry seed super_bytes window stage it pos w =
     (if pos < unat (wi_len it) then
        (let win = floor_to (min window (unat (wi_len it) - pos)) super_bytes
         in if win = 0 then Some w
            else do {
              r \<leftarrow> pose_graph_hbm_topo_label S al H (we_run W (wp_labels w)) (Some T) seed (wp_buf w) (of_nat win)
                     (of_nat ((unat (wi_disk_off it) + pos) div POSE_HASH_BYTES));
              w \<leftarrow> Some (w\<lparr>wp_buf := o_persist r, wp_labels := wp_labels w + 1\<rparr>);
              (if o_rc r \<noteq> 0 then Some (w\<lparr>wp_err := Some Topo_Label\<rparr>)
               else do {
                 w \<leftarrow> slices W dry (wi_fd it) (unat (wi_disk_off it) + pos) win stage 0 w;
                 windows S al H W T dry seed super_bytes window stage it (pos + win) w }) })
      else Some w)"
  by pat_completeness auto

termination
  by (relation "measure (\<lambda>(S, al, H, W, T, dry, seed, sb, window, stage, it, pos, w). unat (wi_len it) - pos)") auto

declare windows.simps [simp del]

text \<open>\<open>fsync\<close> is called after an item and its result is not looked at.\<close>

fun wipe_items ::
  "strategy \<Rightarrow> (nat \<Rightarrow> nat \<Rightarrow> nat \<Rightarrow> bool) \<Rightarrow> labeler \<Rightarrow> worker_env \<Rightarrow> topo \<Rightarrow> bool \<Rightarrow> bytes \<Rightarrow> nat \<Rightarrow> nat \<Rightarrow> nat \<Rightarrow> work_item list \<Rightarrow> wipe
     \<Rightarrow> wipe option" where
  "wipe_items S al H W T dry seed super_bytes window stage [] w = Some w"
| "wipe_items S al H W T dry seed super_bytes window stage (it # items) w =
     (if wp_err w \<noteq> None then Some w
      else do {
        w \<leftarrow> windows S al H W T dry seed super_bytes window stage it 0 w;
        wipe_items S al H W T dry seed super_bytes window stage items w })"

definition worker_failed :: "worker_error \<Rightarrow> worker_result" where
  "worker_failed e = \<lparr>wr_err = Some e, wr_bytes = 0, wr_writes = []\<rparr>"

definition worker ::
  "strategy \<Rightarrow> (nat \<Rightarrow> nat \<Rightarrow> nat \<Rightarrow> bool) \<Rightarrow> hw \<Rightarrow> worker_env \<Rightarrow> config \<Rightarrow> bytes \<Rightarrow> work_item list \<Rightarrow> worker_result option" where
  "worker S al h W cfg seed items =
     (if \<not> we_set_device W then Some (worker_failed Set_Device)
      else
       (let cb = cf_chunk_blocks cfg;
            super_bytes = pose_graph_super_chunk_blocks cb * of_nat POSE_HASH_BYTES
        in
        if sum_list (map wi_len items) = 0 then Some \<lparr>wr_err = None, wr_bytes = 0, wr_writes = []\<rparr>
        else do {
          (t, hs') \<leftarrow> pose_graph_hbm_topo_build S h (we_keys W) (we_malloc W) (we_cuda W) cb POSE_HASH_BLAKE3;
          (case t of
             None \<Rightarrow> Some (worker_failed Topo_Build)
           | Some T \<Rightarrow>
              (case we_mem_info W of
                 None \<Rightarrow> Some (worker_failed Mem_Info)
               | Some free_b \<Rightarrow>
                  (let window = window_bytes cfg (we_third W free_b) (fold max (map wi_len items) 0) super_bytes;
                       stage = stage_bytes cfg window super_bytes
                   in case we_window W (unat window) of
                        None \<Rightarrow> Some (worker_failed Malloc_Window)
                      | Some d_buf \<Rightarrow>
                         (case we_stage W (unat stage) of
                            None \<Rightarrow> Some (worker_failed Malloc_Stage)
                          | Some h_stage \<Rightarrow> do {
                              w \<leftarrow> wipe_items S al (pose_labeler h) W T (cf_dry_run cfg) seed (unat super_bytes) (unat window) (unat stage) items
                                     \<lparr>wp_buf = d_buf, wp_stage = h_stage, wp_labels = 0, wp_copies = 0, wp_io = we_io W, wp_err = None,
                                      wp_bytes = 0, wp_writes = []\<rparr>;
                              Some \<lparr>wr_err = wp_err w, wr_bytes = wp_bytes w, wr_writes = wp_writes w\<rparr> })))) }))"

subsection \<open>The bytes of a wiped device\<close>

text \<open>The label of block \<open>b\<close> of a device, and the byte at position \<open>p\<close>.\<close>

definition disk_block :: "hw \<Rightarrow> bytes \<Rightarrow> nat \<Rightarrow> nat \<Rightarrow> label" where
  "disk_block h seed cb b = output_labels (pose_labeler h) (chunk_seed (pose_labeler h) seed (of_nat (b div cb))) (of_nat cb) POSE_HASH_BLAKE3 ! (b mod cb)"

definition disk_byte :: "hw \<Rightarrow> bytes \<Rightarrow> nat \<Rightarrow> nat \<Rightarrow> byte" where
  "disk_byte h seed cb p = disk_block h seed cb (p div 32) ! (p mod 32)"

text \<open>A labelled buffer at a place of the device.\<close>

lemma block_label_disk:
  assumes "0 < cb" "cb dvd rbo" "rbo + n * cb < 2 ^ 64" "n * cb \<le> tot" "b < n * cb"
  shows "block_label (pose_labeler h) seed (of_nat rbo) POSE_HASH_BLAKE3 tot cb b = disk_block h seed cb (rbo + b)"
proof -
  obtain k where k: "rbo = k * cb" using assms(2) by (metis dvd_def mult.commute)
  have bn: "b div cb < n" using assms(1,5) by (simp add: less_mult_imp_div_less)
  then have le: "(b div cb + 1) * cb \<le> n * cb" by (intro mult_le_mono1) simp
  then have m: "min cb (tot - b div cb * cb) = cb" using assms(4) by simp
  have small: "rbo + b div cb * cb < 2 ^ 64" "cb < 2 ^ 64" using le assms(1,3) by simp_all
  note u = unat_of_nat_u64 [OF small(1)] unat_of_nat_u64 [OF small(2)]
  have "unat ((of_nat (rbo + b div cb * cb) :: u64) div of_nat cb) = (rbo + b div cb * cb) div cb"
    unfolding unat_div u ..
  also have "\<dots> = (rbo + b) div cb" using assms(1) by (simp add: k)
  finally have d: "unat ((of_nat (rbo + b div cb * cb) :: u64) div of_nat cb) = (rbo + b) div cb" .
  have "x = of_nat (unat x)" for x :: u64 by simp
  from this [of "of_nat (rbo + b div cb * cb) div of_nat cb"]
  have "(of_nat (rbo + b div cb * cb) :: u64) div of_nat cb = of_nat ((rbo + b) div cb)" unfolding d .
  then have "chunk_index (of_nat rbo) (b div cb * cb) cb = of_nat ((rbo + b) div cb)" by (simp add: chunk_index_def)
  then show ?thesis using k by (simp add: block_label_def disk_block_def Let_def m)
qed

lemma labelled_disk_bytes:
  assumes "0 < cb" "cb dvd rbo" "rbo + n * cb < 2 ^ 64" "n * cb \<le> tot"
    and "blocks_labelled (pose_labeler h) seed (of_nat rbo) POSE_HASH_BLAKE3 tot cb (n * cb) R" "i < n * cb * 32"
  shows "R ! i = disk_byte h seed cb (rbo * 32 + i)"
proof -
  let ?b = "i div 32"
  have b: "?b < n * cb" using assms(6) by (simp add: less_mult_imp_div_less)
  then have "rd R (?b * 32) 32 = Some (disk_block h seed cb (rbo + ?b))"
    using assms(5) block_label_disk [OF assms(1-4) b] by (simp add: blocks_labelled_def POSE_HASH_BYTES_def)
  then have "R ! (?b * 32 + i mod 32) = disk_block h seed cb (rbo + ?b) ! (i mod 32)" by (rule rd_nth) simp
  then show ?thesis by (simp add: disk_byte_def)
qed

subsection \<open>What a worker writes\<close>

text \<open>
  From \<open>w\<close> to \<open>w'\<close> only writes with the wanted bytes were added, within the ranges \<open>R\<close> of \<open>(fd, lo, hi)\<close>, and none in
  a dry run; the buffers keep their size and at most \<open>n\<close> answers were used.
\<close>

definition wrote :: "(nat \<Rightarrow> nat \<Rightarrow> byte) \<Rightarrow> bool \<Rightarrow> (nat \<times> nat \<times> nat) set \<Rightarrow> nat \<Rightarrow> wipe \<Rightarrow> wipe \<Rightarrow> bool" where
  "wrote want dry R n w w' \<longleftrightarrow> length (wp_buf w') = length (wp_buf w) \<and> length (wp_stage w') = length (wp_stage w)
     \<and> served (wp_io w) \<le> served (wp_io w') + n \<and> (wp_err w \<noteq> None \<longrightarrow> wp_err w' \<noteq> None)
     \<and> (\<exists>new. wp_writes w' = wp_writes w @ new \<and> (dry \<longrightarrow> new = []) \<and> writes_want want new
         \<and> (\<forall>(f, o', x)\<in>set new. \<exists>lo hi. (f, lo, hi) \<in> R \<and> lo \<le> o' \<and> o' + length x \<le> hi))"

lemma wrote_refl: "wrote want dry R n w w"
  by (simp add: wrote_def)

lemma wrote_trans:
  assumes "wrote want dry R n w w'" "wrote want dry R' n' w' w''"
    and "\<And>f lo hi. (f, lo, hi) \<in> R \<union> R' \<Longrightarrow> \<exists>lo' hi'. (f, lo', hi') \<in> Q \<and> lo' \<le> lo \<and> hi \<le> hi'"
  shows "wrote want dry Q (n + n') w w''"
proof -
  obtain new new' where n: "wp_writes w' = wp_writes w @ new" "dry \<longrightarrow> new = []" "writes_want want new"
    "\<forall>(f, o', x)\<in>set new. \<exists>lo hi. (f, lo, hi) \<in> R \<and> lo \<le> o' \<and> o' + length x \<le> hi"
    "wp_writes w'' = wp_writes w' @ new'" "dry \<longrightarrow> new' = []" "writes_want want new'"
    "\<forall>(f, o', x)\<in>set new'. \<exists>lo hi. (f, lo, hi) \<in> R' \<and> lo \<le> o' \<and> o' + length x \<le> hi"
    using assms(1,2) unfolding wrote_def by blast
  have "\<exists>lo hi. (f, lo, hi) \<in> Q \<and> lo \<le> o' \<and> o' + length x \<le> hi" if e: "(f, o', x) \<in> set (new @ new')" for f o' x
  proof -
    obtain lo hi where "(f, lo, hi) \<in> R \<union> R'" "lo \<le> o'" "o' + length x \<le> hi" using n(4,8) e by fastforce
    then show ?thesis using assms(3) [of f lo hi] by (meson le_trans)
  qed
  then show ?thesis using assms(1,2) n unfolding wrote_def
    by (intro conjI exI [of _ "new @ new'"]) (auto simp: writes_want_append)
qed

lemma wrote_mono: "wrote want dry R n w w' \<Longrightarrow> n \<le> n' \<Longrightarrow>
    (\<And>f lo hi. (f, lo, hi) \<in> R \<Longrightarrow> \<exists>lo' hi'. (f, lo', hi') \<in> Q \<and> lo' \<le> lo \<and> hi \<le> hi') \<Longrightarrow> wrote want dry Q n' w w'"
  using wrote_trans [of want dry R n w w' "{}" "n' - n" w' Q] wrote_refl [of want dry "{}" "n' - n" w'] by simp

lemma wrote_split:
  assumes "wrote want dry {(fd, lo, mid)} n w w'" "wrote want dry {(fd, mid', hi)} n' w' w''" "lo \<le> mid'" "mid \<le> hi" "n + n' \<le> k"
  shows "wrote want dry {(fd, lo, hi)} k w w''"
proof (rule wrote_mono [OF _ assms(5)])
  show "wrote want dry {(fd, lo, mid), (fd, mid', hi)} (n + n') w w''" by (rule wrote_trans [OF assms(1,2)]) auto
qed (use assms(3,4) in auto)

lemma wrote_err: "wrote want dry R n w w' \<Longrightarrow> wp_err w' = None \<Longrightarrow> wp_err w = None"
  by (auto simp: wrote_def)

lemma wrote_reaches: "wrote want dry R n w w' \<Longrightarrow> reaches (wp_writes w) fd p \<Longrightarrow> reaches (wp_writes w') fd p"
  by (auto simp: wrote_def reaches_append)

lemma wrote_shape: "wrote want dry R n w w' \<Longrightarrow> length (wp_buf w') = length (wp_buf w) \<and> length (wp_stage w') = length (wp_stage w)
    \<and> served (wp_io w) \<le> served (wp_io w') + n"
  by (simp add: wrote_def)

lemma reaches_pair: "\<exists>(o', y)\<in>set ws. o' \<le> p \<and> p < o' + length y \<Longrightarrow> reaches (map (Pair fd) ws) fd p"
  by (auto simp: reaches_def)

lemma slices_ok:
  assumes "0 < stage" "stage \<le> length (wp_stage w)" "win \<le> length (wp_buf w)" "\<forall>i<win. wp_buf w ! i = want fd (base + i)"
    and "win - s \<le> served (wp_io w)"
  shows "\<exists>w'. slices W dry fd base win stage s w = Some w' \<and> wrote want dry {(fd, base + s, base + win)} (win - s) w w'
    \<and> (wp_err w' = None \<and> \<not> dry \<longrightarrow> (\<forall>p. base + s \<le> p \<and> p < base + win \<longrightarrow> reaches (wp_writes w') fd p))"
  using assms
proof (induction "win - s" arbitrary: s w rule: less_induct)
  case less
  show ?case
  proof (cases "s < win \<and> wp_err w = None")
    case False
    then show ?thesis using wrote_refl by (subst slices.simps) auto
  next
    case True
    define k where "k = min stage (win - s)"
    have k: "0 < k" "k \<le> stage" "s + k \<le> win" using True less.prems(1) by (auto simp: k_def)
    let ?w1 = "w\<lparr>wp_copies := wp_copies w + 1\<rparr>"
    show ?thesis
    proof (cases "we_d2h W (wp_copies w)")
      case False
      then show ?thesis using True less.prems(1)
        by (subst slices.simps, intro exI [of _ "?w1\<lparr>wp_err := Some Memcpy_D2H\<rparr>"]) (auto simp: Let_def wrote_def)
    next
      case copied: True
      obtain x where x: "rd (wp_buf w) s k = Some x" using k(3) less.prems(3) by (auto simp: rd_def)
      have lx: "length x = k" by (rule rd_length [OF x])
      obtain hs where hs: "wr (wp_stage w) 0 x = Some hs" using wr_ok [of 0 x "wp_stage w"] lx k(2) less.prems(2) by auto
      have lh: "length hs = length (wp_stage w)" by (rule agree_off_length [OF wr_agree [OF hs]])
      have r: "rd hs 0 k = Some x" using rd_wr [OF hs] lx by simp
      have xw: "x ! i = want fd (base + s + i)" if "i < k" for i
        using rd_nth [OF x that] less.prems(4) that k(3) by (simp add: add.assoc)
      let ?w2 = "?w1\<lparr>wp_stage := hs\<rparr>"
      have next_s: "win - (s + stage) < win - s" using True less.prems(1) by linarith
      show ?thesis
      proof (cases dry)
        case True
        let ?w3 = "?w2\<lparr>wp_bytes := wp_bytes ?w2 + k\<rparr>"
        have w3: "wrote want dry {(fd, base + s, base + win)} 0 w ?w3" using lh by (simp add: wrote_def)
        have srv: "win - (s + stage) \<le> served (wp_io ?w3)" using less.prems(5) by simp
        from less.hyps [OF next_s, of ?w3] obtain w' where w': "slices W dry fd base win stage (s + stage) ?w3 = Some w'"
          "wrote want dry {(fd, base + (s + stage), base + win)} (win - (s + stage)) ?w3 w'"
          using less.prems lh srv by auto
        have "slices W dry fd base win stage s w = Some w'"
          using True less.prems(1) copied x hs w'(1) \<open>s < win \<and> wp_err w = None\<close> by (subst slices.simps) (simp add: Let_def k_def)
        moreover have "wrote want dry {(fd, base + s, base + win)} (win - s) w w'"
          by (rule wrote_split [OF w3 w'(2)]) simp_all
        ultimately show ?thesis using True by blast
      next
        case False
        have "length x - 0 \<le> served (wp_io w)" using lx k(3) less.prems(5) by linarith
        from pwrite_all_ok [OF this, of "base + s"]
        obtain rc ws io where p: "pwrite_all (wp_io w) x (base + s) 0 = Some (rc, ws, io)" "served (wp_io w) \<le> served io + (length x - 0)"
          "\<forall>(o', y)\<in>set ws. \<exists>j\<ge>0. o' = base + s + j \<and> j + length y \<le> length x \<and> (\<forall>i<length y. y ! i = x ! (j + i))"
          "rc = 0 \<longrightarrow> (\<forall>p. 0 \<le> p \<and> p < length x \<longrightarrow> (\<exists>(o', y)\<in>set ws. o' \<le> base + s + p \<and> base + s + p < o' + length y))"
          by (elim exE conjE) (rule that)
        note p = p [unfolded lx diff_zero]
        let ?w3 = "?w2\<lparr>wp_io := io, wp_writes := wp_writes ?w2 @ map (Pair fd) ws\<rparr>"
        have inside: "base + s \<le> o' \<and> o' + length y \<le> base + (s + k) \<and> (\<forall>i<length y. y ! i = want fd (o' + i))" if "(o', y) \<in> set ws" for o' y
        proof -
          have "\<exists>j\<ge>0. o' = base + s + j \<and> j + length y \<le> k \<and> (\<forall>i<length y. y ! i = x ! (j + i))"
            using bspec [OF p(3) that] by simp
          then obtain j where j: "o' = base + s + j" "j + length y \<le> k" "\<forall>i<length y. y ! i = x ! (j + i)"
            by (elim exE conjE) (rule that)
          have "y ! i = want fd (o' + i)" if "i < length y" for i
            using j xw [of "j + i"] that by (simp add: add.assoc)
          then show ?thesis using j by simp
        qed
        have w3: "wrote want dry {(fd, base + s, base + (s + k))} k w (wp_err_update f ?w3)" for f
        proof -
          have "\<forall>(o', y)\<in>set ws. \<forall>i<length y. y ! i = want fd (o' + i)" "\<forall>(o', y)\<in>set ws. base + s \<le> o' \<and> o' + length y \<le> base + (s + k)"
            using inside by auto
          then show ?thesis
            using lh p(2) False \<open>s < win \<and> wp_err w = None\<close> unfolding wrote_def by (simp add: writes_want_def)
        qed
        show ?thesis
        proof (cases "rc = 0")
          case bad: False
          have "slices W dry fd base win stage s w = Some (?w3\<lparr>wp_err := Some Pwrite\<rparr>)"
            using False less.prems(1) copied x hs r p(1) bad \<open>s < win \<and> wp_err w = None\<close> by (subst slices.simps) (simp add: Let_def k_def)
          moreover have "wrote want dry {(fd, base + s, base + win)} (win - s) w (?w3\<lparr>wp_err := Some Pwrite\<rparr>)"
            using wrote_mono [OF w3 [of "\<lambda>_. Some Pwrite"], of "win - s" "{(fd, base + s, base + win)}"] k(3) by auto
          ultimately show ?thesis by auto
        next
          case good: True
          let ?w4 = "?w3\<lparr>wp_bytes := wp_bytes ?w3 + k\<rparr>"
          have w4: "wrote want dry {(fd, base + s, base + (s + k))} k w ?w4"
            using w3 [of "\<lambda>e. e"] by (simp add: wrote_def)
          have srv: "win - (s + stage) \<le> served (wp_io ?w4)" using p(2) less.prems(5) k(1) by (simp add: k_def min_def split: if_splits)
          from less.hyps [OF next_s, of ?w4] obtain w' where w': "slices W dry fd base win stage (s + stage) ?w4 = Some w'"
            "wrote want dry {(fd, base + (s + stage), base + win)} (win - (s + stage)) ?w4 w'"
            "wp_err w' = None \<and> \<not> dry \<longrightarrow> (\<forall>p. base + (s + stage) \<le> p \<and> p < base + win \<longrightarrow> reaches (wp_writes w') fd p)"
            using less.prems lh srv by auto
          have "slices W dry fd base win stage s w = Some w'"
            using False less.prems(1) copied x hs r p(1) good w'(1) \<open>s < win \<and> wp_err w = None\<close>
            by (subst slices.simps) (simp add: Let_def k_def)
          moreover have "wrote want dry {(fd, base + s, base + win)} (win - s) w w'"
            using k(3) by (intro wrote_split [OF w4 w'(2)]) (simp_all add: k_def)
          moreover have "reaches (wp_writes w') fd p" if "wp_err w' = None" "base + s \<le> p" "p < base + win" for p
          proof (cases "p < base + s + k")
            case True
            define q where "q = p - (base + s)"
            have q: "q < k" "base + s + q = p" using True that(2) by (simp_all add: q_def)
            have "\<exists>(o', y)\<in>set ws. o' \<le> base + s + q \<and> base + s + q < o' + length y" using p(4) good q(1) by simp
            then have "reaches (map (Pair fd) ws) fd p" unfolding q(2) by (rule reaches_pair)
            then have "reaches (wp_writes ?w4) fd p" by (simp add: reaches_append)
            then show ?thesis by (rule wrote_reaches [OF w'(2)])
          next
            case False
            then have "base + (s + stage) \<le> p" using that(3) by (auto simp: k_def min_def split: if_splits)
            then show ?thesis using w'(3) that \<open>\<not> dry\<close> by blast
          qed
          ultimately show ?thesis by blast
        qed
      qed
    qed
  qed
qed

text \<open>A worker on which no call fails.\<close>

definition calm :: "worker_env \<Rightarrow> wipe \<Rightarrow> bool" where
  "calm W w \<longleftrightarrow> (\<forall>k. we_d2h W k \<and> gpu_calls_succeed (we_run W k) \<and> gpu_memory (we_run W k)) \<and> io_calm (wp_io w)"

lemma slices_calm:
  "slices W dry fd base win stage s w = Some w' \<Longrightarrow> calm W w \<Longrightarrow> wp_err w' = wp_err w \<and> calm W w'"
proof (induction "win - s" arbitrary: s w rule: less_induct)
  case less
  show ?case
  proof (cases "s < win \<and> wp_err w = None \<and> stage \<noteq> 0")
    case False
    then show ?thesis using less.prems by (subst (asm) slices.simps) (auto split: if_splits)
  next
    case True
    then have d: "we_d2h W k" "win - (s + stage) < win - s" for k using less.prems(2) by (auto simp: calm_def)
    have io: "io_calm (wp_io w)" using less.prems(2) by (simp add: calm_def)
    define k where "k = min stage (win - s)"
    obtain x hs where x: "rd (wp_buf w) s k = Some x" "wr (wp_stage w) 0 x = Some hs"
      using less.prems(1) True d(1) by (subst (asm) slices.simps) (auto simp: Let_def k_def split: bind_splits)
    let ?w2 = "w\<lparr>wp_copies := wp_copies w + 1, wp_stage := hs\<rparr>"
    show ?thesis
    proof (cases dry)
      case dry: True
      have "slices W dry fd base win stage (s + stage) (?w2\<lparr>wp_bytes := wp_bytes w + k\<rparr>) = Some w'"
        using less.prems(1) True d(1) x dry by (subst (asm) slices.simps) (simp add: Let_def k_def)
      from less.hyps [OF d(2) this] show ?thesis using less.prems(2) by (simp add: calm_def)
    next
      case False
      obtain buf rc ws io' where p: "rd hs 0 k = Some buf" "pwrite_all (wp_io w) buf (base + s) 0 = Some (rc, ws, io')"
        using less.prems(1) True d(1) x False by (subst (asm) slices.simps) (auto simp: Let_def k_def split: bind_splits)
      note c = pwrite_all_calm [OF p(2) io]
      let ?w3 = "?w2\<lparr>wp_io := io', wp_writes := wp_writes w @ map (Pair fd) ws, wp_bytes := wp_bytes w + k\<rparr>"
      have "slices W dry fd base win stage (s + stage) ?w3 = Some w'"
        using less.prems(1) True d(1) x False p c by (subst (asm) slices.simps) (simp add: Let_def k_def)
      from less.hyps [OF d(2) this] show ?thesis using less.prems(2) c by (simp add: calm_def)
    qed
  qed
qed

text \<open>What the loops run with: the topology is ready for every labeling call and the sizes fit.\<close>

definition wipe_ready :: "strategy \<Rightarrow> hw \<Rightarrow> u32 \<Rightarrow> pose_node list \<Rightarrow> nat list \<Rightarrow> topo \<Rightarrow> worker_env \<Rightarrow> bytes \<Rightarrow> nat \<Rightarrow> nat \<Rightarrow> bool" where
  "wipe_ready S h cb N level T W seed window stage \<longleftrightarrow> (\<forall>k. batch_ready S h cb N level T (we_run W k) seed)
     \<and> unat cb * 32 dvd window \<and> 0 < window \<and> 0 < stage"

definition buffers_fit :: "nat \<Rightarrow> nat \<Rightarrow> wipe \<Rightarrow> bool" where
  "buffers_fit window stage w \<longleftrightarrow> window \<le> length (wp_buf w) \<and> stage \<le> length (wp_stage w)"

definition item_fits :: "nat \<Rightarrow> work_item \<Rightarrow> bool" where
  "item_fits sb it \<longleftrightarrow> sb dvd unat (wi_disk_off it) \<and> sb dvd unat (wi_len it) \<and> unat (wi_disk_off it) + unat (wi_len it) < 2 ^ 64"

lemma buffers_fit_wrote: "buffers_fit window stage w \<Longrightarrow> wrote want dry R n w w' \<Longrightarrow> buffers_fit window stage w'"
  by (simp add: buffers_fit_def wrote_def)

lemma floor_to_nat: "0 < m \<Longrightarrow> m dvd floor_to n m \<and> floor_to n m \<le> (n :: nat) \<and> (m \<le> n \<longrightarrow> 0 < floor_to n m)"
  by (auto simp: floor_to_def div_greater_zero_iff)

text \<open>One window: the labels are those of its place on the device.\<close>

lemma window_labels:
  assumes "batch_ready S h cb N level T E seed" "unat cb * 32 dvd base" "unat cb * 32 dvd win" "base + win < 2 ^ 64" "win \<le> length R"
  shows "\<exists>r. pose_graph_hbm_topo_label S al (pose_labeler h) E (Some T) seed R (of_nat win) (of_nat (base div POSE_HASH_BYTES)) = Some r
    \<and> length (o_persist r) = length R \<and> (o_rc r = 0 \<longrightarrow> (\<forall>i<win. o_persist r ! i = disk_byte h seed (unat cb) (base + i)))
    \<and> (gpu_calls_succeed E \<and> gpu_memory E \<longrightarrow> o_rc r = 0)"
proof -
  have "topo_for S h cb N level T" using assms(1) by (simp add: batch_ready_def)
  note D = topo_forD [OF this]
  have cb: "0 < unat cb" using D(1) by (simp add: unat_gt_0)
  have u: "unat (of_nat win :: u64) = win" by (rule unat_of_nat_u64) (use assms(4) in simp)
  from topo_label_ok [where al = al and off = "of_nat (base div POSE_HASH_BYTES)" and hbm_len = "of_nat win" and R = R, OF assms(1), unfolded u]
  obtain r where r: "pose_graph_hbm_topo_label S al (pose_labeler h) E (Some T) seed R (of_nat win) (of_nat (base div POSE_HASH_BYTES)) = Some r"
    "agree_off {..<win div (unat cb * 32) * (unat cb * 32)} R (o_persist r)"
    "o_rc r = 0 \<Longrightarrow> blocks_labelled (pose_labeler h) seed (of_nat (base div POSE_HASH_BYTES)) POSE_HASH_BLAKE3 (win div 32) (unat cb)
        (win div (unat cb * 32) * unat cb) (o_persist r)"
    "gpu_calls_succeed E \<and> gpu_memory E \<longrightarrow> o_rc r = 0"
    using assms(5) by blast
  define n where "n = win div (unat cb * 32)"
  have n: "n * unat cb * 32 = win" using assms(3) by (simp add: n_def mult.assoc)
  obtain b where b: "base = unat cb * 32 * b" using assms(2) by (elim dvdE)
  have rbo: "base div POSE_HASH_BYTES = unat cb * b" by (simp add: b POSE_HASH_BYTES_def)
  have b32: "unat cb * b * 32 = base" by (simp add: b)
  have tot: "n * unat cb \<le> win div 32" using n by simp
  have small: "base div POSE_HASH_BYTES + n * unat cb < 2 ^ 64" using assms(4) n unfolding POSE_HASH_BYTES_def by linarith
  have "o_persist r ! i = disk_byte h seed (unat cb) (base + i)" if "o_rc r = 0" "i < win" for i
    using labelled_disk_bytes [OF cb _ small tot r(3) [OF that(1), folded n_def], of i] that(2) n b32 by (simp add: rbo)
  then show ?thesis using r(1,4) agree_off_length [OF r(2)] by auto
qed

text \<open>The loop over the windows of an item.\<close>

lemma windows_ok:
  assumes "wipe_ready S h cb N level T W seed window stage" "buffers_fit window stage w" "item_fits (unat cb * 32) it"
    and "unat cb * 32 dvd pos" "unat (wi_len it) - pos \<le> served (wp_io w)"
  defines "off \<equiv> unat (wi_disk_off it)" and "len \<equiv> unat (wi_len it)"
  shows "\<exists>w'. windows S al (pose_labeler h) W T dry seed (unat cb * 32) window stage it pos w = Some w'
    \<and> wrote (\<lambda>_. disk_byte h seed (unat cb)) dry {(wi_fd it, off + pos, off + len)} (len - pos) w w'
    \<and> (wp_err w' = None \<and> \<not> dry \<longrightarrow> (\<forall>p. off + pos \<le> p \<and> p < off + len \<longrightarrow> reaches (wp_writes w') (wi_fd it) p))
    \<and> (calm W w \<longrightarrow> wp_err w' = wp_err w \<and> calm W w')"
  using assms(2,4,5)
proof (induction "len - pos" arbitrary: pos w rule: less_induct)
  case less
  let ?want = "\<lambda>_. disk_byte h seed (unat cb)" and ?sb = "unat cb * 32"
  have ready: "batch_ready S h cb N level T (we_run W k) seed" for k using assms(1) by (simp add: wipe_ready_def)
  then have "topo_for S h cb N level T" by (simp add: batch_ready_def)
  note sb = topo_forD(1) [OF this]
  then have sb: "0 < ?sb" by (simp add: unat_gt_0)
  have it: "?sb dvd off" "?sb dvd len" "off + len < 2 ^ 64" using assms(3) by (simp_all add: item_fits_def off_def len_def)
  show ?case
  proof (cases "pos < len")
    case False
    then show ?thesis using wrote_refl by (subst windows.simps) (auto simp: len_def)
  next
    case True
    define win where "win = floor_to (min window (len - pos)) ?sb"
    have "?sb dvd window" using assms(1) by (simp add: wipe_ready_def)
    have "?sb dvd len - pos" using it(2) less.prems(2) by (rule dvd_diff_nat)
    then have "?sb \<le> min window (len - pos)"
      using \<open>?sb dvd window\<close> True assms(1) by (auto simp: wipe_ready_def dest: dvd_imp_le)
    with floor_to_nat [OF sb, of "min window (len - pos)"] have win: "?sb dvd win" "win \<le> window" "pos + win \<le> len" "0 < win"
      using True unfolding win_def by auto
    let ?r = "pose_graph_hbm_topo_label S al (pose_labeler h) (we_run W (wp_labels w)) (Some T) seed (wp_buf w) (of_nat win)
        (of_nat ((off + pos) div POSE_HASH_BYTES))"
    have "?sb dvd off + pos" using it(1) less.prems(2) by (rule dvd_add)
    moreover have "off + pos + win < 2 ^ 64" "win \<le> length (wp_buf w)" using win it(3) less.prems(1) by (simp_all add: buffers_fit_def)
    ultimately obtain r where r: "?r = Some r" "length (o_persist r) = length (wp_buf w)"
      "o_rc r = 0 \<longrightarrow> (\<forall>i<win. o_persist r ! i = disk_byte h seed (unat cb) (off + pos + i))"
      "gpu_calls_succeed (we_run W (wp_labels w)) \<and> gpu_memory (we_run W (wp_labels w)) \<longrightarrow> o_rc r = 0"
      using window_labels [OF ready _ win(1), where al = al and base = "off + pos" and R = "wp_buf w"] by blast
    let ?w1 = "w\<lparr>wp_buf := o_persist r, wp_labels := wp_labels w + 1\<rparr>"
    have step: "windows S al (pose_labeler h) W T dry seed ?sb window stage it pos w =
        (if o_rc r \<noteq> 0 then Some (?w1\<lparr>wp_err := Some Topo_Label\<rparr>)
         else do { w \<leftarrow> slices W dry (wi_fd it) (off + pos) win stage 0 ?w1;
                   windows S al (pose_labeler h) W T dry seed ?sb window stage it (pos + win) w })"
      using True win(4) r(1) by (subst windows.simps) (simp add: Let_def off_def len_def win_def)
    have w1: "wrote ?want dry R n w ?w1" "wrote ?want dry R n w (?w1\<lparr>wp_err := Some Topo_Label\<rparr>)" for R n
      using r(2) by (simp_all add: wrote_def)
    show ?thesis
    proof (cases "o_rc r = 0")
      case False
      then have "\<not> calm W w" using r(4) by (auto simp: calm_def)
      then show ?thesis using False step w1(2) by auto
    next
      case lab: True
      have "win - 0 \<le> served (wp_io ?w1)" using less.prems(3) win(3) unfolding len_def by simp
      moreover have "0 < stage" "stage \<le> length (wp_stage ?w1)" "win \<le> length (wp_buf ?w1)"
        using assms(1) less.prems(1) win(2) r(2) by (simp_all add: wipe_ready_def buffers_fit_def)
      moreover have "\<forall>i<win. wp_buf ?w1 ! i = ?want (wi_fd it) (off + pos + i)" using r(3) lab by simp
      ultimately obtain w2 where w2: "slices W dry (wi_fd it) (off + pos) win stage 0 ?w1 = Some w2"
        "wrote ?want dry {(wi_fd it, off + pos + 0, off + pos + win)} (win - 0) ?w1 w2"
        "wp_err w2 = None \<and> \<not> dry \<longrightarrow> (\<forall>p. off + pos + 0 \<le> p \<and> p < off + pos + win \<longrightarrow> reaches (wp_writes w2) (wi_fd it) p)"
        using slices_ok [where want = ?want and fd = "wi_fd it" and base = "off + pos" and s = 0 and w = ?w1] by blast
      note w2 = w2 [unfolded add_0_right diff_zero]
      have w02: "wrote ?want dry {(wi_fd it, off + pos, off + pos + win)} win w w2"
        using wrote_split [OF w1(1) [of "{(wi_fd it, off + pos, off + pos)}" 0] w2(2)] by simp
      have fit2: "buffers_fit window stage w2" by (rule buffers_fit_wrote [OF less.prems(1) w02])
      have "len - (pos + win) < len - pos" using win(3,4) by simp
      moreover have "?sb dvd pos + win" using less.prems(2) win(1) by (rule dvd_add)
      moreover have "unat (wi_len it) - (pos + win) \<le> served (wp_io w2)"
        using wrote_shape [OF w02] less.prems(3) win(3) unfolding len_def by linarith
      ultimately obtain w' where w': "windows S al (pose_labeler h) W T dry seed ?sb window stage it (pos + win) w2 = Some w'"
        "wrote ?want dry {(wi_fd it, off + (pos + win), off + len)} (len - (pos + win)) w2 w'"
        "wp_err w' = None \<and> \<not> dry \<longrightarrow> (\<forall>p. off + (pos + win) \<le> p \<and> p < off + len \<longrightarrow> reaches (wp_writes w') (wi_fd it) p)"
        "calm W w2 \<longrightarrow> wp_err w' = wp_err w2 \<and> calm W w'"
        using less.hyps [of "pos + win" w2] fit2 by blast
      have "wrote ?want dry {(wi_fd it, off + pos, off + len)} (len - pos) w w'"
        using win(3) by (intro wrote_split [OF w02 w'(2)]) simp_all
      moreover have "reaches (wp_writes w') (wi_fd it) p" if "wp_err w' = None" "\<not> dry" "off + pos \<le> p" "p < off + len" for p
        using w'(3) w2(3) wrote_reaches [OF w'(2)] wrote_err [OF w'(2)] that by (cases "p < off + pos + win") auto
      moreover have "wp_err w' = wp_err w \<and> calm W w'" if c: "calm W w"
      proof -
        have "calm W ?w1" using c by (simp add: calm_def)
        from slices_calm [OF w2(1) this] show ?thesis using w'(4) by simp
      qed
      ultimately show ?thesis using step lab w2(1) w'(1) by auto
    qed
  qed
qed

text \<open>All items.\<close>

definition item_range :: "work_item \<Rightarrow> nat \<times> nat \<times> nat" where
  "item_range it = (wi_fd it, unat (wi_disk_off it), unat (wi_disk_off it) + unat (wi_len it))"

definition items_bytes :: "work_item list \<Rightarrow> nat" where
  "items_bytes items = sum_list (map (\<lambda>it. unat (wi_len it)) items)"

definition items_reached :: "work_item list \<Rightarrow> (nat \<times> nat \<times> bytes) list \<Rightarrow> bool" where
  "items_reached items ws \<longleftrightarrow> (\<forall>it\<in>set items. \<forall>p. unat (wi_disk_off it) \<le> p \<and> p < unat (wi_disk_off it) + unat (wi_len it)
      \<longrightarrow> reaches ws (wi_fd it) p)"

lemma wipe_items_ok:
  assumes "wipe_ready S h cb N level T W seed window stage" "buffers_fit window stage w" "\<forall>it\<in>set items. item_fits (unat cb * 32) it"
    and "items_bytes items \<le> served (wp_io w)"
  shows "\<exists>w'. wipe_items S al (pose_labeler h) W T dry seed (unat cb * 32) window stage items w = Some w'
    \<and> wrote (\<lambda>_. disk_byte h seed (unat cb)) dry (item_range ` set items) (items_bytes items) w w'
    \<and> (wp_err w' = None \<and> \<not> dry \<longrightarrow> items_reached items (wp_writes w'))
    \<and> (calm W w \<longrightarrow> wp_err w' = wp_err w)"
  using assms(2-4)
proof (induction items arbitrary: w)
  case Nil
  then show ?case by (simp add: wrote_refl items_reached_def)
next
  case (Cons it items)
  let ?want = "\<lambda>_. disk_byte h seed (unat cb)" and ?fd = "wi_fd it" and ?off = "unat (wi_disk_off it)" and ?len = "unat (wi_len it)"
  show ?case
  proof (cases "wp_err w = None")
    case False
    then show ?thesis by (auto simp: wrote_refl)
  next
    case True
    have it: "item_fits (unat cb * 32) it" and rest: "\<forall>it\<in>set items. item_fits (unat cb * 32) it" using Cons.prems(2) by simp_all
    have len: "?len + items_bytes items \<le> served (wp_io w)" using Cons.prems(3) by (simp add: items_bytes_def)
    have "?len - 0 \<le> served (wp_io w)" using len by simp
    from windows_ok [where al = al and dry = dry, OF assms(1) Cons.prems(1) it dvd_0_right this]
    obtain w1 where w1: "windows S al (pose_labeler h) W T dry seed (unat cb * 32) window stage it 0 w = Some w1"
      "wrote ?want dry {(?fd, ?off, ?off + ?len)} ?len w w1"
      "wp_err w1 = None \<and> \<not> dry \<longrightarrow> (\<forall>p. ?off \<le> p \<and> p < ?off + ?len \<longrightarrow> reaches (wp_writes w1) ?fd p)"
      "calm W w \<longrightarrow> wp_err w1 = wp_err w \<and> calm W w1" by auto
    have "items_bytes items \<le> served (wp_io w1)" using wrote_shape [OF w1(2)] len by linarith
    from Cons.IH [OF buffers_fit_wrote [OF Cons.prems(1) w1(2)] rest this]
    obtain w' where w': "wipe_items S al (pose_labeler h) W T dry seed (unat cb * 32) window stage items w1 = Some w'"
      "wrote ?want dry (item_range ` set items) (items_bytes items) w1 w'"
      "wp_err w' = None \<and> \<not> dry \<longrightarrow> items_reached items (wp_writes w')"
      "calm W w1 \<longrightarrow> wp_err w' = wp_err w1" by blast
    have "wrote ?want dry (item_range ` set (it # items)) (?len + items_bytes items) w w'"
      by (rule wrote_trans [OF w1(2) w'(2)]) (auto simp: item_range_def)
    moreover have "items_reached (it # items) (wp_writes w')" if "wp_err w' = None \<and> \<not> dry"
      using that w'(3) w1(3) wrote_err [OF w'(2)] wrote_reaches [OF w'(2)] by (simp add: items_reached_def)
    ultimately show ?thesis using True w1(1,4) w'(1,4) by (auto simp: items_bytes_def)
  qed
qed

text \<open>The sizes of the two buffers.\<close>

lemma floor_to_u64: "unat (floor_to v m :: u64) = floor_to (unat v) (unat m)"
proof -
  have "unat v < 2 ^ 64" using unsigned_less [of v, where ?'a = nat] by simp
  with div_times_less_eq_dividend [of "unat v" "unat m"] have "unat v div unat m * unat m < 2 ^ 64" by (rule order_le_less_trans)
  then show ?thesis by (auto simp: floor_to_def unat_div unat_word_ariths unat_eq_zero)
qed

lemma floor_to_window:
  fixes v m :: u64
  assumes "m \<noteq> 0"
  defines "x \<equiv> if floor_to v m < m then m else floor_to v m"
  shows "unat m dvd unat x" "unat m \<le> unat x"
  using assms(1) floor_to_nat [of "unat m" "unat v"] by (auto simp: x_def floor_to_u64 unat_gt_0 word_less_nat_alt)

lemma window_bytes_ok:
  assumes "sb \<noteq> 0"
  shows "unat sb dvd unat (window_bytes cfg third m sb)" "unat sb \<le> unat (window_bytes cfg third m sb)"
  using floor_to_window [OF assms] by (simp_all add: window_bytes_def Let_def)

lemma stage_bytes_ok: "sb \<noteq> 0 \<Longrightarrow> w \<noteq> 0 \<Longrightarrow> stage_bytes cfg w sb \<noteq> 0"
  by (auto simp: stage_bytes_def Let_def word_gt_0)

subsection \<open>A worker\<close>

text \<open>
  What a worker relies on: the cached keys are the right ones, the allocations have the size asked for, the kernels
  behave as the runtime says, and the kernel serves a system call often enough.
\<close>

definition worker_env_ok :: "strategy \<Rightarrow> hw \<Rightarrow> u32 \<Rightarrow> work_item list \<Rightarrow> worker_env \<Rightarrow> bool" where
  "worker_env_ok S h cb items W \<longleftrightarrow> state_ok h (we_keys W) \<and> malloc_ok (we_malloc W)
     \<and> (\<forall>k. gpu_env_for S h (we_keys W) (we_malloc W) (we_cuda W) cb POSE_HASH_BLAKE3 (we_run W k))
     \<and> (\<forall>n R. we_window W n = Some R \<longrightarrow> length R = n) \<and> (\<forall>n R. we_stage W n = Some R \<longrightarrow> length R = n)
     \<and> items_bytes items \<le> served (we_io W)"

text \<open>A list of ranges that one thread wipes.\<close>

definition items_ok :: "u32 \<Rightarrow> work_item list \<Rightarrow> bool" where
  "items_ok cb items \<longleftrightarrow> (\<forall>it\<in>set items. item_fits (unat cb * 32) it) \<and> items_bytes items < 2 ^ 64"

definition worker_did :: "hw \<Rightarrow> bytes \<Rightarrow> config \<Rightarrow> work_item list \<Rightarrow> worker_result \<Rightarrow> bool" where
  "worker_did h seed cfg items r \<longleftrightarrow> writes_want (\<lambda>_. disk_byte h seed (unat (cf_chunk_blocks cfg))) (wr_writes r)
     \<and> (cf_dry_run cfg \<longrightarrow> wr_writes r = [])
     \<and> (\<forall>(f, o', x)\<in>set (wr_writes r). \<exists>lo hi. (f, lo, hi) \<in> item_range ` set items \<and> lo \<le> o' \<and> o' + length x \<le> hi)
     \<and> (wr_err r = None \<and> \<not> cf_dry_run cfg \<longrightarrow> items_reached items (wr_writes r))"

lemma worker_did_nothing: "wr_writes r = [] \<Longrightarrow> wr_err r \<noteq> None \<or> items_bytes items = 0 \<Longrightarrow> worker_did h seed cfg items r"
  by (auto simp: worker_did_def items_reached_def items_bytes_def)

lemma worker_did_failed: "worker_did h seed cfg items (worker_failed e)"
  by (rule worker_did_nothing) (simp_all add: worker_failed_def)

lemma items_len:
  assumes "items_bytes items < 2 ^ 64"
  shows "sum_list (map wi_len items) = 0 \<longleftrightarrow> items_bytes items = 0"
proof -
  have "sum_list (map wi_len items) = of_nat (items_bytes items)" by (induction items) (simp_all add: items_bytes_def)
  then have "unat (sum_list (map wi_len items)) = items_bytes items" using unat_of_nat_u64 [OF assms] by simp
  then show ?thesis by (metis unat_eq_zero)
qed

text \<open>No call of the worker fails.\<close>

definition worker_calm :: "config \<Rightarrow> worker_env \<Rightarrow> bool" where
  "worker_calm cfg W \<longleftrightarrow> we_set_device W \<and> cf_chunk_blocks cfg \<le> ucast POSE_GRAPH_MAX_M \<and> (\<forall>i s. we_malloc W i s \<noteq> None)
     \<and> (\<forall>k n. cu_malloc (we_cuda W) k n \<noteq> None) \<and> (\<forall>k. cu_memcpy (we_cuda W) k) \<and> we_mem_info W \<noteq> None
     \<and> (\<forall>n. we_window W n \<noteq> None) \<and> (\<forall>n. we_stage W n \<noteq> None)
     \<and> (\<forall>k. we_d2h W k \<and> gpu_calls_succeed (we_run W k) \<and> gpu_memory (we_run W k)) \<and> io_calm (we_io W)"

lemma worker_ok:
  assumes "hw_ok h" "cf_chunk_blocks cfg \<noteq> 0" "worker_env_ok S h (cf_chunk_blocks cfg) items W" "items_ok (cf_chunk_blocks cfg) items"
    and "length seed + 8 \<le> BLAKE3_CHUNK_LEN"
  shows "\<exists>r. worker S al h W cfg seed items = Some r \<and> worker_did h seed cfg items r \<and> (worker_calm cfg W \<longrightarrow> wr_err r = None)"
proof -
  define cb where "cb = cf_chunk_blocks cfg"
  define sb where "sb = pose_graph_super_chunk_blocks cb * 32"
  have cb: "cb \<noteq> 0" "resolve_chunk_blocks cb = cb" using assms(2) by (simp_all add: cb_def resolve_chunk_blocks_def)
  note sb = super_chunk_bytes(2) [OF cb(1), folded sb_def]
  have sb0: "sb \<noteq> 0" using sb cb(1) by (auto simp: unat_eq_zero)
  have env: "state_ok h (we_keys W)" "malloc_ok (we_malloc W)" "items_bytes items \<le> served (we_io W)"
    "\<And>k. gpu_env_for S h (we_keys W) (we_malloc W) (we_cuda W) cb POSE_HASH_BLAKE3 (we_run W k)"
    "\<And>n R. we_window W n = Some R \<Longrightarrow> length R = n" "\<And>n R. we_stage W n = Some R \<Longrightarrow> length R = n"
    using assms(3) by (simp_all add: worker_env_ok_def cb_def)
  show ?thesis
  proof (cases "we_set_device W \<and> sum_list (map wi_len items) \<noteq> 0")
    case False
    have "\<exists>r. worker S al h W cfg seed items = Some r \<and> wr_writes r = [] \<and> (wr_err r \<noteq> None \<or> items_bytes items = 0)
        \<and> (we_set_device W \<longrightarrow> wr_err r = None)"
    proof (cases "we_set_device W")
      case False
      then show ?thesis by (simp add: worker_def worker_failed_def)
    next
      case True
      then have "sum_list (map wi_len items) = 0" "items_bytes items = 0"
        using False items_len [of items] assms(4) by (simp_all add: items_ok_def)
      then show ?thesis using True by (simp add: worker_def Let_def)
    qed
    then obtain r where "worker S al h W cfg seed items = Some r" "wr_writes r = []" "wr_err r \<noteq> None \<or> items_bytes items = 0"
      "we_set_device W \<longrightarrow> wr_err r = None"
      by (elim exE conjE) (rule that)
    then show ?thesis using worker_did_nothing [of r] by (intro exI [of _ r]) (simp add: worker_calm_def)
  next
    case True
    from topo_build_ok [OF assms(1) env(1,2), of S "we_cuda W" cb POSE_HASH_BLAKE3]
    obtain t hs' where t: "pose_graph_hbm_topo_build S h (we_keys W) (we_malloc W) (we_cuda W) cb POSE_HASH_BLAKE3 = Some (t, hs')"
      "\<And>T. t = Some T \<Longrightarrow> \<exists>N level. topo_for S h cb N level T" "worker_calm cfg W \<longrightarrow> t \<noteq> None"
      unfolding cb(2) worker_calm_def cb_def [symmetric] by blast
    define window where "window = window_bytes cfg (we_third W (the (we_mem_info W))) (fold max (map wi_len items) 0) sb"
    define stage where "stage = stage_bytes cfg window sb"
    note win = window_bytes_ok [OF sb0, where cfg = cfg, of "we_third W (the (we_mem_info W))" "fold max (map wi_len items) 0", folded window_def]
    have w0: "window \<noteq> 0" using win(2) sb0 by (auto simp: unat_eq_zero)
    let ?gone = "t = None \<or> we_mem_info W = None \<or> we_window W (unat window) = None \<or> we_stage W (unat stage) = None"
    show ?thesis
    proof (cases ?gone)
      case gone: True
      have "\<exists>e. worker S al h W cfg seed items = Some (worker_failed e)"
        using True t(1) gone unfolding worker_def Let_def cb_def [symmetric] POSE_HASH_BYTES_def
        by (auto simp: window_def stage_def sb_def split: option.splits)
      moreover have "\<not> worker_calm cfg W" using gone t(3) by (auto simp: worker_calm_def)
      ultimately show ?thesis using worker_did_failed by blast
    next
      case False
      then obtain T free_b d_buf h_stage where g: "t = Some T" "we_mem_info W = Some free_b" "we_window W (unat window) = Some d_buf"
        "we_stage W (unat stage) = Some h_stage" by auto
      obtain N level where "topo_for S h cb N level T" using t(2) g(1) by blast
      then have "batch_ready S h cb N level T (we_run W k) seed" for k
        using assms(1,5) env(4) [of k] t(1) g(1) by (simp add: batch_ready_def gpu_env_for_def)
      then have ready: "wipe_ready S h cb N level T W seed (unat window) (unat stage)"
        using win(1) w0 stage_bytes_ok [OF sb0 w0, of cfg] sb by (simp add: wipe_ready_def unat_gt_0 stage_def)
      let ?w = "\<lparr>wp_buf = d_buf, wp_stage = h_stage, wp_labels = 0, wp_copies = 0, wp_io = we_io W, wp_err = None, wp_bytes = 0, wp_writes = []\<rparr>"
      have fit: "buffers_fit (unat window) (unat stage) ?w" using env(5) [OF g(3)] env(6) [OF g(4)] by (simp add: buffers_fit_def)
      have items: "\<forall>it\<in>set items. item_fits (unat cb * 32) it" "items_bytes items \<le> served (wp_io ?w)"
        using assms(4) env(3) by (simp_all add: items_ok_def cb_def)
      from wipe_items_ok [OF ready fit items, of al "cf_dry_run cfg"]
      obtain w' where w': "wipe_items S al (pose_labeler h) W T (cf_dry_run cfg) seed (unat sb) (unat window) (unat stage) items ?w = Some w'"
        "wrote (\<lambda>_. disk_byte h seed (unat cb)) (cf_dry_run cfg) (item_range ` set items) (items_bytes items) ?w w'"
        "wp_err w' = None \<and> \<not> cf_dry_run cfg \<longrightarrow> items_reached items (wp_writes w')"
        "calm W ?w \<longrightarrow> wp_err w' = None"
        unfolding sb by auto
      let ?r = "\<lparr>wr_err = wp_err w', wr_bytes = wp_bytes w', wr_writes = wp_writes w'\<rparr>"
      have "worker S al h W cfg seed items = Some ?r"
        using True t(1) g w'(1) unfolding worker_def Let_def cb_def [symmetric] POSE_HASH_BYTES_def
        by (simp add: window_def stage_def sb_def)
      moreover have "worker_did h seed cfg items ?r" using w'(2,3) by (auto simp: worker_did_def wrote_def cb_def)
      moreover have "wr_err ?r = None" if "worker_calm cfg W" using w'(4) that by (simp add: worker_calm_def calm_def)
      ultimately show ?thesis by blast
    qed
  qed
qed

end
