(* ===== verification/Disk_Verify.thy ===== *)
theory Disk_Verify
  imports Disk_Worker Region_Pose
begin

section \<open>Verifying a wiped disk\<close>

text \<open>
  \<open>verify_disk\<close> of \<open>disk_wipe_bench.cu\<close> reads sampled super-chunks back and recomputes them on the CPU. The
  theorems: every sample is in range, and the mismatches it counts are the sampled super-chunks that do not hold
  the labels of the wipe.
\<close>

subsection \<open>The code\<close>

text \<open>
  The buffer of \<open>posix_memalign\<close>, the blocks of \<open>malloc\<close> (0 is \<open>ref\<close>, \<open>1 + i\<close> is \<open>scratch[i]\<close>), whether the
  pool could be created, its behaviour in the \<open>k\<close>-th labeling, and the answers to the system calls.
\<close>

record verify_env =
  ve_disk_buf :: "bytes option"
  ve_malloc :: "nat \<Rightarrow> u64 \<Rightarrow> bytes option"
  ve_pool_created :: bool
  ve_env :: "nat \<Rightarrow> env"
  ve_io :: "io_answer list"

text \<open>The index of sample \<open>k\<close>; the product wraps.\<close>

definition sample_index :: "u64 \<Rightarrow> u64 \<Rightarrow> u64 \<Rightarrow> u64" where
  "sample_index n_super samples k = (if samples = 1 then 0 else k * (n_super - 1) div (samples - 1))"

text \<open>The first block that differs, or 0.\<close>

fun first_bad :: "bytes \<Rightarrow> bytes \<Rightarrow> nat list \<Rightarrow> nat" where
  "first_bad ref disk_buf [] = 0"
| "first_bad ref disk_buf (r # rs) =
     (if rd ref (r * 32) 32 \<noteq> rd disk_buf (r * 32) 32 then r else first_bad ref disk_buf rs)"

text \<open>The error, the two counters, and the mismatches that are printed, as super-chunk and block.\<close>

datatype verify_error = No_Super | Disk_Buf | Ref | Scratch_Pool | Pread | Recompute

record verify_result =
  vr_err :: "verify_error option"
  vr_checked :: nat
  vr_mism :: nat
  vr_printed :: "(u64 \<times> nat) list"

text \<open>The counters are stored at the end only.\<close>

definition verify_failed :: "verify_error \<Rightarrow> (u64 \<times> nat) list \<Rightarrow> verify_result" where
  "verify_failed e printed = \<lparr>vr_err = Some e, vr_checked = 0, vr_mism = 0, vr_printed = printed\<rparr>"

text \<open>
  The loop over the samples. The contents of \<open>scratch\<close> are not carried from one labeling to the next: the labels do
  not depend on them.
\<close>

fun verify_loop ::
  "labeler \<Rightarrow> verify_env \<Rightarrow> bytes \<Rightarrow> bytes \<Rightarrow> u32 \<Rightarrow> u64 \<Rightarrow> u64 \<Rightarrow> u64 \<Rightarrow> bytes list \<Rightarrow> nat list \<Rightarrow> bytes \<Rightarrow> bytes \<Rightarrow> io_answer list
     \<Rightarrow> verify_result \<Rightarrow> verify_result option" where
  "verify_loop H V disk seed cb super_bytes n_super samples scratch [] disk_buf ref io v = Some v"
| "verify_loop H V disk seed cb super_bytes n_super samples scratch (k # ks) disk_buf ref io v =
     (let J = sample_index n_super samples (of_nat k)
      in do {
        (rc, disk_buf, io) \<leftarrow> pread_all io disk disk_buf (unat super_bytes) (unat (J * super_bytes)) 0;
        (if rc \<noteq> 0 then Some (verify_failed Pread (vr_printed v))
         else do {
           (rc, region) \<leftarrow> pose_graph_label_region_pooled_inplace H (ve_env V k) seed (Some ref) super_bytes (J * ucast cb) scratch POSE_HASH_BLAKE3 cb;
           ref \<leftarrow> region;
           (if rc \<noteq> 0 then Some (verify_failed Recompute (vr_printed v))
            else
              (let v = v\<lparr>vr_checked := vr_checked v + 1\<rparr>;
                   v = (if rd ref 0 (unat super_bytes) \<noteq> rd disk_buf 0 (unat super_bytes)
                        then let v = v\<lparr>vr_mism := vr_mism v + 1\<rparr>
                             in if vr_mism v \<le> 3 then v\<lparr>vr_printed := vr_printed v @ [(J, first_bad ref disk_buf [0..<unat cb])]\<rparr> else v
                        else v)
               in verify_loop H V disk seed cb super_bytes n_super samples scratch ks disk_buf ref io v)) }) })"

definition verify_disk :: "labeler \<Rightarrow> verify_env \<Rightarrow> bytes \<Rightarrow> bytes \<Rightarrow> u64 \<Rightarrow> u32 \<Rightarrow> u64 \<Rightarrow> verify_result option" where
  "verify_disk H V disk seed wipe_len cb samples =
     (let super_bytes = pose_graph_super_chunk_blocks cb * of_nat POSE_HASH_BYTES;
          n_super = wipe_len div super_bytes
      in if n_super = 0 then Some (verify_failed No_Super [])
         else
           (let samples = (if samples = 0 then 1 else samples);
                samples = (if samples > n_super then n_super else samples)
            in case ve_disk_buf V of
                 None \<Rightarrow> Some (verify_failed Disk_Buf [])
               | Some disk_buf \<Rightarrow>
                   (case ve_malloc V 0 super_bytes of
                      None \<Rightarrow> Some (verify_failed Ref [])
                    | Some ref \<Rightarrow>
                        (case those (map (\<lambda>i. ve_malloc V (1 + i) (pose_graph_scratch_bytes_inplace cb)) [0..<POSE_REGION_THREADS]) of
                           None \<Rightarrow> Some (verify_failed Scratch_Pool [])
                         | Some scratch \<Rightarrow>
                             if \<not> ve_pool_created V then Some (verify_failed Scratch_Pool [])
                             else verify_loop H V disk seed cb super_bytes n_super samples scratch [0..<unat samples] disk_buf ref (ve_io V)
                                    \<lparr>vr_err = None, vr_checked = 0, vr_mism = 0, vr_printed = []\<rparr>))))"

subsection \<open>The samples\<close>

text \<open>Even where the product wraps, a sample is a super-chunk of the range.\<close>

lemma sample_index_less:
  assumes "n_super \<noteq> 0" "k < samples"
  shows "sample_index n_super samples k < n_super"
proof (cases "samples = 1")
  case True
  then show ?thesis using assms(1) by (simp add: sample_index_def word_gt_0)
next
  case False
  define s n where "s = unat samples - 1" and "n = unat n_super - 1"
  have k: "unat k < unat samples" using assms(2) by (simp add: word_less_nat_alt)
  then have s0: "samples \<noteq> 0" by auto
  have us: "unat (samples - 1) = s" "unat (n_super - 1) = n" using unat_minus_one [OF s0] unat_minus_one [OF assms(1)] by (simp_all add: s_def n_def)
  have s: "0 < s" using us(1) False by (metis gr0I right_minus_eq unat_eq_zero)
  have "unat (k * (n_super - 1)) \<le> s * n"
  proof -
    have "unat (k * (n_super - 1)) \<le> unat k * n" unfolding unat_word_ariths us by (rule mod_less_eq_dividend)
    also have "\<dots> \<le> s * n" using k by (intro mult_le_mono1) (simp add: s_def)
    finally show ?thesis .
  qed
  then have "unat (k * (n_super - 1)) div s \<le> s * n div s" by (rule div_le_mono)
  then have "unat (sample_index n_super samples k) \<le> n" using False s by (simp add: sample_index_def unat_div us)
  moreover have "n < unat n_super" using assms(1) by (simp add: n_def unat_gt_0)
  ultimately show ?thesis by (simp add: word_less_nat_alt)
qed

lemma sample_index_ends:
  assumes "n_super \<noteq> 0" "samples \<noteq> 0" "samples \<noteq> 1" "(unat samples - 1) * (unat n_super - 1) < 2 ^ 64"
  shows "sample_index n_super samples 0 = 0" "sample_index n_super samples (samples - 1) = n_super - 1"
proof -
  show "sample_index n_super samples 0 = 0" by (simp add: sample_index_def)
  have u: "unat (samples - 1) = unat samples - 1" "unat (n_super - 1) = unat n_super - 1"
    using unat_minus_one [OF assms(2)] unat_minus_one [OF assms(1)] by simp_all
  have "samples - 1 \<noteq> 0" using assms(3) by simp
  then have "0 < unat (samples - 1)" by (simp add: unat_gt_0)
  then have "unat ((samples - 1) * (n_super - 1) div (samples - 1)) = unat (n_super - 1)"
    using assms(4) by (simp add: unat_div unat_word_ariths u)
  then show "sample_index n_super samples (samples - 1) = n_super - 1" using assms(3) by (simp add: sample_index_def word_unat_eq_iff)
qed

subsection \<open>One sample\<close>

text \<open>The size of the scratch does not wrap.\<close>

lemma inplace_scratch_size:
  assumes "cb \<noteq> 0" "cb \<le> ucast POSE_GRAPH_MAX_M"
  shows "unat (pose_graph_scratch_bytes_inplace cb) = (4 + POSE_ARENA_FACTOR) * 2 ^ pose_graph_parameter_n (ucast cb) * POSE_HASH_BYTES"
proof -
  define n where "n = pose_graph_parameter_n (ucast cb)"
  have "(ucast cb :: u64) \<le> POSE_GRAPH_MAX_M" using assms(2) by (simp add: word_le_nat_alt unat_u32_u64 POSE_GRAPH_MAX_M_def)
  then have n: "n \<le> 19" unfolding n_def by (rule parameter_n_max)
  have p: "(2 :: nat) ^ n \<le> 2 ^ 19" using n by (rule power_increasing) simp
  have small: "640 * 2 ^ n < (2 :: nat) ^ 64" using p by simp
  have r: "resolve_chunk_blocks cb = cb" using assms(1) by (simp add: resolve_chunk_blocks_def)
  have "pose_graph_scratch_bytes_inplace cb = of_nat (640 * 2 ^ n)"
    by (simp add: pose_graph_scratch_bytes_inplace_def Let_def r POSE_HASH_BYTES_def POSE_ARENA_FACTOR_def push_bit_eq_mult flip: n_def)
  then have "unat (pose_graph_scratch_bytes_inplace cb) = 640 * 2 ^ n" using unat_of_nat_u64 [OF small] by simp
  then show ?thesis by (simp add: POSE_HASH_BYTES_def POSE_ARENA_FACTOR_def n_def)
qed

lemma verify_scratch_fit:
  assumes "cb \<noteq> 0" "cb \<le> ucast POSE_GRAPH_MAX_M" "malloc_ok malloc"
    and "those (map (\<lambda>i. malloc (1 + i) (pose_graph_scratch_bytes_inplace cb)) [0..<POSE_REGION_THREADS]) = Some scratch"
  shows "scratch_fit True (unat cb) scratch"
proof -
  have s: "scratch = map (the \<circ> (\<lambda>i. malloc (1 + i) (pose_graph_scratch_bytes_inplace cb))) [0..<POSE_REGION_THREADS]"
    and all: "\<forall>i\<in>set [0..<POSE_REGION_THREADS]. malloc (1 + i) (pose_graph_scratch_bytes_inplace cb) \<noteq> None"
    using assms(4) unfolding those_map by (auto split: if_splits)
  have "length x = unat (pose_graph_scratch_bytes_inplace cb)" if "x \<in> set scratch" for x
    using that s all assms(3) by (auto simp: malloc_ok_def)
  moreover have "(of_nat (unat cb) :: u64) = ucast cb" by simp
  ultimately show ?thesis using inplace_scratch_size [OF assms(1,2)] s
    by (auto simp: scratch_fit_def Let_def dest: in_set_takeD)
qed

text \<open>The labels of super-chunk \<open>J\<close>, in a file and recomputed.\<close>

definition chunk_holds :: "hw \<Rightarrow> bytes \<Rightarrow> nat \<Rightarrow> bytes \<Rightarrow> nat \<Rightarrow> bool" where
  "chunk_holds h seed cb disk J \<longleftrightarrow> (\<forall>i<cb * 32. disk ! (J * (cb * 32) + i) = disk_byte h seed cb (J * (cb * 32) + i))"

lemma recompute_ok:
  assumes "hw_ok h" "env_ok E" "cb \<noteq> 0" "cb \<le> ucast POSE_GRAPH_MAX_M" "scratch_fit True (unat cb) scratch"
    and "unat sb = unat cb * 32" "unat sb \<le> length R" "unat J * unat sb + unat sb < 2 ^ 64"
  shows "\<exists>R'. pose_graph_label_region_pooled_inplace (pose_labeler h) E seed (Some R) sb (J * ucast cb) scratch POSE_HASH_BLAKE3 cb = Some (0, Some R')
    \<and> length R' = length R \<and> (\<forall>i<unat sb. R' ! i = disk_byte h seed (unat cb) (unat J * unat sb + i))"
proof -
  have r: "resolve_chunk_blocks cb = cb" using assms(3) by (simp add: resolve_chunk_blocks_def)
  have cb0: "0 < unat cb" using assms(3) by (simp add: unat_gt_0)
  have sb0: "sb \<noteq> 0" using assms(6) cb0 by (auto simp: unat_eq_zero)
  have "unat (sb mod 32) = 0" unfolding unat_mod using assms(6) by simp
  then have m: "sb mod of_nat POSE_HASH_BYTES = 0" by (simp add: unat_eq_zero POSE_HASH_BYTES_def)
  have t: "unat (sb div of_nat POSE_HASH_BYTES) = unat cb" using assms(6) by (simp add: POSE_HASH_BYTES_def unat_div)
  obtain R' where R': "pose_graph_label_region_pooled_inplace (pose_labeler h) E seed (Some R) sb (J * ucast cb) scratch POSE_HASH_BLAKE3 cb = Some (0, Some R')"
    "blocks_labelled (pose_labeler h) seed (J * ucast cb) POSE_HASH_BLAKE3 (unat cb) (unat cb) (unat cb) R'"
    "agree_off {..<unat cb * POSE_HASH_BYTES} R R'"
    using inplace_region_result [OF pose_labeler_hash [OF assms(1)] assms(2) sb0 m assms(7), of cb scratch seed "J * ucast cb" POSE_HASH_BLAKE3]
      assms(4,5) cb0 unfolding r t by auto
  have "unat J * unat sb = unat J * unat cb * 32" using assms(6) by simp
  then have small: "unat J * unat cb + 1 * unat cb < 2 ^ 64" using assms(6,8) by linarith
  have off: "J * ucast cb = of_nat (unat J * unat cb)" by simp
  have bl: "blocks_labelled (pose_labeler h) seed (of_nat (unat J * unat cb)) POSE_HASH_BLAKE3 (unat cb) (unat cb) (1 * unat cb) R'"
    using R'(2) unfolding off mult_1 .
  have pos: "unat J * unat cb * 32 = unat J * unat sb" using assms(6) by simp
  have "R' ! i = disk_byte h seed (unat cb) (unat J * unat sb + i)" if "i < unat sb" for i
    using labelled_disk_bytes [OF cb0 dvd_triv_right small _ bl, of i] that assms(6) unfolding pos by simp
  then show ?thesis using R'(1) agree_off_length [OF R'(3)] by auto
qed

lemma rd_0_eq_iff: "n \<le> length x \<Longrightarrow> n \<le> length y \<Longrightarrow> rd x 0 n = rd y 0 n \<longleftrightarrow> (\<forall>i<n. x ! i = y ! i)"
  by (auto simp: rd_def list_eq_iff_nth_eq min_def)

subsection \<open>All samples\<close>

lemma verify_loop_ok:
  fixes seed :: bytes
  assumes "hw_ok h" "\<forall>k. env_ok (ve_env V k)" "cb \<noteq> 0" "cb \<le> ucast POSE_GRAPH_MAX_M" "scratch_fit True (unat cb) scratch"
    and "unat sb = unat cb * 32" "n_super \<noteq> 0" "unat n_super * unat sb < 2 ^ 64" "unat n_super * unat sb \<le> length disk"
    and "\<forall>k\<in>set ks. of_nat k < samples" "unat sb \<le> length disk_buf" "unat sb \<le> length ref" "length ks * unat sb \<le> served io" "vr_err v = None"
  defines "good \<equiv> \<lambda>k. chunk_holds h seed (unat cb) disk (unat (sample_index n_super samples (of_nat k)))"
  shows "\<exists>r. verify_loop (pose_labeler h) V disk seed cb sb n_super samples scratch ks disk_buf ref io v = Some r
    \<and> (vr_err r = None \<longrightarrow> vr_checked r = vr_checked v + length ks \<and> vr_mism r = vr_mism v + length (filter (\<lambda>k. \<not> good k) ks))
    \<and> (io_calm io \<longrightarrow> vr_err r = None)"
  using assms(10-14)
proof (induction ks arbitrary: disk_buf ref io v)
  case (Cons k ks)
  define J where "J = sample_index n_super samples (of_nat k)"
  have Jn: "J < n_super" using sample_index_less [OF assms(7)] Cons.prems(1) by (simp add: J_def)
  then have "(unat J + 1) * unat sb \<le> unat n_super * unat sb" by (intro mult_le_mono1) (simp add: word_less_nat_alt)
  then have J: "unat J * unat sb + unat sb < 2 ^ 64" "unat J * unat sb + unat sb \<le> length disk" using assms(8,9) by simp_all
  then have off: "unat (J * sb) = unat J * unat sb" by (simp add: unat_word_ariths)
  have "unat sb - 0 \<le> served io" using Cons.prems(4) by simp
  from pread_all_ok [OF this, of "unat (J * sb)" disk disk_buf] Cons.prems(2) J(2)
  obtain rc b1 io1 where p: "pread_all io disk disk_buf (unat sb) (unat (J * sb)) 0 = Some (rc, b1, io1)" "served io \<le> served io1 + unat sb"
    "length b1 = length disk_buf" "rc = 0 \<longrightarrow> (\<forall>p<unat sb. b1 ! p = disk ! (unat J * unat sb + p))"
    unfolding off by auto
  show ?case
  proof (cases "rc = 0")
    case False
    then have "\<not> io_calm io" using pread_all_calm [OF p(1)] by blast
    then show ?thesis using False p(1) by (simp add: J_def [symmetric] Let_def verify_failed_def)
  next
    case True
    from recompute_ok [OF assms(1) spec [OF assms(2)] assms(3-6) Cons.prems(3) J(1), of k seed]
    obtain R' where R': "pose_graph_label_region_pooled_inplace (pose_labeler h) (ve_env V k) seed (Some ref) sb (J * ucast cb) scratch POSE_HASH_BLAKE3 cb
        = Some (0, Some R')" "length R' = length ref" "\<forall>i<unat sb. R' ! i = disk_byte h seed (unat cb) (unat J * unat sb + i)" by blast
    have eq: "rd R' 0 (unat sb) = rd b1 0 (unat sb) \<longleftrightarrow> good k"
    proof -
      have "rd R' 0 (unat sb) = rd b1 0 (unat sb) \<longleftrightarrow> (\<forall>i<unat sb. R' ! i = b1 ! i)"
        using Cons.prems(2,3) R'(2) p(3) by (intro rd_0_eq_iff) simp_all
      also have "\<dots> \<longleftrightarrow> (\<forall>i<unat sb. disk ! (unat J * unat sb + i) = disk_byte h seed (unat cb) (unat J * unat sb + i))"
        using R'(3) p(4) True by auto
      finally show ?thesis unfolding good_def chunk_holds_def J_def assms(6) .
    qed
    define v1 where "v1 = (let v = v\<lparr>vr_checked := vr_checked v + 1\<rparr>
       in if rd R' 0 (unat sb) \<noteq> rd b1 0 (unat sb)
          then let v = v\<lparr>vr_mism := vr_mism v + 1\<rparr>
               in if vr_mism v \<le> 3 then v\<lparr>vr_printed := vr_printed v @ [(J, first_bad R' b1 [0..<unat cb])]\<rparr> else v
          else v)"
    have v1: "vr_err v1 = None" "vr_checked v1 = vr_checked v + 1" "vr_mism v1 = vr_mism v + (if good k then 0 else 1)"
      using Cons.prems(5) by (simp_all add: v1_def Let_def eq)
    have step: "verify_loop (pose_labeler h) V disk seed cb sb n_super samples scratch (k # ks) disk_buf ref io v
        = verify_loop (pose_labeler h) V disk seed cb sb n_super samples scratch ks b1 R' io1 v1"
      using p(1) True R'(1) by (simp add: J_def [symmetric] Let_def v1_def)
    have "length ks * unat sb \<le> served io1" using Cons.prems(4) p(2) by simp
    then obtain r where "verify_loop (pose_labeler h) V disk seed cb sb n_super samples scratch ks b1 R' io1 v1 = Some r"
      "vr_err r = None \<longrightarrow> vr_checked r = vr_checked v1 + length ks \<and> vr_mism r = vr_mism v1 + length (filter (\<lambda>k. \<not> good k) ks)"
      "io_calm io1 \<longrightarrow> vr_err r = None"
      using Cons.IH [of b1 R' io1 v1] Cons.prems(1-3) p(3) R'(2) v1(1) by auto
    then show ?thesis unfolding step using v1(2,3) pread_all_calm [OF p(1)] by auto
  qed
qed simp

subsection \<open>A disk\<close>

definition verify_env_ok :: "verify_env \<Rightarrow> nat \<Rightarrow> nat \<Rightarrow> bool" where
  "verify_env_ok V sb reads \<longleftrightarrow> (\<forall>b. ve_disk_buf V = Some b \<longrightarrow> length b = sb) \<and> malloc_ok (ve_malloc V) \<and> (\<forall>k. env_ok (ve_env V k))
     \<and> reads \<le> served (ve_io V)"

definition samples_of :: "u64 \<Rightarrow> u64 \<Rightarrow> u64" where
  "samples_of n_super samples = (let samples = (if samples = 0 then 1 else samples) in if samples > n_super then n_super else samples)"

lemma samples_of_pos: "n_super \<noteq> 0 \<Longrightarrow> samples_of n_super samples \<noteq> 0"
  and samples_of_le: "n_super \<noteq> 0 \<Longrightarrow> samples_of n_super samples \<le> n_super"
  by (auto simp: samples_of_def Let_def not_less)

definition verify_calm :: "verify_env \<Rightarrow> bool" where
  "verify_calm V \<longleftrightarrow> ve_disk_buf V \<noteq> None \<and> (\<forall>i n. ve_malloc V i n \<noteq> None) \<and> ve_pool_created V \<and> io_calm (ve_io V)"

lemma verify_disk_ok:
  fixes wipe_len samples :: u64
  assumes "hw_ok h" "cb \<noteq> 0" "cb \<le> ucast POSE_GRAPH_MAX_M" "unat wipe_len \<le> length disk"
  defines "sb \<equiv> unat cb * 32"
  defines "n_super \<equiv> wipe_len div (pose_graph_super_chunk_blocks cb * 32)"
  defines "s \<equiv> samples_of n_super samples"
  assumes "verify_env_ok V sb (unat s * sb)"
  shows "\<exists>r. verify_disk (pose_labeler h) V disk seed wipe_len cb samples = Some r
    \<and> (vr_err r = None \<longrightarrow> n_super \<noteq> 0 \<and> vr_checked r = unat s
        \<and> vr_mism r = length (filter (\<lambda>k. \<not> chunk_holds h seed (unat cb) disk (unat (sample_index n_super s (of_nat k)))) [0..<unat s]))
    \<and> (verify_calm V \<and> n_super \<noteq> 0 \<longrightarrow> vr_err r = None)"
proof -
  define sup where "sup = pose_graph_super_chunk_blocks cb * 32"
  note sup = super_chunk_bytes(2) [OF assms(2), folded sup_def]
  have n: "n_super = wipe_len div sup" by (simp add: n_super_def sup_def)
  have body: "verify_disk (pose_labeler h) V disk seed wipe_len cb samples
      = (if n_super = 0 then Some (verify_failed No_Super [])
         else case ve_disk_buf V of None \<Rightarrow> Some (verify_failed Disk_Buf [])
         | Some disk_buf \<Rightarrow> (case ve_malloc V 0 sup of None \<Rightarrow> Some (verify_failed Ref [])
            | Some ref \<Rightarrow> (case those (map (\<lambda>i. ve_malloc V (1 + i) (pose_graph_scratch_bytes_inplace cb)) [0..<POSE_REGION_THREADS]) of
                None \<Rightarrow> Some (verify_failed Scratch_Pool [])
              | Some scratch \<Rightarrow> if \<not> ve_pool_created V then Some (verify_failed Scratch_Pool [])
                  else verify_loop (pose_labeler h) V disk seed cb sup n_super s scratch [0..<unat s] disk_buf ref (ve_io V)
                         \<lparr>vr_err = None, vr_checked = 0, vr_mism = 0, vr_printed = []\<rparr>)))"
    unfolding verify_disk_def Let_def s_def samples_of_def n_super_def sup_def POSE_HASH_BYTES_def of_nat_numeral by (rule refl)
  note failed = verify_failed_def
  let ?scr = "those (map (\<lambda>i. ve_malloc V (1 + i) (pose_graph_scratch_bytes_inplace cb)) [0..<POSE_REGION_THREADS])"
  show ?thesis
  proof (cases "n_super = 0 \<or> ve_disk_buf V = None \<or> ve_malloc V 0 sup = None \<or> ?scr = None \<or> \<not> ve_pool_created V")
    case True
    then have "\<exists>e. verify_disk (pose_labeler h) V disk seed wipe_len cb samples = Some (verify_failed e [])"
      unfolding body by (auto split: option.splits)
    moreover have "verify_calm V \<longrightarrow> ?scr \<noteq> None" by (simp add: verify_calm_def those_map del: not_None_eq)
    moreover have "ve_disk_buf V \<noteq> None \<and> ve_malloc V 0 sup \<noteq> None \<and> ve_pool_created V" if "verify_calm V"
      using that unfolding verify_calm_def by blast
    ultimately have "\<not> (verify_calm V \<and> n_super \<noteq> 0)" using True by auto
    moreover have "\<exists>e. verify_disk (pose_labeler h) V disk seed wipe_len cb samples = Some (verify_failed e [])" by fact
    ultimately show ?thesis by (auto simp: failed)
  next
    case False
    then obtain disk_buf ref scratch where b: "n_super \<noteq> 0" "ve_disk_buf V = Some disk_buf" "ve_malloc V 0 sup = Some ref" "?scr = Some scratch"
      "ve_pool_created V" by auto
    have env: "length disk_buf = sb" "malloc_ok (ve_malloc V)" "\<forall>k. env_ok (ve_env V k)" "unat s * sb \<le> served (ve_io V)"
      using assms(8) b(2) by (simp_all add: verify_env_ok_def)
    have ref: "length ref = sb" using env(2) b(3) sup by (simp add: malloc_ok_def sb_def)
    have le: "unat n_super * unat sup \<le> unat wipe_len" unfolding n unat_div by (rule div_times_less_eq_dividend)
    moreover have "unat wipe_len < 2 ^ 64" using unsigned_less [of wipe_len, where ?'a = nat] by simp
    ultimately have small: "unat n_super * unat sup < 2 ^ 64" "unat n_super * unat sup \<le> length disk" using assms(4) by simp_all
    have "(of_nat k :: u64) < s" if "k \<in> set [0..<unat s]" for k
    proof -
      have "k < unat s" using that by simp
      then show ?thesis using unat_of_nat_u64 [of k] unsigned_less [of s, where ?'a = nat] by (simp add: word_less_nat_alt)
    qed
    then have ks: "\<forall>k\<in>set [0..<unat s]. of_nat k < s" by blast
    let ?v = "\<lparr>vr_err = None, vr_checked = 0, vr_mism = 0, vr_printed = []\<rparr>"
    have fits: "unat sup \<le> length disk_buf" "unat sup \<le> length ref" "length [0..<unat s] * unat sup \<le> served (ve_io V)" "vr_err ?v = None"
      using env(1,4) ref sup by (simp_all add: sb_def)
    from verify_loop_ok [OF assms(1) env(3) assms(2,3) verify_scratch_fit [OF assms(2,3) env(2) b(4)] sup b(1) small ks fits, of seed]
    obtain r where r: "verify_loop (pose_labeler h) V disk seed cb sup n_super s scratch [0..<unat s] disk_buf ref (ve_io V) ?v = Some r"
      "vr_err r = None \<longrightarrow> vr_checked r = unat s
        \<and> vr_mism r = length (filter (\<lambda>k. \<not> chunk_holds h seed (unat cb) disk (unat (sample_index n_super s (of_nat k)))) [0..<unat s])"
      "io_calm (ve_io V) \<longrightarrow> vr_err r = None"
      by (elim exE conjE) (rule that, simp_all)
    then show ?thesis using b unfolding body by (intro exI [of _ r]) (simp add: verify_calm_def)
  qed
qed

end
