(* ===== verification/Disk_Main.thy ===== *)
theory Disk_Main
  imports Disk_Verify
begin

section \<open>The disk wipe\<close>

text \<open>
  \<open>main\<close> of \<open>disk_wipe_bench.cu\<close> after its arguments are read: the checks, the targets it opens, the plan that splits the
  targets among the GPUs, the workers, and the verification. The workers run concurrently: the devices see any
  interleaving of their writes.
\<close>

subsection \<open>Opening a target\<close>

text \<open>What the system says about a path and a descriptor; \<open>None\<close> is a failed call.\<close>

record open_env =
  oe_realpath :: "string \<Rightarrow> string option"
  oe_is_block :: "string \<Rightarrow> bool option"
  oe_mounts :: "(string \<times> string) list option"
  oe_open :: "string \<Rightarrow> bool \<Rightarrow> nat option"
  oe_size :: "nat \<Rightarrow> u64 option"
  oe_sector :: "nat \<Rightarrow> int option"

datatype open_error = Stat | Not_Block | Mounted string | Open | Size

definition open_disk :: "open_env \<Rightarrow> string \<Rightarrow> bool \<Rightarrow> open_error + (nat \<times> u64 \<times> int)" where
  "open_disk E path_in read_only =
     (let path = (case oe_realpath E path_in of Some rp \<Rightarrow> rp | None \<Rightarrow> path_in)
      in case oe_is_block E path of
           None \<Rightarrow> Inl Stat
         | Some blk \<Rightarrow>
             if \<not> blk then Inl Not_Block
             else (let m = mounted_reason (oe_mounts E) path
                   in if m \<noteq> [] then Inl (Mounted m)
                      else case oe_open E path read_only of
                             None \<Rightarrow> Inl Open
                           | Some fd \<Rightarrow>
                               (case oe_size E fd of
                                  None \<Rightarrow> Inl Size
                                | Some bytes \<Rightarrow>
                                    if bytes = 0 then Inl Size
                                    else Inr (fd, bytes, case oe_sector E fd of None \<Rightarrow> 512 | Some s \<Rightarrow> s))))"

record target =
  od_path :: string
  od_fd :: nat
  od_size :: u64
  od_sector :: int
  od_wipe_len :: u64

text \<open>
  Every target is opened and checked before any write; the status to exit with, or the targets. A sector size of 0
  divides by zero.
\<close>

fun open_targets :: "(nat \<Rightarrow> open_env) \<Rightarrow> config \<Rightarrow> u64 \<Rightarrow> nat \<Rightarrow> string list \<Rightarrow> (int + target list) option" where
  "open_targets E cfg super_bytes i [] = Some (Inr [])"
| "open_targets E cfg super_bytes i (p # ps) =
     (case open_disk (E i) p (cf_verify_only cfg) of
        Inl e \<Rightarrow> Some (Inl 1)
      | Inr (fd, bytes, sector) \<Rightarrow>
          if (word_of_int sector :: u64) = 0 then None
          else if super_bytes mod word_of_int sector \<noteq> 0 then Some (Inl 1)
          else (let want = (if cf_per_disk_bytes cfg \<noteq> 0 then min (cf_per_disk_bytes cfg) bytes else bytes);
                    wipe_len = floor_to want super_bytes
                in if wipe_len = 0 then Some (Inl 1)
                   else do {
                     r \<leftarrow> open_targets E cfg super_bytes (i + 1) ps;
                     Some (map_sum (\<lambda>e. e) (\<lambda>ds. \<lparr>od_path = p, od_fd = fd, od_size = bytes, od_sector = sector, od_wipe_len = wipe_len\<rparr> # ds) r) }))"

subsection \<open>The plan\<close>

definition check_config :: "config \<Rightarrow> config option" where
  "check_config cfg =
     (if cf_disks cfg = [] then None
      else let cfg = (if cf_chunk_blocks cfg = 0 then cfg\<lparr>cf_chunk_blocks := POSE_CHUNK_BLOCKS\<rparr> else cfg)
           in if cf_chunk_blocks cfg AND (cf_chunk_blocks cfg - 1) \<noteq> 0 \<or> cf_chunk_blocks cfg > ucast POSE_GRAPH_MAX_M then None
              else Some (if cf_verify_only cfg \<and> cf_verify_n cfg = 0 then cfg\<lparr>cf_verify_n := 128\<rparr> else cfg))"

text \<open>The answer of \<open>cudaGetDeviceCount\<close>; the status to exit with, or the GPUs.\<close>

definition select_gpus :: "int option \<Rightarrow> int list \<Rightarrow> int + int list" where
  "select_gpus devices gpus =
     (case devices of
        None \<Rightarrow> Inl 1
      | Some ndev \<Rightarrow>
          if ndev < 1 then Inl 1
          else (let gpus = (if gpus = [] then map int [0..<nat ndev] else gpus)
                in if list_ex (\<lambda>g. g < 0 \<or> g \<ge> ndev) gpus then Inl 2 else Inr gpus))"

text \<open>\<open>K\<close>, for \<open>G\<close> GPUs.\<close>

definition team_size :: "config \<Rightarrow> nat \<Rightarrow> nat" where
  "team_size cfg G =
     (let K = (if cf_gpus_per_disk_k cfg > 0 then cf_gpus_per_disk_k cfg else if cf_mode cfg = ''gpus-per-disk'' then int G else 1);
          K = (if K < 1 then 1 else K)
      in nat (if K > int G then int G else K))"

text \<open>The ranges of the \<open>K\<close> GPUs on one device, from the offset \<open>off\<close> on.\<close>

fun split_from :: "nat \<Rightarrow> u64 \<Rightarrow> u64 \<Rightarrow> u64 \<Rightarrow> u64 \<Rightarrow> nat list \<Rightarrow> work_item list" where
  "split_from fd super_bytes base extra off [] = []"
| "split_from fd super_bytes base extra off (j # js) =
     (let ns = base + (if of_nat j < extra then 1 else 0);
          len = ns * super_bytes
      in \<lparr>wi_fd = fd, wi_disk_off = off, wi_len = len\<rparr> # split_from fd super_bytes base extra (off + len) js)"

definition split_target :: "u64 \<Rightarrow> nat \<Rightarrow> target \<Rightarrow> work_item list" where
  "split_target super_bytes K d =
     (let nsuper = od_wipe_len d div super_bytes
      in split_from (od_fd d) super_bytes (nsuper div of_nat K) (nsuper mod of_nat K) 0 [0..<K])"

text \<open>\<open>order\<close> is what \<open>std::sort\<close> makes of the indices.\<close>

definition team_disks :: "nat list \<Rightarrow> nat \<Rightarrow> nat \<Rightarrow> nat list" where
  "team_disks order T t = map (\<lambda>k. order ! k) (filter (\<lambda>k. k mod T = t) [0..<length order])"

definition worker_items :: "target list \<Rightarrow> u64 \<Rightarrow> nat list \<Rightarrow> nat \<Rightarrow> nat \<Rightarrow> nat \<Rightarrow> nat \<Rightarrow> work_item list" where
  "worker_items disks super_bytes order T K t j =
     filter (\<lambda>it. wi_len it \<noteq> 0) (map (\<lambda>di. split_target super_bytes K (disks ! di) ! j) (team_disks order T t))"

subsection \<open>The run\<close>

text \<open>
  The writes of the threads, in the order in which the devices see them: \<open>sched\<close> says whose write comes next, and what
  it leaves out comes at the end.
\<close>

fun merge :: "nat list \<Rightarrow> 'a list list \<Rightarrow> 'a list" where
  "merge [] xss = concat xss"
| "merge (i # sched) xss =
     (if i < length xss \<and> xss ! i \<noteq> [] then hd (xss ! i) # merge sched (xss[i := tl (xss ! i)]) else merge sched xss)"

record main_env =
  me_device_count :: "int option"
  me_open :: "nat \<Rightarrow> open_env"
  me_sort :: "u64 list \<Rightarrow> nat list"
  me_worker :: "int \<Rightarrow> worker_env"
  me_schedule :: "nat list"
  me_verify :: "nat \<Rightarrow> verify_env"

record main_result =
  mr_exit :: int
  mr_targets :: "target list"
  mr_workers :: "worker_result list"
  mr_verified :: "verify_result list"
  mr_disks :: "nat \<Rightarrow> bytes"

definition run_workers ::
  "strategy \<Rightarrow> (nat \<Rightarrow> nat \<Rightarrow> nat \<Rightarrow> bool) \<Rightarrow> hw \<Rightarrow> main_env \<Rightarrow> config \<Rightarrow> bytes \<Rightarrow> u64 \<Rightarrow> target list \<Rightarrow> worker_result list option" where
  "run_workers S al h M cfg seed super_bytes disks =
     (let K = team_size cfg (length (cf_gpus cfg));
          T = length (cf_gpus cfg) div K;
          order = me_sort M (map od_wipe_len disks)
      in those (map (\<lambda>(t, j). worker S al h (me_worker M (cf_gpus cfg ! (t * K + j))) cfg seed (worker_items disks super_bytes order T K t j))
           [(t, j). t \<leftarrow> [0..<T], j \<leftarrow> [0..<K]]))"

definition verify_passed :: "verify_result \<Rightarrow> bool" where
  "verify_passed v \<longleftrightarrow> vr_err v = None \<and> vr_mism v = 0"

definition verify_targets ::
  "labeler \<Rightarrow> (nat \<Rightarrow> verify_env) \<Rightarrow> (nat \<Rightarrow> bytes) \<Rightarrow> config \<Rightarrow> bytes \<Rightarrow> target list \<Rightarrow> verify_result list option" where
  "verify_targets H V D cfg seed disks =
     those (map (\<lambda>(i, d). verify_disk H (V i) (D (od_fd d)) seed (od_wipe_len d) (cf_chunk_blocks cfg) (cf_verify_n cfg)) (List.enumerate 0 disks))"

definition stop :: "int \<Rightarrow> (nat \<Rightarrow> bytes) \<Rightarrow> main_result option" where
  "stop e D = Some \<lparr>mr_exit = e, mr_targets = [], mr_workers = [], mr_verified = [], mr_disks = D\<rparr>"

text \<open>\<open>D\<close> is what is on the devices, by descriptor.\<close>

definition run_targets ::
  "strategy \<Rightarrow> (nat \<Rightarrow> nat \<Rightarrow> nat \<Rightarrow> bool) \<Rightarrow> hw \<Rightarrow> main_env \<Rightarrow> (nat \<Rightarrow> bytes) \<Rightarrow> config \<Rightarrow> bytes \<Rightarrow> u64 \<Rightarrow> target list \<Rightarrow> main_result option" where
  "run_targets S al h M D cfg seed super_bytes disks =
     (if cf_verify_only cfg then
        do {
          vs \<leftarrow> verify_targets (pose_labeler h) (me_verify M) D cfg seed disks;
          Some \<lparr>mr_exit = (if list_all verify_passed vs then 0 else 1), mr_targets = disks, mr_workers = [], mr_verified = vs, mr_disks = D\<rparr> }
      else if \<not> cf_dry_run cfg \<and> \<not> cf_confirm cfg then
        Some \<lparr>mr_exit = 1, mr_targets = disks, mr_workers = [], mr_verified = [], mr_disks = D\<rparr>
      else
        do {
          ws \<leftarrow> run_workers S al h M cfg seed super_bytes disks;
          D' \<leftarrow> run_writes (merge (me_schedule M) (map wr_writes ws)) D;
          vs \<leftarrow> (if cf_verify_n cfg > 0 \<and> \<not> cf_dry_run cfg then verify_targets (pose_labeler h) (me_verify M) D' cfg seed disks else Some []);
          Some \<lparr>mr_exit = (if list_all (\<lambda>r. wr_err r = None) ws \<and> list_all verify_passed vs then 0 else 1), mr_targets = disks,
                mr_workers = ws, mr_verified = vs, mr_disks = D'\<rparr> })"

definition disk_wipe_main ::
  "strategy \<Rightarrow> (nat \<Rightarrow> nat \<Rightarrow> nat \<Rightarrow> bool) \<Rightarrow> hw \<Rightarrow> main_env \<Rightarrow> (nat \<Rightarrow> bytes) \<Rightarrow> string list \<Rightarrow> main_result option" where
  "disk_wipe_main S al h M D argv =
     (case parse_args config0 g_seed argv of
        Exits e \<Rightarrow> stop e D
      | Parsed cfg seed \<Rightarrow>
          (case check_config cfg of
             None \<Rightarrow> stop 2 D
           | Some cfg \<Rightarrow>
               (case select_gpus (me_device_count M) (cf_gpus cfg) of
                  Inl e \<Rightarrow> stop e D
                | Inr gpus \<Rightarrow>
                    (let cfg = cfg\<lparr>cf_gpus := gpus\<rparr>;
                         super_bytes = pose_graph_super_chunk_blocks (cf_chunk_blocks cfg) * of_nat POSE_HASH_BYTES
                     in do {
                          r \<leftarrow> open_targets (me_open M) cfg super_bytes 0 (cf_disks cfg);
                          (case r of Inl e \<Rightarrow> stop e D | Inr disks \<Rightarrow> run_targets S al h M D cfg seed super_bytes disks) }))))"

subsection \<open>The ranges of the GPUs tile a device\<close>

text \<open>Super-chunk at which the range of GPU \<open>j\<close> of \<open>K\<close> begins.\<close>

definition share :: "nat \<Rightarrow> nat \<Rightarrow> nat \<Rightarrow> nat" where
  "share n K j = j * (n div K) + min j (n mod K)"

lemma share_0 [simp]: "share n K 0 = 0"
  by (simp add: share_def)

lemma share_Suc: "share n K (Suc j) = share n K j + n div K + (if j < n mod K then 1 else 0)"
  by (simp add: share_def min_def)

lemma share_K: "0 < K \<Longrightarrow> share n K K = n"
proof -
  assume "0 < K"
  then have "min K (n mod K) = n mod K" using mod_less_divisor [of K n] by (intro min_absorb2) simp
  then show ?thesis by (simp add: share_def)
qed

lemma share_mono: "i \<le> j \<Longrightarrow> share n K i \<le> share n K j"
  by (induction j) (auto simp: share_Suc le_Suc_eq)

lemma share_finds: "q < share n K k \<Longrightarrow> \<exists>j<k. share n K j \<le> q \<and> q < share n K (Suc j)"
proof (induction k)
  case (Suc k)
  then show ?case by (cases "q < share n K k") (auto simp: less_Suc_eq intro: exI [of _ k])
qed simp

definition shares :: "nat \<Rightarrow> nat \<Rightarrow> nat \<Rightarrow> nat \<Rightarrow> nat \<Rightarrow> work_item" where
  "shares fd sb n K j = \<lparr>wi_fd = fd, wi_disk_off = of_nat (share n K j * sb), wi_len = of_nat ((share n K (Suc j) - share n K j) * sb)\<rparr>"

lemma split_from_shares:
  assumes "K < 2 ^ 64" "unat base = n div K" "unat extra = n mod K" "off = of_nat (share n K i * unat sb)"
  shows "split_from fd sb base extra off [i..<K] = map (shares fd (unat sb) n K) [i..<K]"
  using assms(4)
proof (induction "K - i" arbitrary: i off)
  case (Suc k)
  then have i: "i < K" "k = K - Suc i" by simp_all
  have "of_nat i < extra \<longleftrightarrow> i < n mod K"
    using unat_of_nat_u64 [of i] i(1) assms(1,3) by (simp add: word_less_nat_alt)
  moreover have "base = of_nat (n div K)" by (simp flip: assms(2))
  ultimately have ns: "base + (if of_nat i < extra then 1 else 0) = of_nat (share n K (Suc i) - share n K i)" by (simp add: share_Suc)
  have len: "of_nat (share n K (Suc i) - share n K i) * sb = of_nat ((share n K (Suc i) - share n K i) * unat sb)" by simp
  have "share n K i * unat sb + (share n K (Suc i) - share n K i) * unat sb = share n K (Suc i) * unat sb"
    using share_mono [of i "Suc i" n K] by (simp flip: add_mult_distrib)
  then have next_off: "off + of_nat ((share n K (Suc i) - share n K i) * unat sb) = of_nat (share n K (Suc i) * unat sb)"
    unfolding Suc.prems by (metis of_nat_add)
  show ?case using Suc.hyps(1) [OF i(2) next_off] Suc.prems i(1)
    by (simp add: upt_conv_Cons Let_def ns len next_off shares_def del: upt_Suc of_nat_mult)
qed simp

lemma split_target_shares:
  fixes sb :: u64
  assumes "0 < K" "K < 2 ^ 64"
  defines "n d \<equiv> unat (od_wipe_len d) div unat sb"
  shows "split_target sb K d = map (shares (od_fd d) (unat sb) (n d) K) [0..<K]"
proof -
  have K: "unat (of_nat K :: u64) = K" by (rule unat_of_nat_u64 [OF assms(2)])
  show ?thesis unfolding split_target_def Let_def
    by (rule split_from_shares [OF assms(2)]) (simp_all add: n_def unat_div unat_mod K)
qed

text \<open>A range in bytes.\<close>

lemma shares_range:
  assumes "j < K" "n * sb < 2 ^ 64"
  shows "item_range (shares fd sb n K j) = (fd, share n K j * sb, share n K (Suc j) * sb)" "item_fits sb (shares fd sb n K j)"
    "unat (wi_len (shares fd sb n K j)) \<le> n * sb" "share n K (Suc j) * sb \<le> n * sb"
proof -
  let ?a = "share n K j" and ?b = "share n K (Suc j)"
  have ab: "?a \<le> ?b" "?b \<le> n" using share_mono [of j "Suc j" n K] share_mono [of "Suc j" K n K] share_K [of K n] assms(1) by simp_all
  have bn: "?b * sb \<le> n * sb" using ab(2) by (rule mult_le_mono1)
  have sum: "?a * sb + (?b - ?a) * sb = ?b * sb" using ab(1) by (simp flip: add_mult_distrib)
  then have small: "?a * sb < 2 ^ 64" "(?b - ?a) * sb < 2 ^ 64" using bn assms(2) by linarith+
  note u = unat_of_nat_u64 [OF small(1)] unat_of_nat_u64 [OF small(2)]
  show "item_range (shares fd sb n K j) = (fd, ?a * sb, ?b * sb)"
    using sum by (simp add: item_range_def shares_def u del: of_nat_mult)
  have "?b * sb < 2 ^ 64" using bn assms(2) by (rule le_less_trans)
  then show "item_fits sb (shares fd sb n K j)" using sum by (simp add: item_fits_def shares_def u del: of_nat_mult)
  have "(?b - ?a) * sb \<le> n * sb" using sum bn by linarith
  then show "unat (wi_len (shares fd sb n K j)) \<le> n * sb" unfolding shares_def work_item.simps u .
  show "?b * sb \<le> n * sb" by (rule bn)
qed

lemma shares_find:
  assumes "0 < K" "0 < sb" "p < n * sb"
  shows "\<exists>j<K. share n K j * sb \<le> p \<and> p < share n K (Suc j) * sb"
proof -
  have "p div sb < share n K K" unfolding share_K [OF assms(1)] using assms(2,3) by (simp add: less_mult_imp_div_less)
  then obtain j where j: "j < K" "share n K j \<le> p div sb" "p div sb < share n K (Suc j)" using share_finds by blast
  have "share n K j * sb \<le> p" using mult_le_mono1 [OF j(2), of sb] div_times_less_eq_dividend [of p sb] by linarith
  moreover have "p < share n K (Suc j) * sb" using j(3) assms(2) by (metis div_less_iff_less_mult)
  ultimately show ?thesis using j(1) by blast
qed

subsection \<open>The plan covers every device\<close>

text \<open>The targets fit the devices; \<open>sb\<close> is the size of a super-chunk.\<close>

definition targets_ok :: "nat \<Rightarrow> (nat \<Rightarrow> bytes) \<Rightarrow> target list \<Rightarrow> bool" where
  "targets_ok sb D ds \<longleftrightarrow> (\<forall>d\<in>set ds. sb dvd unat (od_wipe_len d) \<and> unat (od_wipe_len d) \<le> length (D (od_fd d)))"

text \<open>The bytes to wipe.\<close>

definition wipe_total :: "target list \<Rightarrow> nat" where
  "wipe_total ds = sum_list (map (\<lambda>d. unat (od_wipe_len d)) ds)"

text \<open>\<open>std::sort\<close> permutes.\<close>

definition sort_ok :: "(u64 list \<Rightarrow> nat list) \<Rightarrow> bool" where
  "sort_ok srt \<longleftrightarrow> (\<forall>ls. distinct (srt ls) \<and> set (srt ls) = {..<length ls} \<and> sorted_wrt (\<lambda>a b. ls ! b \<le> ls ! a) (srt ls))"

lemma team_disks_set: "set (team_disks order T t) \<subseteq> set order"
  by (auto simp: team_disks_def)

lemma team_disks_distinct: "distinct order \<Longrightarrow> distinct (team_disks order T t)"
  unfolding team_disks_def distinct_map by (auto simp: inj_on_def nth_eq_iff_index_eq)

lemma team_disks_find: "0 < T \<Longrightarrow> i \<in> set order \<Longrightarrow> \<exists>t<T. i \<in> set (team_disks order T t)"
proof -
  assume T: "0 < T" and "i \<in> set order"
  then obtain k where "k < length order" "order ! k = i" by (auto simp: in_set_conv_nth)
  then show ?thesis using T by (intro exI [of _ "k mod T"]) (auto simp: team_disks_def)
qed

lemma sum_list_distinct_le:
  fixes f :: "nat \<Rightarrow> nat"
  assumes "distinct xs" "set xs \<subseteq> {..<n}"
  shows "sum_list (map f xs) \<le> sum_list (map f [0..<n])"
proof -
  have "sum_list (map f xs) = sum f (set xs)" by (rule sum_list_distinct_conv_sum_set [OF assms(1)])
  also have "\<dots> \<le> sum f {..<n}" by (rule sum_mono2) (use assms(2) in auto)
  also have "\<dots> = sum_list (map f [0..<n])" by (simp add: sum_list_distinct_conv_sum_set atLeast0LessThan)
  finally show ?thesis .
qed

lemma items_bytes_filter: "items_bytes (filter (\<lambda>it. wi_len it \<noteq> 0) its) = items_bytes its"
  by (induction its) (auto simp: items_bytes_def)

lemma worker_items_in:
  assumes "0 < K" "K < 2 ^ 64" "set order = {..<length ds}" "it \<in> set (worker_items ds sb order T K t j)" "j < K"
  shows "\<exists>d\<in>set ds. it = shares (od_fd d) (unat sb) (unat (od_wipe_len d) div unat sb) K j"
proof -
  obtain i where i: "i \<in> set (team_disks order T t)" "it = split_target sb K (ds ! i) ! j"
    using assms(4) by (auto simp: worker_items_def)
  then have "i < length ds" using team_disks_set [of order T t] assms(3) by auto
  moreover have "it = shares (od_fd (ds ! i)) (unat sb) (unat (od_wipe_len (ds ! i)) div unat sb) K j"
    using i(2) assms(5) split_target_shares [OF assms(1,2)] by simp
  ultimately show ?thesis by auto
qed

lemma super_count:
  fixes d :: target
  assumes "targets_ok sb D ds" "d \<in> set ds"
  shows "unat (od_wipe_len d) div sb * sb = unat (od_wipe_len d)" "unat (od_wipe_len d) div sb * sb < 2 ^ 64"
proof -
  show "unat (od_wipe_len d) div sb * sb = unat (od_wipe_len d)" using assms by (simp add: targets_ok_def)
  then show "unat (od_wipe_len d) div sb * sb < 2 ^ 64" using unsigned_less [of "od_wipe_len d", where ?'a = nat] by simp
qed

lemma worker_items_ok:
  assumes "0 < K" "K < 2 ^ 64" "distinct order" "set order = {..<length ds}" "j < K" "unat sb = unat cb * 32" "targets_ok (unat sb) D ds"
  shows "\<forall>it\<in>set (worker_items ds sb order T K t j). item_fits (unat cb * 32) it"
    "items_bytes (worker_items ds sb order T K t j) \<le> wipe_total ds"
proof -
  show "\<forall>it\<in>set (worker_items ds sb order T K t j). item_fits (unat cb * 32) it"
  proof
    fix it assume "it \<in> set (worker_items ds sb order T K t j)"
    from worker_items_in [OF assms(1,2,4) this assms(5)]
    obtain d where d: "d \<in> set ds" "it = shares (od_fd d) (unat sb) (unat (od_wipe_len d) div unat sb) K j" by blast
    then show "item_fits (unat cb * 32) it" using shares_range(2) [OF assms(5) super_count(2) [OF assms(7)]] by (simp flip: assms(6))
  qed
  have "items_bytes (worker_items ds sb order T K t j)
      = sum_list (map (\<lambda>i. unat (wi_len (split_target sb K (ds ! i) ! j))) (team_disks order T t))"
    unfolding worker_items_def items_bytes_filter by (simp add: items_bytes_def comp_def)
  also have "\<dots> \<le> sum_list (map (\<lambda>i. unat (od_wipe_len (ds ! i))) (team_disks order T t))"
  proof (rule sum_list_mono)
    fix i assume "i \<in> set (team_disks order T t)"
    then have d: "ds ! i \<in> set ds" using team_disks_set [of order T t] assms(4) by auto
    show "unat (wi_len (split_target sb K (ds ! i) ! j)) \<le> unat (od_wipe_len (ds ! i))"
      using shares_range(3) [OF assms(5) super_count(2) [OF assms(7) d]] super_count(1) [OF assms(7) d] assms(5)
      by (simp add: split_target_shares [OF assms(1,2)])
  qed
  also have "\<dots> \<le> sum_list (map (\<lambda>i. unat (od_wipe_len (ds ! i))) [0..<length ds])"
    using team_disks_distinct [OF assms(3)] team_disks_set [of order T t] assms(4) by (intro sum_list_distinct_le) simp_all
  also have "map (\<lambda>i. unat (od_wipe_len (ds ! i))) [0..<length ds] = map (\<lambda>d. unat (od_wipe_len d)) ds"
    by (intro nth_equalityI) simp_all
  finally show "items_bytes (worker_items ds sb order T K t j) \<le> wipe_total ds" by (simp add: wipe_total_def)
qed

lemma plan_covers:
  assumes "0 < K" "K < 2 ^ 64" "0 < T" "set order = {..<length ds}" "0 < unat sb" "targets_ok (unat sb) D ds"
    and "d \<in> set ds" "p < unat (od_wipe_len d)"
  shows "\<exists>t<T. \<exists>j<K. \<exists>it\<in>set (worker_items ds sb order T K t j). wi_fd it = od_fd d \<and> unat (wi_disk_off it) \<le> p
      \<and> p < unat (wi_disk_off it) + unat (wi_len it)"
proof -
  obtain i where i: "i < length ds" "ds ! i = d" using assms(7) by (auto simp: in_set_conv_nth)
  then obtain t where t: "t < T" "i \<in> set (team_disks order T t)" using team_disks_find [OF assms(3)] assms(4) by blast
  let ?n = "unat (od_wipe_len d) div unat sb"
  note n = super_count [OF assms(6,7)]
  have "p < ?n * unat sb" using n(1) assms(8) by simp
  from shares_find [OF assms(1,5) this] obtain j where j: "j < K" "share ?n K j * unat sb \<le> p" "p < share ?n K (Suc j) * unat sb" by blast
  let ?it = "shares (od_fd d) (unat sb) ?n K j"
  have r: "unat (wi_disk_off ?it) \<le> p" "p < unat (wi_disk_off ?it) + unat (wi_len ?it)"
    using shares_range(1) [OF j(1) n(2), of "od_fd d"] j(2,3) by (simp_all add: item_range_def)
  then have "wi_len ?it \<noteq> 0" by auto
  then have "?it \<in> set (worker_items ds sb order T K t j)"
    using t(2) i(2) j(1) by (auto simp: worker_items_def split_target_shares [OF assms(1,2)] intro!: image_eqI [of _ _ i])
  moreover have "wi_fd ?it = od_fd d" by (simp add: shares_def)
  ultimately show ?thesis using t(1) j(1) r by blast
qed

text \<open>No byte is wiped by two GPUs, when the descriptors differ.\<close>

lemma team_disks_unique:
  assumes "distinct order" "i \<in> set (team_disks order T t)" "i \<in> set (team_disks order T t')"
  shows "t = t'"
proof -
  obtain k k' where "k < length order" "k mod T = t" "order ! k = i" "k' < length order" "k' mod T = t'" "order ! k' = i"
    using assms(2,3) by (auto simp: team_disks_def)
  then show ?thesis using assms(1) nth_eq_iff_index_eq by blast
qed

lemma shares_disjoint:
  assumes "share n K j * sb \<le> p" "p < share n K (Suc j) * sb" "share n K j' * sb \<le> p" "p < share n K (Suc j') * sb"
  shows "j = j'"
proof -
  have "\<not> i < i'" if "p < share n K (Suc i) * sb" "share n K i' * sb \<le> p" for i i'
  proof
    assume "i < i'"
    then have "share n K (Suc i) * sb \<le> share n K i' * sb" by (intro mult_le_mono1 share_mono) simp
    then show False using that by linarith
  qed
  then show ?thesis using assms by (meson linorder_neqE_nat)
qed

definition wipes :: "target list \<Rightarrow> u64 \<Rightarrow> nat list \<Rightarrow> nat \<Rightarrow> nat \<Rightarrow> nat \<Rightarrow> nat \<Rightarrow> nat \<times> nat \<times> work_item \<Rightarrow> bool" where
  "wipes ds sb order T K fd p w \<longleftrightarrow> (case w of (t, j, it) \<Rightarrow> t < T \<and> j < K \<and> it \<in> set (worker_items ds sb order T K t j) \<and> wi_fd it = fd
     \<and> unat (wi_disk_off it) \<le> p \<and> p < unat (wi_disk_off it) + unat (wi_len it))"

lemma wipes_shares:
  assumes "0 < K" "K < 2 ^ 64" "set order = {..<length ds}" "distinct (map od_fd ds)" "targets_ok (unat sb) D ds"
    and "i < length ds" "wipes ds sb order T K (od_fd (ds ! i)) p (t, j, it)"
  defines "n \<equiv> unat (od_wipe_len (ds ! i)) div unat sb"
  shows "i \<in> set (team_disks order T t) \<and> it = shares (od_fd (ds ! i)) (unat sb) n K j \<and> share n K j * unat sb \<le> p \<and> p < share n K (Suc j) * unat sb"
proof -
  have w: "j < K" "it \<in> set (worker_items ds sb order T K t j)" "wi_fd it = od_fd (ds ! i)"
    "unat (wi_disk_off it) \<le> p" "p < unat (wi_disk_off it) + unat (wi_len it)" using assms(7) by (simp_all add: wipes_def)
  obtain i' where i': "i' \<in> set (team_disks order T t)" "it = split_target sb K (ds ! i') ! j"
    using w(2) by (auto simp: worker_items_def)
  have "i' < length ds" using i'(1) team_disks_set [of order T t] assms(3) by auto
  moreover have it: "it = shares (od_fd (ds ! i')) (unat sb) (unat (od_wipe_len (ds ! i')) div unat sb) K j"
    using i'(2) w(1) split_target_shares [OF assms(1,2)] by simp
  then have "od_fd (ds ! i') = od_fd (ds ! i)" using w(3) by (simp add: shares_def)
  ultimately have "i' = i" using assms(4,6) by (simp add: distinct_conv_nth) metis
  then have it: "it = shares (od_fd (ds ! i)) (unat sb) n K j" and t: "i \<in> set (team_disks order T t)"
    using it i'(1) by (simp_all add: n_def)
  have "n * unat sb < 2 ^ 64" using super_count(2) [OF assms(5)] assms(6) by (simp add: n_def)
  from shares_range(1) [OF w(1) this, of "od_fd (ds ! i)"] show ?thesis
    using w(4,5) it t by (simp add: item_range_def)
qed

lemma plan_tiles:
  assumes "0 < K" "K < 2 ^ 64" "0 < T" "distinct order" "set order = {..<length ds}" "distinct (map od_fd ds)" "0 < unat sb"
    and "targets_ok (unat sb) D ds" "d \<in> set ds" "p < unat (od_wipe_len d)"
  shows "\<exists>!w. wipes ds sb order T K (od_fd d) p w"
proof -
  obtain i where i: "i < length ds" "ds ! i = d" using assms(9) by (auto simp: in_set_conv_nth)
  from plan_covers [OF assms(1-3,5,7-10)]
  obtain t j it where "wipes ds sb order T K (od_fd d) p (t, j, it)" unfolding wipes_def by fastforce
  then show ?thesis
  proof (rule ex1I)
    fix w assume "wipes ds sb order T K (od_fd d) p w"
    then obtain t' j' it' where w: "w = (t', j', it')" "wipes ds sb order T K (od_fd d) p (t', j', it')" by (cases w) auto
    note shares = wipes_shares [OF assms(1,2,5,6,8) i(1), unfolded i(2)]
    note a = shares [OF \<open>wipes ds sb order T K (od_fd d) p (t, j, it)\<close>] and b = shares [OF w(2)]
    have "t' = t" using team_disks_unique [OF assms(4)] a b by blast
    moreover have "j' = j" using shares_disjoint a b by blast
    ultimately show "w = (t, j, it)" using a b w(1) by simp
  qed
qed

end
