(* ===== verification/Disk_Run.thy ===== *)
theory Disk_Run
  imports Disk_Main
begin

section \<open>A run of the disk wipe\<close>

text \<open>
  What a run of \<open>main\<close> does to the devices: whatever fails, only labels are written, within the targets and only with
  \<open>--confirm\<close>; if the status is 0, every target is labelled, or its samples are, when it only verifies.
\<close>

subsection \<open>The writes of all workers\<close>

lemma set_merge: "set (merge sched xss) = (\<Union>xs\<in>set xss. set xs)"
proof (induction sched xss rule: merge.induct)
  case (2 i sched xss)
  show ?case
  proof (cases "i < length xss \<and> xss ! i \<noteq> []")
    case True
    have "(\<Union>xs\<in>set xss. set xs) = (\<Union>k<length xss. set (xss ! k))" by (force simp: in_set_conv_nth)
    also have "\<dots> = insert (hd (xss ! i)) (\<Union>k<length xss. set (xss[i := tl (xss ! i)] ! k))"
    proof (intro equalityI subsetI)
      fix x assume "x \<in> (\<Union>k<length xss. set (xss ! k))"
      then obtain k where k: "k < length xss" "x \<in> set (xss ! k)" by blast
      show "x \<in> insert (hd (xss ! i)) (\<Union>k<length xss. set (xss[i := tl (xss ! i)] ! k))"
      proof (cases "k = i")
        case True
        then have "x = hd (xss ! i) \<or> x \<in> set (tl (xss ! i))" using k(2) by (cases "xss ! i") auto
        then show ?thesis using k(1) True by (auto intro!: bexI [of _ i])
      qed (use k in \<open>auto intro!: bexI [of _ k]\<close>)
    next
      fix x assume "x \<in> insert (hd (xss ! i)) (\<Union>k<length xss. set (xss[i := tl (xss ! i)] ! k))"
      then consider "x = hd (xss ! i)" | k where "k < length xss" "x \<in> set (xss[i := tl (xss ! i)] ! k)" by auto
      then have "\<exists>k<length xss. x \<in> set (xss ! k)"
      proof cases
        case 1
        then show ?thesis using True by (intro exI [of _ i]) simp
      next
        case (2 k)
        then show ?thesis using True by (intro exI [of _ k]) (auto simp: nth_list_update split: if_splits dest: list.set_sel(2))
      qed
      then show "x \<in> (\<Union>k<length xss. set (xss ! k))" by blast
    qed
    also have "(\<Union>k<length xss. set (xss[i := tl (xss ! i)] ! k)) = (\<Union>xs\<in>set (xss[i := tl (xss ! i)]). set xs)"
      by (force simp: in_set_conv_nth)
    finally show ?thesis using 2(1) [OF True] True by simp
  next
    case False
    then have "merge (i # sched) xss = merge sched xss" by (simp only: merge.simps if_False)
    then show ?thesis using 2(2) [OF False] by simp
  qed
qed auto

text \<open>What the writes of a run have in common.\<close>

definition run_did :: "hw \<Rightarrow> bytes \<Rightarrow> config \<Rightarrow> target list \<Rightarrow> worker_result list \<Rightarrow> (nat \<times> nat \<times> bytes) list \<Rightarrow> bool" where
  "run_did h seed cfg ds ws all \<longleftrightarrow> writes_want (\<lambda>_. disk_byte h seed (unat (cf_chunk_blocks cfg))) all
     \<and> (cf_dry_run cfg \<longrightarrow> all = [])
     \<and> (\<forall>(f, o', x)\<in>set all. \<exists>d\<in>set ds. f = od_fd d \<and> o' + length x \<le> unat (od_wipe_len d))
     \<and> (list_all (\<lambda>r. wr_err r = None) ws \<and> \<not> cf_dry_run cfg
          \<longrightarrow> (\<forall>d\<in>set ds. \<forall>p<unat (od_wipe_len d). reaches all (od_fd d) p))"

text \<open>What the workers rely on: each of them, for any list of ranges that is no longer than all targets together.\<close>

definition workers_ready :: "strategy \<Rightarrow> hw \<Rightarrow> u32 \<Rightarrow> nat \<Rightarrow> main_env \<Rightarrow> bool" where
  "workers_ready S h cb n M \<longleftrightarrow> (\<forall>g items. items_bytes items \<le> n \<longrightarrow> worker_env_ok S h cb items (me_worker M g))"

lemma those_Some: "\<forall>x\<in>set xs. \<exists>y. f x = Some y \<and> P x y \<Longrightarrow> \<exists>ys. those (map f xs) = Some ys \<and> list_all2 P xs ys"
  by (induction xs) auto

lemma list_all2_left: "list_all2 P xs ys \<Longrightarrow> x \<in> set xs \<Longrightarrow> \<exists>y\<in>set ys. P x y"
  by (induction rule: list_all2_induct) auto

lemma list_all2_right: "list_all2 P xs ys \<Longrightarrow> y \<in> set ys \<Longrightarrow> \<exists>x\<in>set xs. P x y"
  by (induction rule: list_all2_induct) auto

lemma team_size_range:
  assumes "0 < G"
  shows "0 < team_size cfg G" "team_size cfg G \<le> G" "0 < G div team_size cfg G"
proof -
  show *: "0 < team_size cfg G" "team_size cfg G \<le> G" using assms by (auto simp: team_size_def Let_def)
  then show "0 < G div team_size cfg G" by (simp add: div_greater_zero_iff)
qed

lemma run_workers_ok:
  assumes "hw_ok h" "cf_chunk_blocks cfg \<noteq> 0" "unat sb = unat (cf_chunk_blocks cfg) * 32" "targets_ok (unat sb) D ds"
    and "workers_ready S h (cf_chunk_blocks cfg) (wipe_total ds) M" "sort_ok (me_sort M)" "length seed + 8 \<le> BLAKE3_CHUNK_LEN"
    and "wipe_total ds < 2 ^ 64" "cf_gpus cfg \<noteq> []" "length (cf_gpus cfg) < 2 ^ 64"
  shows "\<exists>ws. run_workers S al h M cfg seed sb ds = Some ws \<and> run_did h seed cfg ds ws (merge sched (map wr_writes ws))
    \<and> ((\<forall>g. worker_calm cfg (me_worker M g)) \<longrightarrow> list_all (\<lambda>r. wr_err r = None) ws)"
proof -
  define K where "K = team_size cfg (length (cf_gpus cfg))"
  define T where "T = length (cf_gpus cfg) div K"
  define od where "od = me_sort M (map od_wipe_len ds)"
  let ?items = "worker_items ds sb od T K" and ?js = "[(t, j). t \<leftarrow> [0..<T], j \<leftarrow> [0..<K]]"
  let ?cb = "cf_chunk_blocks cfg" and ?want = "\<lambda>_ :: nat. disk_byte h seed (unat (cf_chunk_blocks cfg))"
  have K: "0 < K" "K < 2 ^ 64" "0 < T"
    using team_size_range [of "length (cf_gpus cfg)" cfg] assms(9,10) by (auto simp: K_def T_def)
  have od: "distinct od" "set od = {..<length ds}" using assms(6) by (auto simp: sort_ok_def od_def)
  have sb0: "0 < unat sb" using assms(2,3) by (simp add: unat_gt_0)
  have "\<exists>r. worker S al h (me_worker M (cf_gpus cfg ! (t * K + j))) cfg seed (?items t j) = Some r \<and> worker_did h seed cfg (?items t j) r
      \<and> (worker_calm cfg (me_worker M (cf_gpus cfg ! (t * K + j))) \<longrightarrow> wr_err r = None)"
    if "j < K" for t j
  proof (rule worker_ok [OF assms(1,2) _ _ assms(7)])
    note w = worker_items_ok [OF K(1,2) od that assms(3,4), of T t]
    show "worker_env_ok S h ?cb (?items t j) (me_worker M (cf_gpus cfg ! (t * K + j)))" using assms(5) w(2) by (simp add: workers_ready_def)
    show "items_ok ?cb (?items t j)" using w assms(8) by (simp add: items_ok_def)
  qed
  then obtain ws where ws: "run_workers S al h M cfg seed sb ds = Some ws"
    "list_all2 (\<lambda>(t, j) r. worker_did h seed cfg (?items t j) r \<and> (worker_calm cfg (me_worker M (cf_gpus cfg ! (t * K + j))) \<longrightarrow> wr_err r = None)) ?js ws"
    using those_Some [of ?js "\<lambda>(t, j). worker S al h (me_worker M (cf_gpus cfg ! (t * K + j))) cfg seed (?items t j)"
        "\<lambda>(t, j) r. worker_did h seed cfg (?items t j) r \<and> (worker_calm cfg (me_worker M (cf_gpus cfg ! (t * K + j))) \<longrightarrow> wr_err r = None)"]
    by (auto simp: run_workers_def Let_def simp flip: K_def T_def od_def)
  have did: "\<exists>t j. t < T \<and> j < K \<and> worker_did h seed cfg (?items t j) r
      \<and> ((\<forall>g. worker_calm cfg (me_worker M g)) \<longrightarrow> wr_err r = None)" if r: "r \<in> set ws" for r
  proof -
    obtain x where x: "x \<in> set ?js" "worker_did h seed cfg (?items (fst x) (snd x)) r"
      "(\<forall>g. worker_calm cfg (me_worker M g)) \<longrightarrow> wr_err r = None"
      using list_all2_right [OF ws(2) r] by (auto simp: case_prod_beta simp del: set_concat)
    then have "fst x < T" "snd x < K" by auto
    then show ?thesis using x(2,3) by blast
  qed
  have calm: "list_all (\<lambda>r. wr_err r = None) ws" if "\<forall>g. worker_calm cfg (me_worker M g)"
    using did that by (auto simp: list_all_iff)
  have found: "\<exists>r\<in>set ws. worker_did h seed cfg (?items t j) r" if "t < T" "j < K" for t j
  proof -
    have "(t, j) \<in> set ?js" using that by (auto simp: image_iff)
    from list_all2_left [OF ws(2) this] show ?thesis by auto
  qed
  define all where "all = merge sched (map wr_writes ws)"
  have mem: "w \<in> set all \<longleftrightarrow> (\<exists>r\<in>set ws. w \<in> set (wr_writes r))" for w by (simp add: all_def set_merge)
  have "writes_want ?want all" using did mem unfolding writes_want_def worker_did_def by blast
  moreover have "all = []" if "cf_dry_run cfg"
  proof -
    have "w \<notin> set all" for w using did mem that by (fastforce simp: worker_did_def)
    then show ?thesis by (metis list.set_intros(1) list.exhaust)
  qed
  moreover have "\<exists>d\<in>set ds. f = od_fd d \<and> o' + length x \<le> unat (od_wipe_len d)" if w: "(f, o', x) \<in> set all" for f o' x
  proof -
    obtain r t j where r: "(f, o', x) \<in> set (wr_writes r)" "j < K" "worker_did h seed cfg (?items t j) r" using w mem did by blast
    have "\<exists>lo hi. (f, lo, hi) \<in> item_range ` set (?items t j) \<and> lo \<le> o' \<and> o' + length x \<le> hi"
      using r(1,3) by (auto simp: worker_did_def)
    then obtain lo hi where lh: "(f, lo, hi) \<in> item_range ` set (?items t j)" "o' + length x \<le> hi" by blast
    then obtain it where it: "it \<in> set (?items t j)" "item_range it = (f, lo, hi)" by auto
    obtain d where d: "d \<in> set ds" "it = shares (od_fd d) (unat sb) (unat (od_wipe_len d) div unat sb) K j"
      using worker_items_in [OF K(1,2) od(2) it(1) r(2)] by blast
    then show ?thesis using it(2) lh(2) shares_range(1) [OF r(2) super_count(2) [OF assms(4) d(1)], of "od_fd d"]
        shares_range(4) [OF r(2) super_count(2) [OF assms(4) d(1)]] super_count(1) [OF assms(4) d(1)]
      by auto
  qed
  moreover have "reaches all (od_fd d) p"
    if e: "list_all (\<lambda>r. wr_err r = None) ws" "\<not> cf_dry_run cfg" "d \<in> set ds" "p < unat (od_wipe_len d)" for d p
  proof -
    obtain t j it where it: "t < T" "j < K" "it \<in> set (?items t j)" "wi_fd it = od_fd d" "unat (wi_disk_off it) \<le> p"
      "p < unat (wi_disk_off it) + unat (wi_len it)"
      using plan_covers [OF K od(2) sb0 assms(4) e(3,4)] by blast
    obtain r where r: "r \<in> set ws" "worker_did h seed cfg (?items t j) r" using found [OF it(1,2)] by blast
    then have "items_reached (?items t j) (wr_writes r)" using e(1,2) by (auto simp: worker_did_def list_all_iff)
    then have "reaches (wr_writes r) (od_fd d) p" using it(3-6) by (auto simp: items_reached_def)
    then show ?thesis using r(1) mem unfolding reaches_def by blast
  qed
  ultimately have "run_did h seed cfg ds ws all" unfolding run_did_def by blast
  then show ?thesis using ws(1) calm unfolding all_def by blast
qed

subsection \<open>Opening the targets\<close>

text \<open>
  The size that a device reports is that of its contents, a sector has bytes. \<open>D\<close> is indexed by descriptor: two
  descriptors are two devices, since \<open>O_EXCL\<close> refuses to open a device twice.
\<close>

definition devices_ok :: "(nat \<Rightarrow> open_env) \<Rightarrow> (nat \<Rightarrow> bytes) \<Rightarrow> bool" where
  "devices_ok E D \<longleftrightarrow> (\<forall>i fd n. oe_size (E i) fd = Some n \<longrightarrow> unat n = length (D fd))
     \<and> (\<forall>i fd s. oe_sector (E i) fd = Some s \<longrightarrow> (word_of_int s :: u64) \<noteq> 0)"

lemma open_disk_ok:
  assumes "devices_ok E D" "open_disk (E i) p ro = Inr (fd, bytes, sector)"
  shows "unat bytes = length (D fd)" "(word_of_int sector :: u64) \<noteq> 0"
  using assms by (auto simp: open_disk_def devices_ok_def Let_def split: option.splits if_splits)

lemma floor_to_le: "floor_to v m \<le> (v :: u64)"
  unfolding word_le_nat_alt floor_to_u64 by (simp add: floor_to_def)

lemma floor_to_dvd: "unat m dvd unat (floor_to v m :: u64)"
  unfolding floor_to_u64 by (simp add: floor_to_def)

lemma open_targets_ok:
  assumes "devices_ok E D"
  shows "\<exists>r. open_targets E cfg sb i ps = Some r \<and> (\<forall>e. r = Inl e \<longrightarrow> e = 1) \<and> (\<forall>ds. r = Inr ds \<longrightarrow> targets_ok (unat sb) D ds \<and> map od_path ds = ps
      \<and> (\<forall>d\<in>set ds. od_wipe_len d \<noteq> 0 \<and> od_wipe_len d \<le> od_size d))"
proof (induction ps arbitrary: i)
  case Nil
  then show ?case by (simp add: targets_ok_def)
next
  case (Cons p ps)
  show ?case
  proof (cases "open_disk (E i) p (cf_verify_only cfg)")
    case (Inr r)
    then obtain fd bytes sector where o: "open_disk (E i) p (cf_verify_only cfg) = Inr (fd, bytes, sector)" by (cases r) auto
    note ok = open_disk_ok [OF assms o]
    define want where "want = (if cf_per_disk_bytes cfg \<noteq> 0 then min (cf_per_disk_bytes cfg) bytes else bytes)"
    have len: "floor_to want sb \<le> bytes" using floor_to_le [of want sb] unfolding want_def by (auto split: if_splits)
    then have dev: "unat (floor_to want sb) \<le> length (D fd)" using ok(1) by (simp add: word_le_nat_alt)
    from Cons.IH [of "i + 1"] obtain r where r: "open_targets E cfg sb (i + 1) ps = Some r" "\<forall>e. r = Inl e \<longrightarrow> e = 1"
      "\<forall>ds. r = Inr ds \<longrightarrow> targets_ok (unat sb) D ds \<and> map od_path ds = ps \<and> (\<forall>d\<in>set ds. od_wipe_len d \<noteq> 0 \<and> od_wipe_len d \<le> od_size d)" by blast
    show ?thesis
    proof (cases "sb mod word_of_int sector \<noteq> 0 \<or> floor_to want sb = 0")
      case True
      then show ?thesis using o ok(2) by (auto simp: want_def Let_def)
    next
      case False
      let ?d = "\<lparr>od_path = p, od_fd = fd, od_size = bytes, od_sector = sector, od_wipe_len = floor_to want sb\<rparr>"
      have "open_targets E cfg sb i (p # ps) = Some (map_sum (\<lambda>e. e) ((#) ?d) r)"
        using o ok(2) False r(1) by (simp add: want_def Let_def)
      then show ?thesis using r(2,3) False len dev floor_to_dvd [of sb want] by (cases r) (auto simp: targets_ok_def)
    qed
  qed simp
qed

subsection \<open>Verifying the targets\<close>

text \<open>The samples of a target hold the labels of the wipe.\<close>

definition samples_hold :: "hw \<Rightarrow> bytes \<Rightarrow> config \<Rightarrow> (nat \<Rightarrow> bytes) \<Rightarrow> target \<Rightarrow> bool" where
  "samples_hold h seed cfg D d =
     (let cb = cf_chunk_blocks cfg; n_super = od_wipe_len d div (pose_graph_super_chunk_blocks cb * 32);
          s = samples_of n_super (cf_verify_n cfg)
      in \<forall>k<unat s. chunk_holds h seed (unat cb) (D (od_fd d)) (unat (sample_index n_super s (of_nat k))))"

lemma verify_env_mono: "verify_env_ok V sb n \<Longrightarrow> k \<le> n \<Longrightarrow> verify_env_ok V sb k"
  by (simp add: verify_env_ok_def)

lemma verify_target_ok:
  assumes "hw_ok h" "cf_chunk_blocks cfg \<noteq> 0" "cf_chunk_blocks cfg \<le> ucast POSE_GRAPH_MAX_M"
    and "unat (od_wipe_len d) \<le> length (D (od_fd d))"
    and "verify_env_ok V (unat (cf_chunk_blocks cfg) * 32) n" "unat (od_wipe_len d) \<le> n"
    and "unat (cf_chunk_blocks cfg) * 32 dvd unat (od_wipe_len d)" "od_wipe_len d \<noteq> 0"
  shows "\<exists>r. verify_disk (pose_labeler h) V (D (od_fd d)) seed (od_wipe_len d) (cf_chunk_blocks cfg) (cf_verify_n cfg) = Some r
    \<and> (verify_passed r \<longrightarrow> samples_hold h seed cfg D d) \<and> (verify_calm V \<and> samples_hold h seed cfg D d \<longrightarrow> verify_passed r)"
proof -
  let ?cb = "cf_chunk_blocks cfg"
  define n_super where "n_super = od_wipe_len d div (pose_graph_super_chunk_blocks ?cb * 32)"
  define s where "s = samples_of n_super (cf_verify_n cfg)"
  have "unat n_super * (unat ?cb * 32) \<le> unat (od_wipe_len d)"
    unfolding n_super_def unat_div super_chunk_bytes(2) [OF assms(2)] by (rule div_times_less_eq_dividend)
  moreover have "s \<le> n_super" by (auto simp: s_def samples_of_def Let_def not_less)
  then have "unat s * (unat ?cb * 32) \<le> unat n_super * (unat ?cb * 32)" by (intro mult_le_mono1) (simp add: word_le_nat_alt)
  ultimately have reads: "unat s * (unat ?cb * 32) \<le> n" using assms(6) by linarith
  have env: "verify_env_ok V (unat ?cb * 32) (unat (samples_of (od_wipe_len d div (pose_graph_super_chunk_blocks ?cb * 32)) (cf_verify_n cfg)) * (unat ?cb * 32))"
    using verify_env_mono [OF assms(5) reads] unfolding s_def n_super_def .
  from verify_disk_ok [OF assms(1-4) env, of seed] obtain r where
    r: "verify_disk (pose_labeler h) V (D (od_fd d)) seed (od_wipe_len d) ?cb (cf_verify_n cfg) = Some r"
    "vr_err r = None \<longrightarrow> n_super \<noteq> 0 \<and> vr_checked r = unat s
      \<and> vr_mism r = length (filter (\<lambda>k. \<not> chunk_holds h seed (unat ?cb) (D (od_fd d)) (unat (sample_index n_super s (of_nat k)))) [0..<unat s])"
    "verify_calm V \<and> n_super \<noteq> 0 \<longrightarrow> vr_err r = None"
    unfolding s_def [symmetric] n_super_def [symmetric] by (elim exE conjE) (rule that)
  have "unat ?cb * 32 \<le> unat (od_wipe_len d)" using assms(7,8) by (intro dvd_imp_le) (simp_all add: unat_gt_0)
  moreover have "0 < unat ?cb * 32" using assms(2) by (simp add: unat_gt_0)
  ultimately have "unat (od_wipe_len d) div (unat ?cb * 32) \<noteq> 0" by (simp add: div_eq_0_iff)
  then have n0: "n_super \<noteq> 0" unfolding n_super_def
    using super_chunk_bytes(2) [OF assms(2)] by (metis unat_0 unat_div)
  have "verify_passed r" if "verify_calm V" "samples_hold h seed cfg D d"
    using r(2,3) that n0 unfolding samples_hold_def Let_def n_super_def [symmetric] s_def [symmetric]
    by (auto simp: verify_passed_def filter_empty_conv)
  moreover  have "samples_hold h seed cfg D d" if "verify_passed r"
    using r(2) that unfolding samples_hold_def Let_def n_super_def [symmetric] s_def [symmetric]
    by (auto simp: verify_passed_def filter_empty_conv)
  ultimately show ?thesis using r(1) by blast
qed

lemma verify_targets_ok:
  assumes "hw_ok h" "cf_chunk_blocks cfg \<noteq> 0" "cf_chunk_blocks cfg \<le> ucast POSE_GRAPH_MAX_M" "targets_ok (unat (cf_chunk_blocks cfg) * 32) D ds"
    and "\<forall>i. verify_env_ok (V i) (unat (cf_chunk_blocks cfg) * 32) n" "wipe_total ds \<le> n" "\<forall>d\<in>set ds. od_wipe_len d \<noteq> 0"
  shows "\<exists>vs. verify_targets (pose_labeler h) V D cfg seed ds = Some vs
    \<and> (list_all verify_passed vs \<longrightarrow> (\<forall>d\<in>set ds. samples_hold h seed cfg D d))
    \<and> ((\<forall>i. verify_calm (V i)) \<and> (\<forall>d\<in>set ds. samples_hold h seed cfg D d) \<longrightarrow> list_all verify_passed vs)"
proof -
  let ?P = "\<lambda>x r. (verify_passed r \<longrightarrow> samples_hold h seed cfg D (snd x)) \<and> (verify_calm (V (fst x)) \<and> samples_hold h seed cfg D (snd x) \<longrightarrow> verify_passed r)"
  have "\<exists>r. (case x of (i, d) \<Rightarrow> verify_disk (pose_labeler h) (V i) (D (od_fd d)) seed (od_wipe_len d) (cf_chunk_blocks cfg) (cf_verify_n cfg)) = Some r
      \<and> ?P x r" if x: "x \<in> set (List.enumerate 0 ds)" for x
  proof -
    have "snd x \<in> set (map snd (List.enumerate 0 ds))" using x by (simp del: map_snd_enumerate)
    then obtain i d where id: "x = (i, d)" "d \<in> set ds" by (cases x) simp
    have "unat (od_wipe_len d) \<le> wipe_total ds"
      unfolding wipe_total_def using id(2) by (intro member_le_sum_list) auto
    then show ?thesis
      using verify_target_ok [OF assms(1-3) _ spec [OF assms(5)], of d D i seed] assms(4,6,7) id by (simp add: targets_ok_def)
  qed
  then have "\<forall>x\<in>set (List.enumerate 0 ds).
      \<exists>r. (case x of (i, d) \<Rightarrow> verify_disk (pose_labeler h) (V i) (D (od_fd d)) seed (od_wipe_len d) (cf_chunk_blocks cfg) (cf_verify_n cfg)) = Some r
      \<and> ?P x r" by blast
  from those_Some [OF this] obtain vs where vs: "verify_targets (pose_labeler h) V D cfg seed ds = Some vs"
    "list_all2 ?P (List.enumerate 0 ds) vs"
    unfolding verify_targets_def by blast
  have "samples_hold h seed cfg D d" if "list_all verify_passed vs" "d \<in> set ds" for d
  proof -
    have "d \<in> snd ` set (List.enumerate 0 ds)" using that(2) by (simp flip: set_map)
    then obtain x where x: "x \<in> set (List.enumerate 0 ds)" "snd x = d" by blast
    from list_all2_left [OF vs(2) x(1)] show ?thesis using that(1) x(2) by (auto simp: list_all_iff)
  qed
  moreover have "verify_passed r" if c: "\<forall>i. verify_calm (V i)" "\<forall>d\<in>set ds. samples_hold h seed cfg D d" and r: "r \<in> set vs" for r
  proof -
    obtain x where x: "x \<in> set (List.enumerate 0 ds)" "?P x r" using list_all2_right [OF vs(2) r] by blast
    then have "snd x \<in> set (map snd (List.enumerate 0 ds))" by (simp del: map_snd_enumerate)
    then show ?thesis using x(2) c by simp
  qed
  ultimately show ?thesis using vs(1) unfolding list_all_iff by blast
qed

subsection \<open>A run\<close>

text \<open>
  Whatever happens, a byte of a device is as it was, or it lies in the part of a target to be wiped and holds its byte
  of the labels.
\<close>

definition only_labels :: "hw \<Rightarrow> bytes \<Rightarrow> nat \<Rightarrow> target list \<Rightarrow> (nat \<Rightarrow> bytes) \<Rightarrow> (nat \<Rightarrow> bytes) \<Rightarrow> bool" where
  "only_labels h seed cb ds D D' \<longleftrightarrow> (\<forall>fd. length (D' fd) = length (D fd) \<and> (\<forall>p<length (D fd). D' fd ! p = D fd ! p
      \<or> (\<exists>d\<in>set ds. od_fd d = fd \<and> p < unat (od_wipe_len d)) \<and> D' fd ! p = disk_byte h seed cb p))"

definition all_labelled :: "hw \<Rightarrow> bytes \<Rightarrow> nat \<Rightarrow> target list \<Rightarrow> (nat \<Rightarrow> bytes) \<Rightarrow> bool" where
  "all_labelled h seed cb ds D \<longleftrightarrow> (\<forall>d\<in>set ds. \<forall>p<unat (od_wipe_len d). D (od_fd d) ! p = disk_byte h seed cb p)"

lemma only_labels_refl: "only_labels h seed cb ds D D"
  by (simp add: only_labels_def)

lemma run_did_labels:
  assumes "run_did h seed cfg ds ws all" "targets_ok sb D ds"
  shows "\<exists>D'. run_writes all D = Some D' \<and> only_labels h seed (unat (cf_chunk_blocks cfg)) ds D D'
    \<and> (\<forall>fd. length (D' fd) = length (D fd)) \<and> (cf_dry_run cfg \<longrightarrow> D' = D)
    \<and> (list_all (\<lambda>r. wr_err r = None) ws \<and> \<not> cf_dry_run cfg \<longrightarrow> all_labelled h seed (unat (cf_chunk_blocks cfg)) ds D')"
proof (cases "cf_dry_run cfg")
  case True
  then have "all = []" using assms(1) by (simp add: run_did_def)
  then show ?thesis using True by (simp add: only_labels_refl)
next
  case False
  let ?want = "\<lambda>_ :: nat. disk_byte h seed (unat (cf_chunk_blocks cfg))"
  have all: "writes_want ?want all" "\<forall>(f, o', x)\<in>set all. \<exists>d\<in>set ds. f = od_fd d \<and> o' + length x \<le> unat (od_wipe_len d)"
    "list_all (\<lambda>r. wr_err r = None) ws \<longrightarrow> (\<forall>d\<in>set ds. \<forall>p<unat (od_wipe_len d). reaches all (od_fd d) p)"
    using assms(1) False by (simp_all add: run_did_def)
  have fit: "\<forall>(f, o', x)\<in>set all. o' + length x \<le> length (D f)"
    using all(2) assms(2) by (fastforce simp: targets_ok_def)
  from run_writes_ok [OF all(1) fit] obtain D' where D': "run_writes all D = Some D'" "\<And>fd. length (D' fd) = length (D fd)"
    "\<And>fd p. p < length (D fd) \<Longrightarrow> D' fd ! p = (if reaches all fd p then ?want fd p else D fd ! p)" by blast
  have "\<exists>d\<in>set ds. od_fd d = fd \<and> p < unat (od_wipe_len d)" if "reaches all fd p" for fd p
    using that all(2) by (fastforce simp: reaches_def)
  then have "only_labels h seed (unat (cf_chunk_blocks cfg)) ds D D'" using D'(2,3) by (auto simp: only_labels_def)
  moreover have "all_labelled h seed (unat (cf_chunk_blocks cfg)) ds D'" if "list_all (\<lambda>r. wr_err r = None) ws"
    using that all(3) D'(3) assms(2) by (fastforce simp: all_labelled_def targets_ok_def)
  ultimately show ?thesis using D'(1,2) False by blast
qed

text \<open>What a run relies on; \<open>n\<close> bounds the bytes to wipe.\<close>

definition main_env_ok :: "strategy \<Rightarrow> hw \<Rightarrow> main_env \<Rightarrow> (nat \<Rightarrow> bytes) \<Rightarrow> u32 \<Rightarrow> nat \<Rightarrow> bool" where
  "main_env_ok S h M D cb n \<longleftrightarrow> devices_ok (me_open M) D \<and> sort_ok (me_sort M) \<and> workers_ready S h cb n M
     \<and> (\<forall>i. verify_env_ok (me_verify M i) (unat cb * 32) n) \<and> n < 2 ^ 64 \<and> (\<forall>c. me_device_count M = Some c \<longrightarrow> c \<le> INT_MAX)"

definition run_ok :: "hw \<Rightarrow> bytes \<Rightarrow> config \<Rightarrow> (nat \<Rightarrow> bytes) \<Rightarrow> main_result \<Rightarrow> bool" where
  "run_ok h seed cfg D r \<longleftrightarrow> only_labels h seed (unat (cf_chunk_blocks cfg)) (mr_targets r) D (mr_disks r)
     \<and> (cf_verify_only cfg \<or> cf_dry_run cfg \<or> \<not> cf_confirm cfg \<longrightarrow> mr_disks r = D)
     \<and> (mr_exit r = 0 \<longrightarrow> map od_path (mr_targets r) = cf_disks cfg
          \<and> (\<not> cf_verify_only cfg \<and> \<not> cf_dry_run cfg \<longrightarrow> all_labelled h seed (unat (cf_chunk_blocks cfg)) (mr_targets r) (mr_disks r))
          \<and> (cf_verify_only cfg \<longrightarrow> (\<forall>d\<in>set (mr_targets r). samples_hold h seed cfg D d)))"

text \<open>A run on which no call fails ends with status 0, once the targets are open.\<close>

definition main_calm :: "config \<Rightarrow> main_env \<Rightarrow> bool" where
  "main_calm cfg M \<longleftrightarrow> (\<forall>g. worker_calm cfg (me_worker M g)) \<and> (\<forall>i. verify_calm (me_verify M i))"

definition run_succeeds :: "hw \<Rightarrow> bytes \<Rightarrow> config \<Rightarrow> main_env \<Rightarrow> (nat \<Rightarrow> bytes) \<Rightarrow> main_result \<Rightarrow> bool" where
  "run_succeeds h seed cfg M D r \<longleftrightarrow>
     (mr_targets r \<noteq> [] \<and> main_calm cfg M \<and> (if cf_verify_only cfg then \<forall>d\<in>set (mr_targets r). samples_hold h seed cfg D d
        else cf_dry_run cfg \<or> cf_confirm cfg) \<longrightarrow> mr_exit r = 0)"

lemma labelled_samples:
  assumes "all_labelled h seed (unat (cf_chunk_blocks cfg)) ds D" "cf_chunk_blocks cfg \<noteq> 0" "d \<in> set ds" "od_wipe_len d \<noteq> 0"
    and "unat (cf_chunk_blocks cfg) * 32 dvd unat (od_wipe_len d)"
  shows "samples_hold h seed cfg D d"
proof -
  let ?sb = "unat (cf_chunk_blocks cfg) * 32"
  define n where "n = od_wipe_len d div (pose_graph_super_chunk_blocks (cf_chunk_blocks cfg) * 32)"
  have n: "unat n = unat (od_wipe_len d) div ?sb" unfolding n_def unat_div super_chunk_bytes(2) [OF assms(2)] ..
  have "?sb \<le> unat (od_wipe_len d)" using assms(4,5) by (intro dvd_imp_le) (simp_all add: unat_gt_0)
  moreover have "0 < ?sb" using assms(2) by (simp add: unat_gt_0)
  ultimately have "unat n \<noteq> 0" unfolding n by (simp add: div_eq_0_iff)
  then have n0: "n \<noteq> 0" by auto
  define s where "s = samples_of n (cf_verify_n cfg)"
  have "chunk_holds h seed (unat (cf_chunk_blocks cfg)) (D (od_fd d)) (unat (sample_index n s (of_nat k)))" if "k < unat s" for k
  proof -
    have "unat (of_nat k :: u64) = k" using that unsigned_less [of s, where ?'a = nat] by (intro unat_of_nat_u64) simp
    then have "(of_nat k :: u64) < s" using that by (simp add: word_less_nat_alt)
    from sample_index_less [OF n0 this] have "unat (sample_index n s (of_nat k)) + 1 \<le> unat n" by (simp add: word_less_nat_alt)
    then have "(unat (sample_index n s (of_nat k)) + 1) * ?sb \<le> unat n * ?sb" by (rule mult_le_mono1)
    moreover have "unat n * ?sb \<le> unat (od_wipe_len d)" unfolding n by (rule div_times_less_eq_dividend)
    ultimately show ?thesis using assms(1,3) by (simp add: all_labelled_def chunk_holds_def)
  qed
  then show ?thesis unfolding samples_hold_def Let_def n_def [symmetric] s_def [symmetric] by blast
qed

lemma run_targets_ok:
  assumes "hw_ok h" "cf_chunk_blocks cfg \<noteq> 0" "cf_chunk_blocks cfg \<le> ucast POSE_GRAPH_MAX_M" "unat sb = unat (cf_chunk_blocks cfg) * 32"
    and "targets_ok (unat sb) D ds" "map od_path ds = cf_disks cfg" "main_env_ok S h M D (cf_chunk_blocks cfg) n" "wipe_total ds \<le> n"
    and "length seed + 8 \<le> BLAKE3_CHUNK_LEN" "cf_gpus cfg \<noteq> []" "length (cf_gpus cfg) < 2 ^ 64"
    and "\<forall>d\<in>set ds. od_wipe_len d \<noteq> 0"
  shows "\<exists>r. run_targets S al h M D cfg seed sb ds = Some r \<and> mr_targets r = ds \<and> run_ok h seed cfg D r \<and> run_succeeds h seed cfg M D r"
proof -
  have env: "sort_ok (me_sort M)" "workers_ready S h (cf_chunk_blocks cfg) n M" "\<forall>i. verify_env_ok (me_verify M i) (unat (cf_chunk_blocks cfg) * 32) n"
    "n < 2 ^ 64" using assms(7) by (simp_all add: main_env_ok_def)
  note verify = verify_targets_ok [OF assms(1-3) _ env(3) assms(8,12), folded assms(4)]
  consider "cf_verify_only cfg" | "\<not> cf_verify_only cfg" "\<not> cf_dry_run cfg" "\<not> cf_confirm cfg"
    | "\<not> cf_verify_only cfg" "cf_dry_run cfg \<or> cf_confirm cfg" by blast
  then show ?thesis
  proof cases
    case 1
    obtain vs where "verify_targets (pose_labeler h) (me_verify M) D cfg seed ds = Some vs"
      "list_all verify_passed vs \<longrightarrow> (\<forall>d\<in>set ds. samples_hold h seed cfg D d)"
      "(\<forall>i. verify_calm (me_verify M i)) \<and> (\<forall>d\<in>set ds. samples_hold h seed cfg D d) \<longrightarrow> list_all verify_passed vs"
      using verify [OF assms(5), of seed] by blast
    then show ?thesis using 1 assms(6) by (auto simp: run_targets_def run_ok_def only_labels_refl run_succeeds_def main_calm_def)
  next
    case 2
    then show ?thesis by (simp add: run_targets_def run_ok_def only_labels_refl run_succeeds_def)
  next
    case 3
    have ready: "workers_ready S h (cf_chunk_blocks cfg) (wipe_total ds) M" using env(2) assms(8) by (auto simp: workers_ready_def)
    have "wipe_total ds < 2 ^ 64" using assms(8) env(4) by (rule le_less_trans)
    from run_workers_ok [OF assms(1,2,4,5) ready env(1) assms(9) this assms(10,11), of al "me_schedule M"]
    obtain ws where ws: "run_workers S al h M cfg seed sb ds = Some ws" "run_did h seed cfg ds ws (merge (me_schedule M) (map wr_writes ws))"
      "(\<forall>g. worker_calm cfg (me_worker M g)) \<longrightarrow> list_all (\<lambda>r. wr_err r = None) ws" by blast
    from run_did_labels [OF ws(2) assms(5)] obtain D' where D': "run_writes (merge (me_schedule M) (map wr_writes ws)) D = Some D'"
      "only_labels h seed (unat (cf_chunk_blocks cfg)) ds D D'" "\<forall>fd. length (D' fd) = length (D fd)" "cf_dry_run cfg \<longrightarrow> D' = D"
      "list_all (\<lambda>r. wr_err r = None) ws \<and> \<not> cf_dry_run cfg \<longrightarrow> all_labelled h seed (unat (cf_chunk_blocks cfg)) ds D'" by blast
    have "targets_ok (unat sb) D' ds" using assms(5) D'(3) by (simp add: targets_ok_def)
    from verify [OF this, of seed] obtain vs' where vs': "verify_targets (pose_labeler h) (me_verify M) D' cfg seed ds = Some vs'"
      "(\<forall>i. verify_calm (me_verify M i)) \<and> (\<forall>d\<in>set ds. samples_hold h seed cfg D' d) \<longrightarrow> list_all verify_passed vs'" by blast
    define vs where "vs = (if cf_verify_n cfg > 0 \<and> \<not> cf_dry_run cfg then vs' else [])"
    have vs: "(if cf_verify_n cfg > 0 \<and> \<not> cf_dry_run cfg
        then verify_targets (pose_labeler h) (me_verify M) D' cfg seed ds else Some []) = Some vs" by (simp add: vs_def vs'(1))
    have "list_all verify_passed vs" if c: "main_calm cfg M"
    proof (cases "cf_verify_n cfg > 0 \<and> \<not> cf_dry_run cfg")
      case True
      have "all_labelled h seed (unat (cf_chunk_blocks cfg)) ds D'" using D'(5) ws(3) c True by (simp add: main_calm_def)
      then have "\<forall>d\<in>set ds. samples_hold h seed cfg D' d"
        using labelled_samples [OF _ assms(2)] assms(5,12) by (simp add: targets_ok_def assms(4))
      then show ?thesis using vs'(2) c True by (simp add: vs_def main_calm_def)
    qed (auto simp: vs_def)
    then have calm: "list_all (\<lambda>r. wr_err r = None) ws \<and> list_all verify_passed vs" if "main_calm cfg M"
      using that ws(3) by (simp add: main_calm_def)
    let ?r = "\<lparr>mr_exit = (if list_all (\<lambda>r. wr_err r = None) ws \<and> list_all verify_passed vs then 0 else 1), mr_targets = ds,
        mr_workers = ws, mr_verified = vs, mr_disks = D'\<rparr>"
    have "\<not> (\<not> cf_dry_run cfg \<and> \<not> cf_confirm cfg)" using 3(2) by blast
    then have "run_targets S al h M D cfg seed sb ds = Some ?r"
      unfolding run_targets_def using 3(1) ws(1) D'(1) vs by simp blast
    moreover have "run_ok h seed cfg D ?r" using 3 D'(2,4,5) assms(6) by (auto simp: run_ok_def)
    moreover have "run_succeeds h seed cfg M D ?r" using calm by (simp add: run_succeeds_def)
    ultimately show ?thesis by (intro exI [of _ ?r]) simp
  qed
qed

text \<open>The checks of the configuration.\<close>

lemma check_config_ok:
  assumes "check_config cfg = Some cfg'"
  shows "cf_chunk_blocks cfg' \<noteq> 0" "cf_chunk_blocks cfg' \<le> ucast POSE_GRAPH_MAX_M" "cf_gpus cfg' = cf_gpus cfg" "cf_disks cfg' = cf_disks cfg"
    "cf_disks cfg' \<noteq> []" "cf_confirm cfg' = cf_confirm cfg"
  using assms by (auto simp: check_config_def Let_def POSE_CHUNK_BLOCKS_def split: if_splits)

lemma select_gpus_ok:
  assumes "select_gpus devices gpus = Inr gpus'" "distinct gpus" "\<forall>c. devices = Some c \<longrightarrow> c \<le> INT_MAX"
  shows "gpus' \<noteq> []" "length gpus' < 2 ^ 64" "distinct gpus'"
proof -
  obtain c where dev: "devices = Some c" using assms(1) by (cases devices) (simp_all add: select_gpus_def)
  define gs where "gs = (if gpus = [] then map int [0..<nat c] else gpus)"
  have "\<not> c < 1 \<and> \<not> list_ex (\<lambda>g. g < 0 \<or> g \<ge> c) gs \<and> gs = gpus'"
    using assms(1) by (simp add: select_gpus_def dev Let_def split: if_splits flip: gs_def)
  then have c: "devices = Some c" "1 \<le> c" "\<forall>g\<in>set gpus'. 0 \<le> g \<and> g < c" "gpus' = (if gpus = [] then map int [0..<nat c] else gpus)"
    using dev by (auto simp: list_ex_iff gs_def)
  show d: "distinct gpus'" using c(4) assms(2) by (simp add: distinct_map)
  show "gpus' \<noteq> []" using c(2,4) by auto
  have "length gpus' = card (set gpus')" using distinct_card [OF d] by simp
  also have "\<dots> \<le> card {0..<c}" by (rule card_mono) (use c(3) in auto)
  also have "\<dots> < 2 ^ 64" using c(1) assms(3) by (auto simp: INT_MAX_def)
  finally show "length gpus' < 2 ^ 64" .
qed

lemma cfg_gpus [simp]:
  "samples_hold h seed (cfg\<lparr>cf_gpus := gpus\<rparr>) D d = samples_hold h seed cfg D d"
  "worker_calm (cfg\<lparr>cf_gpus := gpus\<rparr>) W = worker_calm cfg W"
  "main_calm (cfg\<lparr>cf_gpus := gpus\<rparr>) M = main_calm cfg M"
  by (simp_all add: samples_hold_def worker_calm_def main_calm_def)

lemma cfg_gpus_run [simp]:
  "run_ok h seed (cfg\<lparr>cf_gpus := gpus\<rparr>) D r = run_ok h seed cfg D r"
  "run_succeeds h seed (cfg\<lparr>cf_gpus := gpus\<rparr>) M D r = run_succeeds h seed cfg M D r"
  by (simp_all add: run_ok_def run_succeeds_def)

lemma disk_wipe_main_ok:
  assumes "hw_ok h" "parse_args config0 g_seed argv = Parsed cfg0 seed" "check_config cfg0 = Some cfg"
    and "main_env_ok S h M D (cf_chunk_blocks cfg) n"
    and "\<forall>gpus ds. open_targets (me_open M) (cfg\<lparr>cf_gpus := gpus\<rparr>) (pose_graph_super_chunk_blocks (cf_chunk_blocks cfg) * 32) 0 (cf_disks cfg)
          = Some (Inr ds) \<longrightarrow> wipe_total ds \<le> n"
  shows "\<exists>r. disk_wipe_main S al h M D argv = Some r \<and> run_ok h seed cfg D r \<and> run_succeeds h seed cfg M D r
    \<and> (mr_disks r \<noteq> D \<longrightarrow> ''--confirm'' \<in> set argv) \<and> (\<forall>d\<in>set (mr_targets r). named_disk argv (od_path d))
    \<and> targets_ok (unat (cf_chunk_blocks cfg) * 32) D (mr_targets r)"
proof -
  have allow: "allowed config0 argv cfg0" "length seed = 32" using parse_args_allow [OF assms(2)] by (simp_all add: g_seed_def)
  have seed: "length seed + 8 \<le> BLAKE3_CHUNK_LEN" using allow(2) by (simp add: BLAKE3_CHUNK_LEN_def)
  note cfg = check_config_ok [OF assms(3)]
  have dist: "distinct (cf_gpus cfg)" using allow(1) cfg(3) by (simp add: allowed_def config0_def)
  define sb where "sb = pose_graph_super_chunk_blocks (cf_chunk_blocks cfg) * 32"
  have sb: "unat sb = unat (cf_chunk_blocks cfg) * 32" unfolding sb_def by (rule super_chunk_bytes(2) [OF cfg(1)])
  have stopped: "\<exists>r. stop e D = Some r \<and> run_ok h seed cfg D r \<and> run_succeeds h seed cfg M D r \<and> mr_disks r = D \<and> mr_targets r = []" if "e \<noteq> 0" for e
    using that by (simp add: stop_def run_ok_def run_succeeds_def only_labels_refl)
  show ?thesis
  proof (cases "select_gpus (me_device_count M) (cf_gpus cfg)")
    case (Inl e)
    have "e \<noteq> 0" using Inl by (auto simp: select_gpus_def Let_def split: option.splits if_splits)
    then show ?thesis using stopped [of e] Inl assms(2,3) by (auto simp: disk_wipe_main_def targets_ok_def)
  next
    case (Inr gpus)
    let ?cfg = "cfg\<lparr>cf_gpus := gpus\<rparr>"
    have gpus: "gpus \<noteq> []" "length gpus < 2 ^ 64"
      using select_gpus_ok [OF Inr dist] assms(4) by (simp_all add: main_env_ok_def)
    from assms(4) have "devices_ok (me_open M) D" by (simp add: main_env_ok_def)
    from open_targets_ok [OF this, of ?cfg sb 0 "cf_disks cfg"] obtain r where r: "open_targets (me_open M) ?cfg sb 0 (cf_disks cfg) = Some r"
      "\<And>ds. r = Inr ds \<Longrightarrow> targets_ok (unat sb) D ds \<and> map od_path ds = cf_disks cfg \<and> (\<forall>d\<in>set ds. od_wipe_len d \<noteq> 0)" "\<And>e. r = Inl e \<Longrightarrow> e = 1" by blast
    have main: "disk_wipe_main S al h M D argv = (case r of Inl e \<Rightarrow> stop e D | Inr disks \<Rightarrow> run_targets S al h M D ?cfg seed sb disks)"
      using assms(2,3) Inr r(1) unfolding sb_def by (simp add: disk_wipe_main_def Let_def POSE_HASH_BYTES_def)
    show ?thesis
    proof (cases r)
      case (Inl e)
      then have "e = 1" by (rule r(3))
      then show ?thesis using stopped [of e] main Inl by (auto simp: targets_ok_def)
    next
      case (Inr ds)
      have t: "targets_ok (unat sb) D ds" "map od_path ds = cf_disks ?cfg" "\<forall>d\<in>set ds. od_wipe_len d \<noteq> 0" using r(2) [OF Inr] by simp_all
      have n: "wipe_total ds \<le> n" using assms(5) r(1) Inr by (simp flip: sb_def)
      obtain x where x: "run_targets S al h M D ?cfg seed sb ds = Some x" "mr_targets x = ds" "run_ok h seed ?cfg D x" "run_succeeds h seed ?cfg M D x"
        using run_targets_ok [OF assms(1) _ _ _ t(1,2) _ n seed, of S M al] cfg(1,2) sb assms(4) gpus t(3) by auto
      have ok: "run_ok h seed cfg D x" "run_succeeds h seed cfg M D x"
        using x(3,4) by simp_all
      have "\<forall>d\<in>set ds. od_path d \<in> set (cf_disks cfg0)" using t(2) cfg(4) by (simp flip: set_map) (metis image_eqI set_map)
      then have "\<forall>d\<in>set ds. named_disk argv (od_path d)" using allow(1) by (auto simp: allowed_def config0_def)
      moreover have "''--confirm'' \<in> set argv" if "mr_disks x \<noteq> D"
        using that ok cfg(6) allow(1) by (auto simp: run_ok_def allowed_def config0_def)
      ultimately show ?thesis using main Inr x(1,2) ok t(1) sb by auto
    qed
  qed
qed

subsection \<open>The blocks of a wiped device\<close>

lemma disk_block_challenge:
  fixes cb :: u32
  assumes "hw_ok h" "malloc_ok malloc" "\<forall>i s. malloc i s \<noteq> None" "cb \<noteq> 0" "cb \<le> ucast POSE_GRAPH_MAX_M" "length out = 32"
  shows "\<exists>out'. pose_graph_challenge (pose_labeler h) malloc (chunk_seed (pose_labeler h) seed (of_nat (b div unat cb))) (ucast cb)
      (of_nat (b mod unat cb)) out POSE_HASH_BLAKE3 = Some (0, out') \<and> out' = disk_block h seed (unat cb) b \<and> length out' = 32"
proof -
  note cb = block_count_facts(2-4) [OF assms(4,5)]
  have r: "b mod unat cb < unat cb" using assms(4) by (simp add: unat_gt_0)
  then have u: "unat (of_nat (b mod unat cb) :: u64) = b mod unat cb"
    using unsigned_less [of cb, where ?'a = nat] by (intro unat_of_nat_u64) simp
  then have "(of_nat (b mod unat cb) :: u64) < ucast cb" using r cb(3) by (simp add: word_less_nat_alt)
  from node_hash.pose_graph_challenge_ok [OF pose_labeler_hash [OF assms(1)] assms(2) _ _ cb(2) this, of out
      "chunk_seed (pose_labeler h) seed (of_nat (b div unat cb))" POSE_HASH_BLAKE3]
  obtain out' where o: "pose_graph_challenge (pose_labeler h) malloc (chunk_seed (pose_labeler h) seed (of_nat (b div unat cb))) (ucast cb)
      (of_nat (b mod unat cb)) out POSE_HASH_BLAKE3 = Some (0, out')"
    "take POSE_HASH_BYTES out' = output_labels (pose_labeler h) (chunk_seed (pose_labeler h) seed (of_nat (b div unat cb))) (ucast cb) POSE_HASH_BLAKE3
        ! (b mod unat cb)" "agree_off (cells_of 0 POSE_HASH_BYTES) out out'"
    using assms(3,6) u by (auto simp: POSE_HASH_BYTES_def)
  have "length out' = 32" using agree_off_length [OF o(3)] assms(6) by simp
  moreover from this have "out' = disk_block h seed (unat cb) b" using o(2) by (simp add: disk_block_def POSE_HASH_BYTES_def)
  ultimately show ?thesis using o(1) by simp
qed

lemma labelled_block:
  assumes "all_labelled h seed cb ds D" "d \<in> set ds" "unat (od_wipe_len d) \<le> length (D (od_fd d))" "b < unat (od_wipe_len d) div 32"
    and "length (disk_block h seed cb b) = 32"
  shows "rd (D (od_fd d)) (b * 32) 32 = Some (disk_block h seed cb b)"
proof -
  have "Suc b * 32 \<le> unat (od_wipe_len d) div 32 * 32" using assms(4) by (intro mult_le_mono1) simp
  then have le: "b * 32 + 32 \<le> unat (od_wipe_len d)" using div_times_less_eq_dividend [of "unat (od_wipe_len d)" 32]
    unfolding mult_Suc by linarith
  have "D (od_fd d) ! (b * 32 + i) = disk_block h seed cb b ! i" if "i < 32" for i
  proof -
    have "b * 32 + i < unat (od_wipe_len d)" using le that by linarith
    then have "D (od_fd d) ! (b * 32 + i) = disk_byte h seed cb (b * 32 + i)" using assms(1,2) by (simp add: all_labelled_def)
    then show ?thesis using that by (simp add: disk_byte_def)
  qed
  then show ?thesis using le assms(3,5) by (simp add: rd_def list_eq_iff_nth_eq)
qed

subsection \<open>What is opened\<close>

text \<open>
  A target fits its device and holds whole super-chunks and whole sectors; neither it nor, as far as \<open>parent_disk\<close>
  sees, any part of it was mounted.
\<close>

definition target_ok :: "u64 \<Rightarrow> open_env \<Rightarrow> target \<Rightarrow> bool" where
  "target_ok sb E d \<longleftrightarrow> od_wipe_len d \<noteq> 0 \<and> unat sb dvd unat (od_wipe_len d) \<and> od_wipe_len d \<le> od_size d
     \<and> sb mod word_of_int (od_sector d) = 0
     \<and> (let path = (case oe_realpath E (od_path d) of Some rp \<Rightarrow> rp | None \<Rightarrow> od_path d)
        in oe_is_block E path = Some True
          \<and> (\<forall>f. oe_mounts E = Some f \<longrightarrow> (\<forall>(src, mnt)\<in>set f. starts_with ''/dev/'' src \<longrightarrow> parent_disk src \<noteq> parent_disk path)))"

lemma open_disk_checked:
  assumes "open_disk E p ro = Inr (fd, bytes, sector)"
  defines "path \<equiv> (case oe_realpath E p of Some rp \<Rightarrow> rp | None \<Rightarrow> p)"
  shows "oe_is_block E path = Some True"
    "\<forall>f. oe_mounts E = Some f \<longrightarrow> (\<forall>(src, mnt)\<in>set f. starts_with ''/dev/'' src \<longrightarrow> parent_disk src \<noteq> parent_disk path)"
proof -
  obtain blk where b: "oe_is_block E path = Some blk" using assms(1)
    by (cases "oe_is_block E path") (simp_all add: open_disk_def Let_def flip: path_def)
  then show "oe_is_block E path = Some True" using assms(1)
    by (cases blk) (simp_all add: open_disk_def Let_def flip: path_def)
  then have "mounted_reason (oe_mounts E) path = []" using assms(1)
    by (simp add: open_disk_def Let_def split: if_splits flip: path_def)
  then show "\<forall>f. oe_mounts E = Some f \<longrightarrow> (\<forall>(src, mnt)\<in>set f. starts_with ''/dev/'' src \<longrightarrow> parent_disk src \<noteq> parent_disk path)"
    by (auto simp: mounted_reason_def mount_scan_safe)
qed

lemma open_targets_checked:
  "open_targets E cfg sb i ps = Some (Inr ds) \<Longrightarrow> length ds = length ps \<and> (\<forall>k<length ds. od_path (ds ! k) = ps ! k \<and> target_ok sb (E (i + k)) (ds ! k))"
proof (induction ps arbitrary: i ds)
  case (Cons p ps)
  obtain fd bytes sector where o: "open_disk (E i) p (cf_verify_only cfg) = Inr (fd, bytes, sector)"
    using Cons.prems by (cases "open_disk (E i) p (cf_verify_only cfg)") auto
  define want where "want = (if cf_per_disk_bytes cfg \<noteq> 0 then min (cf_per_disk_bytes cfg) bytes else bytes)"
  let ?d = "\<lparr>od_path = p, od_fd = fd, od_size = bytes, od_sector = sector, od_wipe_len = floor_to want sb\<rparr>"
  have fine: "sb mod word_of_int sector = 0" "floor_to want sb \<noteq> 0"
    and ex: "\<exists>ds'. open_targets E cfg sb (i + 1) ps = Some (Inr ds') \<and> ds = ?d # ds'"
    using Cons.prems o
    by (auto simp: Let_def want_def [symmetric] split: if_splits bind_splits sum.splits) (case_tac x; simp)+
  then obtain ds' where ds': "open_targets E cfg sb (i + 1) ps = Some (Inr ds')" "ds = ?d # ds'" by blast
  have "floor_to want sb \<le> bytes" using floor_to_le [of want sb] unfolding want_def by (auto split: if_splits)
  then have d: "target_ok sb (E i) ?d" using fine open_disk_checked [OF o] floor_to_dvd [of sb want]
    unfolding target_ok_def Let_def target.simps by simp
  note IH = Cons.IH [OF ds'(1)]
  have "od_path (ds ! k) = (p # ps) ! k \<and> target_ok sb (E (i + k)) (ds ! k)" if "k < length ds" for k
    using IH that d ds'(2) by (cases k) auto
  then show ?case using IH ds'(2) by simp
qed simp

text \<open>The check sees a whole disk and its partitions, under the kernel's naming rule, as one.\<close>

lemma same_parent:
  assumes "known_disk n" "part = n \<or> partition_of part n" "isdigit (last n) \<or> \<not> p_style part"
  shows "parent_disk (''/dev/'' @ part) = parent_disk (''/dev/'' @ n)" "starts_with ''/dev/'' (''/dev/'' @ part)"
proof -
  have dev: "''/dev/'' @ x = ''/dev'' @ CHR ''/'' # x" for x by simp
  have "parent_disk (''/dev/'' @ n) = n" unfolding dev by (rule parent_disk_whole [OF assms(1)])
  moreover have "parent_disk (''/dev/'' @ part) = n"
    using assms(2) parent_disk_whole [OF assms(1)] parent_disk_partition [OF assms(1) _ assms(3)] unfolding dev by blast
  ultimately show "parent_disk (''/dev/'' @ part) = parent_disk (''/dev/'' @ n)" by simp
  show "starts_with ''/dev/'' (''/dev/'' @ part)" by (simp add: starts_with_def)
qed

lemma target_not_mounted:
  assumes "target_ok sb E d" "known_disk n" "part = n \<or> partition_of part n" "isdigit (last n) \<or> \<not> p_style part"
    and "oe_realpath E (od_path d) = Some (''/dev/'' @ n)" "oe_mounts E = Some f"
  shows "(''/dev/'' @ part, mnt) \<notin> set f"
  using assms(1,5,6) same_parent [OF assms(2-4)] by (fastforce simp: target_ok_def Let_def)

end
