(* ===== verification/Spec2Isabelle.thy ===== *)
theory Spec2Isabelle
  imports Inplace_Label Reference_Hw Region_Pose Pool_Correct Slot_Map Gpu_Reference Gpu_Race Disk_Run
begin

text \<open>
  This development models the labeling library of the repository, \<open>src/common\<close>: the depth-robust graph of
  PoSE-DB, the hash functions that label its nodes, the region and disk functions on top of them with their
  worker pool, and the CUDA labeler; and the tool that fills block devices with labels, \<open>tools/disk-wipe-bench\<close>. A prover fills memory with the labels of chunks of blocks; a verifier
  recomputes single blocks from the session seed. What has to hold is that every path of the program that
  computes a label, on the CPU with the full or the in-place labeler, on the pool, on the GPU under four
  schedules, or one block at a time for a challenge, computes the same label.

  \<^bold>\<open>How the code is rendered.\<close> A \<open>uint64_t\<close> is a \<open>64 word\<close>, a \<open>uint32_t\<close> a \<open>32 word\<close>, a buffer a list of
  bytes; loop counters and offsets that the code keeps within a buffer are natural numbers. A struct is a
  record. Every access to an array or buffer is checked: a function that would leave its buffers, read a
  cell that was never written, or fail an assertion is \<open>None\<close>, so a theorem that says that it returns
  \<open>Some\<close> also says that it has no undefined behaviour. What comes from outside \<open>src\<close> is an argument: \<open>malloc\<close>, thread
  creation, the order in which threads run, the CUDA runtime, and the vector instructions, each with its
  documented contract as a named hypothesis (\<open>malloc_ok\<close>, \<open>env_ok\<close>, \<open>gpu_env_ok\<close>, \<open>hw_ok\<close>, \<open>main_env_ok\<close>); theories
  \<open>Reference_Hw\<close>, \<open>Region_Pose\<close> and \<open>Gpu_Reference\<close> have concrete instances that satisfy them. Recursion is
  structural or has a measure; nothing uses fuel. Global state that the code keeps between calls, the derived
  label keys and the AES round keys, is passed explicitly (\<open>hash_state\<close>).

  \<^bold>\<open>The graph\<close> (\<open>src/graph.c\<close>, \<open>include/graph.h\<close>).
  \<open>Prelude\<close> has the checked memory accesses and what they leave unchanged. \<open>Node_Count\<close> has the size functions in
  wrapping arithmetic, with closed forms and the bounds below which they do not wrap. \<open>Graph_Spec\<close> is
  the specification: the graph as a list of predecessor lists and its labeling, without any buffer. \<open>Labeler\<close>
  is the interface to the hash functions, the locale \<open>node_hash\<close>. \<open>Emitter\<close> is \<open>emitter_t\<close> and the functions that
  emit the components; \<open>Emitter_Correct\<close> and \<open>Emitter_Graph\<close> show, from one node to the whole graph, that
  they emit the nodes of \<open>Graph_Spec\<close> inside their arenas. \<open>Labeling\<close> is \<open>do_label\<close>, \<open>pose_graph_label\<close> and
  \<open>pose_graph_challenge\<close>. \<open>Edges\<close> and \<open>Edge_Labels\<close> are \<open>pose_graph_edges\<close> and what the exported array means.
  \<open>Inplace\<close>, \<open>Inplace_Correct\<close>, \<open>Inplace_Graph\<close> and \<open>Inplace_Label\<close> do the same for the in-place labeler,
  whose arena holds live labels only.

  \<^bold>\<open>Regions\<close> (\<open>src/graph.c\<close>). \<open>Region\<close> has the four region functions and the disk wave; \<open>Region_Correct\<close> shows that the
  jobs of a batch have disjoint footprints, so that their order does not matter; \<open>Region_Label\<close>, \<open>Region_Pose\<close> and
  \<open>Disk_Wave\<close> draw the consequences. \<open>Pool\<close> is the worker pool with its mutex and condition variables, a
  step relation with one step per critical section; \<open>Pool_Correct\<close> has its invariant, progress, the measure that
  bounds a batch, and the refinement to the batch runner of \<open>Region\<close>. \<open>Levels\<close> and \<open>Slot_Map\<close> are \<open>pose_graph_slot_map\<close>.

  \<^bold>\<open>Hashing\<close> (\<open>src/hash.c\<close>, \<open>sha256.c\<close>, \<open>aes_prf.c\<close>, \<open>vendor/blake3\<close>). \<open>Hash\<close> builds the node message and dispatches;
  it interprets \<open>node_hash\<close> for all three algorithms. \<open>Sha256\<close>, \<open>Aes_Prf\<close> and \<open>Blake3_Portable\<close>, \<open>Blake3_Vector\<close>,
  \<open>Blake3_Neon\<close>, \<open>Blake3_Dispatch\<close>, \<open>Blake3\<close> have the algorithms: the vector paths compute what the scalar ones
  compute, incremental hashing is hashing, SHA-256 is that of FIPS 180-4 for the lengths it is written for.

  \<^bold>\<open>The GPU\<close> (\<open>src/cuda\<close>). \<open>Gpu_Node\<close> is the device hash of one node. \<open>Gpu_Topo\<close> is \<open>pose_graph_hbm_topo_build\<close>. \<open>Gpu_Schedule\<close> renders
  a kernel as the set of interleavings of its node steps that its barriers allow, and shows that each of the six
  labels a region level by level. \<open>Gpu_Kernels\<close> has the steps on device memory: no label is overwritten
  before its last reader, under any such interleaving. \<open>Gpu_Run\<close> is \<open>label_gpu_run\<close> of the four strategies,
  over a batch whose contract is the locale \<open>batch_kernel\<close>, and the entry points \<open>pose_graph_hbm_topo_label\<close> and
  \<open>pose_graph_label_hbm\<close>. \<open>Gpu_Race\<close> shows that the steps that the hardware may overlap touch different bytes, which is
  why it is enough to interleave them.

  \<^bold>\<open>The disk wipe\<close> (\<open>tools/disk-wipe-bench/disk_wipe_bench.cu\<close>). \<open>Disk_Names\<close> has the check of a target against the mounted
  file systems and the seed argument, \<open>Disk_Args\<close> the command line. \<open>Disk_Io\<close> has \<open>pwrite_all\<close> and \<open>pread_all\<close> over the answers of
  the kernel; a write is an event, since the threads write concurrently. \<open>Disk_Worker\<close> is the thread of one GPU, \<open>Disk_Verify\<close>
  the sampled read-back, \<open>Disk_Main\<close> what \<open>main\<close> opens and how it splits the devices among the GPUs, and \<open>Disk_Run\<close> what a run does
  to the devices: the writes of the workers are merged by an arbitrary schedule. The contracts of the system are
  \<open>devices_ok\<close> (a descriptor is a device of its own, which \<open>O_EXCL\<close> enforces, and reports its size), \<open>worker_env_ok\<close> and
  \<open>verify_env_ok\<close> (buffers have the size asked for, and a call interrupted by a signal is served in the end),
  \<open>sort_ok\<close> for \<open>std::sort\<close>.

  \<^bold>\<open>The properties\<close> are in this theory, in the order of the parts above; each is a few steps
  over the lemmas of its component and is followed by an application to concrete input.

  \<^bold>\<open>Bounds.\<close> A graph has at most \<open>2^20\<close> blocks (\<open>POSE_GRAPH_MAX_M\<close>), hence \<open>n \<le> 19\<close> and fewer than \<open>2^31\<close> nodes:
  no node count, level, slot or byte offset of one graph wraps (\<open>count_fits\<close>, \<open>need_standalone_fits\<close>). A
  session seed leaves room for the chunk index in one BLAKE3 chunk, at most 1016 bytes. A failed CUDA call may leave a
  kernel run in part, up to a point of the interleaving.

  \<^bold>\<open>Not modelled.\<close> Of the disk wipe the dashboard, the report and the timing, which are floating point and terminal
  output; \<open>tools/disk-calc\<close>, an estimate in Python; the x86 vector code of BLAKE3, which is vendored and enters as a
  parameter; progress output, timing and \<open>POSE_GPU_QUIET\<close> of the GPU labeler; the release of memory, in particular
  \<open>pose_graph_hbm_topo_free\<close>, and of descriptors; generated build files, benchmarks and tests.
\<close>

section \<open>Properties: labeling one graph\<close>

lemma parameter_n_3: "pose_graph_parameter_n 3 = 1"
  by code_simp

lemma scratch_bytes_3: "unat (label_scratch_bytes 3) = 1280"
  by code_simp

lemma buffers_fit_3: "label_buffers_fit 3 (replicate 100 0) (replicate 1280 0)"
  by (simp add: label_buffers_fit_def parameter_n_3 POSE_HASH_BYTES_def POSE_ARENA_FACTOR_def bcount_def Let_def)

lemma inplace_fit_3: "inplace_buffers_fit 3 (replicate 100 0) (replicate 1280 0)"
  by (simp add: inplace_buffers_fit_def parameter_n_3 POSE_HASH_BYTES_def POSE_ARENA_FACTOR_def Let_def)

lemma three_blocks: "(3 :: u64) \<noteq> 0" "(3 :: u64) \<le> POSE_GRAPH_MAX_M" "unat (3 :: u64) = 3"
  by (simp_all add: POSE_GRAPH_MAX_M_def)

text \<open>A \<open>malloc\<close> that always succeeds, with zeroed blocks.\<close>

definition zero_malloc :: "nat \<Rightarrow> u64 \<Rightarrow> bytes option" where
  "zero_malloc i s = Some (replicate (unat s) 0)"

lemma zero_malloc_ok: "malloc_ok zero_malloc" "\<forall>i s. zero_malloc i s \<noteq> None" "zero_malloc i s \<noteq> None"
  by (simp_all add: malloc_ok_def zero_malloc_def)

text \<open>C1: \<open>do_label\<close> labels the graph that \<open>pose_graph_edges\<close> exports. On every platform, for every
  block count up to the maximum and any buffers of the sizes the callers allocate, both functions
  return 0, and there is one label per node of the exported array, each the hash of its predecessors'
  labels, such that the output block of rank \<open>r\<close> is the label of the one node that carries rank \<open>r\<close>.\<close>

theorem do_label_follows_edges:
  assumes "hw_ok h" "m \<noteq> 0" "m \<le> POSE_GRAPH_MAX_M" "malloc_ok malloc" "\<forall>i s. malloc i s \<noteq> None"
    and "label_buffers_fit m out buf"
  shows "\<exists>N L out' buf'. pose_graph_edges (pose_labeler h) malloc m = Some (0, Some (N, scratch_node_count m))
    \<and> do_label (pose_labeler h) seed m out buf al = Some (0, out', buf')
    \<and> labels_edges (pose_labeler h) seed (pose_graph_descriptor (hw_b3 h) m (of_nat (pose_graph_parameter_n m))) al N L
    \<and> (\<forall>r<unat m. \<exists>i. ranked N (int r) = [i] \<and> rd out' (r * POSE_HASH_BYTES) POSE_HASH_BYTES = Some (L ! i))"
  using node_hash.label_edges_ok [OF pose_labeler_hash [OF assms(1)] assms(2-6), of seed al]
  by (simp add: pose_labeler_def)

theorem do_label_follows_edges_witness:
  "\<exists>N L out' buf'. pose_graph_edges (pose_labeler x86_hw) zero_malloc 3 = Some (0, Some (N, scratch_node_count 3))
    \<and> do_label (pose_labeler x86_hw) [] 3 (replicate 100 0) (replicate 1280 0) POSE_HASH_SHA256 = Some (0, out', buf')
    \<and> labels_edges (pose_labeler x86_hw) [] (pose_graph_descriptor (hw_b3 x86_hw) 3 (of_nat (pose_graph_parameter_n 3)))
        POSE_HASH_SHA256 N L
    \<and> (\<forall>r<unat (3 :: u64). \<exists>i. ranked N (int r) = [i]
        \<and> rd out' (r * POSE_HASH_BYTES) POSE_HASH_BYTES = Some (L ! i))"
  by (rule do_label_follows_edges [OF x86_hw_ok three_blocks(1,2) zero_malloc_ok(1,2) buffers_fit_3])



text \<open>C3: \<open>do_label_inplace\<close>, which keeps only the live labels in a scratch arena, computes exactly what
  \<open>do_label\<close> computes with every label stored: the same return code and the same output buffer, for
  every \<open>m\<close>, the rejected ones included.\<close>

theorem inplace_labeler_equals_full_labeler:
  assumes "hw_ok h" "label_buffers_fit m out buf" "inplace_buffers_fit m out scratch"
  shows "map_option (\<lambda>(rc, o', s). (rc, o')) (do_label_inplace (pose_labeler h) seed m out scratch al)
    = map_option (\<lambda>(rc, o', s). (rc, o')) (do_label (pose_labeler h) seed m out buf al)"
  by (rule node_hash.inplace_equals_do_label [OF pose_labeler_hash [OF assms(1)] assms(2,3)])

theorem inplace_labeler_equals_full_labeler_witness:
  "map_option (\<lambda>(rc, o', s). (rc, o')) (do_label_inplace (pose_labeler x86_hw) [7] 3 (replicate 100 0) (replicate 1280 0)
      POSE_HASH_AES_PRF)
    = map_option (\<lambda>(rc, o', s). (rc, o')) (do_label (pose_labeler x86_hw) [7] 3 (replicate 100 0) (replicate 1280 0)
      POSE_HASH_AES_PRF)"
  by (rule inplace_labeler_equals_full_labeler [OF x86_hw_ok buffers_fit_3 inplace_fit_3])

text \<open>C4: the in-place labeler returns 0 with the labels of the output set, in buffers of the documented
  sizes, and touches no other byte of the block buffer.\<close>

theorem do_label_inplace_computes_output_set:
  assumes "hw_ok h" "m \<noteq> 0" "m \<le> POSE_GRAPH_MAX_M" "inplace_buffers_fit m buf scratch"
  shows "\<exists>buf' scratch'. do_label_inplace (pose_labeler h) seed m buf scratch al = Some (0, buf', scratch')
    \<and> rd buf' 0 (unat m * POSE_HASH_BYTES) = Some (concat (output_labels (pose_labeler h) seed m al))
    \<and> agree_off (cells_of 0 (unat m * POSE_HASH_BYTES)) buf buf' \<and> length scratch' = length scratch"
  by (rule node_hash.do_label_inplace_ok [OF pose_labeler_hash]) (use assms in auto)

theorem do_label_inplace_computes_output_set_witness:
  "\<exists>buf' scratch'. do_label_inplace (pose_labeler x86_hw) [] 3 (replicate 100 0) (replicate 1280 0) POSE_HASH_SHA256
      = Some (0, buf', scratch')
    \<and> rd buf' 0 (unat (3 :: u64) * POSE_HASH_BYTES) = Some (concat (output_labels (pose_labeler x86_hw) [] 3 POSE_HASH_SHA256))
    \<and> agree_off (cells_of 0 (unat (3 :: u64) * POSE_HASH_BYTES)) (replicate 100 0) buf'
    \<and> length scratch' = length (replicate 1280 (0 :: byte))"
  by (rule do_label_inplace_computes_output_set [OF x86_hw_ok three_blocks(1,2) inplace_fit_3])

text \<open>C5: the arena of the in-place labeler never overflows: in both copies its high-water mark is exactly
  \<open>need_standalone (n + 1)\<close> blocks, at most the 16 half-widths the scratch layout reserves, so the
  overflow abort of \<open>lc_arena_alloc\<close> is never reached.\<close>

theorem inplace_arena_high_water:
  assumes "hw_ok h" "l_next_id e = 0" "l_arena e = 4 * 2 ^ n" "l_arena_off e = 0" "l_arena_cap e = POSE_ARENA_FACTOR * 2 ^ n"
    and "l_arena_hi e = 0" "(4 + POSE_ARENA_FACTOR) * 2 ^ n \<le> length (l_cells e)" "n \<le> 19"
  shows "\<exists>e1 e2. lc_standalone (pose_labeler h) (n + 1) 0 e = Some e1 \<and> l_arena_hi e1 = need_standalone (n + 1)
    \<and> lc_standalone (pose_labeler h) (n + 1) (2 * 2 ^ n) (e1\<lparr>l_next_id := of_nat (scount (n + 1)), l_arena_off := 0\<rparr>) = Some e2
    \<and> l_arena_hi e2 = need_standalone (n + 1) \<and> need_standalone (n + 1) \<le> POSE_ARENA_FACTOR * 2 ^ n"
  using node_hash.lc_two_copies_ok [OF pose_labeler_hash [OF assms(1)] assms(2-4) _ assms(6)] assms(5,7,8)
    scount_bound [of "n + 1"] need_standalone_fits [of n]
  by (auto simp: POSE_ARENA_FACTOR_def simp del: scount.simps need_standalone.simps lc_standalone.simps)

definition fresh_lemitter :: lemitter where
  "fresh_lemitter = \<lparr>l_next_id = 0, l_seed = [], l_desc = [], l_arena = 8, l_arena_cap = 32, l_arena_off = 0,
     l_arena_hi = 0, l_algo = POSE_HASH_SHA256, l_cells = replicate 40 (replicate 32 0)\<rparr>"

theorem inplace_arena_high_water_witness:
  "\<exists>e1 e2. lc_standalone (pose_labeler x86_hw) (1 + 1) 0 fresh_lemitter = Some e1 \<and> l_arena_hi e1 = need_standalone (1 + 1)
    \<and> lc_standalone (pose_labeler x86_hw) (1 + 1) (2 * 2 ^ 1) (e1\<lparr>l_next_id := of_nat (scount (1 + 1)), l_arena_off := 0\<rparr>) = Some e2
    \<and> l_arena_hi e2 = need_standalone (1 + 1) \<and> need_standalone (1 + 1) \<le> POSE_ARENA_FACTOR * 2 ^ 1"
  by (rule inplace_arena_high_water [OF x86_hw_ok]) (simp_all add: fresh_lemitter_def POSE_ARENA_FACTOR_def)

section \<open>Properties: the graph's interface\<close>

text \<open>C6: \<open>pose_graph_edges\<close> exports the predecessor list of every node of the abstract graph in id order
  (\<open>scratch_node_count m\<close> nodes), each rank below \<open>m\<close> on exactly one node and \<open>-1\<close> elsewhere.\<close>

theorem pose_graph_edges_exports_graph:
  assumes "hw_ok h" "m \<noteq> 0" "m \<le> POSE_GRAPH_MAX_M" "malloc_ok malloc" "\<forall>i s. malloc i s \<noteq> None"
  shows "\<exists>N. pose_graph_edges (pose_labeler h) malloc m = Some (0, Some (N, scratch_node_count m))
    \<and> edges_spec (pose_graph_parameter_n m) (unat m) N"
  by (rule node_hash.pose_graph_edges_ok [OF pose_labeler_hash]) (use assms in auto)

theorem pose_graph_edges_exports_graph_witness:
  "\<exists>N. pose_graph_edges (pose_labeler x86_hw) zero_malloc 3 = Some (0, Some (N, scratch_node_count 3))
    \<and> edges_spec (pose_graph_parameter_n 3) (unat (3 :: u64)) N"
  by (rule pose_graph_edges_exports_graph [OF x86_hw_ok three_blocks(1,2) zero_malloc_ok(1,2)])

text \<open>C7: in the exported array every predecessor has a lower id than its node, so the graph is acyclic and
  id order is a schedule, and a node with two predecessors names the lower id first.\<close>

theorem exported_edges_are_topological:
  assumes "hw_ok h" "m \<noteq> 0" "m \<le> POSE_GRAPH_MAX_M" "malloc_ok malloc" "\<forall>i s. malloc i s \<noteq> None"
  shows "\<exists>N. pose_graph_edges (pose_labeler h) malloc m = Some (0, Some (N, scratch_node_count m)) \<and> edges_ordered N"
  using node_hash.pose_graph_edges_ok [OF pose_labeler_hash [OF assms(1)] assms(2-5)]
    edges_spec_ordered parameter_n_range [OF assms(2,3)] by blast

theorem exported_edges_are_topological_witness:
  "\<exists>N. pose_graph_edges (pose_labeler x86_hw) zero_malloc 3 = Some (0, Some (N, scratch_node_count 3)) \<and> edges_ordered N"
  by (rule exported_edges_are_topological [OF x86_hw_ok three_blocks(1,2) zero_malloc_ok(1,2)])

text \<open>C8: \<open>pose_graph_challenge\<close> relabels the graph in buffers of its own and returns the label of the asked
  rank: the prover's answer is the block a full labeling stores at that position.\<close>

theorem challenge_answers_block:
  assumes "hw_ok h" "malloc_ok malloc" "\<forall>i s. malloc i s \<noteq> None" "m \<le> POSE_GRAPH_MAX_M" "idx < m"
    and "POSE_HASH_BYTES \<le> length out" "unat m * POSE_HASH_BYTES \<le> length region"
  shows "\<exists>out' region'. pose_graph_challenge (pose_labeler h) malloc seed m idx out al = Some (0, out')
    \<and> pose_graph_label (pose_labeler h) malloc seed m region al = Some (0, region')
    \<and> rd region' (unat idx * POSE_HASH_BYTES) POSE_HASH_BYTES = Some (take POSE_HASH_BYTES out')"
  by (rule node_hash.challenge_answers_label [OF pose_labeler_hash]) (use assms in auto)

theorem challenge_answers_block_witness:
  "\<exists>out' region'. pose_graph_challenge (pose_labeler x86_hw) zero_malloc [] 3 2 (replicate 32 0) POSE_HASH_BLAKE3 = Some (0, out')
    \<and> pose_graph_label (pose_labeler x86_hw) zero_malloc [] 3 (replicate 96 0) POSE_HASH_BLAKE3 = Some (0, region')
    \<and> rd region' (unat (2 :: u64) * POSE_HASH_BYTES) POSE_HASH_BYTES = Some (take POSE_HASH_BYTES out')"
  by (rule challenge_answers_block [OF x86_hw_ok zero_malloc_ok(1,2) three_blocks(2)]) (simp_all add: POSE_HASH_BYTES_def)

text \<open>C9: \<open>pose_graph_label\<close> always returns: 0 exactly when the block count is between 1 and
  \<open>POSE_GRAPH_MAX_M\<close> and its allocation succeeds, and otherwise \<open>-1\<close> with the output buffer untouched.\<close>

theorem pose_graph_label_error_contract:
  assumes "hw_ok h" "malloc_ok malloc" "unat m * POSE_HASH_BYTES \<le> length out"
  shows "\<exists>rc out'. pose_graph_label (pose_labeler h) malloc seed m out al = Some (rc, out')
    \<and> (if m \<noteq> 0 \<and> m \<le> POSE_GRAPH_MAX_M \<and> malloc 0 (label_scratch_bytes m) \<noteq> None then rc = 0 else rc = -1 \<and> out' = out)"
  by (rule node_hash.pose_graph_label_outcome [OF pose_labeler_hash [OF assms(1)] assms(2,3)])

theorem pose_graph_label_error_contract_witness:
  "\<exists>rc out'. pose_graph_label (pose_labeler x86_hw) (\<lambda>i s. None) [] 3 (replicate 96 0) POSE_HASH_BLAKE3 = Some (rc, out')
    \<and> (if (3 :: u64) \<noteq> 0 \<and> (3 :: u64) \<le> POSE_GRAPH_MAX_M \<and> (None :: bytes option) \<noteq> None
       then rc = 0 else rc = -1 \<and> out' = replicate 96 0)"
  by (rule pose_graph_label_error_contract [OF x86_hw_ok]) (simp_all add: malloc_ok_def POSE_HASH_BYTES_def)

text \<open>\<open>pose_graph_challenge\<close> always returns: 0 exactly for an index below a valid block count with both
  allocations, and otherwise \<open>-1\<close> with the answer buffer untouched.\<close>

theorem pose_graph_challenge_error_contract:
  assumes "hw_ok h" "malloc_ok malloc" "POSE_HASH_BYTES \<le> length out"
  shows "\<exists>rc out'. pose_graph_challenge (pose_labeler h) malloc seed m idx out al = Some (rc, out')
    \<and> (if idx < m \<and> m \<le> POSE_GRAPH_MAX_M \<and> malloc 0 (m * of_nat POSE_HASH_BYTES) \<noteq> None
          \<and> malloc 1 (label_scratch_bytes m) \<noteq> None
       then rc = 0 else rc = -1 \<and> out' = out)"
  by (rule node_hash.pose_graph_challenge_outcome [OF pose_labeler_hash [OF assms(1)] assms(2,3)])

theorem pose_graph_challenge_error_contract_witness:
  "\<exists>rc out'. pose_graph_challenge (pose_labeler x86_hw) zero_malloc [] 3 5 (replicate 32 0) POSE_HASH_BLAKE3 = Some (rc, out')
    \<and> (if (5 :: u64) < 3 \<and> (3 :: u64) \<le> POSE_GRAPH_MAX_M \<and> zero_malloc 0 (3 * of_nat POSE_HASH_BYTES) \<noteq> None
          \<and> zero_malloc 1 (label_scratch_bytes 3) \<noteq> None
       then rc = 0 else rc = -1 \<and> out' = replicate 32 0)"
  by (rule pose_graph_challenge_error_contract [OF x86_hw_ok zero_malloc_ok(1)]) (simp add: POSE_HASH_BYTES_def)

text \<open>C10: \<open>pose_graph_parameter_n\<close> is the parameter of the smallest graph with \<open>m\<close> challenge nodes: the
  half-width \<open>2^n\<close> stays below \<open>m\<close> and its double reaches \<open>m\<close>, so the \<open>m - half_w\<close> of the callers never wraps.\<close>

theorem parameter_n_is_least:
  assumes "2 \<le> m"
  shows "2 ^ pose_graph_parameter_n m < unat m \<and> unat m \<le> 2 ^ (pose_graph_parameter_n m + 1)
    \<and> unat (m - push_bit (pose_graph_parameter_n m) 1) = unat m - 2 ^ pose_graph_parameter_n m"
  by (rule parameter_n_half) (use assms in simp)

theorem parameter_n_is_least_witness:
  "2 ^ pose_graph_parameter_n 4096 < unat (4096 :: u64) \<and> unat (4096 :: u64) \<le> 2 ^ (pose_graph_parameter_n 4096 + 1)
    \<and> unat ((4096 :: u64) - push_bit (pose_graph_parameter_n 4096) 1) = unat (4096 :: u64) - 2 ^ pose_graph_parameter_n 4096"
  by (rule parameter_n_is_least) simp

text \<open>The 64-bit recursion \<open>standalone_node_count\<close> is exact: up to level 52 it does not wrap and has the
  closed form \<open>2^l (l^2 - l + 4) / 2 - 1\<close>, the number of nodes of the abstract graph.\<close>

theorem standalone_node_count_closed_form:
  assumes "l \<le> 52"
  shows "unat (standalone_node_count l) = length (standalone_nodes l s)
    \<and> 2 * (unat (standalone_node_count l) + 1) + 2 ^ l * l = 2 ^ l * (4 + l * l)"
  using scount_bound [OF assms] scount_closed [of l] by (simp add: standalone_node_count_of_nat unat_of_nat_u64)

theorem standalone_node_count_closed_form_witness:
  "unat (standalone_node_count 13) = length (standalone_nodes 13 0)
    \<and> 2 * (unat (standalone_node_count 13) + 1) + 2 ^ 13 * 13 = (2 :: nat) ^ 13 * (4 + 13 * 13)"
  by (rule standalone_node_count_closed_form) simp

text \<open>C11: the scratch size the callers allocate is exactly what the layout of \<open>do_label\<close> uses: the labels
  of both copies, two base arrays and two arenas; none of its 64-bit arithmetic wraps.\<close>

theorem scratch_size_is_exact:
  assumes "m \<noteq> 0" "m \<le> POSE_GRAPH_MAX_M"
  shows "unat (label_scratch_bytes m) = length (graph_nodes (pose_graph_parameter_n m)) * POSE_HASH_BYTES
      + (4 + 2 * POSE_ARENA_FACTOR) * 2 ^ pose_graph_parameter_n m * 8
    \<and> need_standalone (pose_graph_parameter_n m + 1) \<le> POSE_ARENA_FACTOR * 2 ^ pose_graph_parameter_n m"
  using scratch_size_exact [OF assms] need_standalone_fits by (simp del: scount.simps need_standalone.simps)

theorem scratch_size_is_exact_witness:
  "unat (label_scratch_bytes 3) = length (graph_nodes (pose_graph_parameter_n 3)) * POSE_HASH_BYTES
      + (4 + 2 * POSE_ARENA_FACTOR) * 2 ^ pose_graph_parameter_n 3 * 8
    \<and> need_standalone (pose_graph_parameter_n 3 + 1) \<le> POSE_ARENA_FACTOR * 2 ^ pose_graph_parameter_n 3"
  by (rule scratch_size_is_exact [OF three_blocks(1,2)])

section \<open>Properties: hashing\<close>

text \<open>C12: the label of a node is a function of its message alone. Whatever nodes the process hashed before,
  whatever keys and round keys its caches hold, \<open>pose_label_node\<close> returns the reference label (keyed BLAKE3,
  SHA-256 or the two AES CBC-MACs of the message) and keeps the invariant of both caches.\<close>

theorem label_independent_of_caches:
  assumes "hw_ok h" "state_ok h hs"
  shows "\<exists>hs'. pose_label_node h hs src i p0 p1 sd ds al = Some (ref_label h src i p0 p1 sd ds al, hs') \<and> state_ok h hs'"
  by (rule pose_label_node_ok [OF assms])

theorem label_independent_of_caches_witness:
  "\<exists>hs'. pose_label_node x86_hw hash_state0 False 5 (Some (replicate 32 1)) None (replicate 32 2) (replicate 32 3)
      POSE_HASH_AES_PRF
    = Some (ref_label x86_hw False 5 (Some (replicate 32 1)) None (replicate 32 2) (replicate 32 3) POSE_HASH_AES_PRF, hs')
    \<and> state_ok x86_hw hs'"
  by (rule label_independent_of_caches [OF x86_hw_ok state0_ok])

text \<open>C13: a batch is its nodes: \<open>pose_label_node_many\<close>, which hashes up to sixteen nodes in parallel lanes, in
  groups of four under AES, returns in order the label each node gets alone, for every algorithm, batch
  length up to \<open>POSE_LABEL_BATCH\<close> and cache state, and keeps the invariant of the caches.\<close>

theorem batch_equals_single_labels:
  assumes "hw_ok h" "state_ok h hs" "preds_fit (length ids) p0s" "preds_fit (length ids) p1s"
    and "length ids \<le> POSE_LABEL_BATCH"
  shows "\<exists>hs'. pose_label_node_many h hs src ids p0s p1s sd ds al
      = Some (map (\<lambda>i. fst (the (pose_label_node h hash_state0 src (ids ! i) (pred_at p0s i) (pred_at p1s i) sd ds al)))
          [0..<length ids], hs')
    \<and> state_ok h hs'"
  using pose_label_node_many_ok [OF assms, of src sd ds al] pose_labeler_node [OF assms(1)]
  by (simp add: pose_labeler_def)

theorem batch_equals_single_labels_witness:
  "\<exists>hs'. pose_label_node_many (arm_hw ref_arm_sha ref_aes_arm) hash_state0 False [4, 5, 6, 7, 8]
      (Some (replicate 5 (Some (replicate 32 9)))) None (replicate 32 0) (replicate 32 0) POSE_HASH_AES_PRF
    = Some (map (\<lambda>i. fst (the (pose_label_node (arm_hw ref_arm_sha ref_aes_arm) hash_state0 False ([4, 5, 6, 7, 8] ! i)
          (pred_at (Some (replicate 5 (Some (replicate 32 9)))) i) (pred_at None i) (replicate 32 0) (replicate 32 0)
          POSE_HASH_AES_PRF))) [0..<length [4 :: u64, 5, 6, 7, 8]], hs')
    \<and> state_ok (arm_hw ref_arm_sha ref_aes_arm) hs'"
  by (rule batch_equals_single_labels [OF arm_hw_ok state0_ok]) (simp_all add: preds_fit_def POSE_LABEL_BATCH_def)

text \<open>C14: the direct three-block call that labels a node under BLAKE3 is the keyed BLAKE3 hash of the
  192-byte node message, as the incremental hasher computes it from any split of the message.\<close>

theorem blake3_label_is_keyed_hash:
  assumes "hw_ok h" "concat parts = build_node_msg i (if src then None else p0) (if src then None else p1) sd ds"
  shows "label_node (pose_labeler h) src i p0 p1 sd ds POSE_HASH_BLAKE3
    = blake3_hasher_finalize (hw_b3 h) (fold (\<lambda>b hs. blake3_hasher_update (hw_b3 h) hs b) parts
        (hasher_init_base (label_key (hw_b3 h) src) KEYED_HASH)) BLAKE3_OUT_LEN"
proof -
  have l: "length (concat parts) = 192" by (simp add: assms(2))
  then show ?thesis
    using assms hash_in_pieces [of parts "hw_b3 h" "label_key (hw_b3 h) src" KEYED_HASH] keyed_hash_192 [OF _ length_label_key l]
    by (simp add: pose_labeler_node ref_label_def hw_ok_def BLAKE3_CHUNK_LEN_def)
qed

theorem blake3_label_is_keyed_hash_witness:
  "label_node (pose_labeler x86_hw) True 3 None None (replicate 32 1) (replicate 32 2) POSE_HASH_BLAKE3
    = blake3_hasher_finalize (hw_b3 x86_hw) (fold (\<lambda>b hs. blake3_hasher_update (hw_b3 x86_hw) hs b)
        [build_node_msg 3 None None (replicate 32 1) (replicate 32 2)]
        (hasher_init_base (label_key (hw_b3 x86_hw) True) KEYED_HASH)) BLAKE3_OUT_LEN"
  by (rule blake3_label_is_keyed_hash [OF x86_hw_ok]) simp

text \<open>C15: the node message determines the node: two messages agree only if their ids, the bytes of both
  predecessors' labels, the seeds and the descriptors agree, and so does the AES message without the seed.\<close>

theorem node_messages_injective:
  "(build_node_msg i p0 p1 s d = build_node_msg i' p0' p1' s' d' \<longleftrightarrow>
     i = i' \<and> pred_bytes p0 = pred_bytes p0' \<and> pred_bytes p1 = pred_bytes p1' \<and> mem32 s = mem32 s' \<and> mem32 d = mem32 d')
   \<and> (build_aes_msg i p0 p1 d = build_aes_msg i' p0' p1' d' \<longleftrightarrow>
     i = i' \<and> pred_bytes p0 = pred_bytes p0' \<and> pred_bytes p1 = pred_bytes p1' \<and> mem32 d = mem32 d')"
  by (intro conjI node_msg_inj aes_msg_inj)

text \<open>The descriptor and the chunk seed are BLAKE3 in key-derivation mode of the big-endian parameters and
  of the session seed followed by the chunk index, whatever the pieces the hasher gets them in.\<close>

theorem descriptor_and_chunk_seed:
  assumes "length seed \<le> 1016"
  shows "pose_graph_descriptor P m n
      = chunk_hash P (derive_key P ''pose-db/descriptor'') DERIVE_KEY_MATERIAL (u64_be m @ u64_be n @ u64_be 256)
    \<and> pose_chunk_seed P seed k
      = chunk_hash P (derive_key P ''pose-db/chunk-seed'') DERIVE_KEY_MATERIAL (seed @ u64_be k)"
  using assms by (intro conjI graph_descriptor_hash chunk_seed_hash) (simp add: BLAKE3_CHUNK_LEN_def)

theorem descriptor_and_chunk_seed_witness:
  "pose_graph_descriptor IS_AARCH64 4096 11
      = chunk_hash IS_AARCH64 (derive_key IS_AARCH64 ''pose-db/descriptor'') DERIVE_KEY_MATERIAL
          (u64_be 4096 @ u64_be 11 @ u64_be 256)
    \<and> pose_chunk_seed IS_AARCH64 (replicate 32 7) 2
      = chunk_hash IS_AARCH64 (derive_key IS_AARCH64 ''pose-db/chunk-seed'') DERIVE_KEY_MATERIAL (replicate 32 7 @ u64_be 2)"
  by (rule descriptor_and_chunk_seed) simp

text \<open>C16: the SHA-256 on ARMv8 instructions equals the portable compression on every state and block.\<close>

theorem sha256_arm_equals_portable:
  assumes "arm_sha_ok A"
  shows "sha256_compress_arm A state blk = sha256_compress_portable state blk"
  by (rule arm_compress_portable [OF assms])

theorem sha256_arm_equals_portable_witness:
  "sha256_compress_arm ref_arm_sha H0 (replicate 64 1) = sha256_compress_portable H0 (replicate 64 1)"
  by (rule sha256_arm_equals_portable [OF ref_arm_sha_ok])



text \<open>C18: a message of 248 bytes or more makes \<open>pose_sha256\<close> access memory outside its 256-byte buffer.\<close>

theorem pose_sha256_long_message_overruns:
  assumes "248 \<le> length msg"
  shows "pose_sha256 A msg = None"
  by (rule pose_sha256_overrun [OF assms])

theorem pose_sha256_long_message_overruns_witness: "pose_sha256 None (replicate 248 0) = None"
  by (rule pose_sha256_long_message_overruns) simp

text \<open>C19: the AES labels of the ARM and the x86 builds are equal, for every node, whenever the two instruction
  sets are related as their manuals say.\<close>

theorem aes_labels_equal_across_builds:
  assumes "aes_parity A X"
  shows "ref_label \<lparr>hw_b3 = P, hw_sha = S, hw_aes = AES_CE A\<rparr> src i p0 p1 sd ds POSE_HASH_AES_PRF
    = ref_label \<lparr>hw_b3 = Q, hw_sha = T, hw_aes = AES_NI X\<rparr> src i p0 p1 sd ds POSE_HASH_AES_PRF"
  by (simp add: ref_label_def aes_label_parity [OF assms])

theorem aes_labels_equal_across_builds_witness:
  "ref_label \<lparr>hw_b3 = IS_AARCH64, hw_sha = None, hw_aes = AES_CE ref_aes_arm\<rparr> False 1 (Some (replicate 32 1)) None
      (replicate 32 2) (replicate 32 3) POSE_HASH_AES_PRF
    = ref_label \<lparr>hw_b3 = IS_AARCH64, hw_sha = None, hw_aes = AES_NI ref_aes_x86\<rparr> False 1 (Some (replicate 32 1)) None
      (replicate 32 2) (replicate 32 3) POSE_HASH_AES_PRF"
  by (rule aes_labels_equal_across_builds [OF ref_aes_parity])

section \<open>Properties: regions and disk waves\<close>

lemma scratch_fit_3: "scratch_fit ip 3 (replicate 4 (replicate 1280 0))"
  by (simp add: scratch_fit_def POSE_REGION_THREADS_def POSE_ARENA_FACTOR_def POSE_HASH_BYTES_def parameter_n_3 bcount_def Let_def)

lemma resolve_3: "resolve_chunk_blocks 3 = 3" "(3 :: u32) \<le> ucast POSE_GRAPH_MAX_M" "unat (3 :: u32) = 3"
  by (simp_all add: resolve_chunk_blocks_def POSE_GRAPH_MAX_M_def)

lemma region_192: "(192 :: u64) \<noteq> 0" "(192 :: u64) mod of_nat POSE_HASH_BYTES = 0" "unat (192 :: u64) \<le> length (replicate 192 (0 :: byte))"
    "unat ((192 :: u64) div of_nat POSE_HASH_BYTES) = 6"
  by (simp_all add: POSE_HASH_BYTES_def)

text \<open>C20: \<open>pose_graph_label_region\<close>, in whatever order its threads finish and whichever of them cannot be
  created, returns 0 or \<open>-1\<close> and writes nothing outside the region. When it returns 0 every block of the
  region holds its label: the one of its rank in its chunk's graph under the chunk's own seed, the last
  chunk shorter than the rest included. It returns 0 when its four allocations and all thread creations
  succeed; with an allocation missing it returns \<open>-1\<close> and leaves the region alone.\<close>

theorem label_region_labels_every_block:
  assumes "hw_ok h" "env_ok E" "malloc_ok malloc" "region_len \<noteq> 0" "region_len mod of_nat POSE_HASH_BYTES = 0"
    and "unat region_len \<le> length R" "resolve_chunk_blocks c \<le> ucast POSE_GRAPH_MAX_M"
  defines "mem \<equiv> \<forall>i<POSE_REGION_THREADS. malloc i (pose_graph_scratch_bytes c) \<noteq> None"
  shows "\<exists>rc R'. pose_graph_label_region (pose_labeler h) E malloc seed (Some R) region_len offset al c = Some (rc, Some R')
    \<and> (rc = 0 \<longrightarrow> blocks_labelled (pose_labeler h) seed offset al (unat (region_len div of_nat POSE_HASH_BYTES))
          (unat (resolve_chunk_blocks c)) (unat (region_len div of_nat POSE_HASH_BYTES)) R')
    \<and> agree_off {..<unat region_len} R R' \<and> rc \<in> {0, -1} \<and> (mem \<and> (\<forall>b i. spawn E b i) \<longrightarrow> rc = 0)
    \<and> (\<not> mem \<longrightarrow> rc = -1 \<and> R' = R)"
  unfolding mem_def by (rule label_region_result [OF pose_labeler_hash]) (use assms in auto)

theorem label_region_labels_every_block_witness:
  "\<exists>rc R'. pose_graph_label_region (pose_labeler x86_hw) caller_first zero_malloc [] (Some (replicate 192 0)) 192 0
        POSE_HASH_SHA256 3 = Some (rc, Some R')
    \<and> (rc = 0 \<longrightarrow> blocks_labelled (pose_labeler x86_hw) [] 0 POSE_HASH_SHA256 (unat ((192 :: u64) div of_nat POSE_HASH_BYTES))
          (unat (resolve_chunk_blocks 3)) (unat ((192 :: u64) div of_nat POSE_HASH_BYTES)) R')
    \<and> agree_off {..<unat (192 :: u64)} (replicate 192 0) R' \<and> rc \<in> {0, -1}
    \<and> ((\<forall>i<POSE_REGION_THREADS. zero_malloc i (pose_graph_scratch_bytes 3) \<noteq> None) \<and> (\<forall>b i. spawn caller_first b i) \<longrightarrow> rc = 0)
    \<and> (\<not> (\<forall>i<POSE_REGION_THREADS. zero_malloc i (pose_graph_scratch_bytes 3) \<noteq> None) \<longrightarrow> rc = -1 \<and> R' = replicate 192 0)"
  by (rule label_region_labels_every_block [OF x86_hw_ok caller_first_ok(1) zero_malloc_ok(1) region_192(1-3)])
    (simp add: resolve_3)

text \<open>C21: the verifier needs no more than the seed: after \<open>pose_graph_label_region_pooled\<close> has labelled a
  region, with any buffers of the documented size and any order of the workers, the challenge of block
  \<open>b\<close>, computed from the seed of its chunk, the chunk's length and the block's rank in it, is the block
  the region holds.\<close>

theorem pooled_region_is_verifiable:
  assumes "hw_ok h" "env_ok E" "region_len \<noteq> 0" "region_len mod of_nat POSE_HASH_BYTES = 0"
    and "unat region_len \<le> length R" "resolve_chunk_blocks c \<le> ucast POSE_GRAPH_MAX_M"
    and "scratch_fit False (unat (resolve_chunk_blocks c)) scratch"
    and "malloc_ok malloc" "\<forall>i s. malloc i s \<noteq> None" "POSE_HASH_BYTES \<le> length out"
  defines "tot \<equiv> unat (region_len div of_nat POSE_HASH_BYTES)" and "cb \<equiv> unat (resolve_chunk_blocks c)"
  shows "\<exists>R'. pose_graph_label_region_pooled (pose_labeler h) E seed (Some R) region_len offset scratch al c = Some (0, Some R')
    \<and> (\<forall>b<tot. \<exists>answer. pose_graph_challenge (pose_labeler h) malloc
            (chunk_seed (pose_labeler h) seed (chunk_index offset (b div cb * cb) cb))
            (of_nat (min cb (tot - b div cb * cb))) (of_nat (b mod cb)) out al = Some (0, answer)
          \<and> rd R' (b * POSE_HASH_BYTES) POSE_HASH_BYTES = Some (take POSE_HASH_BYTES answer))"
proof -
  note nh = pose_labeler_hash [OF assms(1)]
  have cb: "0 < cb" "cb \<le> 2 ^ 20"
    using assms(6) by (auto simp: cb_def resolve_chunk_blocks_def POSE_CHUNK_BLOCKS_def POSE_GRAPH_MAX_M_def word_le_nat_alt unat_gt_0)
  obtain R' where r: "pose_graph_label_region_pooled (pose_labeler h) E seed (Some R) region_len offset scratch al c = Some (0, Some R')"
    "blocks_labelled (pose_labeler h) seed offset al tot cb tot R'"
    using region_result [OF run_pooled_runs [OF nh assms(2)] assms(3-7), of seed offset al]
    unfolding tot_def [symmetric] cb_def [symmetric] pose_graph_label_region_pooled_def by auto
  show ?thesis using r challenge_answers_region [OF nh assms(8-10) r(2) _ _ cb] by blast
qed

theorem pooled_region_is_verifiable_witness:
  "\<exists>R'. pose_graph_label_region_pooled (pose_labeler x86_hw) in_order [7] (Some (replicate 192 0)) 192 3
        (replicate 4 (replicate 1280 0)) POSE_HASH_BLAKE3 3 = Some (0, Some R')
    \<and> (\<forall>b<unat ((192 :: u64) div of_nat POSE_HASH_BYTES). \<exists>answer. pose_graph_challenge (pose_labeler x86_hw) zero_malloc
            (chunk_seed (pose_labeler x86_hw) [7] (chunk_index 3 (b div unat (resolve_chunk_blocks 3) * unat (resolve_chunk_blocks 3))
              (unat (resolve_chunk_blocks 3))))
            (of_nat (min (unat (resolve_chunk_blocks 3)) (unat ((192 :: u64) div of_nat POSE_HASH_BYTES)
              - b div unat (resolve_chunk_blocks 3) * unat (resolve_chunk_blocks 3)))) (of_nat (b mod unat (resolve_chunk_blocks 3)))
            (replicate 32 0) POSE_HASH_BLAKE3 = Some (0, answer)
          \<and> rd R' (b * POSE_HASH_BYTES) POSE_HASH_BYTES = Some (take POSE_HASH_BYTES answer))"
  by (rule pooled_region_is_verifiable [OF x86_hw_ok in_order_ok(1) region_192(1-3) _ _ zero_malloc_ok(1,2)])
    (simp_all add: resolve_3 scratch_fit_3 POSE_HASH_BYTES_def)

text \<open>C22: the in-place region function stores in every full chunk exactly what the pooled one stores, with
  scratch for the live labels only. The blocks after the last full chunk it leaves as they were, and
  still returns 0.\<close>

theorem inplace_region_equals_pooled_region:
  assumes "hw_ok h" "env_ok E" "env_ok E'" "region_len \<noteq> 0" "region_len mod of_nat POSE_HASH_BYTES = 0"
    and "unat region_len \<le> length R" "resolve_chunk_blocks c \<le> ucast POSE_GRAPH_MAX_M"
    and "scratch_fit True (unat (resolve_chunk_blocks c)) scratch" "scratch_fit False (unat (resolve_chunk_blocks c)) scratch'"
  defines "tot \<equiv> unat (region_len div of_nat POSE_HASH_BYTES)" and "cb \<equiv> unat (resolve_chunk_blocks c)"
  shows "\<exists>R1 R2. pose_graph_label_region_pooled_inplace (pose_labeler h) E seed (Some R) region_len offset scratch al c = Some (0, Some R1)
    \<and> pose_graph_label_region_pooled (pose_labeler h) E' seed (Some R) region_len offset scratch' al c = Some (0, Some R2)
    \<and> (\<forall>b<tot div cb * cb. rd R1 (b * POSE_HASH_BYTES) POSE_HASH_BYTES = rd R2 (b * POSE_HASH_BYTES) POSE_HASH_BYTES)
    \<and> agree_off {..<tot div cb * cb * POSE_HASH_BYTES} R R1"
proof -
  note nh = pose_labeler_hash [OF assms(1)]
  obtain R2 where p: "pose_graph_label_region_pooled (pose_labeler h) E' seed (Some R) region_len offset scratch' al c = Some (0, Some R2)"
    "blocks_labelled (pose_labeler h) seed offset al tot cb tot R2"
    using region_result [OF run_pooled_runs [OF nh assms(3)] assms(4-7,9), of seed offset al]
    unfolding tot_def [symmetric] cb_def [symmetric] pose_graph_label_region_pooled_def by auto
  obtain R1 where q: "pose_graph_label_region_pooled_inplace (pose_labeler h) E seed (Some R) region_len offset scratch al c = Some (0, Some R1)"
    "blocks_labelled (pose_labeler h) seed offset al tot cb (tot div cb * cb) R1"
    "agree_off {..<tot div cb * cb * POSE_HASH_BYTES} R R1"
    using inplace_region_result [OF nh assms(2,4-8), of seed offset al] unfolding tot_def [symmetric] cb_def [symmetric] by blast
  show ?thesis
    using p(1) q(1,3) blocks_labelled_unique [OF q(2) blocks_labelled_mono [OF p(2) div_times_less_eq_dividend]] by blast
qed

theorem inplace_region_equals_pooled_region_witness:
  "\<exists>R1 R2. pose_graph_label_region_pooled_inplace (pose_labeler x86_hw) in_order [] (Some (replicate 192 0)) 192 0
        (replicate 4 (replicate 1280 0)) POSE_HASH_AES_PRF 3 = Some (0, Some R1)
    \<and> pose_graph_label_region_pooled (pose_labeler x86_hw) caller_first [] (Some (replicate 192 0)) 192 0
        (replicate 4 (replicate 1280 0)) POSE_HASH_AES_PRF 3 = Some (0, Some R2)
    \<and> (\<forall>b<unat ((192 :: u64) div of_nat POSE_HASH_BYTES) div unat (resolve_chunk_blocks 3) * unat (resolve_chunk_blocks 3).
          rd R1 (b * POSE_HASH_BYTES) POSE_HASH_BYTES = rd R2 (b * POSE_HASH_BYTES) POSE_HASH_BYTES)
    \<and> agree_off {..<unat ((192 :: u64) div of_nat POSE_HASH_BYTES) div unat (resolve_chunk_blocks 3)
          * unat (resolve_chunk_blocks 3) * POSE_HASH_BYTES} (replicate 192 0) R1"
  by (rule inplace_region_equals_pooled_region [OF x86_hw_ok in_order_ok(1) caller_first_ok(1) region_192(1-3)])
    (simp_all add: resolve_3 scratch_fit_3)





text \<open>A null region, a length of 0 and a length that is no multiple of the block size are refused by all
  four region functions: \<open>-1\<close>, and the region is left alone.\<close>

theorem region_argument_errors:
  assumes "region = None \<or> region_len = 0 \<or> region_len mod of_nat POSE_HASH_BYTES \<noteq> 0"
  shows "pose_graph_label_region H E malloc seed region region_len offset al c = Some (-1, region)
    \<and> pose_graph_label_region_ex H E seed region region_len offset scratch al c = Some (-1, region)
    \<and> pose_graph_label_region_pooled H E seed region region_len offset scratch al c = Some (-1, region)
    \<and> pose_graph_label_region_pooled_inplace H E seed region region_len offset scratch al c = Some (-1, region)"
proof -
  have "region_args_bad region region_len" using assms by (simp add: region_args_bad_def)
  then show ?thesis by (simp add: region_args_refused)
qed

theorem region_argument_errors_witness:
  "pose_graph_label_region (pose_labeler x86_hw) in_order zero_malloc [] (Some (replicate 40 0)) 40 0 POSE_HASH_BLAKE3 0
      = Some (-1, Some (replicate 40 0))
    \<and> pose_graph_label_region_ex (pose_labeler x86_hw) in_order [] (Some (replicate 40 0)) 40 0 [] POSE_HASH_BLAKE3 0
      = Some (-1, Some (replicate 40 0))
    \<and> pose_graph_label_region_pooled (pose_labeler x86_hw) in_order [] (Some (replicate 40 0)) 40 0 [] POSE_HASH_BLAKE3 0
      = Some (-1, Some (replicate 40 0))
    \<and> pose_graph_label_region_pooled_inplace (pose_labeler x86_hw) in_order [] (Some (replicate 40 0)) 40 0 [] POSE_HASH_BLAKE3 0
      = Some (-1, Some (replicate 40 0))"
  by (rule region_argument_errors) (simp add: POSE_HASH_BYTES_def)

section \<open>Properties: the worker pool\<close>

text \<open>A pool whose three workers have been created, and a batch of two chunks on it.\<close>

definition created_pool :: "unit work \<Rightarrow> unit pool" where
  "created_pool w = pool_create_step 2 True (pool_create_step 1 True (pool_create_step 0 True (pool_new w)))"

definition two_chunks :: "unit work" where
  "two_chunks = \<lparr>w_args = fst (fill_args (pose_labeler x86_hw) [] 0 POSE_HASH_SHA256 6 3 0 0), w_outs = [replicate 192 0],
     w_scratch = replicate 4 (replicate 1280 0), w_ctx = ()\<rparr>"

lemma created_pool_ready: "pool_reach H (created_pool w)" "p_caller (created_pool w) = Ready"
proof -
  have c: "p_caller (pool_new w) = Creating 0" "p_caller (pool_create_step 0 True (pool_new w)) = Creating 1"
    "p_caller (pool_create_step 1 True (pool_create_step 0 True (pool_new w))) = Creating 2"
    by (simp_all add: pool_new_def pool_create_step_def POSE_REGION_THREADS_def)
  show "pool_reach H (created_pool w)"
    unfolding created_pool_def
    by (rule pool_reach.step [OF pool_reach.step [OF pool_reach.step [OF pool_reach.new pool_step.create [OF c(1)]]
          pool_step.create [OF c(2)]] pool_step.create [OF c(3)]])
  show "p_caller (created_pool w) = Ready" by (simp add: created_pool_def pool_create_step_def POSE_REGION_THREADS_def)
qed

lemma two_chunks_fit: "batch_fits two_chunks" "w_args two_chunks \<noteq> []" "length (w_args two_chunks) \<le> POSE_REGION_THREADS"
proof -
  obtain as b where f: "fill_args (pose_labeler x86_hw) [] 0 POSE_HASH_SHA256 6 3 0 0 = (as, b)" by fastforce
  have c: "chunk_args False (pose_labeler x86_hw) [] 0 POSE_HASH_SHA256 6 3 0 0 as b" "as \<noteq> []"
    using fill_args_chunks [of 0 6 0 "pose_labeler x86_hw" "[]" 0 POSE_HASH_SHA256 3] f by (auto simp: POSE_REGION_THREADS_def)
  have a: "w_args two_chunks = as" by (simp add: two_chunks_def f)
  have t: "two_chunks = two_chunks\<lparr>w_args := as\<rparr>" by (simp add: two_chunks_def f)
  have "batch_fits (two_chunks\<lparr>w_args := as\<rparr>)"
    by (rule chunk_args_fit [OF c(1), where R = "replicate 192 0"]) (simp_all add: two_chunks_def POSE_HASH_BYTES_def scratch_fit_3)
  then show "batch_fits two_chunks" using t by metis
  show "w_args two_chunks \<noteq> []" "length (w_args two_chunks) \<le> POSE_REGION_THREADS"
    using c by (simp_all add: a chunk_args_def)
qed

lemma submitted: "p_start (submit_jobs w p) = w" "p_caller (submit_jobs w p) = Own"
  by (simp_all add: submit_jobs_def broadcast_work_def Let_def)

text \<open>C24: a batch on the pool always ends. From any state of the pool with a batch under way, the threads
  take at most \<open>pool_measure\<close> steps, wake-ups without a cause apart, and they can stop nowhere but with
  the caller back from the batch and every job run exactly once: no wake-up is lost and nobody waits for
  a job that is not there.\<close>

theorem pool_batch_ends:
  assumes "hw_ok h" "pool_reach (pose_labeler h) p" "in_batch p" "batch_fits (p_start p)"
  shows "(\<forall>k p'. (pool_step (pose_labeler h) ^^ k) p p' \<longrightarrow> k \<le> pool_measure p)
    \<and> (\<forall>p'. (pool_step (pose_labeler h))\<^sup>*\<^sup>* p p' \<and> \<not> (\<exists>q. pool_step (pose_labeler h) p' q) \<longrightarrow>
        p_caller p' = Ready \<and> distinct (p_log p') \<and> set (p_log p') = {..<length (w_args (p_start p))}
        \<and> run_jobs (pose_labeler h) (p_log p') (p_start p) = Some (p_mem p'))"
proof -
  note inv = pool_reach_inv [OF assms(2)]
  show ?thesis
    using pool_steps_measure [OF _ inv] batch_outcome [OF pose_labeler_hash [OF assms(1)] inv assms(3,4)] by fastforce
qed

theorem pool_batch_ends_witness:
  defines "p \<equiv> submit_jobs two_chunks (created_pool two_chunks)" and "H \<equiv> pose_labeler x86_hw"
  shows "\<exists>bound. (\<forall>k p'. (pool_step H ^^ k) p p' \<longrightarrow> k \<le> bound)
    \<and> (\<forall>p'. (pool_step H)\<^sup>*\<^sup>* p p' \<and> \<not> (\<exists>q. pool_step H p' q) \<longrightarrow>
        p_caller p' = Ready \<and> distinct (p_log p') \<and> set (p_log p') = {..<length (w_args (p_start p))}
        \<and> run_jobs H (p_log p') (p_start p) = Some (p_mem p'))"
  unfolding p_def H_def
  by (rule exI, rule pool_batch_ends [OF x86_hw_ok pool_reach.call [OF created_pool_ready(1)
        pool_call.batch [OF created_pool_ready(2) two_chunks_fit(2,3)]]])
    (simp_all add: submitted in_batch_def two_chunks_fit)

text \<open>C25: when a batch on the pool is over, the memory is what \<open>run_pooled\<close> computes for one admissible
  order of the jobs, so the results about the region functions hold for the pool with its mutex, its
  two condition variables and every interleaving of its threads.\<close>

theorem pool_implements_run_pooled:
  assumes "pool_reach H p" "p_caller p = Ready"
  shows "\<exists>E. env_ok E \<and> run_pooled H E b (p_start p) = Some (first_rc (w_args (p_mem p)), p_mem p)"
  by (rule pool_refines_run_pooled [OF pool_reach_inv [OF assms(1)] assms(2)])

theorem pool_implements_run_pooled_witness:
  "\<exists>E. env_ok E \<and> run_pooled (pose_labeler x86_hw) E 0 (p_start (created_pool two_chunks))
      = Some (first_rc (w_args (p_mem (created_pool two_chunks))), p_mem (created_pool two_chunks))"
  by (rule pool_implements_run_pooled [OF created_pool_ready])

text \<open>C26: no thread outlives the pool. Once \<open>pose_graph_pool_destroy\<close>, or a \<open>pose_graph_pool_create\<close> that
  could not create all its workers, has joined the workers and frees the pool, no worker is left that
  could take a step, not even by a wake-up without a cause; and until then some thread can always move.\<close>

theorem pool_freed_has_no_thread:
  assumes "hw_ok h" "pool_reach (pose_labeler h) p" "p_shutdown p" "batch_fits (p_start p)"
  shows "if p_caller p = Stopped then \<not> pool_step (pose_labeler h) p p' \<and> \<not> spurious p p' \<and> \<not> pool_call p p'
    else \<exists>q. pool_step (pose_labeler h) p q"
proof -
  note inv = pool_reach_inv [OF assms(2)]
  have "p_caller p \<noteq> Ready" using inv assms(3) by (auto simp: pool_inv_def)
  then show ?thesis
    using freed_pool_dead [OF inv] pool_progress [OF pose_labeler_hash [OF assms(1)] inv assms(4)] by auto
qed

text \<open>A pool whose first thread could not be created: nothing to join.\<close>

definition failed_pool :: "unit pool" where
  "failed_pool = (pool_create_step 0 False (pool_new two_chunks))\<lparr>p_caller := Stopped\<rparr>"

lemma failed_pool_reach: "pool_reach H failed_pool"
proof -
  have "pool_step H (pool_new two_chunks) (pool_create_step 0 False (pool_new two_chunks))"
    by (rule pool_step.create) (simp add: pool_new_def)
  moreover have "pool_step H (pool_create_step 0 False (pool_new two_chunks)) failed_pool"
    unfolding failed_pool_def
    by (rule pool_step.free) (auto simp: pool_create_step_def pool_new_def broadcast_work_def joined_def wake_def)
  ultimately show ?thesis using pool_reach.new pool_reach.step by metis
qed

theorem pool_freed_has_no_thread_witness:
  "if p_caller failed_pool = Stopped
   then \<not> pool_step (pose_labeler x86_hw) failed_pool failed_pool \<and> \<not> spurious failed_pool failed_pool \<and> \<not> pool_call failed_pool failed_pool
   else \<exists>q. pool_step (pose_labeler x86_hw) failed_pool q"
  by (rule pool_freed_has_no_thread [OF x86_hw_ok failed_pool_reach])
    (simp_all add: failed_pool_def pool_create_step_def pool_new_def broadcast_work_def batch_fits_def)

section \<open>Properties: levels and the slot map\<close>


text \<open>The counting sort of the node ids lists every id exactly once, key by key: \<open>start\<close> partitions the
  array, every cell of \<open>order\<close> is written, and the slice of key \<open>l\<close> holds exactly the ids with that key.\<close>

theorem counting_sort_lists_ids:
  assumes "\<forall>k\<in>set ks. k < Ln"
  shows "\<exists>start order. counting_sort ks Ln = Some (start, order) \<and> length start = Ln + 1 \<and> length order = length ks
    \<and> start ! 0 = 0 \<and> start ! Ln = length ks \<and> (\<forall>l<Ln. start ! l \<le> start ! (l + 1)) \<and> None \<notin> set order
    \<and> (\<forall>l<Ln. distinct (slice start order l) \<and> set (slice start order l) = {i. i < length ks \<and> ks ! i = l})"
  using counting_sort_ok [OF assms] unfolding sorted_ids_def by (fastforce simp: in_set_conv_nth)

theorem counting_sort_lists_ids_witness:
  "\<exists>start order. counting_sort [1, 0, 1] 2 = Some (start, order) \<and> length start = 2 + 1 \<and> length order = length [1, 0, 1 :: nat]
    \<and> start ! 0 = 0 \<and> start ! 2 = length [1, 0, 1 :: nat] \<and> (\<forall>l<2. start ! l \<le> start ! (l + 1)) \<and> None \<notin> set order
    \<and> (\<forall>l<2. distinct (slice start order l) \<and> set (slice start order l) = {i. i < length [1, 0, 1 :: nat] \<and> [1, 0, 1] ! i = l})"
  by (rule counting_sort_lists_ids) simp



section \<open>Properties: the GPU\<close>


definition ready_gpu :: cuda where
  "ready_gpu = \<lparr>cu_malloc = (\<lambda>k n. Some (replicate n 0)), cu_memcpy = (\<lambda>k. True), cu_sync = (\<lambda>k. True)\<rparr>"




section \<open>Properties: labeling a buffer on the GPU\<close>

text \<open>A device that holds the graph of 3 blocks.\<close>

definition reference_topo :: "strategy \<Rightarrow> topo" where
  "reference_topo S = the (fst (the (pose_graph_hbm_topo_build S x86_hw hash_state0 zero_malloc ready_gpu 3 POSE_HASH_BLAKE3)))"

definition mixed_alignment :: "nat \<Rightarrow> nat \<Rightarrow> nat \<Rightarrow> bool" where
  "mixed_alignment i j k = even (i + j + k)"

lemma reference_topo_built:
  "\<exists>hs' N level. pose_graph_hbm_topo_build S x86_hw hash_state0 zero_malloc ready_gpu 3 POSE_HASH_BLAKE3 = Some (Some (reference_topo S), hs')
    \<and> topo_for S x86_hw (resolve_chunk_blocks 3) N level (reference_topo S)"
proof -
  from topo_build_ok [OF x86_hw_ok state0_ok zero_malloc_ok(1), of S ready_gpu 3 POSE_HASH_BLAKE3]
  obtain r hs' where r: "pose_graph_hbm_topo_build S x86_hw hash_state0 zero_malloc ready_gpu 3 POSE_HASH_BLAKE3 = Some (r, hs')"
    "\<forall>T. r = Some T \<longrightarrow> (\<exists>N level. topo_for S x86_hw (resolve_chunk_blocks 3) N level T)" "r \<noteq> None"
    using zero_malloc_ok(2) resolve_3 by (auto simp: ready_gpu_def)
  then show ?thesis by (auto simp: reference_topo_def)
qed

lemma reference_env_ok:
  "gpu_env_for S x86_hw hash_state0 zero_malloc ready_gpu 3 POSE_HASH_BLAKE3 (in_order_env S g (reference_topo S))"
  using reference_topo_built [of S] in_order_env_ok by (auto simp: gpu_env_for_def)

lemma ready_gpu_ok: "\<forall>k n. cu_malloc ready_gpu k n \<noteq> None" "\<forall>k. cu_memcpy ready_gpu k"
  by (simp_all add: ready_gpu_def)

lemma reference_gpu_run:
  assumes "unat len \<le> length R"
  shows "\<exists>r hs'. pose_graph_label_hbm S mixed_alignment x86_hw hash_state0 zero_malloc ready_gpu (in_order_env S g (reference_topo S)) [7] 3
        R len 9 POSE_HASH_BLAKE3 = Some (r, hs') \<and> o_rc r = 0"
proof -
  have "length [7 :: byte] + 8 \<le> BLAKE3_CHUNK_LEN" by (simp add: BLAKE3_CHUNK_LEN_def)
  note ok = label_hbm_ok [OF x86_hw_ok state0_ok zero_malloc_ok(1) assms this reference_env_ok [where S = S and g = g], where al = mixed_alignment and off = 9]
  have "resolve_chunk_blocks 3 \<le> ucast POSE_GRAPH_MAX_M" by (simp add: resolve_3)
  then show ?thesis using ok zero_malloc_ok(2) in_order_calls ready_gpu_ok by blast
qed

text \<open>C29: every run of every labeling kernel respects the dependencies. Take the topology that
  \<open>pose_graph_hbm_topo_build\<close> returns and any order in which the hardware may execute the threads of the
  strategy's kernel on \<open>bc\<close> regions, given the barriers of the source: in each region every node of the exported
  graph is labelled exactly once and after both of its predecessors, and no region past \<open>bc\<close> is touched.\<close>

theorem gpu_kernels_respect_dependencies:
  assumes "hw_ok h" "state_ok h hs" "malloc_ok malloc"
    and "pose_graph_hbm_topo_build S h hs malloc C cb algo = Some (Some T, hs')" "kernel_events S T E bc evs"
  shows "\<exists>N. edges_spec (pose_graph_parameter_n (ucast (t_chunk_blocks T))) (unat (t_chunk_blocks T)) N
    \<and> (\<forall>e\<in>set evs. fst e < bc \<and> snd e < length N)
    \<and> (\<forall>t<bc. let ids = ids_at_positions T (positions t evs)
        in distinct ids \<and> set ids = {..<length N}
          \<and> (\<forall>q<length ids. \<forall>p\<in>set (pred_ids (N ! (ids ! q))). \<exists>q'<q. ids ! q' = p))"
proof -
  obtain N level where t: "topo_for S h (resolve_chunk_blocks cb) N level T"
    using topo_build_ok [OF assms(1-3), of S C cb algo] assms(4) by auto
  note D = topo_forD [OF t]
  have "full_run level T bc evs" by (rule kernel_full_run [OF t assms(5)])
  moreover have "length level = length N" using D(4) by (simp add: levels_ok_def)
  ultimately show ?thesis
    using D(3,6) level_sorted_preds [OF D(4)] unfolding full_run_def Let_def level_sorted_def by (intro exI [of _ N]) auto
qed

theorem gpu_kernels_respect_dependencies_witness:
  "\<exists>N. edges_spec (pose_graph_parameter_n (ucast (t_chunk_blocks (reference_topo LEVEL)))) (unat (t_chunk_blocks (reference_topo LEVEL))) N
    \<and> (\<forall>e\<in>set (in_order_events LEVEL (reference_topo LEVEL) 2). fst e < 2 \<and> snd e < length N)
    \<and> (\<forall>t<2. let ids = ids_at_positions (reference_topo LEVEL) (positions t (in_order_events LEVEL (reference_topo LEVEL) 2))
        in distinct ids \<and> set ids = {..<length N}
          \<and> (\<forall>q<length ids. \<forall>p\<in>set (pred_ids (N ! (ids ! q))). \<exists>q'<q. ids ! q' = p))"
proof -
  obtain hs' N level where r: "pose_graph_hbm_topo_build LEVEL x86_hw hash_state0 zero_malloc ready_gpu 3 POSE_HASH_BLAKE3
      = Some (Some (reference_topo LEVEL), hs')" "topo_for LEVEL x86_hw (resolve_chunk_blocks 3) N level (reference_topo LEVEL)"
    using reference_topo_built by blast
  show ?thesis
    by (rule gpu_kernels_respect_dependencies [OF x86_hw_ok state0_ok zero_malloc_ok(1) r(1) in_order_kernel [OF topo_scheduled [OF r(2)] refl]])
qed




text \<open>C31: \<open>pose_graph_label_hbm\<close> always returns, with 0 or -1, whichever allocation, copy, launch or
  synchronisation fails and whichever strategy is compiled in; it writes only within the full super-chunks of the
  buffer, and returns 0 when no call of the runtime fails and \<open>chunk_blocks\<close> is in range. The halving of the
  scratch, the loop over batches and the kernels terminate.\<close>

theorem gpu_labeling_returns:
  assumes "hw_ok h" "state_ok h hs" "malloc_ok malloc" "unat hbm_len \<le> length hbm" "length seed + 8 \<le> BLAKE3_CHUNK_LEN"
    and "gpu_env_for S h hs malloc C cb algo E"
  shows "\<exists>r hs'. pose_graph_label_hbm S al h hs malloc C E seed cb hbm hbm_len off algo = Some (r, hs') \<and> o_rc r \<in> {0, -1}
    \<and> agree_off {..<unat hbm_len div (unat (resolve_chunk_blocks cb) * 32) * (unat (resolve_chunk_blocks cb) * 32)} hbm (o_persist r)
    \<and> (algo = POSE_HASH_BLAKE3 \<and> resolve_chunk_blocks cb \<le> ucast POSE_GRAPH_MAX_M \<and> (\<forall>i s. malloc i s \<noteq> None)
         \<and> (\<forall>k n. cu_malloc C k n \<noteq> None) \<and> (\<forall>k. cu_memcpy C k) \<and> gpu_calls_succeed E \<and> gpu_memory E \<longrightarrow> o_rc r = 0)"
  using label_hbm_ok [where al = al and off = off, OF assms] by blast

theorem gpu_labeling_returns_witness:
  "\<exists>r hs'. pose_graph_label_hbm LEVEL mixed_alignment x86_hw hash_state0 zero_malloc ready_gpu (in_order_env LEVEL 0 (reference_topo LEVEL)) [7] 3
        (replicate 200 1) 200 9 POSE_HASH_BLAKE3 = Some (r, hs') \<and> o_rc r \<in> {0, -1}
    \<and> agree_off {..<unat (200 :: u64) div (unat (resolve_chunk_blocks 3) * 32) * (unat (resolve_chunk_blocks 3) * 32)} (replicate 200 1) (o_persist r)
    \<and> (POSE_HASH_BLAKE3 = POSE_HASH_BLAKE3 \<and> resolve_chunk_blocks 3 \<le> ucast POSE_GRAPH_MAX_M \<and> (\<forall>i s. zero_malloc i s \<noteq> None)
         \<and> (\<forall>k n. cu_malloc ready_gpu k n \<noteq> None) \<and> (\<forall>k. cu_memcpy ready_gpu k) \<and> gpu_calls_succeed (in_order_env LEVEL 0 (reference_topo LEVEL))
         \<and> gpu_memory (in_order_env LEVEL 0 (reference_topo LEVEL)) \<longrightarrow> o_rc r = 0)"
  by (rule gpu_labeling_returns [OF x86_hw_ok state0_ok zero_malloc_ok(1) _ _ reference_env_ok]) (simp_all add: BLAKE3_CHUNK_LEN_def)

text \<open>C32: a buffer labelled on the GPU passes the CPU verifier. When \<open>pose_graph_label_hbm\<close> returns 0, each
  block of its full super-chunks is what \<open>pose_graph_challenge\<close> computes from the seed of the chunk, the chunk
  length and the rank of the block, for all four strategies, every pool size that the free memory dictates and every
  interleaving of the device; and the scratch that held the other labels was zeroed when it was freed.\<close>

theorem gpu_buffer_is_verifiable:
  assumes "hw_ok h" "state_ok h hs" "malloc_ok malloc" "unat hbm_len \<le> length hbm" "length seed + 8 \<le> BLAKE3_CHUNK_LEN"
    and "gpu_env_for S h hs malloc C cb algo E"
    and "pose_graph_label_hbm S al h hs malloc C E seed cb hbm hbm_len off algo = Some (r, hs')" "o_rc r = 0"
    and "malloc_ok malloc'" "\<forall>i s. malloc' i s \<noteq> None" "POSE_HASH_BYTES \<le> length out" "resolve_chunk_blocks cb \<le> ucast POSE_GRAPH_MAX_M"
  defines "m \<equiv> unat (resolve_chunk_blocks cb)"
  shows "algo = POSE_HASH_BLAKE3 \<and> (\<forall>w. o_freed r = Some w \<longrightarrow> (\<exists>n. w = replicate n 0))
    \<and> (\<forall>b<unat hbm_len div (m * 32) * m. \<exists>answer. pose_graph_challenge (pose_labeler h) malloc'
          (chunk_seed (pose_labeler h) seed (chunk_index off (b div m * m) m)) (of_nat m) (of_nat (b mod m)) out algo = Some (0, answer)
        \<and> rd (o_persist r) (b * POSE_HASH_BYTES) POSE_HASH_BYTES = Some (take POSE_HASH_BYTES answer))"
proof -
  have m: "0 < m" "m \<le> 2 ^ 20"
    using assms(12) by (auto simp: m_def resolve_chunk_blocks_def POSE_CHUNK_BLOCKS_def POSE_GRAPH_MAX_M_def word_le_nat_alt unat_gt_0)
  let ?num = "unat hbm_len div (m * 32)" and ?tot = "unat hbm_len div 32"
  have al: "algo = POSE_HASH_BLAKE3" and fr: "\<forall>w. o_freed r = Some w \<longrightarrow> (\<exists>n. w = replicate n 0)"
    and bl: "blocks_labelled (pose_labeler h) seed off POSE_HASH_BLAKE3 ?tot m (?num * m) (o_persist r)"
    using label_hbm_ok [where al = al and off = off, OF assms(1-6)] assms(7,8) unfolding m_def by auto
  have tot: "?num * m \<le> ?tot" unfolding mult.commute [of m 32] div_mult2_eq by (rule div_times_less_eq_dividend)
  have full: "b < ?tot \<and> min m (?tot - b div m * m) = m" if b: "b < ?num * m" for b
  proof -
    have "b div m < ?num" using b m(1) by (simp add: less_mult_imp_div_less)
    then have "(b div m + 1) * m \<le> ?num * m" by (intro mult_le_mono1) simp
    then show ?thesis using b tot by simp
  qed
  show ?thesis
    using al fr challenge_answers_region [OF pose_labeler_hash [OF assms(1)] assms(9-11) bl _ _ m] full by metis
qed

theorem gpu_buffer_is_verifiable_witness:
  "\<exists>r hs'. pose_graph_label_hbm WARP mixed_alignment x86_hw hash_state0 zero_malloc ready_gpu (in_order_env WARP 0 (reference_topo WARP)) [7] 3
        (replicate 200 1) 200 9 POSE_HASH_BLAKE3 = Some (r, hs') \<and> o_rc r = 0
    \<and> POSE_HASH_BLAKE3 = POSE_HASH_BLAKE3 \<and> (\<forall>w. o_freed r = Some w \<longrightarrow> (\<exists>n. w = replicate n 0))
    \<and> (\<forall>b<unat (200 :: u64) div (unat (resolve_chunk_blocks 3) * 32) * unat (resolve_chunk_blocks 3).
        \<exists>answer. pose_graph_challenge (pose_labeler x86_hw) zero_malloc
          (chunk_seed (pose_labeler x86_hw) [7] (chunk_index 9 (b div unat (resolve_chunk_blocks 3) * unat (resolve_chunk_blocks 3))
            (unat (resolve_chunk_blocks 3)))) (of_nat (unat (resolve_chunk_blocks 3))) (of_nat (b mod unat (resolve_chunk_blocks 3)))
          (replicate 32 0) POSE_HASH_BLAKE3 = Some (0, answer)
        \<and> rd (o_persist r) (b * POSE_HASH_BYTES) POSE_HASH_BYTES = Some (take POSE_HASH_BYTES answer))"
proof -
  obtain r hs' where r: "pose_graph_label_hbm WARP mixed_alignment x86_hw hash_state0 zero_malloc ready_gpu (in_order_env WARP 0 (reference_topo WARP)) [7] 3
        (replicate 200 1) 200 9 POSE_HASH_BLAKE3 = Some (r, hs')" "o_rc r = 0"
    using reference_gpu_run [of 200 "replicate 200 1" WARP 0] by auto
  have "unat (200 :: u64) \<le> length (replicate 200 (1 :: byte))" "length [7 :: byte] + 8 \<le> BLAKE3_CHUNK_LEN"
    "POSE_HASH_BYTES \<le> length (replicate 32 (0 :: byte))" "resolve_chunk_blocks 3 \<le> ucast POSE_GRAPH_MAX_M"
    by (simp_all add: BLAKE3_CHUNK_LEN_def POSE_HASH_BYTES_def resolve_3)
  from gpu_buffer_is_verifiable [OF x86_hw_ok state0_ok zero_malloc_ok(1) this(1,2) reference_env_ok r zero_malloc_ok(1,2) this(3,4)]
  show ?thesis using r by blast
qed

text \<open>C33: the GPU and the CPU prover agree. On a buffer of whole super-chunks, for the same session and offset,
  the buffer that \<open>pose_graph_label_hbm\<close> leaves when it returns 0 and the region that
  \<open>pose_graph_label_region_pooled\<close> leaves hold the same bytes.\<close>

theorem gpu_buffer_equals_cpu_region:
  assumes "hw_ok h" "state_ok h hs" "malloc_ok malloc" "length hbm = unat hbm_len" "length seed + 8 \<le> BLAKE3_CHUNK_LEN"
    and "gpu_env_for S h hs malloc C cb POSE_HASH_BLAKE3 E"
    and "pose_graph_label_hbm S al h hs malloc C E seed cb hbm hbm_len off POSE_HASH_BLAKE3 = Some (r, hs')" "o_rc r = 0"
    and "hbm_len \<noteq> 0" "unat (resolve_chunk_blocks cb) * 32 dvd unat hbm_len" "resolve_chunk_blocks cb \<le> ucast POSE_GRAPH_MAX_M"
    and "env_ok W" "scratch_fit False (unat (resolve_chunk_blocks cb)) scratch"
  shows "pose_graph_label_region_pooled (pose_labeler h) W seed (Some hbm) hbm_len off scratch POSE_HASH_BLAKE3 cb = Some (0, Some (o_persist r))"
proof -
  let ?m = "unat (resolve_chunk_blocks cb)" and ?tot = "unat hbm_len div 32"
  have d32: "32 dvd unat hbm_len" using assms(10) by (rule dvd_trans [rotated]) simp
  have u: "unat (hbm_len div of_nat POSE_HASH_BYTES) = ?tot" by (simp add: POSE_HASH_BYTES_def unat_div)
  have md: "hbm_len mod of_nat POSE_HASH_BYTES = 0" using d32 by (simp add: POSE_HASH_BYTES_def unat_eq_zero [symmetric] unat_mod dvd_imp_mod_0)
  have e: "unat hbm_len div (?m * 32) * (?m * 32) = unat hbm_len" using assms(10) by simp
  then have n: "unat hbm_len div (?m * 32) * ?m = ?tot" by simp
  have g: "blocks_labelled (pose_labeler h) seed off POSE_HASH_BLAKE3 ?tot ?m ?tot (o_persist r)" "agree_off {..<unat hbm_len} hbm (o_persist r)"
    using label_hbm_ok [where hbm_len = hbm_len and R = hbm and al = al and off = off, OF assms(1-3) _ assms(5,6)] assms(4,7,8) unfolding n e by auto
  obtain R' where p: "pose_graph_label_region_pooled (pose_labeler h) W seed (Some hbm) hbm_len off scratch POSE_HASH_BLAKE3 cb = Some (0, Some R')"
    "blocks_labelled (pose_labeler h) seed off POSE_HASH_BLAKE3 ?tot ?m ?tot R'" "agree_off {..<unat hbm_len} hbm R'"
    using region_result [OF run_pooled_runs [OF pose_labeler_hash [OF assms(1)] assms(12)] assms(9) md _ assms(11,13), of hbm seed off POSE_HASH_BLAKE3]
      assms(4) unfolding u pose_graph_label_region_pooled_def by auto
  have "?tot * 32 = unat hbm_len" using d32 by simp
  then have "R' = o_persist r"
    using blocks_labelled_eq [OF p(2) g(1)] agree_off_length [OF p(3)] agree_off_length [OF g(2)] assms(4) by (simp add: POSE_HASH_BYTES_def)
  then show ?thesis using p(1) by simp
qed

theorem gpu_buffer_equals_cpu_region_witness:
  "\<exists>r hs'. pose_graph_label_hbm LEVEL mixed_alignment x86_hw hash_state0 zero_malloc ready_gpu (in_order_env LEVEL 4 (reference_topo LEVEL)) [7] 3
        (replicate 192 0) 192 9 POSE_HASH_BLAKE3 = Some (r, hs') \<and> o_rc r = 0
    \<and> pose_graph_label_region_pooled (pose_labeler x86_hw) in_order [7] (Some (replicate 192 0)) 192 9
        (replicate 4 (replicate 1280 0)) POSE_HASH_BLAKE3 3 = Some (0, Some (o_persist r))"
proof -
  obtain r hs' where r: "pose_graph_label_hbm LEVEL mixed_alignment x86_hw hash_state0 zero_malloc ready_gpu (in_order_env LEVEL 4 (reference_topo LEVEL)) [7] 3
        (replicate 192 0) 192 9 POSE_HASH_BLAKE3 = Some (r, hs')" "o_rc r = 0"
    using reference_gpu_run [of 192 "replicate 192 0" LEVEL 4] by auto
  have s: "length (replicate 192 (0 :: byte)) = unat (192 :: u64)" "length [7 :: byte] + 8 \<le> BLAKE3_CHUNK_LEN"
    "(192 :: u64) \<noteq> 0" "unat (resolve_chunk_blocks 3) * 32 dvd unat (192 :: u64)" "resolve_chunk_blocks 3 \<le> ucast POSE_GRAPH_MAX_M"
    "scratch_fit False (unat (resolve_chunk_blocks 3)) (replicate 4 (replicate 1280 0))"
    by (simp_all add: BLAKE3_CHUNK_LEN_def resolve_3 scratch_fit_3)
  from gpu_buffer_equals_cpu_region [OF x86_hw_ok state0_ok zero_malloc_ok(1) s(1,2) reference_env_ok r s(3-5) in_order_ok(1) s(6)]
  show ?thesis using r by blast
qed

text \<open>A run of \<open>label_gpu_run\<close> that returns 0 has seen no failure: the scratch was allocated at a size that it
  kept for all batches, the seed buffers were allocated, the copy of the seeds, the launches and the
  synchronisation of every batch succeeded, and so did the zeroing of the scratch.\<close>

theorem gpu_failures_are_reported:
  assumes "label_gpu_run S al H E ctx persist = Some r" "o_rc r = 0"
  shows "ge_d_seeds E \<and> ge_h_seeds E \<and> ge_memset E
    \<and> (\<exists>pool w. alloc_pool E (region_bytes_of S (ctx_topo ctx))
          (choose_pool (ge_free E) (region_bytes_of S (ctx_topo ctx)) (resident S E) (ctx_num_super ctx)) = Some (pool, w)
       \<and> (\<forall>k. k * pool < ctx_num_super ctx \<longrightarrow> batch_calls S E k))"
  by (rule run_reports [OF assms])

lemma reference_ctx_run:
  "\<exists>r. label_gpu_run BLOCK mixed_alignment (pose_labeler x86_hw) (in_order_env BLOCK 0 (reference_topo BLOCK))
        \<lparr>ctx_topo = reference_topo BLOCK, ctx_seed = [7], ctx_offset = 9, ctx_num_super = 2\<rparr> (replicate 192 0) = Some r \<and> o_rc r = 0"
proof -
  obtain N level where t: "topo_for BLOCK x86_hw (resolve_chunk_blocks 3) N level (reference_topo BLOCK)"
    using reference_topo_built by blast
  have "batch_ready BLOCK x86_hw (resolve_chunk_blocks 3) N level (reference_topo BLOCK) (in_order_env BLOCK 0 (reference_topo BLOCK)) [7]"
    using t in_order_env_ok [OF t] x86_hw_ok by (simp add: batch_ready_def BLAKE3_CHUNK_LEN_def)
  from gpu_run_ok [where num = 2 and persist = "replicate 192 0" and off = 9 and al = mixed_alignment, OF this] show ?thesis
    using in_order_calls by (auto simp: resolve_3)
qed

theorem gpu_failures_are_reported_witness:
  "\<exists>r. label_gpu_run BLOCK mixed_alignment (pose_labeler x86_hw) (in_order_env BLOCK 0 (reference_topo BLOCK))
        \<lparr>ctx_topo = reference_topo BLOCK, ctx_seed = [7], ctx_offset = 9, ctx_num_super = 2\<rparr> (replicate 192 0) = Some r \<and> o_rc r = 0
    \<and> ge_d_seeds (in_order_env BLOCK 0 (reference_topo BLOCK)) \<and> ge_h_seeds (in_order_env BLOCK 0 (reference_topo BLOCK))
    \<and> ge_memset (in_order_env BLOCK 0 (reference_topo BLOCK))
    \<and> (\<exists>pool w. alloc_pool (in_order_env BLOCK 0 (reference_topo BLOCK)) (region_bytes_of BLOCK (reference_topo BLOCK))
          (choose_pool (ge_free (in_order_env BLOCK 0 (reference_topo BLOCK))) (region_bytes_of BLOCK (reference_topo BLOCK))
            (resident BLOCK (in_order_env BLOCK 0 (reference_topo BLOCK))) 2) = Some (pool, w)
       \<and> (\<forall>k. k * pool < 2 \<longrightarrow> batch_calls BLOCK (in_order_env BLOCK 0 (reference_topo BLOCK)) k))"
proof -
  obtain r where r: "label_gpu_run BLOCK mixed_alignment (pose_labeler x86_hw) (in_order_env BLOCK 0 (reference_topo BLOCK))
      \<lparr>ctx_topo = reference_topo BLOCK, ctx_seed = [7], ctx_offset = 9, ctx_num_super = 2\<rparr> (replicate 192 0) = Some r" "o_rc r = 0"
    using reference_ctx_run by blast
  from gpu_failures_are_reported [OF r] show ?thesis using r by (simp)
qed

text \<open>The scratch fits. \<open>choose_pool\<close> asks for at least one region, for no more than can be resident and no
  more than there are super-chunks, and for more than one only when they leave 64 MiB of the free memory;
  \<open>alloc_pool\<close> takes the first of its halves that the allocator grants, and gives up only when every half down to a
  single region was refused.\<close>

theorem gpu_scratch_fits_memory:
  fixes E :: gpu_env and region cap num :: nat
  defines "p \<equiv> choose_pool (ge_free E) region cap num"
  shows "0 < p \<and> p \<le> max cap 1 \<and> p \<le> max num 1 \<and> (1 < p \<longrightarrow> p * region + 64 * 2 ^ 20 \<le> ge_free E)
    \<and> (case alloc_pool E region p of
         None \<Rightarrow> \<forall>i. 0 < p div 2 ^ i \<longrightarrow> ge_scratch E (p div 2 ^ i * region) = None
       | Some (q, w) \<Rightarrow> \<exists>i. q = p div 2 ^ i \<and> 0 < q \<and> ge_scratch E (q * region) = Some w
           \<and> (\<forall>j<i. ge_scratch E (p div 2 ^ j * region) = None))"
  unfolding p_def
  by (intro conjI impI choose_pool_range choose_pool_fits alloc_pool_halves)

definition small_env :: gpu_env where
  "small_env = (in_order_env BLOCK 0 (reference_topo BLOCK))\<lparr>ge_free := 65 * 2 ^ 20,
     ge_scratch := (\<lambda>n. if n \<le> 2 ^ 19 then Some (replicate n 0) else None)\<rparr>"

lemma small_env_pool: "choose_pool (ge_free small_env) (2 ^ 18) 8 100 = 4"
  by (simp add: choose_pool_def small_env_def Let_def)

theorem gpu_scratch_fits_memory_witness:
  "\<exists>p. p = choose_pool (ge_free small_env) (2 ^ 18) 8 100 \<and> p = 4 \<and> 0 < p \<and> p \<le> max 8 1 \<and> p \<le> max 100 1
    \<and> p * 2 ^ 18 + 64 * 2 ^ 20 \<le> ge_free small_env
    \<and> (case alloc_pool small_env (2 ^ 18) p of
         None \<Rightarrow> \<forall>i. 0 < p div 2 ^ i \<longrightarrow> ge_scratch small_env (p div 2 ^ i * 2 ^ 18) = None
       | Some (q, w) \<Rightarrow> \<exists>i. q = p div 2 ^ i \<and> 0 < q \<and> ge_scratch small_env (q * 2 ^ 18) = Some w
           \<and> (\<forall>j<i. ge_scratch small_env (p div 2 ^ j * 2 ^ 18) = None))"
  using gpu_scratch_fits_memory [of small_env "2 ^ 18" 8 100] unfolding small_env_pool by (intro exI [of _ 4]) simp

section \<open>Properties: wiping disks\<close>

text \<open>A machine with one GPU and one disk of two super-chunks, on which every call succeeds.\<close>

definition wipe_argv :: "string list" where
  "wipe_argv = [''--disk'', ''/dev/sdb'', ''--confirm'']"

definition wipe_config :: config where
  "wipe_config = config0\<lparr>cf_disks := [''/dev/sdb''], cf_confirm := True\<rparr>"

definition wipe_topo :: topo where
  "wipe_topo = the (fst (the (pose_graph_hbm_topo_build LEVEL x86_hw hash_state0 zero_malloc ready_gpu POSE_CHUNK_BLOCKS POSE_HASH_BLAKE3)))"

definition wipe_worker :: worker_env where
  "wipe_worker = \<lparr>we_set_device = True, we_malloc = zero_malloc, we_cuda = ready_gpu, we_mem_info = Some 1000000, we_third = (\<lambda>n. n div 3),
     we_window = (\<lambda>n. Some (replicate n 0)), we_stage = (\<lambda>n. Some (replicate n 0)), we_run = (\<lambda>_. in_order_env LEVEL 0 wipe_topo),
     we_d2h = (\<lambda>_. True), we_io = replicate 262144 (Moved 1), we_keys = hash_state0\<rparr>"

definition wipe_verify :: verify_env where
  "wipe_verify = \<lparr>ve_disk_buf = Some (replicate 131072 0), ve_malloc = zero_malloc, ve_pool_created = True, ve_env = (\<lambda>_. in_order),
     ve_io = replicate 262144 (Moved 1)\<rparr>"

definition wipe_open :: "nat \<Rightarrow> open_env" where
  "wipe_open i = \<lparr>oe_realpath = (\<lambda>p. Some p), oe_is_block = (\<lambda>_. Some True), oe_mounts = Some [(''/dev/sda1'', ''/'')], oe_open = (\<lambda>_ _. Some i),
     oe_size = (\<lambda>_. Some 262144), oe_sector = (\<lambda>_. Some 512)\<rparr>"

definition wipe_machine :: main_env where
  "wipe_machine = \<lparr>me_device_count = Some 1, me_open = wipe_open, me_sort = (\<lambda>ls. rev (sort_key (\<lambda>i. ls ! i) [0..<length ls])),
     me_worker = (\<lambda>_. wipe_worker), me_schedule = [], me_verify = (\<lambda>_. wipe_verify)\<rparr>"

definition wipe_disk :: "nat \<Rightarrow> bytes" where
  "wipe_disk fd = replicate 262144 7"

lemma wipe_parsed: "parse_args config0 g_seed wipe_argv = Parsed wipe_config g_seed" "check_config wipe_config = Some wipe_config"
  by (simp_all add: wipe_argv_def wipe_config_def parse_args.simps(2) set_flag_def value_options_def apply_option_def config0_def
      check_config_def POSE_CHUNK_BLOCKS_def POSE_GRAPH_MAX_M_def)

lemma wipe_config_simps [simp]:
  "cf_chunk_blocks wipe_config = POSE_CHUNK_BLOCKS" "\<not> cf_verify_only wipe_config" "\<not> cf_dry_run wipe_config" "cf_confirm wipe_config"
  "cf_disks wipe_config = [''/dev/sdb'']"
  by (simp_all add: wipe_config_def config0_def)

lemma wipe_sort_ok: "sort_ok (me_sort wipe_machine)"
proof -
  have "sorted (map (\<lambda>i. ls ! i) (sort_key (\<lambda>i. ls ! i) [0..<length ls]))" for ls :: "u64 list" by simp
  then have "sorted_wrt (\<lambda>a b. ls ! b \<le> ls ! a) (rev (sort_key (\<lambda>i. ls ! i) [0..<length ls]))" for ls :: "u64 list"
    unfolding sorted_wrt_rev sorted_wrt_map [symmetric] by simp
  then show ?thesis by (auto simp: sort_ok_def wipe_machine_def)
qed

lemma served_replicate: "served (replicate n (Moved (Suc 0))) = n"
  by (induction n) simp_all

lemma wipe_topo_built:
  "gpu_env_for LEVEL x86_hw hash_state0 zero_malloc ready_gpu POSE_CHUNK_BLOCKS POSE_HASH_BLAKE3 (in_order_env LEVEL 0 wipe_topo)"
proof -
  have "gpu_env_ok LEVEL T (in_order_env LEVEL 0 wipe_topo)"
    if "pose_graph_hbm_topo_build LEVEL x86_hw hash_state0 zero_malloc ready_gpu POSE_CHUNK_BLOCKS POSE_HASH_BLAKE3 = Some (Some T, hs')" for T hs'
  proof -
    have t: "wipe_topo = T" by (simp add: wipe_topo_def that)
    from topo_build_ok [OF x86_hw_ok state0_ok zero_malloc_ok(1), of LEVEL ready_gpu POSE_CHUNK_BLOCKS POSE_HASH_BLAKE3] that
    obtain N level where "topo_for LEVEL x86_hw (resolve_chunk_blocks POSE_CHUNK_BLOCKS) N level T" by auto
    then show ?thesis unfolding t by (rule in_order_env_ok)
  qed
  then show ?thesis by (auto simp: gpu_env_for_def)
qed

lemma wipe_worker_ok: "items_bytes items \<le> 262144 \<Longrightarrow> worker_env_ok LEVEL x86_hw POSE_CHUNK_BLOCKS items wipe_worker"
  using wipe_topo_built by (simp add: worker_env_ok_def wipe_worker_def state0_ok zero_malloc_ok(1) served_replicate)

lemma wipe_main_env_ok: "main_env_ok LEVEL x86_hw wipe_machine wipe_disk (cf_chunk_blocks wipe_config) 262144"
proof -
  have "devices_ok (me_open wipe_machine) wipe_disk" by (simp add: devices_ok_def wipe_machine_def wipe_open_def wipe_disk_def)
  moreover have "workers_ready LEVEL x86_hw (cf_chunk_blocks wipe_config) 262144 wipe_machine"
    using wipe_worker_ok by (simp add: workers_ready_def wipe_machine_def)
  moreover have "verify_env_ok (me_verify wipe_machine i) (unat (cf_chunk_blocks wipe_config) * 32) 262144" for i
    by (simp add: verify_env_ok_def wipe_machine_def wipe_verify_def zero_malloc_ok(1) served_replicate POSE_CHUNK_BLOCKS_def)
  ultimately show ?thesis using wipe_sort_ok by (simp add: main_env_ok_def wipe_machine_def INT_MAX_def)
qed

lemma wipe_bytes:
  "\<forall>gpus ds. open_targets (me_open wipe_machine) (wipe_config\<lparr>cf_gpus := gpus\<rparr>) (pose_graph_super_chunk_blocks (cf_chunk_blocks wipe_config) * 32) 0
      (cf_disks wipe_config) = Some (Inr ds) \<longrightarrow> wipe_total ds \<le> 262144"
proof (intro allI impI)
  fix gpus ds
  assume o: "open_targets (me_open wipe_machine) (wipe_config\<lparr>cf_gpus := gpus\<rparr>) (pose_graph_super_chunk_blocks (cf_chunk_blocks wipe_config) * 32) 0
      (cf_disks wipe_config) = Some (Inr ds)"
  have "devices_ok (me_open wipe_machine) wipe_disk" using wipe_main_env_ok by (simp add: main_env_ok_def)
  from open_targets_ok [OF this, of "wipe_config\<lparr>cf_gpus := gpus\<rparr>" "pose_graph_super_chunk_blocks (cf_chunk_blocks wipe_config) * 32" 0
      "cf_disks wipe_config"] o
  have "targets_ok (unat (pose_graph_super_chunk_blocks (cf_chunk_blocks wipe_config) * 32)) wipe_disk ds" "map od_path ds = cf_disks wipe_config"
    by auto
  then show "wipe_total ds \<le> 262144" by (auto simp: wipe_total_def targets_ok_def wipe_disk_def)
qed

text \<open>C34: the wipe does what a verifier will ask for. For every command line that is accepted, every interleaving of
  the workers' writes, every order that \<open>std::sort\<close> may produce and whatever calls fail, \<open>main\<close> ends. When a run that is
  neither a dry run nor only a verification returns 0, the devices named on the command line have been opened, and each
  32-byte block of the part to be wiped is what \<open>pose_graph_challenge\<close> answers for its chunk and rank. It does return 0
  when writes are confirmed, the targets could be opened and no call fails.\<close>

theorem disk_wipe_labels_every_block:
  assumes "hw_ok h" "parse_args config0 g_seed argv = Parsed cfg0 seed" "check_config cfg0 = Some cfg"
    and "main_env_ok S h M D (cf_chunk_blocks cfg) n"
    and "\<forall>gpus ds. open_targets (me_open M) (cfg\<lparr>cf_gpus := gpus\<rparr>) (pose_graph_super_chunk_blocks (cf_chunk_blocks cfg) * 32) 0 (cf_disks cfg)
          = Some (Inr ds) \<longrightarrow> wipe_total ds \<le> n"
    and "\<not> cf_verify_only cfg" "\<not> cf_dry_run cfg" "malloc_ok malloc" "\<forall>i s. malloc i s \<noteq> None" "length out = 32"
  shows "\<exists>r. disk_wipe_main S al h M D argv = Some r
    \<and> (mr_exit r = 0 \<longrightarrow> map od_path (mr_targets r) = cf_disks cfg
        \<and> (\<forall>d\<in>set (mr_targets r). \<forall>b<unat (od_wipe_len d) div 32. \<exists>out'.
            pose_graph_challenge (pose_labeler h) malloc (chunk_seed (pose_labeler h) seed (of_nat (b div unat (cf_chunk_blocks cfg))))
              (ucast (cf_chunk_blocks cfg)) (of_nat (b mod unat (cf_chunk_blocks cfg))) out POSE_HASH_BLAKE3 = Some (0, out')
            \<and> rd (mr_disks r (od_fd d)) (b * 32) 32 = Some out'))
    \<and> (mr_targets r \<noteq> [] \<and> main_calm cfg M \<and> cf_confirm cfg \<longrightarrow> mr_exit r = 0)"
proof -
  from disk_wipe_main_ok [OF assms(1-5), of al] obtain r where r: "disk_wipe_main S al h M D argv = Some r" "run_ok h seed cfg D r"
    "run_succeeds h seed cfg M D r" "targets_ok (unat (cf_chunk_blocks cfg) * 32) D (mr_targets r)" by blast
  note cb = check_config_ok(1,2) [OF assms(3)]
  have "\<exists>out'. pose_graph_challenge (pose_labeler h) malloc (chunk_seed (pose_labeler h) seed (of_nat (b div unat (cf_chunk_blocks cfg))))
        (ucast (cf_chunk_blocks cfg)) (of_nat (b mod unat (cf_chunk_blocks cfg))) out POSE_HASH_BLAKE3 = Some (0, out')
      \<and> rd (mr_disks r (od_fd d)) (b * 32) 32 = Some out'"
    if e: "mr_exit r = 0" "d \<in> set (mr_targets r)" "b < unat (od_wipe_len d) div 32" for d b
  proof -
    have "all_labelled h seed (unat (cf_chunk_blocks cfg)) (mr_targets r) (mr_disks r)" "length (mr_disks r (od_fd d)) = length (D (od_fd d))"
      using r(2) e(1) assms(6,7) by (simp_all add: run_ok_def only_labels_def)
    moreover have "unat (od_wipe_len d) \<le> length (D (od_fd d))" using r(4) e(2) by (simp add: targets_ok_def)
    ultimately show ?thesis
      using disk_block_challenge [OF assms(1,8,9) cb assms(10), of seed b] labelled_block [of h seed _ "mr_targets r" "mr_disks r" d b] e(2,3) by auto
  qed
  then show ?thesis using r(1-3) assms(6,7) by (auto simp: run_ok_def run_succeeds_def)
qed

theorem disk_wipe_labels_every_block_witness:
  "\<exists>r. disk_wipe_main LEVEL mixed_alignment x86_hw wipe_machine wipe_disk wipe_argv = Some r
    \<and> (mr_exit r = 0 \<longrightarrow> map od_path (mr_targets r) = cf_disks wipe_config
        \<and> (\<forall>d\<in>set (mr_targets r). \<forall>b<unat (od_wipe_len d) div 32. \<exists>out'.
            pose_graph_challenge (pose_labeler x86_hw) zero_malloc (chunk_seed (pose_labeler x86_hw) g_seed (of_nat (b div unat (cf_chunk_blocks wipe_config))))
              (ucast (cf_chunk_blocks wipe_config)) (of_nat (b mod unat (cf_chunk_blocks wipe_config))) (replicate 32 0) POSE_HASH_BLAKE3 = Some (0, out')
            \<and> rd (mr_disks r (od_fd d)) (b * 32) 32 = Some out'))
    \<and> (mr_targets r \<noteq> [] \<and> main_calm wipe_config wipe_machine \<and> cf_confirm wipe_config \<longrightarrow> mr_exit r = 0)"
  by (rule disk_wipe_labels_every_block [OF x86_hw_ok wipe_parsed wipe_main_env_ok wipe_bytes _ _ zero_malloc_ok(1,2)]) simp_all

text \<open>C35: a wipe touches nothing it was not told to. Whatever fails, the devices keep their sizes, and a byte that changed
  lies in the part to be wiped of a device whose path follows a \<open>--disk\<close> on the command line, and holds its byte of
  the labels; nothing changes without a \<open>--confirm\<close> among the arguments, in a dry run, or when the run only verifies.\<close>

theorem disk_wipe_changes_only_targets:
  assumes "hw_ok h" "parse_args config0 g_seed argv = Parsed cfg0 seed" "check_config cfg0 = Some cfg"
    and "main_env_ok S h M D (cf_chunk_blocks cfg) n"
    and "\<forall>gpus ds. open_targets (me_open M) (cfg\<lparr>cf_gpus := gpus\<rparr>) (pose_graph_super_chunk_blocks (cf_chunk_blocks cfg) * 32) 0 (cf_disks cfg)
          = Some (Inr ds) \<longrightarrow> wipe_total ds \<le> n"
  shows "\<exists>r. disk_wipe_main S al h M D argv = Some r
    \<and> (\<forall>fd. length (mr_disks r fd) = length (D fd) \<and> (\<forall>p<length (D fd). mr_disks r fd ! p \<noteq> D fd ! p \<longrightarrow>
          (\<exists>d\<in>set (mr_targets r). od_fd d = fd \<and> p < unat (od_wipe_len d) \<and> named_disk argv (od_path d))
          \<and> mr_disks r fd ! p = disk_byte h seed (unat (cf_chunk_blocks cfg)) p))
    \<and> (''--confirm'' \<notin> set argv \<or> cf_dry_run cfg \<or> cf_verify_only cfg \<longrightarrow> mr_disks r = D)"
proof -
  from disk_wipe_main_ok [OF assms, of al] obtain r where r: "disk_wipe_main S al h M D argv = Some r" "run_ok h seed cfg D r"
    "mr_disks r \<noteq> D \<longrightarrow> ''--confirm'' \<in> set argv" "\<forall>d\<in>set (mr_targets r). named_disk argv (od_path d)" by blast
  then have "only_labels h seed (unat (cf_chunk_blocks cfg)) (mr_targets r) D (mr_disks r)" by (simp add: run_ok_def)
  then have "(\<exists>d\<in>set (mr_targets r). od_fd d = fd \<and> p < unat (od_wipe_len d) \<and> named_disk argv (od_path d))
      \<and> mr_disks r fd ! p = disk_byte h seed (unat (cf_chunk_blocks cfg)) p" "length (mr_disks r fd) = length (D fd)"
    if "p < length (D fd)" "mr_disks r fd ! p \<noteq> D fd ! p" for fd p
    using that r(4) unfolding only_labels_def by blast+
  moreover have "\<forall>fd. length (mr_disks r fd) = length (D fd)" using r(2) by (simp add: run_ok_def only_labels_def)
  ultimately show ?thesis using r(1-3) unfolding run_ok_def by blast
qed

theorem disk_wipe_changes_only_targets_witness:
  "\<exists>r. disk_wipe_main LEVEL mixed_alignment x86_hw wipe_machine wipe_disk wipe_argv = Some r
    \<and> (\<forall>fd. length (mr_disks r fd) = length (wipe_disk fd) \<and> (\<forall>p<length (wipe_disk fd). mr_disks r fd ! p \<noteq> wipe_disk fd ! p \<longrightarrow>
          (\<exists>d\<in>set (mr_targets r). od_fd d = fd \<and> p < unat (od_wipe_len d) \<and> named_disk wipe_argv (od_path d))
          \<and> mr_disks r fd ! p = disk_byte x86_hw g_seed (unat (cf_chunk_blocks wipe_config)) p))
    \<and> (''--confirm'' \<notin> set wipe_argv \<or> cf_dry_run wipe_config \<or> cf_verify_only wipe_config \<longrightarrow> mr_disks r = wipe_disk)"
  by (rule disk_wipe_changes_only_targets [OF x86_hw_ok wipe_parsed wipe_main_env_ok wipe_bytes])

text \<open>C36: the plan tiles the devices. Whatever number of GPUs, team size and order of the targets, each byte of the part
  to be wiped of each device belongs to exactly one range of exactly one GPU of exactly one team; so no two threads
  write to the same place and nothing is left out, although the super-chunks rarely divide evenly.\<close>

theorem wipe_plan_tiles_every_disk:
  assumes "0 < G" "G < 2 ^ 64" "sort_ok srt" "distinct (map od_fd ds)" "sb \<noteq> 0" "targets_ok (unat sb) D ds" "d \<in> set ds"
    and "p < unat (od_wipe_len d)"
  shows "let K = team_size cfg G; T = G div K in 0 < K \<and> 0 < T \<and> T * K \<le> G
    \<and> (\<exists>!w. wipes ds sb (srt (map od_wipe_len ds)) T K (od_fd d) p w)"
proof -
  note K = team_size_range [OF assms(1), of cfg]
  have order: "distinct (srt (map od_wipe_len ds))" "set (srt (map od_wipe_len ds)) = {..<length ds}" using assms(3) by (auto simp: sort_ok_def)
  have K64: "team_size cfg G < 2 ^ 64" using K(2) assms(2) by (rule le_less_trans)
  have sb: "0 < unat sb" using assms(5) by (simp add: unat_gt_0)
  show ?thesis unfolding Let_def
    by (intro conjI K(1,3) div_times_less_eq_dividend) (rule plan_tiles [OF K(1) K64 K(3) order assms(4) sb assms(6-8)])
qed

theorem wipe_plan_tiles_every_disk_witness:
  "let K = team_size (wipe_config\<lparr>cf_gpus_per_disk_k := 3\<rparr>) 7; T = 7 div K in 0 < K \<and> 0 < T \<and> T * K \<le> 7
    \<and> (\<exists>!w. wipes [\<lparr>od_path = ''/dev/sdb'', od_fd = 4, od_size = 5000, od_sector = 512, od_wipe_len = 2048\<rparr>] 512
        (me_sort wipe_machine (map od_wipe_len [\<lparr>od_path = ''/dev/sdb'', od_fd = 4, od_size = 5000, od_sector = 512, od_wipe_len = 2048\<rparr>]))
        T K 4 1000 w)"
  using wipe_plan_tiles_every_disk [OF _ _ wipe_sort_ok, of 7 "[\<lparr>od_path = ''/dev/sdb'', od_fd = 4, od_size = 5000, od_sector = 512, od_wipe_len = 2048\<rparr>]"
      512 wipe_disk "\<lparr>od_path = ''/dev/sdb'', od_fd = 4, od_size = 5000, od_sector = 512, od_wipe_len = 2048\<rparr>" 1000 "wipe_config\<lparr>cf_gpus_per_disk_k := 3\<rparr>"]
  by (simp add: targets_ok_def wipe_disk_def)

text \<open>C37: \<open>verify_disk\<close> is exact. If it reports no error, it has checked as many super-chunks as asked for, at least one and
  at most all, every sample lies in the range even where the index product wraps, and the mismatches it counts are
  the samples of which some byte differs from what the wipe writes there; and it reports no error when no call fails.\<close>

theorem verify_disk_counts_wrong_samples:
  fixes wipe_len samples :: u64
  assumes "hw_ok h" "cb \<noteq> 0" "cb \<le> ucast POSE_GRAPH_MAX_M" "unat wipe_len \<le> length disk"
    and "verify_env_ok V (unat cb * 32) (unat (samples_of (wipe_len div (pose_graph_super_chunk_blocks cb * 32)) samples) * (unat cb * 32))"
  shows "\<exists>r. verify_disk (pose_labeler h) V disk seed wipe_len cb samples = Some r
    \<and> (let n_super = wipe_len div (pose_graph_super_chunk_blocks cb * 32); s = samples_of n_super samples in
        (vr_err r = None \<longrightarrow> vr_checked r = unat s \<and> 1 \<le> unat s \<and> s \<le> n_super \<and> (\<forall>k. k < s \<longrightarrow> sample_index n_super s k < n_super)
          \<and> vr_mism r = card {k. k < unat s \<and> (\<exists>i<unat cb * 32. let p = unat (sample_index n_super s (of_nat k)) * (unat cb * 32) + i
                in disk ! p \<noteq> disk_byte h seed (unat cb) p)})
        \<and> (verify_calm V \<and> n_super \<noteq> 0 \<longrightarrow> vr_err r = None))"
proof -
  define n_super where "n_super = wipe_len div (pose_graph_super_chunk_blocks cb * 32)"
  define s where "s = samples_of n_super samples"
  from verify_disk_ok [OF assms, of seed] obtain r where r: "verify_disk (pose_labeler h) V disk seed wipe_len cb samples = Some r"
    "vr_err r = None \<longrightarrow> n_super \<noteq> 0 \<and> vr_checked r = unat s
      \<and> vr_mism r = length (filter (\<lambda>k. \<not> chunk_holds h seed (unat cb) disk (unat (sample_index n_super s (of_nat k)))) [0..<unat s])"
    "verify_calm V \<and> n_super \<noteq> 0 \<longrightarrow> vr_err r = None"
    unfolding s_def [symmetric] n_super_def [symmetric] by (elim exE conjE) (rule that)
  have "length (filter P [0..<k]) = card {i. i < k \<and> P i}" for P k
    using distinct_card [of "filter P [0..<k]"] by simp
  moreover have "1 \<le> unat s \<and> s \<le> n_super \<and> (\<forall>k. k < s \<longrightarrow> sample_index n_super s k < n_super)" if "n_super \<noteq> 0"
    using samples_of_pos [OF that, of samples] samples_of_le [OF that, of samples] sample_index_less [OF that]
    by (simp add: s_def Suc_le_eq unat_gt_0)
  ultimately show ?thesis using r unfolding Let_def n_super_def [symmetric] s_def [symmetric] by (auto simp: chunk_holds_def)
qed

theorem verify_disk_counts_wrong_samples_witness:
  "\<exists>r. verify_disk (pose_labeler x86_hw) wipe_verify (wipe_disk 0) g_seed 262144 POSE_CHUNK_BLOCKS 5 = Some r
    \<and> (let n_super = 262144 div (pose_graph_super_chunk_blocks POSE_CHUNK_BLOCKS * 32); s = samples_of n_super 5 in
        (vr_err r = None \<longrightarrow> vr_checked r = unat s \<and> 1 \<le> unat s \<and> s \<le> n_super \<and> (\<forall>k. k < s \<longrightarrow> sample_index n_super s k < n_super)
          \<and> vr_mism r = card {k. k < unat s \<and> (\<exists>i<unat POSE_CHUNK_BLOCKS * 32.
                let p = unat (sample_index n_super s (of_nat k)) * (unat POSE_CHUNK_BLOCKS * 32) + i
                in wipe_disk 0 ! p \<noteq> disk_byte x86_hw g_seed (unat POSE_CHUNK_BLOCKS) p)})
        \<and> (verify_calm wipe_verify \<and> n_super \<noteq> 0 \<longrightarrow> vr_err r = None))"
proof -
  have cb: "POSE_CHUNK_BLOCKS \<noteq> 0" "POSE_CHUNK_BLOCKS \<le> ucast POSE_GRAPH_MAX_M" by (simp_all add: POSE_CHUNK_BLOCKS_def POSE_GRAPH_MAX_M_def)
  have u: "unat POSE_CHUNK_BLOCKS = 4096" by (simp add: POSE_CHUNK_BLOCKS_def)
  have s: "samples_of (262144 div (pose_graph_super_chunk_blocks POSE_CHUNK_BLOCKS * 32)) 5 = 2"
    by (simp add: samples_of_def pose_graph_super_chunk_blocks_def resolve_chunk_blocks_def POSE_CHUNK_BLOCKS_def)
  show ?thesis
    by (rule verify_disk_counts_wrong_samples [OF x86_hw_ok cb])
      (simp_all add: s u wipe_disk_def verify_env_ok_def wipe_verify_def zero_malloc_ok(1) served_replicate)
qed



text \<open>C39: the session seed survives the command line. \<open>--seed-hex\<close> followed by the 64 hexadecimal digits of 32 bytes makes
  these bytes the seed, whatever was the seed before, and the rest of the arguments is read as if it had not
  been there.\<close>

theorem seed_argument_round_trip:
  assumes "length bs = 32"
  shows "parse_args cfg seed (''--seed-hex'' # hex_of bs # argv) = parse_args cfg bs argv"
  by (simp add: parse_args.simps(2) set_flag_def value_options_def apply_option_def parse_hex_of [OF assms])

theorem seed_argument_round_trip_witness:
  "parse_args config0 g_seed (''--seed-hex'' # hex_of (replicate 32 0xa5) # wipe_argv) = parse_args config0 (replicate 32 0xa5) wipe_argv"
  by (rule seed_argument_round_trip) simp

text \<open>C40: a worker that fails has done no harm, and says so. Whichever of its calls fails, it ends; what it has written are
  the labels of the places it wrote to, within its ranges, and nothing in a dry run; it reports success only if all
  its ranges were written, or only labelled in a dry run; and it reports success when no call fails.\<close>

theorem wipe_worker_reports_failures:
  assumes "hw_ok h" "cf_chunk_blocks cfg \<noteq> 0" "worker_env_ok S h (cf_chunk_blocks cfg) items W" "items_ok (cf_chunk_blocks cfg) items"
    and "length seed + 8 \<le> BLAKE3_CHUNK_LEN"
  shows "\<exists>r. worker S al h W cfg seed items = Some r
    \<and> (\<forall>(fd, off, x)\<in>set (wr_writes r). (\<forall>i<length x. x ! i = disk_byte h seed (unat (cf_chunk_blocks cfg)) (off + i))
        \<and> (\<exists>it\<in>set items. wi_fd it = fd \<and> unat (wi_disk_off it) \<le> off \<and> off + length x \<le> unat (wi_disk_off it) + unat (wi_len it)))
    \<and> (cf_dry_run cfg \<longrightarrow> wr_writes r = [])
    \<and> (wr_err r = None \<and> \<not> cf_dry_run cfg \<longrightarrow> items_reached items (wr_writes r))
    \<and> (worker_calm cfg W \<longrightarrow> wr_err r = None)"
proof -
  from worker_ok [OF assms, of al] obtain r where r: "worker S al h W cfg seed items = Some r" "worker_did h seed cfg items r"
    "worker_calm cfg W \<longrightarrow> wr_err r = None" by blast
  have "(\<forall>i<length x. x ! i = disk_byte h seed (unat (cf_chunk_blocks cfg)) (off + i))
      \<and> (\<exists>it\<in>set items. wi_fd it = fd \<and> unat (wi_disk_off it) \<le> off \<and> off + length x \<le> unat (wi_disk_off it) + unat (wi_len it))"
    if "(fd, off, x) \<in> set (wr_writes r)" for fd off x
    using that r(2) by (fastforce simp: worker_did_def writes_want_def item_range_def)
  then show ?thesis using r by (intro exI [of _ r]) (auto simp: worker_did_def)
qed

theorem wipe_worker_reports_failures_witness:
  "\<exists>r. worker LEVEL mixed_alignment x86_hw wipe_worker wipe_config g_seed [\<lparr>wi_fd = 4, wi_disk_off = 0, wi_len = 131072\<rparr>] = Some r
    \<and> (\<forall>(fd, off, x)\<in>set (wr_writes r). (\<forall>i<length x. x ! i = disk_byte x86_hw g_seed (unat (cf_chunk_blocks wipe_config)) (off + i))
        \<and> (\<exists>it\<in>set [\<lparr>wi_fd = 4, wi_disk_off = 0, wi_len = 131072\<rparr>]. wi_fd it = fd \<and> unat (wi_disk_off it) \<le> off
            \<and> off + length x \<le> unat (wi_disk_off it) + unat (wi_len it)))
    \<and> (cf_dry_run wipe_config \<longrightarrow> wr_writes r = [])
    \<and> (wr_err r = None \<and> \<not> cf_dry_run wipe_config \<longrightarrow> items_reached [\<lparr>wi_fd = 4, wi_disk_off = 0, wi_len = 131072\<rparr>] (wr_writes r))
    \<and> (worker_calm wipe_config wipe_worker \<longrightarrow> wr_err r = None)"
proof (rule wipe_worker_reports_failures [OF x86_hw_ok])
  show "worker_env_ok LEVEL x86_hw (cf_chunk_blocks wipe_config) [\<lparr>wi_fd = 4, wi_disk_off = 0, wi_len = 131072\<rparr>] wipe_worker"
    unfolding wipe_config_simps by (rule wipe_worker_ok) (simp add: items_bytes_def)
  show "items_ok (cf_chunk_blocks wipe_config) [\<lparr>wi_fd = 4, wi_disk_off = 0, wi_len = 131072\<rparr>]"
    by (simp add: items_ok_def items_bytes_def item_fits_def POSE_CHUNK_BLOCKS_def)
qed (simp_all add: POSE_CHUNK_BLOCKS_def g_seed_def BLAKE3_CHUNK_LEN_def)

end
